(* ===== verification/Prelude.thy ===== *)
theory Prelude
  imports Main "HOL-Library.Word"
begin

text \<open>
  Shared vocabulary of the development: the machine integer types of
  \<^verbatim>\<open>include/lh/core/numeric\<close>, the errors that a runtime check reports, and generic lemmas on
  lists, options and words that the component theories use through the simplifier or through the
  collections declared here.
\<close>

unbundle bit_operations_syntax

section \<open>Machine integers\<close>

text \<open>
  \<^verbatim>\<open>lh_uint_t\<close> is the C \<^verbatim>\<open>unsigned int\<close> (32 bits on every supported target) and
  \<^verbatim>\<open>lh_ullong_t\<close> the 64-bit one; \<^verbatim>\<open>lh_usize_t\<close> is taken at 64 bits. A C cast between them is
  \<^const>\<open>ucast\<close>. Signed 64-bit values are modelled by \<open>int\<close>; the theories that use them prove that no
  intermediate value leaves the range of the type.
\<close>

type_synonym u8 = "8 word"
type_synonym u16 = "16 word"
type_synonym u32 = "32 word"
type_synonym u64 = "64 word"
type_synonym uint_t = "32 word"
type_synonym ullong_t = "64 word"

definition s64_min :: int where
  "s64_min = - (2 ^ 63)"

definition s64_max :: int where
  "s64_max = 2 ^ 63 - 1"

definition fits_s64 :: "int \<Rightarrow> bool" where
  "fits_s64 i \<longleftrightarrow> s64_min \<le> i \<and> i \<le> s64_max"

text \<open>Addresses of records that the program links by pointer; a null pointer is \<open>None\<close>.\<close>

type_synonym addr = nat
type_synonym ptr = "addr option"

section \<open>Runtime checks\<close>

text \<open>
  \<^verbatim>\<open>lh_assert_runtime_if\<close> and \<^verbatim>\<open>lh_runtime_check_ifn\<close> report one of these codes
  (\<^verbatim>\<open>include/lh/core/runtime/error/code.h\<close>) to the host's handler and do not return to the caller: an
  operation that can fail a check returns \<open>Inl code\<close>.
\<close>

datatype error_code =
    Invalid_argument
  | Invalid_range
  | Out_of_range
  | Null_pointer
  | Not_accepted

named_theorems model_defs \<open>definitions of the model, unfolded together\<close>
named_theorems abs_simps \<open>what each operation does to the abstraction of its state\<close>
named_theorems frame_simps \<open>the state an operation leaves alone\<close>

section \<open>Lists\<close>

lemma distinct_hd_last_singleton:
  assumes "distinct xs" and "xs \<noteq> []" and "hd xs = last xs"
  shows "xs = [hd xs]"
  using assms by (cases xs) (auto split: if_splits)

lemma nth_Suc_neq_hd:
  assumes "distinct xs" and "Suc i < length xs"
  shows "xs ! Suc i \<noteq> hd xs"
  using assms by (cases xs) (auto simp: in_set_conv_nth)

lemma filter_neq_id [simp]: "x \<notin> set xs \<Longrightarrow> filter (\<lambda>y. y \<noteq> x) xs = xs"
  by (induction xs) auto

lemma nth_append_last [simp]: "(xs @ [x]) ! length xs = x"
  by simp

lemma butlast_nth_last:
  "Suc i < length xs \<Longrightarrow> xs ! i \<noteq> last xs" if "distinct xs"
  using that by (metis Suc_lessD Suc_lessE diff_Suc_1 last_conv_nth length_0_conv less_numeral_extra(3)
      lessI nth_eq_iff_index_eq less_irrefl_nat zero_less_Suc)

section \<open>Words\<close>

lemma unat_of_nat_small: "n < 2 ^ LENGTH('w) \<Longrightarrow> unat (of_nat n :: 'w::len word) = n"
  by (simp add: unat_of_nat)

lemma unat_inc_less:
  fixes i n :: "'a::len word"
  assumes "i < n"
  shows "unat (i + 1) = Suc (unat i)"
proof -
  have "unat i < unat n" using assms by (simp add: word_less_nat_alt)
  moreover have "unat n < 2 ^ LENGTH('a)" by (rule unsigned_less)
  ultimately have "Suc (unat i) < 2 ^ LENGTH('a)" by linarith
  then show ?thesis by (simp add: unat_word_ariths)
qed

lemma unat_dec_pos:
  fixes i :: "'a::len word"
  assumes "0 < i"
  shows "unat (i - 1) = unat i - 1"
  using assms by (metis unat_minus_one word_neq_0_conv)

lemma unat_ucast_mod: "unat (ucast (w :: 'a::len word) :: 'b::len word) = unat w mod 2 ^ LENGTH('b)"
  by (simp add: unsigned_ucast_eq take_bit_eq_mod)

lemma unat_ucast_up:
  assumes "LENGTH('a) \<le> LENGTH('b)"
  shows "unat (ucast (w :: 'a::len word) :: 'b::len word) = unat w"
proof -
  have "unat w < 2 ^ LENGTH('a)" by (rule unsigned_less)
  also have "\<dots> \<le> 2 ^ LENGTH('b)" using assms by simp
  finally show ?thesis by (simp add: unat_ucast_mod)
qed

text \<open>A nonzero word that shares no bit with its predecessor is a power of two.\<close>

lemma nat_and_dec_zero:
  "0 < (n::nat) \<Longrightarrow> n AND (n - 1) = 0 \<Longrightarrow> \<exists>k. n = 2 ^ k"
proof (induction n rule: less_induct)
  case (less n)
  show ?case
  proof (cases "even n")
    case True
    then obtain m where m: "n = 2 * m" by blast
    with less.prems have m0: "0 < m" by simp
    have "n - 1 = 2 * (m - 1) + 1" using m m0 by simp
    then have "n AND (n - 1) = 2 * (m AND (m - 1))"
      using m by (subst and_rec) simp
    with less.prems m0 have "m AND (m - 1) = 0" by simp
    with less.IH [of m] m m0 obtain k where "m = 2 ^ k" by auto
    with m have "n = 2 ^ Suc k" by simp
    then show ?thesis by blast
  next
    case False
    then obtain m where m: "n = 2 * m + 1" by (metis oddE)
    then have "n AND (n - 1) = 2 * m" by (subst and_rec) simp
    with less.prems m have "n = 2 ^ 0" by simp
    then show ?thesis by blast
  qed
qed

lemma word_pow2:
  fixes c :: "'a::len word"
  assumes "c \<noteq> 0" "c AND (c - 1) = 0"
  shows "\<exists>k < LENGTH('a). unat c = 2 ^ k \<and> c - 1 = mask k"
proof -
  have "unat c AND unat (c - 1) = 0" using assms(2) by (metis unsigned_0 unsigned_and_eq)
  moreover have "unat (c - 1) = unat c - 1" using assms(1) by (metis unat_minus_one)
  moreover have "0 < unat c" using assms(1) by (simp add: unat_gt_0)
  ultimately obtain k where k: "unat c = 2 ^ k" using nat_and_dec_zero by metis
  have "unat c < 2 ^ LENGTH('a)" by (rule unsigned_less)
  with k have "k < LENGTH('a)" by simp
  moreover have "c - 1 = mask k"
  proof -
    have "c = of_nat (unat c)" by simp
    also have "\<dots> = 2 ^ k" unfolding k by simp
    finally have "c = 2 ^ k" .
    then show ?thesis by (simp add: mask_eq_decr_exp)
  qed
  ultimately show ?thesis using k by blast
qed

lemma unat_and_mask: "unat ((x::'a::len word) AND mask k) = unat x mod 2 ^ k"
  by (metis take_bit_eq_mask unsigned_take_bit_eq take_bit_eq_mod)

lemma radix_digits_unique:
  fixes a b m n r :: nat
  assumes "a < r" "b < r" "a + r * m = b + r * n"
  shows "a = b \<and> m = n"
proof -
  have "(a + r * m) mod r = a" "(b + r * n) mod r = b" "(a + r * m) div r = m" "(b + r * n) div r = n"
    using assms(1, 2) by simp_all
  then show ?thesis using assms(3) by metis
qed

section \<open>Results that may carry an error\<close>

definition bind_result :: "'e + 'a \<Rightarrow> ('a \<Rightarrow> 'e + 'b) \<Rightarrow> 'e + 'b" where
  "bind_result r f = (case r of Inl e \<Rightarrow> Inl e | Inr a \<Rightarrow> f a)"

lemma bind_result_simps [simp]:
  "bind_result (Inl e) f = Inl e" "bind_result (Inr a) f = f a"
  by (simp_all add: bind_result_def)

end
