(* ===== verification/Exec_Queue.thy ===== *)
theory Exec_Queue
  imports Prelude
begin

text \<open>
  The intrusive multi-producer single-consumer queue of tasks, \<^verbatim>\<open>src/lh/exec/queue.c\<close>.

  Task records are addresses; the atomic \<^verbatim>\<open>next\<close> member of every record is one shared map
  \<open>links\<close>, because the same record moves from queue to queue and two queues can alias through it.
  The first half models the operations as one thread runs them and shows that they implement a
  FIFO (locale \<open>fifo\<close>). The second half models every atomic access as a step of its own and lets
  any number of producers interleave with the consumer.
\<close>

section \<open>The operations\<close>

type_synonym links = "addr \<Rightarrow> ptr"

record exec_queue =
  q_back :: addr
  q_front :: addr
  q_stub :: addr

definition queue_init :: "links \<Rightarrow> addr \<Rightarrow> links \<times> exec_queue" where
  "queue_init h st = (h(st := None), \<lparr>q_back = st, q_front = st, q_stub = st\<rparr>)"

definition queue_push :: "links \<Rightarrow> exec_queue \<Rightarrow> addr \<Rightarrow> links \<times> exec_queue" where
  "queue_push h q task =
     (let h1 = h(task := None);
          previous = q_back q;
          q1 = q\<lparr>q_back := task\<rparr>
      in (h1(previous := Some task), q1))"

text \<open>The tail of \<^verbatim>\<open>lh_exec_queue_try_pop\<close>, once \<open>fr\<close> is known not to be the stub.\<close>

definition queue_pop_front :: "links \<Rightarrow> exec_queue \<Rightarrow> addr \<Rightarrow> ptr \<times> links \<times> exec_queue" where
  "queue_pop_front h q fr =
     (case h fr of
        Some nx \<Rightarrow> (Some fr, h, q\<lparr>q_front := nx\<rparr>)
      | None \<Rightarrow>
          if fr \<noteq> q_back q then (None, h, q)
          else
            (let (h1, q1) = queue_push h q (q_stub q) in
             case h1 fr of
               Some nx \<Rightarrow> (Some fr, h1, q1\<lparr>q_front := nx\<rparr>)
             | None \<Rightarrow> (None, h1, q1)))"

definition queue_try_pop :: "links \<Rightarrow> exec_queue \<Rightarrow> ptr \<times> links \<times> exec_queue" where
  "queue_try_pop h q =
     (if q_front q = q_stub q then
        (case h (q_front q) of
           None \<Rightarrow> (None, h, q)
         | Some nx \<Rightarrow> queue_pop_front h (q\<lparr>q_front := nx\<rparr>) nx)
      else queue_pop_front h q (q_front q))"

section \<open>The queue as a list\<close>

text \<open>The records from \<open>front\<close> to \<open>back\<close>, linked through \<open>next\<close> and ended by a null link.\<close>

fun linked :: "links \<Rightarrow> addr list \<Rightarrow> bool" where
  "linked h [] \<longleftrightarrow> True"
| "linked h [x] \<longleftrightarrow> h x = None"
| "linked h (x # y # ys) \<longleftrightarrow> h x = Some y \<and> linked h (y # ys)"

definition queue_nodes :: "links \<Rightarrow> exec_queue \<Rightarrow> addr list \<Rightarrow> bool" where
  "queue_nodes h q ns \<longleftrightarrow>
     ns \<noteq> [] \<and> hd ns = q_front q \<and> last ns = q_back q \<and> distinct ns \<and> linked h ns"

text \<open>The tasks waiting in the queue: every node but the stub.\<close>

definition queue_rep :: "links \<Rightarrow> exec_queue \<Rightarrow> addr list \<Rightarrow> bool" where
  "queue_rep h q xs \<longleftrightarrow> (\<exists>ns. queue_nodes h q ns \<and> xs = filter (\<lambda>a. a \<noteq> q_stub q) ns)"

lemma linked_frame: "\<forall>a \<in> set ns. h' a = h a \<Longrightarrow> linked h' ns = linked h ns"
  by (induction h ns rule: linked.induct) auto

lemma linked_snoc:
  assumes "linked h ns" "ns \<noteq> []" "distinct (ns @ [t])"
  shows "linked (h(t := None, last ns := Some t)) (ns @ [t])"
  using assms
proof (induction h ns rule: linked.induct)
  case (3 h x y ys)
  then show ?case by (auto simp: fun_upd_twist)
qed auto

lemma queue_push_nodes:
  assumes "queue_nodes h q ns" "t \<notin> set ns" "queue_push h q t = (h', q')"
  shows "queue_nodes h' q' (ns @ [t])"
  using assms linked_snoc [of h ns t] by (auto simp: queue_nodes_def queue_push_def Let_def)

lemma queue_pop_front_nodes:
  assumes nodes: "queue_nodes h q (f # rest)" and "f \<noteq> q_stub q" "f = q_front q"
  shows "\<exists>h' q' ns'. queue_pop_front h q f = (Some f, h', q') \<and> q_stub q' = q_stub q \<and>
           queue_nodes h' q' ns' \<and>
           filter (\<lambda>a. a \<noteq> q_stub q) ns' = filter (\<lambda>a. a \<noteq> q_stub q) rest \<and>
           (\<forall>a. a \<noteq> f \<and> a \<noteq> q_stub q \<longrightarrow> h' a = h a)"
proof (cases rest)
  case Nil
  then show ?thesis using assms
    by (auto simp: queue_pop_front_def queue_push_def queue_nodes_def Let_def
        intro!: exI [of _ "[q_stub q]"])
next
  case (Cons n rest')
  then show ?thesis using assms
    by (auto simp: queue_pop_front_def queue_nodes_def intro!: exI [of _ rest])
qed

lemma queue_nodes_advance:
  "queue_nodes h q (s # n # rest) \<Longrightarrow> queue_nodes h (q\<lparr>q_front := n\<rparr>) (n # rest)"
  by (auto simp: queue_nodes_def)

lemma queue_try_pop_Cons:
  assumes "queue_rep h q (x # xs)"
  shows "\<exists>h' q'. queue_try_pop h q = (Some x, h', q') \<and> queue_rep h' q' xs \<and>
           q_stub q' = q_stub q \<and> (\<forall>a. a \<noteq> x \<and> a \<noteq> q_stub q \<longrightarrow> h' a = h a)"
proof -
  from assms obtain ns where ns: "queue_nodes h q ns" "x # xs = filter (\<lambda>a. a \<noteq> q_stub q) ns"
    by (auto simp: queue_rep_def)
  then obtain f rest where f: "ns = f # rest" "f = q_front q"
    by (cases ns) (auto simp: queue_nodes_def)
  show ?thesis
  proof (cases "f = q_stub q")
    case True
    with ns f obtain n rest' where r: "rest = n # rest'" "h f = Some n" "n = x"
      "xs = filter (\<lambda>a. a \<noteq> q_stub q) rest'" "n \<noteq> q_stub q"
      by (cases rest) (auto simp: queue_nodes_def split: if_splits)
    from ns f r have "queue_nodes h (q\<lparr>q_front := n\<rparr>) (n # rest')"
      by (auto intro: queue_nodes_advance)
    from queue_pop_front_nodes [OF this] r True f show ?thesis
      by (fastforce simp: queue_try_pop_def queue_rep_def)
  next
    case False
    with ns f have "x = f" "xs = filter (\<lambda>a. a \<noteq> q_stub q) rest" by auto
    with False f ns queue_pop_front_nodes [of h q f rest] show ?thesis
      by (fastforce simp: queue_try_pop_def queue_rep_def)
  qed
qed

lemma queue_try_pop_Nil:
  assumes "queue_rep h q []"
  shows "queue_try_pop h q = (None, h, q)"
proof -
  from assms obtain ns where "queue_nodes h q ns" "filter (\<lambda>a. a \<noteq> q_stub q) ns = []"
    by (metis queue_rep_def)
  then have ns: "queue_nodes h q ns" "\<forall>a \<in> set ns. a = q_stub q"
    by (simp_all add: filter_empty_conv)
  then have "ns = [q_stub q]"
    by (cases ns; cases "tl ns") (auto simp: queue_nodes_def)
  with ns(1) have "q_front q = q_stub q" "h (q_stub q) = None"
    unfolding queue_nodes_def by (metis list.sel(1), metis linked.simps(2))
  then show ?thesis by (simp add: queue_try_pop_def)
qed

section \<open>The FIFO contract\<close>

text \<open>
  What the mailbox and the thread executor rely on. \<open>rep h q xs\<close> says that queue \<open>q\<close> holds the
  tasks \<open>xs\<close>, oldest first; \<open>anchor q\<close> is the one record the queue keeps for itself.
\<close>

locale fifo =
  fixes rep :: "('a \<Rightarrow> 'b) \<Rightarrow> 'q \<Rightarrow> 'a list \<Rightarrow> bool"
    and anchor :: "'q \<Rightarrow> 'a"
    and push :: "('a \<Rightarrow> 'b) \<Rightarrow> 'q \<Rightarrow> 'a \<Rightarrow> ('a \<Rightarrow> 'b) \<times> 'q"
    and pop :: "('a \<Rightarrow> 'b) \<Rightarrow> 'q \<Rightarrow> 'a option \<times> ('a \<Rightarrow> 'b) \<times> 'q"
  assumes rep_distinct: "rep h q xs \<Longrightarrow> distinct (anchor q # xs)"
    and rep_frame: "rep h q xs \<Longrightarrow> \<forall>a \<in> insert (anchor q) (set xs). h' a = h a \<Longrightarrow> rep h' q xs"
    and push_rep: "rep h q xs \<Longrightarrow> a \<noteq> anchor q \<Longrightarrow> a \<notin> set xs \<Longrightarrow>
          push h q a = (h', q') \<Longrightarrow> rep h' q' (xs @ [a]) \<and> anchor q' = anchor q"
    and push_frame: "rep h q xs \<Longrightarrow> push h q a = (h', q') \<Longrightarrow>
          b \<noteq> a \<Longrightarrow> b \<noteq> anchor q \<Longrightarrow> b \<notin> set xs \<Longrightarrow> h' b = h b"
    and pop_Nil: "rep h q [] \<Longrightarrow> pop h q = (None, h, q)"
    and pop_Cons: "rep h q (x # xs) \<Longrightarrow>
          \<exists>h' q'. pop h q = (Some x, h', q') \<and> rep h' q' xs \<and> anchor q' = anchor q \<and>
            (\<forall>b. b \<noteq> x \<and> b \<noteq> anchor q \<longrightarrow> h' b = h b)"
begin

definition apart :: "'q \<Rightarrow> 'a list \<Rightarrow> 'q \<Rightarrow> 'a list \<Rightarrow> bool" where
  "apart q xs q2 ys \<longleftrightarrow>
     insert (anchor q) (set xs) \<inter> insert (anchor q2) (set ys) = {}"

lemma apart_sym: "apart q xs q2 ys \<Longrightarrow> apart q2 ys q xs"
  by (auto simp: apart_def)

lemma apart_mono: "apart q xs q2 ys \<Longrightarrow> set xs' \<subseteq> set xs \<Longrightarrow> anchor q' = anchor q \<Longrightarrow> apart q' xs' q2 ys"
  by (auto simp: apart_def)

lemma push_other:
  assumes "rep h q xs" "rep h q2 ys" "apart q (a # xs) q2 ys" "push h q a = (h', q')"
  shows "rep h' q2 ys"
proof (rule rep_frame [OF assms(2)], intro ballI)
  fix b assume "b \<in> insert (anchor q2) (set ys)"
  with assms(3) have "b \<noteq> a" "b \<noteq> anchor q" "b \<notin> set xs" by (auto simp: apart_def)
  with push_frame [OF assms(1,4)] show "h' b = h b" by blast
qed

lemma pop_other:
  assumes "rep h q xs" "rep h q2 ys" "apart q xs q2 ys" "pop h q = (r, h', q')"
  shows "rep h' q2 ys"
proof (cases xs)
  case Nil
  with assms pop_Nil show ?thesis by auto
next
  case (Cons x xs')
  with assms(1) pop_Cons assms(4) have "\<forall>b. b \<noteq> x \<and> b \<noteq> anchor q \<longrightarrow> h' b = h b" by fastforce
  with assms(2,3) Cons show ?thesis by (auto simp: apart_def intro!: rep_frame [OF assms(2)])
qed

lemma pop_result:
  assumes "rep h q xs" "pop h q = (r, h', q')"
  shows "r = (case xs of [] \<Rightarrow> None | x # _ \<Rightarrow> Some x) \<and> rep h' q' (tl xs) \<and> anchor q' = anchor q"
  using assms pop_Nil pop_Cons by (cases xs) fastforce+

fun push_all :: "('a \<Rightarrow> 'b) \<Rightarrow> 'q \<Rightarrow> 'a list \<Rightarrow> ('a \<Rightarrow> 'b) \<times> 'q" where
  "push_all h q [] = (h, q)"
| "push_all h q (a # as) = (case push h q a of (h', q') \<Rightarrow> push_all h' q' as)"

lemma push_all_rep:
  assumes "rep h q xs" "distinct (anchor q # xs @ as)" "push_all h q as = (h', q')"
  shows "rep h' q' (xs @ as) \<and> anchor q' = anchor q"
  using assms
proof (induction as arbitrary: h q xs)
  case (Cons a as)
  obtain h1 q1 where p: "push h q a = (h1, q1)" by fastforce
  from Cons.prems push_rep [OF _ _ _ p] have "rep h1 q1 (xs @ [a]) \<and> anchor q1 = anchor q" by auto
  with Cons.IH [of h1 q1 "xs @ [a]"] Cons.prems p show ?case by auto
qed auto

text \<open>Any number of queues over one link memory, no record in two of them.\<close>

definition family :: "('a \<Rightarrow> 'b) \<Rightarrow> ('i \<Rightarrow> 'q) \<Rightarrow> 'i set \<Rightarrow> ('i \<Rightarrow> 'a list) \<Rightarrow> bool" where
  "family h q I c \<longleftrightarrow>
     (\<forall>i \<in> I. rep h (q i) (c i)) \<and>
     (\<forall>i \<in> I. \<forall>j \<in> I. i \<noteq> j \<longrightarrow> apart (q i) (c i) (q j) (c j))"

lemma family_push:
  assumes fam: "family h q I c" and i: "i \<in> I" and a: "\<forall>j \<in> I. a \<noteq> anchor (q j) \<and> a \<notin> set (c j)"
    and p: "push h (q i) a = (h', q')"
  shows "family h' (q(i := q')) I (c(i := c i @ [a]))" and "anchor q' = anchor (q i)"
proof -
  have r: "rep h' q' (c i @ [a])" and an: "anchor q' = anchor (q i)"
    using push_rep [of h "q i" "c i" a] fam i a p by (auto simp: family_def)
  have "rep h' (q j) (c j)" if "j \<in> I" "j \<noteq> i" for j
    using push_other [of h "q i" "c i" "q j" "c j" a h' q'] fam i a p that
    by (auto simp: family_def apart_def)
  with fam i a r an show "family h' (q(i := q')) I (c(i := c i @ [a]))"
    by (auto simp: family_def apart_def)
  show "anchor q' = anchor (q i)" by (rule an)
qed

lemma family_pop:
  assumes fam: "family h q I c" and i: "i \<in> I" and p: "pop h (q i) = (r, h', q')"
  shows "family h' (q(i := q')) I (c(i := tl (c i)))" and "anchor q' = anchor (q i)"
    and "r = (case c i of [] \<Rightarrow> None | x # _ \<Rightarrow> Some x)"
proof -
  have r: "rep h' q' (tl (c i))" and an: "anchor q' = anchor (q i)"
    and "r = (case c i of [] \<Rightarrow> None | x # _ \<Rightarrow> Some x)"
    using pop_result [of h "q i" "c i"] fam i p by (auto simp: family_def)
  then show "anchor q' = anchor (q i)" "r = (case c i of [] \<Rightarrow> None | x # _ \<Rightarrow> Some x)" by auto
  have o: "rep h' (q j) (c j)" if "j \<in> I" "j \<noteq> i" for j
    using pop_other [of h "q i" "c i" "q j" "c j" r h' q'] fam i p that by (auto simp: family_def)
  have "set (tl (c i)) \<subseteq> set (c i)" by (cases "c i") auto
  then have ap: "apart q' (tl (c i)) (q j) (c j) \<and> apart (q j) (c j) q' (tl (c i))"
    if "j \<in> I" "j \<noteq> i" for j
    using apart_mono [OF _ _ an] fam i that by (metis family_def apart_sym)
  show "family h' (q(i := q')) I (c(i := tl (c i)))"
    unfolding family_def
  proof (intro conjI ballI impI)
    fix j assume "j \<in> I"
    with r o show "rep h' ((q(i := q')) j) ((c(i := tl (c i))) j)" by simp
  next
    fix j k assume "j \<in> I" "k \<in> I" "j \<noteq> k"
    with ap fam show "apart ((q(i := q')) j) ((c(i := tl (c i))) j) ((q(i := q')) k) ((c(i := tl (c i))) k)"
      by (cases "j = i"; cases "k = i") (simp_all add: family_def)
  qed
qed

lemma family_frame:
  assumes "family h q I c" "\<forall>i \<in> I. \<forall>a \<in> insert (anchor (q i)) (set (c i)). h' a = h a"
  shows "family h' q I c"
  using assms rep_frame unfolding family_def by blast

lemma family_distinct: "family h q I c \<Longrightarrow> i \<in> I \<Longrightarrow> distinct (anchor (q i) # c i)"
  using rep_distinct by (auto simp: family_def)

end

interpretation mpsc: fifo queue_rep q_stub queue_push queue_try_pop
proof
  fix h q xs assume "queue_rep h q xs"
  then show "distinct (q_stub q # xs)" by (auto simp: queue_rep_def queue_nodes_def)
next
  fix h q xs and h' :: links
  assume r: "queue_rep h q xs" "\<forall>a \<in> insert (q_stub q) (set xs). h' a = h a"
  then obtain ns where ns: "queue_nodes h q ns" "xs = filter (\<lambda>a. a \<noteq> q_stub q) ns"
    by (auto simp: queue_rep_def)
  with r(2) have "\<forall>a \<in> set ns. h' a = h a" by auto
  with ns linked_frame [of ns h' h] show "queue_rep h' q xs"
    by (auto simp: queue_rep_def queue_nodes_def)
next
  fix h q xs a h' q'
  assume r: "queue_rep h q xs" "a \<noteq> q_stub q" "a \<notin> set xs" "queue_push h q a = (h', q')"
  then obtain ns where ns: "queue_nodes h q ns" "xs = filter (\<lambda>a. a \<noteq> q_stub q) ns"
    by (auto simp: queue_rep_def)
  with r have "queue_nodes h' q' (ns @ [a])" by (auto intro!: queue_push_nodes)
  moreover have "q_stub q' = q_stub q" using r by (auto simp: queue_push_def Let_def)
  ultimately show "queue_rep h' q' (xs @ [a]) \<and> q_stub q' = q_stub q"
    using ns r by (auto simp: queue_rep_def intro!: exI [of _ "ns @ [a]"])
next
  fix h q xs a b h' q'
  assume r: "queue_rep h q xs" "queue_push h q a = (h', q')"
    "b \<noteq> a" "b \<noteq> q_stub q" "b \<notin> set xs"
  then have "b \<noteq> q_back q"
    by (auto simp: queue_rep_def queue_nodes_def dest: last_in_set)
  with r show "h' b = h b" by (auto simp: queue_push_def Let_def)
qed (simp_all add: queue_try_pop_Nil queue_try_pop_Cons)

lemma queue_init_rep: "queue_init h st = (h', q) \<Longrightarrow> queue_rep h' q []"
  by (auto simp: queue_init_def queue_rep_def queue_nodes_def intro!: exI [of _ "[st]"])

end
