(* ===== verification/Exec_Queue_Conc.thy ===== *)
theory Exec_Queue_Conc
  imports Exec_Queue "HOL-Library.Sublist"
begin

text \<open>
  The queue of \<^verbatim>\<open>src/lh/exec/queue.c\<close> under concurrency: every atomic load, store and exchange of
  \<^verbatim>\<open>lh_exec_queue_push\<close> and \<^verbatim>\<open>lh_exec_queue_try_pop\<close> is one step, and the steps of any number of
  producers, of the one consumer and of the owners of records outside the queue interleave freely.
  The interleaving is sequentially consistent: the acquire and release orders of the source are what
  makes the program observe such an interleaving.
\<close>

section \<open>State\<close>

text \<open>A producer inside \<^verbatim>\<open>lh_exec_queue_push\<close>: after the relaxed store, then after the exchange.\<close>

datatype producer =
    P_Idle
  | P_Cleared addr
  | P_Claimed addr addr

text \<open>
  The consumer inside \<^verbatim>\<open>lh_exec_queue_try_pop\<close>; the argument is its local \<open>front\<close>, and \<open>C_Link\<close>
  also holds the \<open>previous\<close> of its own push of the stub.
\<close>

datatype consumer =
    C_Idle
  | C_Second addr
  | C_Back addr
  | C_Clear addr
  | C_Xchg addr
  | C_Link addr addr
  | C_Last addr

text \<open>
  Beside the memory, the state keeps a history: the tasks pushed in the order of their exchanges, the
  tasks handed out, the records that are the queue's (\<open>members\<close>) and the links announced by an
  exchange and not yet stored (\<open>claims\<close>).
\<close>

record mpsc_state =
  heap :: links
  queue :: exec_queue
  producers :: "nat \<Rightarrow> producer"
  consumer :: consumer
  members :: "addr set"
  claims :: "addr \<rightharpoonup> addr"
  pushed :: "addr list"
  popped :: "addr list"

definition mpsc_start :: "links \<Rightarrow> addr \<Rightarrow> mpsc_state" where
  "mpsc_start h st =
     (case queue_init h st of (h', q) \<Rightarrow>
        \<lparr>heap = h', queue = q, producers = (\<lambda>_. P_Idle), consumer = C_Idle, members = {},
         claims = Map.empty, pushed = [], popped = []\<rparr>)"

section \<open>Steps\<close>

text \<open>Handing out \<open>f\<close> once its successor \<open>n\<close> is known.\<close>

definition hand_out :: "addr \<Rightarrow> addr \<Rightarrow> mpsc_state \<Rightarrow> mpsc_state" where
  "hand_out f n s =
     s\<lparr>queue := (queue s)\<lparr>q_front := n\<rparr>, consumer := C_Idle,
       members := members s - {f}, popped := popped s @ [f]\<rparr>"

inductive mpsc_step :: "mpsc_state \<Rightarrow> mpsc_state \<Rightarrow> bool" where
  push_clear:
  "producers s p = P_Idle \<Longrightarrow> t \<notin> members s \<Longrightarrow> t \<noteq> q_stub (queue s) \<Longrightarrow>
   mpsc_step s (s\<lparr>heap := (heap s)(t := None), producers := (producers s)(p := P_Cleared t),
                  members := insert t (members s)\<rparr>)"
| push_exchange:
  "producers s p = P_Cleared t \<Longrightarrow>
   mpsc_step s (s\<lparr>queue := (queue s)\<lparr>q_back := t\<rparr>,
                  producers := (producers s)(p := P_Claimed (q_back (queue s)) t),
                  claims := (claims s)(q_back (queue s) \<mapsto> t), pushed := pushed s @ [t]\<rparr>)"
| push_link:
  "producers s p = P_Claimed previous t \<Longrightarrow>
   mpsc_step s (s\<lparr>heap := (heap s)(previous := Some t), producers := (producers s)(p := P_Idle),
                  claims := (claims s)(previous := None)\<rparr>)"
| pop_empty:
  "consumer s = C_Idle \<Longrightarrow> q_front (queue s) = q_stub (queue s) \<Longrightarrow>
   heap s (q_front (queue s)) = None \<Longrightarrow> mpsc_step s s"
| pop_over_stub:
  "consumer s = C_Idle \<Longrightarrow> q_front (queue s) = q_stub (queue s) \<Longrightarrow>
   heap s (q_front (queue s)) = Some n \<Longrightarrow>
   mpsc_step s (s\<lparr>queue := (queue s)\<lparr>q_front := n\<rparr>, consumer := C_Second n\<rparr>)"
| pop_first:
  "consumer s = C_Idle \<Longrightarrow> q_front (queue s) \<noteq> q_stub (queue s) \<Longrightarrow>
   heap s (q_front (queue s)) = Some n \<Longrightarrow> mpsc_step s (hand_out (q_front (queue s)) n s)"
| pop_first_last:
  "consumer s = C_Idle \<Longrightarrow> q_front (queue s) \<noteq> q_stub (queue s) \<Longrightarrow>
   heap s (q_front (queue s)) = None \<Longrightarrow>
   mpsc_step s (s\<lparr>consumer := C_Back (q_front (queue s))\<rparr>)"
| pop_second:
  "consumer s = C_Second f \<Longrightarrow> heap s f = Some n \<Longrightarrow> mpsc_step s (hand_out f n s)"
| pop_second_last:
  "consumer s = C_Second f \<Longrightarrow> heap s f = None \<Longrightarrow> mpsc_step s (s\<lparr>consumer := C_Back f\<rparr>)"
| pop_not_back:
  "consumer s = C_Back f \<Longrightarrow> q_back (queue s) \<noteq> f \<Longrightarrow> mpsc_step s (s\<lparr>consumer := C_Idle\<rparr>)"
| pop_is_back:
  "consumer s = C_Back f \<Longrightarrow> q_back (queue s) = f \<Longrightarrow> mpsc_step s (s\<lparr>consumer := C_Clear f\<rparr>)"
| stub_clear:
  "consumer s = C_Clear f \<Longrightarrow>
   mpsc_step s (s\<lparr>heap := (heap s)(q_stub (queue s) := None), consumer := C_Xchg f\<rparr>)"
| stub_exchange:
  "consumer s = C_Xchg f \<Longrightarrow>
   mpsc_step s (s\<lparr>queue := (queue s)\<lparr>q_back := q_stub (queue s)\<rparr>,
                  consumer := C_Link f (q_back (queue s)),
                  claims := (claims s)(q_back (queue s) \<mapsto> q_stub (queue s))\<rparr>)"
| stub_link:
  "consumer s = C_Link f previous \<Longrightarrow>
   mpsc_step s (s\<lparr>heap := (heap s)(previous := Some (q_stub (queue s))), consumer := C_Last f,
                  claims := (claims s)(previous := None)\<rparr>)"
| pop_last:
  "consumer s = C_Last f \<Longrightarrow> heap s f = Some n \<Longrightarrow> mpsc_step s (hand_out f n s)"
| pop_last_none:
  "consumer s = C_Last f \<Longrightarrow> heap s f = None \<Longrightarrow> mpsc_step s (s\<lparr>consumer := C_Idle\<rparr>)"
| outside:
  "a \<notin> members s \<Longrightarrow> a \<noteq> q_stub (queue s) \<Longrightarrow> mpsc_step s (s\<lparr>heap := (heap s)(a := v)\<rparr>)"

inductive mpsc_reachable :: "mpsc_state \<Rightarrow> bool" where
  start: "mpsc_reachable (mpsc_start h st)"
| step: "mpsc_reachable s \<Longrightarrow> mpsc_step s t \<Longrightarrow> mpsc_reachable t"

section \<open>Invariant\<close>

text \<open>
  The nodes from \<open>front\<close> to \<open>back\<close>: each but the last has either stored its link or has a claim for
  it.
\<close>

fun chain :: "links \<Rightarrow> (addr \<rightharpoonup> addr) \<Rightarrow> addr list \<Rightarrow> bool" where
  "chain h c [] \<longleftrightarrow> True"
| "chain h c [x] \<longleftrightarrow> h x = None \<and> c x = None"
| "chain h c (x # y # ys) \<longleftrightarrow>
     (h x = Some y \<and> c x = None \<or> h x = None \<and> c x = Some y) \<and> chain h c (y # ys)"

lemma chain_frame:
  "\<forall>a \<in> set ns. h' a = h a \<and> c' a = c a \<Longrightarrow> chain h' c' ns = chain h c ns"
  by (induction h c ns rule: chain.induct) auto

lemma chain_claim:
  assumes "chain h c ns" "ns \<noteq> []" "distinct (ns @ [t])" "h t = None" "c t = None"
  shows "chain h (c(last ns \<mapsto> t)) (ns @ [t])"
  using assms
proof (induction h c ns rule: chain.induct)
  case (3 h c x y ys)
  then show ?case by auto
qed auto

lemma chain_store:
  assumes "chain h c ns" "c p = Some t" "distinct ns" "p \<in> set ns"
  shows "chain (h(p := Some t)) (c(p := None)) ns"
  using assms
proof (induction h c ns rule: chain.induct)
  case (3 h c x y ys)
  show ?case
  proof (cases "p = x")
    case True
    with 3 have "chain (h(p := Some t)) (c(p := None)) (y # ys) = chain h c (y # ys)"
      by (intro chain_frame) auto
    with True 3 show ?thesis by (auto simp: fun_upd_def)
  next
    case False
    with 3 show ?thesis by auto
  qed
qed auto

lemma chain_last: "chain h c ns \<Longrightarrow> ns \<noteq> [] \<Longrightarrow> h (last ns) = None \<and> c (last ns) = None"
  by (induction h c ns rule: chain.induct) auto

lemma chain_claimed_link:
  assumes "chain h c ns" "c p = Some t" "p \<in> set ns"
  shows "h p = None" and "t \<in> set ns"
  using assms by (induction h c ns rule: chain.induct) auto

definition chain_ok :: "mpsc_state \<Rightarrow> addr list \<Rightarrow> bool" where
  "chain_ok s ns \<longleftrightarrow>
     chain (heap s) (claims s) ns \<and> ns \<noteq> [] \<and> distinct ns \<and>
     hd ns = q_front (queue s) \<and> last ns = q_back (queue s) \<and>
     dom (claims s) \<subseteq> set ns \<and> set ns \<subseteq> insert (q_stub (queue s)) (members s) \<and>
     q_stub (queue s) \<notin> members s \<and>
     pushed s = popped s @ filter (\<lambda>a. a \<noteq> q_stub (queue s)) ns"

definition cleared_ok :: "mpsc_state \<Rightarrow> addr list \<Rightarrow> bool" where
  "cleared_ok s ns \<longleftrightarrow>
     (\<forall>p t. producers s p = P_Cleared t \<longrightarrow>
        t \<notin> set ns \<and> heap s t = None \<and> t \<in> members s \<and>
        (\<forall>p'. producers s p' = P_Cleared t \<longrightarrow> p' = p))"

definition claimed_ok :: "mpsc_state \<Rightarrow> bool" where
  "claimed_ok s \<longleftrightarrow>
     (\<forall>p previous t. producers s p = P_Claimed previous t \<longrightarrow>
        claims s previous = Some t \<and> t \<noteq> q_stub (queue s) \<and>
        (\<forall>f. consumer s \<noteq> C_Link f previous) \<and>
        (\<forall>p' t'. producers s p' = P_Claimed previous t' \<longrightarrow> p' = p))"

fun consumer_ok :: "mpsc_state \<Rightarrow> addr list \<Rightarrow> consumer \<Rightarrow> bool" where
  "consumer_ok s ns C_Idle \<longleftrightarrow> True"
| "consumer_ok s ns (C_Second f) \<longleftrightarrow> f = q_front (queue s) \<and> f \<noteq> q_stub (queue s)"
| "consumer_ok s ns (C_Back f) \<longleftrightarrow> f = q_front (queue s) \<and> f \<noteq> q_stub (queue s)"
| "consumer_ok s ns (C_Clear f) \<longleftrightarrow>
     f = q_front (queue s) \<and> f \<noteq> q_stub (queue s) \<and> q_stub (queue s) \<notin> set ns"
| "consumer_ok s ns (C_Xchg f) \<longleftrightarrow>
     f = q_front (queue s) \<and> f \<noteq> q_stub (queue s) \<and> q_stub (queue s) \<notin> set ns \<and>
     heap s (q_stub (queue s)) = None"
| "consumer_ok s ns (C_Link f previous) \<longleftrightarrow>
     f = q_front (queue s) \<and> f \<noteq> q_stub (queue s) \<and>
     claims s previous = Some (q_stub (queue s))"
| "consumer_ok s ns (C_Last f) \<longleftrightarrow> f = q_front (queue s) \<and> f \<noteq> q_stub (queue s)"

definition mpsc_inv :: "mpsc_state \<Rightarrow> addr list \<Rightarrow> bool" where
  "mpsc_inv s ns \<longleftrightarrow>
     chain_ok s ns \<and> cleared_ok s ns \<and> claimed_ok s \<and> consumer_ok s ns (consumer s)"

lemmas mpsc_inv_defs = mpsc_inv_def chain_ok_def cleared_ok_def claimed_ok_def

lemma mpsc_inv_start: "mpsc_inv (mpsc_start h st) [st]"
  by (simp add: mpsc_inv_defs mpsc_start_def queue_init_def)

lemma mpsc_inv_back_unclaimed:
  assumes "mpsc_inv s ns"
  shows "claims s (q_back (queue s)) = None" and "heap s (q_back (queue s)) = None"
  using assms chain_last [of "heap s" "claims s" ns] by (auto simp: mpsc_inv_defs)

lemma mpsc_inv_back_member: "mpsc_inv s ns \<Longrightarrow> q_back (queue s) \<in> set ns"
  by (metis chain_ok_def last_in_set mpsc_inv_def)

lemma inv_push_clear:
  assumes "mpsc_inv s ns" "producers s p = P_Idle" "t \<notin> members s" "t \<noteq> q_stub (queue s)"
  shows "mpsc_inv (s\<lparr>heap := (heap s)(t := None), producers := (producers s)(p := P_Cleared t),
           members := insert t (members s)\<rparr>) ns"
proof -
  have t: "t \<notin> set ns" using assms by (auto simp: mpsc_inv_defs)
  then have "chain ((heap s)(t := None)) (claims s) ns"
    using assms chain_frame [of ns "(heap s)(t := None)" "heap s" "claims s" "claims s"]
    by (auto simp: mpsc_inv_defs)
  with assms t show ?thesis
    by (cases "consumer s") (auto simp: mpsc_inv_defs)
qed

lemma inv_push_exchange:
  assumes inv: "mpsc_inv s ns" and p: "producers s p = P_Cleared t"
  shows "mpsc_inv (s\<lparr>queue := (queue s)\<lparr>q_back := t\<rparr>,
           producers := (producers s)(p := P_Claimed (q_back (queue s)) t),
           claims := (claims s)(q_back (queue s) \<mapsto> t), pushed := pushed s @ [t]\<rparr>) (ns @ [t])"
proof -
  note unclaimed = mpsc_inv_back_unclaimed [OF inv]
  have t: "t \<notin> set ns" "heap s t = None" "claims s t = None" "t \<noteq> q_stub (queue s)" "t \<in> members s"
    using inv p by (auto simp: mpsc_inv_defs)
  then have "chain (heap s) ((claims s)(q_back (queue s) \<mapsto> t)) (ns @ [t])"
    using inv chain_claim [of "heap s" "claims s" ns t] by (auto simp: mpsc_inv_defs)
  moreover have "q_back (queue s) \<in> set ns" by (rule mpsc_inv_back_member [OF inv])
  ultimately have "chain_ok (s\<lparr>queue := (queue s)\<lparr>q_back := t\<rparr>,
      producers := (producers s)(p := P_Claimed (q_back (queue s)) t),
      claims := (claims s)(q_back (queue s) \<mapsto> t), pushed := pushed s @ [t]\<rparr>) (ns @ [t])"
    using inv t by (auto simp: mpsc_inv_defs)
  with inv p t unclaimed show ?thesis
    by (cases "consumer s")
      (auto simp: mpsc_inv_def cleared_ok_def claimed_ok_def split: if_splits)
qed

lemma inv_push_link:
  assumes inv: "mpsc_inv s ns" and p: "producers s p = P_Claimed previous t"
  shows "mpsc_inv (s\<lparr>heap := (heap s)(previous := Some t), producers := (producers s)(p := P_Idle),
           claims := (claims s)(previous := None)\<rparr>) ns"
proof -
  have c: "claims s previous = Some t" "previous \<in> set ns"
    using inv p by (auto simp: mpsc_inv_defs)
  then have "chain ((heap s)(previous := Some t)) ((claims s)(previous := None)) ns"
    using inv chain_store [of "heap s" "claims s" ns previous t] by (auto simp: mpsc_inv_defs)
  then have "chain_ok (s\<lparr>heap := (heap s)(previous := Some t), producers := (producers s)(p := P_Idle),
      claims := (claims s)(previous := None)\<rparr>) ns"
    using inv by (auto simp: mpsc_inv_defs)
  with inv p c show ?thesis
    by (cases "consumer s")
      (auto simp: mpsc_inv_def cleared_ok_def claimed_ok_def split: if_splits)
qed

lemma inv_advance:
  assumes "mpsc_inv s ns" "heap s (q_front (queue s)) = Some n"
  shows "\<exists>ys. ns = q_front (queue s) # n # ys \<and> claims s (q_front (queue s)) = None \<and>
           chain (heap s) (claims s) (n # ys)"
  using assms by (cases ns; cases "tl ns") (auto simp: mpsc_inv_defs)

lemma inv_hand_out:
  assumes inv: "mpsc_inv s ns" and f: "f = q_front (queue s)" "f \<noteq> q_stub (queue s)"
    and n: "heap s f = Some n"
  shows "mpsc_inv (hand_out f n s) (tl ns)"
proof -
  from inv_advance [OF inv] f n obtain ys where ys: "ns = f # n # ys" "claims s f = None"
    "chain (heap s) (claims s) (n # ys)" by auto
  with inv f have "chain_ok (hand_out f n s) (n # ys)"
    by (auto simp: mpsc_inv_defs hand_out_def dest: subsetD)
  moreover have "cleared_ok (hand_out f n s) (n # ys)"
    using inv ys f by (auto simp: mpsc_inv_defs hand_out_def)
  moreover have "claimed_ok (hand_out f n s)"
    using inv by (auto simp: mpsc_inv_defs hand_out_def)
  ultimately show ?thesis using ys by (simp add: mpsc_inv_def) (simp add: hand_out_def)
qed

lemma inv_over_stub:
  assumes inv: "mpsc_inv s ns" and f: "q_front (queue s) = q_stub (queue s)"
    and n: "heap s (q_front (queue s)) = Some n"
  shows "mpsc_inv (s\<lparr>queue := (queue s)\<lparr>q_front := n\<rparr>, consumer := C_Second n\<rparr>) (tl ns)"
proof -
  from inv_advance [OF inv n] obtain ys where ys: "ns = q_front (queue s) # n # ys"
    "claims s (q_front (queue s)) = None" "chain (heap s) (claims s) (n # ys)" by auto
  with inv f have "chain_ok (s\<lparr>queue := (queue s)\<lparr>q_front := n\<rparr>, consumer := C_Second n\<rparr>) (n # ys)"
    by (auto simp: mpsc_inv_defs dest: subsetD)
  moreover have "n \<noteq> q_stub (queue s)" using inv ys f by (auto simp: mpsc_inv_defs)
  ultimately show ?thesis using inv ys by (auto simp: mpsc_inv_def cleared_ok_def claimed_ok_def)
qed

lemma inv_is_back:
  assumes inv: "mpsc_inv s ns" and f: "consumer s = C_Back f" "q_back (queue s) = f"
  shows "mpsc_inv (s\<lparr>consumer := C_Clear f\<rparr>) ns"
proof -
  have "ns \<noteq> []" "distinct ns" "hd ns = f" "last ns = f" "f \<noteq> q_stub (queue s)"
    using inv f by (auto simp: mpsc_inv_defs)
  with distinct_hd_last_singleton [of ns] have "q_stub (queue s) \<notin> set ns"
    by (metis empty_iff empty_set insert_iff list.set(2))
  with inv f show ?thesis by (auto simp: mpsc_inv_defs)
qed

lemma inv_stub_clear:
  assumes inv: "mpsc_inv s ns" and f: "consumer s = C_Clear f"
  shows "mpsc_inv (s\<lparr>heap := (heap s)(q_stub (queue s) := None), consumer := C_Xchg f\<rparr>) ns"
proof -
  have "chain ((heap s)(q_stub (queue s) := None)) (claims s) ns"
    using inv f chain_frame [of ns "(heap s)(q_stub (queue s) := None)" "heap s" "claims s" "claims s"]
    by (auto simp: mpsc_inv_defs)
  with inv f show ?thesis by (auto simp: mpsc_inv_defs)
qed

lemma inv_stub_exchange:
  assumes inv: "mpsc_inv s ns" and f: "consumer s = C_Xchg f"
  shows "mpsc_inv (s\<lparr>queue := (queue s)\<lparr>q_back := q_stub (queue s)\<rparr>,
           consumer := C_Link f (q_back (queue s)),
           claims := (claims s)(q_back (queue s) \<mapsto> q_stub (queue s))\<rparr>) (ns @ [q_stub (queue s)])"
proof -
  note unclaimed = mpsc_inv_back_unclaimed [OF inv]
  let ?st = "q_stub (queue s)"
  have st: "?st \<notin> set ns" "heap s ?st = None" "claims s ?st = None" "?st \<notin> members s"
    using inv f by (auto simp: mpsc_inv_defs)
  then have "chain (heap s) ((claims s)(q_back (queue s) \<mapsto> ?st)) (ns @ [?st])"
    using inv chain_claim [of "heap s" "claims s" ns ?st] by (auto simp: mpsc_inv_defs)
  moreover have "q_back (queue s) \<in> set ns" by (rule mpsc_inv_back_member [OF inv])
  ultimately show ?thesis using inv f st unclaimed by (auto simp: mpsc_inv_defs)
qed

lemma inv_stub_link:
  assumes inv: "mpsc_inv s ns" and f: "consumer s = C_Link f previous"
  shows "mpsc_inv (s\<lparr>heap := (heap s)(previous := Some (q_stub (queue s))), consumer := C_Last f,
           claims := (claims s)(previous := None)\<rparr>) ns"
proof -
  let ?st = "q_stub (queue s)"
  have c: "claims s previous = Some ?st" "previous \<in> set ns"
    using inv f by (auto simp: mpsc_inv_defs)
  then have "chain ((heap s)(previous := Some ?st)) ((claims s)(previous := None)) ns"
    using inv chain_store [of "heap s" "claims s" ns previous ?st] by (auto simp: mpsc_inv_defs)
  moreover have "\<forall>p t. producers s p \<noteq> P_Claimed previous t"
    using inv f by (auto simp: mpsc_inv_def claimed_ok_def)
  ultimately show ?thesis using inv f c by (auto simp: mpsc_inv_defs)
qed

lemma inv_outside:
  assumes inv: "mpsc_inv s ns" and a: "a \<notin> members s" "a \<noteq> q_stub (queue s)"
  shows "mpsc_inv (s\<lparr>heap := (heap s)(a := v)\<rparr>) ns"
proof -
  have t: "a \<notin> set ns" using assms by (auto simp: mpsc_inv_defs)
  then have "chain ((heap s)(a := v)) (claims s) ns"
    using assms chain_frame [of ns "(heap s)(a := v)" "heap s" "claims s" "claims s"]
    by (auto simp: mpsc_inv_defs)
  with assms t show ?thesis
    by (cases "consumer s") (auto simp: mpsc_inv_defs)
qed

lemma inv_consumer:
  assumes "mpsc_inv s ns" "consumer_ok (s\<lparr>consumer := c\<rparr>) ns c" "\<forall>f p. c \<noteq> C_Link f p"
  shows "mpsc_inv (s\<lparr>consumer := c\<rparr>) ns"
  using assms by (auto simp: mpsc_inv_defs)

lemma consumer_ok_front:
  assumes "mpsc_inv s ns" "consumer s = C_Second f \<or> consumer s = C_Back f \<or> consumer s = C_Last f"
  shows "f = q_front (queue s)" and "f \<noteq> q_stub (queue s)"
  using assms by (auto simp: mpsc_inv_def)

lemma inv_consumer_idle: "mpsc_inv s ns \<Longrightarrow> mpsc_inv (s\<lparr>consumer := C_Idle\<rparr>) ns"
  by (rule inv_consumer) auto

lemma inv_consumer_back:
  "mpsc_inv s ns \<Longrightarrow> f = q_front (queue s) \<Longrightarrow> f \<noteq> q_stub (queue s) \<Longrightarrow>
   mpsc_inv (s\<lparr>consumer := C_Back f\<rparr>) ns"
  by (rule inv_consumer) auto

lemma mpsc_step_inv: "mpsc_step s t \<Longrightarrow> mpsc_inv s ns \<Longrightarrow> \<exists>ns'. mpsc_inv t ns'"
proof (induction rule: mpsc_step.induct)
  case push_clear
  then show ?case by (blast intro: inv_push_clear)
next
  case push_exchange
  then show ?case by (blast intro: inv_push_exchange)
next
  case push_link
  then show ?case by (blast intro: inv_push_link)
next
  case pop_empty
  then show ?case by blast
next
  case pop_over_stub
  then show ?case by (blast intro: inv_over_stub)
next
  case (pop_first s n)
  then show ?case by (blast intro: inv_hand_out)
next
  case pop_first_last
  then show ?case by (blast intro: inv_consumer_back)
next
  case (pop_second s f n)
  then show ?case using consumer_ok_front [of s ns f] by (blast intro: inv_hand_out)
next
  case (pop_second_last s f)
  then show ?case using consumer_ok_front [of s ns f] by (blast intro: inv_consumer_back)
next
  case (pop_not_back s f)
  then show ?case by (blast intro: inv_consumer_idle)
next
  case pop_is_back
  then show ?case by (blast intro: inv_is_back)
next
  case stub_clear
  then show ?case by (blast intro: inv_stub_clear)
next
  case stub_exchange
  then show ?case by (blast intro: inv_stub_exchange)
next
  case stub_link
  then show ?case by (blast intro: inv_stub_link)
next
  case (pop_last s f n)
  then show ?case using consumer_ok_front [of s ns f] by (blast intro: inv_hand_out)
next
  case (pop_last_none s f)
  then show ?case by (blast intro: inv_consumer_idle)
next
  case outside
  then show ?case by (blast intro: inv_outside)
qed

lemma mpsc_reachable_inv: "mpsc_reachable s \<Longrightarrow> \<exists>ns. mpsc_inv s ns"
  by (induction rule: mpsc_reachable.induct) (blast intro: mpsc_inv_start mpsc_step_inv)+

section \<open>What every interleaving keeps\<close>

text \<open>With no push in flight the announced chain is the linked list of the sequential model.\<close>

lemma chain_linked: "chain h Map.empty ns \<Longrightarrow> linked h ns"
  by (induction h "Map.empty :: addr \<rightharpoonup> addr" ns rule: chain.induct) auto

definition claim_backed :: "mpsc_state \<Rightarrow> addr \<Rightarrow> addr \<Rightarrow> bool" where
  "claim_backed s a t \<longleftrightarrow>
     (\<exists>p. producers s p = P_Claimed a t) \<or> (\<exists>f. consumer s = C_Link f a)"

lemma claim_backed_producers:
  assumes "claim_backed s a t" "producers s p \<noteq> P_Claimed a t"
    "producers s' = (producers s)(p := q)" "consumer s' = consumer s"
  shows "claim_backed s' a t"
  using assms unfolding claim_backed_def by (metis fun_upd_other)

lemma claim_backed_consumer:
  assumes "claim_backed s a t" "\<forall>f. consumer s \<noteq> C_Link f a" "producers s' = producers s"
  shows "claim_backed s' a t"
  using assms unfolding claim_backed_def by metis

lemma claim_backed_step:
  assumes "mpsc_step s s'" "\<forall>a t. claims s a = Some t \<longrightarrow> claim_backed s a t"
    and "claims s' a = Some t"
  shows "claim_backed s' a t"
  using assms
proof (induction rule: mpsc_step.induct)
  case (push_clear s p t')
  then have "claim_backed s a t" "producers s p \<noteq> P_Claimed a t" by simp_all
  then show ?case by (rule claim_backed_producers) simp_all
next
  case (push_exchange s p t')
  show ?case
  proof (cases "a = q_back (queue s)")
    case True
    with push_exchange.prems show ?thesis by (simp add: claim_backed_def) metis
  next
    case False
    with push_exchange have "claim_backed s a t" "producers s p \<noteq> P_Claimed a t" by simp_all
    then show ?thesis by (rule claim_backed_producers) simp_all
  qed
next
  case (push_link s p previous t')
  then have "claim_backed s a t" "producers s p \<noteq> P_Claimed a t" by (auto split: if_splits)
  then show ?case by (rule claim_backed_producers) simp_all
next
  case (stub_link s f previous)
  then have "claim_backed s a t" "\<forall>f. consumer s \<noteq> C_Link f a" by (auto split: if_splits)
  then show ?case by (rule claim_backed_consumer) simp_all
next
  case (stub_exchange s f)
  then show ?case by (cases "a = q_back (queue s)") (simp_all add: claim_backed_def)
qed (simp_all add: hand_out_def claim_backed_def)

lemma reachable_claims_backed:
  "mpsc_reachable s \<Longrightarrow> claims s a = Some t \<Longrightarrow> claim_backed s a t"
proof (induction arbitrary: a t rule: mpsc_reachable.induct)
  case (start h st)
  then show ?case by (simp add: mpsc_start_def queue_init_def)
next
  case (step s s')
  then show ?case by (blast intro: claim_backed_step)
qed

lemma queue_try_pop_first:
  "queue_rep h q xs \<Longrightarrow> fst (queue_try_pop h q) = (if xs = [] then None else Some (xs ! 0))"
  using queue_try_pop_Nil [of h q] queue_try_pop_Cons [of h q "hd xs" "tl xs"]
  by (cases xs) fastforce+

lemma mpsc_quiescent_claims:
  assumes "mpsc_reachable s" "\<forall>p. producers s p = P_Idle" "consumer s = C_Idle"
  shows "claims s = Map.empty"
proof
  fix a show "claims s a = None"
    using reachable_claims_backed [OF assms(1), of a] assms
    by (cases "claims s a") (auto simp: claim_backed_def)
qed

text \<open>
  C6: in every interleaving of producers with the consumer the tasks come out of the queue in the
  order of their exchanges, none twice and none lost: what was handed out is what was pushed, less the
  tasks still queued, and no task is queued twice.
\<close>

theorem mpsc_fifo:
  assumes "mpsc_reachable s"
  shows "\<exists>waiting. pushed s = popped s @ waiting \<and> distinct waiting \<and> set waiting \<subseteq> members s"
proof -
  from mpsc_reachable_inv [OF assms] obtain ns where "mpsc_inv s ns" by blast
  then show ?thesis by (auto simp: mpsc_inv_defs)
qed

text \<open>
  C7: the link store of a push hits a record that is still in the queue (or its stub), whose link is
  still null: a record handed out is never written by a producer that was preempted between its
  exchange and its store.
\<close>

theorem mpsc_no_stale_write:
  assumes "mpsc_reachable s" "producers s p = P_Claimed previous t"
  shows "previous \<in> insert (q_stub (queue s)) (members s) \<and> heap s previous = None \<and>
         t \<in> set (drop (length (popped s)) (pushed s))"
proof -
  from mpsc_reachable_inv [OF assms(1)] obtain ns where inv: "mpsc_inv s ns" by blast
  with assms(2) have c: "claims s previous = Some t" "previous \<in> set ns"
    by (auto simp: mpsc_inv_defs)
  with inv chain_claimed_link [of "heap s" "claims s" ns previous t] have
    "heap s previous = None" "t \<in> set ns" by (auto simp: mpsc_inv_defs)
  moreover have "t \<noteq> q_stub (queue s)" using inv assms(2) by (auto simp: mpsc_inv_def claimed_ok_def)
  ultimately show ?thesis using inv c by (auto simp: mpsc_inv_def chain_ok_def)
qed

text \<open>
  C8: whenever no push and no pop is in flight, the memory represents the queue of the sequential
  model, holding the tasks pushed and not handed out, oldest first; so the next
  \<^verbatim>\<open>lh_exec_queue_try_pop\<close> hands out the oldest of them.
\<close>

theorem mpsc_quiescent:
  assumes "mpsc_reachable s" "\<forall>p. producers s p = P_Idle" "consumer s = C_Idle"
  shows "queue_rep (heap s) (queue s) (drop (length (popped s)) (pushed s)) \<and>
         fst (queue_try_pop (heap s) (queue s)) =
           (if length (popped s) < length (pushed s) then Some (pushed s ! length (popped s)) else None)"
proof -
  from mpsc_reachable_inv [OF assms(1)] obtain ns where inv: "mpsc_inv s ns" by blast
  let ?rest = "filter (\<lambda>a. a \<noteq> q_stub (queue s)) ns"
  from inv mpsc_quiescent_claims [OF assms] have
    "queue_nodes (heap s) (queue s) ns"
    by (auto simp: mpsc_inv_def chain_ok_def queue_nodes_def chain_linked)
  then have rep: "queue_rep (heap s) (queue s) ?rest" by (auto simp: queue_rep_def)
  have pu: "pushed s = popped s @ ?rest" using inv by (simp add: mpsc_inv_def chain_ok_def)
  from queue_try_pop_first [OF rep] have
    "fst (queue_try_pop (heap s) (queue s)) = (if ?rest = [] then None else Some (?rest ! 0))" .
  with rep pu show ?thesis by (auto simp: nth_append)
qed

section \<open>A run\<close>

text \<open>One producer pushes record 1 while the consumer polls; the stub is record 0.\<close>

lemma run_claimed:
  "\<exists>s. mpsc_reachable s \<and> producers s = (\<lambda>_. P_Idle)(0 := P_Claimed 0 1) \<and> consumer s = C_Idle \<and>
       pushed s = [1] \<and> popped s = [] \<and> queue s = \<lparr>q_back = 1, q_front = 0, q_stub = 0\<rparr> \<and>
       members s = {1} \<and> heap s = Map.empty"
proof -
  let ?s0 = "mpsc_start Map.empty 0"
  let ?s1 = "?s0\<lparr>heap := (heap ?s0)(1 := None), producers := (producers ?s0)(0 := P_Cleared 1),
                  members := insert 1 (members ?s0)\<rparr>"
  have "mpsc_reachable ?s1"
    by (rule mpsc_reachable.step [OF mpsc_reachable.start], rule mpsc_step.push_clear)
      (simp_all add: mpsc_start_def queue_init_def)
  then have "mpsc_reachable (?s1\<lparr>queue := (queue ?s1)\<lparr>q_back := 1\<rparr>,
      producers := (producers ?s1)(0 := P_Claimed (q_back (queue ?s1)) 1),
      claims := (claims ?s1)(q_back (queue ?s1) \<mapsto> 1), pushed := pushed ?s1 @ [1]\<rparr>)"
    by (rule mpsc_reachable.step, intro mpsc_step.push_exchange) simp
  then show ?thesis by (intro exI conjI, assumption) (auto simp: mpsc_start_def queue_init_def)
qed

lemma run_linked:
  "\<exists>s. mpsc_reachable s \<and> producers s = (\<lambda>_. P_Idle) \<and> consumer s = C_Idle \<and>
       pushed s = [1] \<and> popped s = [] \<and> queue s = \<lparr>q_back = 1, q_front = 0, q_stub = 0\<rparr>"
proof -
  obtain s where s: "mpsc_reachable s" "producers s = (\<lambda>_. P_Idle)(0 := P_Claimed 0 1)"
    "consumer s = C_Idle" "pushed s = [1]" "popped s = []"
    "queue s = \<lparr>q_back = 1, q_front = 0, q_stub = 0\<rparr>" using run_claimed by blast
  then have "mpsc_reachable (s\<lparr>heap := (heap s)(0 := Some 1), producers := (producers s)(0 := P_Idle),
      claims := (claims s)(0 := None)\<rparr>)"
    by (intro mpsc_reachable.step [OF s(1)] mpsc_step.push_link) simp
  moreover have "(producers s)(0 := P_Idle) = (\<lambda>_. P_Idle)" using s(2) by auto
  ultimately show ?thesis using s(3-6)
    by (intro exI [of _ "s\<lparr>heap := (heap s)(0 := Some 1), producers := (producers s)(0 := P_Idle),
      claims := (claims s)(0 := None)\<rparr>"]) simp
qed

theorem mpsc_fifo_witness:
  "\<exists>s waiting. mpsc_reachable s \<and> pushed s = [1] \<and> popped s = [] \<and> pushed s = popped s @ waiting"
  using run_claimed mpsc_fifo by blast

theorem mpsc_no_stale_write_witness:
  "\<exists>s. mpsc_reachable s \<and> producers s 0 = P_Claimed 0 1 \<and> heap s 0 = None"
proof -
  obtain s where s: "mpsc_reachable s" "producers s 0 = P_Claimed 0 1" using run_claimed by auto
  with mpsc_no_stale_write [OF s] show ?thesis by blast
qed

theorem mpsc_quiescent_witness:
  "\<exists>s. mpsc_reachable s \<and> pushed s = [1] \<and> queue_rep (heap s) (queue s) [1] \<and>
       fst (queue_try_pop (heap s) (queue s)) = Some 1"
proof -
  obtain s where s: "mpsc_reachable s" "\<forall>p. producers s p = P_Idle" "consumer s = C_Idle"
    "pushed s = [1]" "popped s = []" using run_linked by auto
  with mpsc_quiescent [OF s(1-3)] show ?thesis by auto
qed

end
