(* ===== verification/Exec_Mailbox.thy ===== *)
theory Exec_Mailbox
  imports Exec_Queue
begin

text \<open>
  Tasks, mailboxes, contexts, executor records and the inline executor:
  \<^verbatim>\<open>src/lh/exec/task.c\<close>, \<^verbatim>\<open>mailbox.c\<close>, \<^verbatim>\<open>context.c\<close>, \<^verbatim>\<open>executor.c\<close> and \<^verbatim>\<open>inline.c\<close>.

  The state is a \<open>world\<close>: the queue links of all task records, the other members of each record,
  the mailboxes, and a log of the callbacks that were called, in order. The callbacks belong to the
  program that uses the library, so they are parameters (record \<open>callbacks\<close>) that may change the
  world in any way; a lemma that needs them to keep their hands off the library's records says so
  (\<open>quiet\<close>).
\<close>

section \<open>Data\<close>

type_synonym cb = nat

record task =
  work_cb :: cb
  complete_cb :: "cb option"
  destroy_cb :: "cb option"
  user :: ptr
  mailbox_ref :: ptr
  cancelled :: bool

record mailbox =
  capacity :: uint_t
  used :: uint_t
  finished :: exec_queue

record exec_context =
  open_cb :: "cb option"
  close_cb :: "cb option"
  context_user :: ptr

datatype call =
    Work cb ptr ptr
  | Complete cb ptr
  | Destroy cb ptr
  | Open cb ptr
  | Close cb ptr ptr

text \<open>How an executor stops; a later kind is stricter (\<^verbatim>\<open>exec/stop/kind.h\<close>).\<close>

datatype stop_kind = Stop_None | Stop_Drain | Stop_Cancel

text \<open>
  \<^verbatim>\<open>struct lh_exec_thread\<close>. Of the OS objects the model keeps whether each is open; what the mutex
  does is the atomicity of the steps in theory \<open>Exec_Thread\<close>.
\<close>

record os_objects =
  mutex_open :: bool
  wake_open :: bool
  end_open :: bool
  thread_started :: bool

record exec_thread =
  pending :: exec_queue
  thread_context :: exec_context
  local :: ptr
  stop :: stop_kind
  ended :: bool
  os :: os_objects

record world =
  next_of :: links
  task_at :: "addr \<Rightarrow> task"
  box_at :: "addr \<Rightarrow> mailbox"
  thread_at :: "addr \<Rightarrow> exec_thread"
  calls :: "call list"

record callbacks =
  work_fn :: "cb \<Rightarrow> ptr \<Rightarrow> ptr \<Rightarrow> world \<Rightarrow> world"
  done_fn :: "cb \<Rightarrow> ptr \<Rightarrow> world \<Rightarrow> world"
  open_fn :: "cb \<Rightarrow> ptr \<Rightarrow> world \<Rightarrow> ptr \<times> world"
  close_fn :: "cb \<Rightarrow> ptr \<Rightarrow> ptr \<Rightarrow> world \<Rightarrow> world"

section \<open>Tasks\<close>

definition task_init :: "addr \<Rightarrow> cb \<Rightarrow> cb option \<Rightarrow> cb option \<Rightarrow> ptr \<Rightarrow> world \<Rightarrow> world" where
  "task_init a work complete destroy u w =
     w\<lparr>task_at := (task_at w)(a := \<lparr>work_cb = work, complete_cb = complete, destroy_cb = destroy,
                                   user = u, mailbox_ref = None, cancelled = False\<rparr>),
       next_of := (next_of w)(a := None)\<rparr>"

definition task_set_mailbox :: "addr \<Rightarrow> ptr \<Rightarrow> world \<Rightarrow> world" where
  "task_set_mailbox a m w = w\<lparr>task_at := (task_at w)(a := (task_at w a)\<lparr>mailbox_ref := m\<rparr>)\<rparr>"

definition task_set_cancelled :: "addr \<Rightarrow> bool \<Rightarrow> world \<Rightarrow> world" where
  "task_set_cancelled a c w = w\<lparr>task_at := (task_at w)(a := (task_at w a)\<lparr>cancelled := c\<rparr>)\<rparr>"

definition called :: "call \<Rightarrow> world \<Rightarrow> world" where
  "called c w = w\<lparr>calls := calls w @ [c]\<rparr>"

definition task_run_work :: "callbacks \<Rightarrow> addr \<Rightarrow> ptr \<Rightarrow> world \<Rightarrow> world" where
  "task_run_work e a lcl w =
     (let f = work_cb (task_at w a); u = user (task_at w a)
      in work_fn e f u lcl (called (Work f u lcl) w))"

definition task_run_complete :: "callbacks \<Rightarrow> addr \<Rightarrow> world \<Rightarrow> world" where
  "task_run_complete e a w =
     (case complete_cb (task_at w a) of
        None \<Rightarrow> w
      | Some f \<Rightarrow> (let u = user (task_at w a) in done_fn e f u (called (Complete f u) w)))"

definition task_run_destroy :: "callbacks \<Rightarrow> addr \<Rightarrow> world \<Rightarrow> world" where
  "task_run_destroy e a w =
     (case destroy_cb (task_at w a) of
        None \<Rightarrow> w
      | Some f \<Rightarrow> (let u = user (task_at w a) in done_fn e f u (called (Destroy f u) w)))"

section \<open>Contexts\<close>

definition context_init :: "cb option \<Rightarrow> cb option \<Rightarrow> ptr \<Rightarrow> exec_context" where
  "context_init op cl u = \<lparr>open_cb = op, close_cb = cl, context_user = u\<rparr>"

definition context_run_open :: "callbacks \<Rightarrow> exec_context \<Rightarrow> world \<Rightarrow> ptr \<times> world" where
  "context_run_open e c w =
     (case open_cb c of
        None \<Rightarrow> (None, w)
      | Some f \<Rightarrow> open_fn e f (context_user c) (called (Open f (context_user c)) w))"

definition context_run_close :: "callbacks \<Rightarrow> exec_context \<Rightarrow> ptr \<Rightarrow> world \<Rightarrow> world" where
  "context_run_close e c lcl w =
     (case close_cb c of
        None \<Rightarrow> w
      | Some f \<Rightarrow> close_fn e f (context_user c) lcl (called (Close f (context_user c) lcl) w))"

definition context_assign :: "exec_context \<Rightarrow> exec_context" where
  "context_assign other = context_init (open_cb other) (close_cb other) (context_user other)"

section \<open>Mailboxes\<close>

definition box_set :: "addr \<Rightarrow> mailbox \<Rightarrow> world \<Rightarrow> world" where
  "box_set m b w = w\<lparr>box_at := (box_at w)(m := b)\<rparr>"

definition mailbox_init :: "addr \<Rightarrow> uint_t \<Rightarrow> addr \<Rightarrow> world \<Rightarrow> world" where
  "mailbox_init m c st w =
     (let (h, q) = queue_init (next_of w) st
      in (box_set m \<lparr>capacity = c, used = 0, finished = q\<rparr> w)\<lparr>next_of := h\<rparr>)"

text \<open>
  One thread alone: the compare and exchange of \<^verbatim>\<open>lh_exec_mailbox_try_reserve\<close> sees the count just
  read. The loop under contention is the step relation of theory \<open>Exec_Reserve\<close>.
\<close>

definition mailbox_try_reserve :: "addr \<Rightarrow> world \<Rightarrow> bool \<times> world" where
  "mailbox_try_reserve m w =
     (let seen = used (box_at w m)
      in if seen \<ge> capacity (box_at w m) then (False, w)
         else (True, box_set m ((box_at w m)\<lparr>used := seen + 1\<rparr>) w))"

definition mailbox_release :: "addr \<Rightarrow> world \<Rightarrow> world" where
  "mailbox_release m w = box_set m ((box_at w m)\<lparr>used := used (box_at w m) - 1\<rparr>) w"

definition mailbox_post :: "addr \<Rightarrow> addr \<Rightarrow> world \<Rightarrow> world" where
  "mailbox_post m a w =
     (let (h, q) = queue_push (next_of w) (finished (box_at w m)) a
      in (box_set m ((box_at w m)\<lparr>finished := q\<rparr>) w)\<lparr>next_of := h\<rparr>)"

definition mailbox_try_take :: "addr \<Rightarrow> world \<Rightarrow> ptr \<times> world" where
  "mailbox_try_take m w =
     (let (r, h, q) = queue_try_pop (next_of w) (finished (box_at w m))
      in (r, (box_set m ((box_at w m)\<lparr>finished := q\<rparr>) w)\<lparr>next_of := h\<rparr>))"

definition mailbox_deliver :: "callbacks \<Rightarrow> addr \<Rightarrow> addr \<Rightarrow> world \<Rightarrow> world" where
  "mailbox_deliver e m a w =
     (let w1 = (if \<not> cancelled (task_at w a) then task_run_complete e a w else w);
          w2 = task_run_destroy e a w1
      in mailbox_release m w2)"

function dispatch_loop :: "callbacks \<Rightarrow> addr \<Rightarrow> uint_t \<Rightarrow> uint_t \<Rightarrow> world \<Rightarrow> uint_t \<times> world" where
  "dispatch_loop e m limit count w =
     (if count < limit then
        (case mailbox_try_take m w of
           (None, w') \<Rightarrow> (count, w')
         | (Some a, w') \<Rightarrow> dispatch_loop e m limit (count + 1) (mailbox_deliver e m a w'))
      else (count, w))"
  by pat_completeness auto
termination
  by (relation "measure (\<lambda>(e, m, limit, count, w). unat limit - unat count)")
    (auto simp: unat_inc_less word_less_nat_alt)

declare dispatch_loop.simps [simp del]

definition mailbox_dispatch :: "callbacks \<Rightarrow> addr \<Rightarrow> world \<Rightarrow> uint_t \<times> world" where
  "mailbox_dispatch e m w = dispatch_loop e m (used (box_at w m)) 0 w"

section \<open>Executors\<close>

text \<open>
  An executor record is its accept call with the context bound: it takes the task and says whether it
  was accepted, or fails a runtime check.
\<close>

type_synonym executor = "addr \<Rightarrow> world \<Rightarrow> error_code + (bool \<times> world)"

definition executor_try_accept :: "executor \<Rightarrow> addr \<Rightarrow> world \<Rightarrow> error_code + (bool \<times> world)" where
  "executor_try_accept accept a w = accept a w"

definition executor_try_submit :: "executor \<Rightarrow> addr \<Rightarrow> addr \<Rightarrow> world \<Rightarrow> error_code + (bool \<times> world)" where
  "executor_try_submit x a m w =
     (let (reserved, w1) = mailbox_try_reserve m w
      in if \<not> reserved then Inr (False, w1)
         else bind_result (executor_try_accept x a (task_set_mailbox a (Some m) w1))
           (\<lambda>(accepted, w2). if accepted then Inr (True, w2) else Inr (False, mailbox_release m w2)))"

definition executor_submit :: "executor \<Rightarrow> addr \<Rightarrow> addr \<Rightarrow> world \<Rightarrow> error_code + world" where
  "executor_submit x a m w =
     bind_result (executor_try_submit x a m w)
       (\<lambda>(accepted, w1). if accepted then Inr w1 else Inl Not_accepted)"

text \<open>A task whose mailbox is null fails the reference check of \<^verbatim>\<open>lh_exec_mailbox_get_finished_mut\<close>.\<close>

definition inline_try_accept :: "callbacks \<Rightarrow> executor" where
  "inline_try_accept e a w =
     (let w1 = task_run_work e a None w
      in case mailbox_ref (task_at w1 a) of
           None \<Rightarrow> Inl Null_pointer
         | Some m \<Rightarrow> Inr (True, mailbox_post m a w1))"

section \<open>Frames\<close>

lemmas world_ops = task_set_mailbox_def task_set_cancelled_def called_def box_set_def

lemma called_frame [simp]:
  "next_of (called c w) = next_of w" "task_at (called c w) = task_at w"
  "box_at (called c w) = box_at w" "thread_at (called c w) = thread_at w" "calls (called c w) = calls w @ [c]"
  by (simp_all add: called_def)

lemma mailbox_release_frame [simp]:
  "next_of (mailbox_release m w) = next_of w" "task_at (mailbox_release m w) = task_at w"
  "calls (mailbox_release m w) = calls w" "finished (box_at (mailbox_release m w) n) = finished (box_at w n)"
  "capacity (box_at (mailbox_release m w) n) = capacity (box_at w n)"
  "used (box_at (mailbox_release m w) n) = (if n = m then used (box_at w m) - 1 else used (box_at w n))"
  by (simp_all add: mailbox_release_def box_set_def)

lemma release_after_reserve:
  "mailbox_try_reserve m w = (True, w') \<Longrightarrow> mailbox_release m w' = w"
  by (auto simp: mailbox_try_reserve_def mailbox_release_def box_set_def Let_def split: if_splits)

lemma release_set_mailbox:
  "mailbox_release m (task_set_mailbox a p w) = task_set_mailbox a p (mailbox_release m w)"
  by (simp add: mailbox_release_def box_set_def task_set_mailbox_def)

section \<open>Reservations\<close>

lemma try_reserve_full: "used (box_at w m) \<ge> capacity (box_at w m) \<Longrightarrow> mailbox_try_reserve m w = (False, w)"
  by (simp add: mailbox_try_reserve_def)

lemma try_reserve_room:
  assumes "used (box_at w m) < capacity (box_at w m)" "mailbox_try_reserve m w = (r, w')"
  shows "r" and "unat (used (box_at w' m)) = Suc (unat (used (box_at w m)))"
    and "used (box_at w' m) \<le> capacity (box_at w' m)"
    and "next_of w' = next_of w" and "task_at w' = task_at w" and "calls w' = calls w"
    and "finished (box_at w' n) = finished (box_at w n)" and "n \<noteq> m \<Longrightarrow> box_at w' n = box_at w n"
  using assms
  by (auto simp: mailbox_try_reserve_def box_set_def Let_def unat_inc_less inc_le not_le split: if_splits)

section \<open>What the mailbox queue holds\<close>

text \<open>\<open>box_rep w m xs\<close>: mailbox \<open>m\<close> holds the finished tasks \<open>xs\<close>, oldest first.\<close>

definition box_rep :: "world \<Rightarrow> addr \<Rightarrow> addr list \<Rightarrow> bool" where
  "box_rep w m xs \<longleftrightarrow> queue_rep (next_of w) (finished (box_at w m)) xs"

lemma box_rep_cong:
  "next_of w' = next_of w \<Longrightarrow> finished (box_at w' m) = finished (box_at w m) \<Longrightarrow>
   box_rep w' m xs = box_rep w m xs"
  by (simp add: box_rep_def)

lemma mailbox_init_rep: "box_rep (mailbox_init m c st w) m [] \<and> used (box_at (mailbox_init m c st w) m) = 0"
  using queue_init_rep [of "next_of w" st]
  by (auto simp: box_rep_def mailbox_init_def box_set_def split: prod.splits)

lemma mailbox_post_rep:
  assumes "box_rep w m xs" "a \<noteq> q_stub (finished (box_at w m))" "a \<notin> set xs"
  shows "box_rep (mailbox_post m a w) m (xs @ [a])"
    and "task_at (mailbox_post m a w) = task_at w" and "calls (mailbox_post m a w) = calls w"
    and "used (box_at (mailbox_post m a w) n) = used (box_at w n)"
    and "capacity (box_at (mailbox_post m a w) n) = capacity (box_at w n)"
    and "q_stub (finished (box_at (mailbox_post m a w) m)) = q_stub (finished (box_at w m))"
  using assms mpsc.push_rep [of "next_of w" "finished (box_at w m)" xs a]
  by (auto simp: mailbox_post_def box_set_def box_rep_def split: prod.splits)

lemma mailbox_try_take_rep:
  assumes "box_rep w m xs" "mailbox_try_take m w = (r, w')"
  shows "r = (case xs of [] \<Rightarrow> None | x # _ \<Rightarrow> Some x)" and "box_rep w' m (tl xs)"
    and "task_at w' = task_at w" and "calls w' = calls w"
    and "used (box_at w' n) = used (box_at w n)" and "capacity (box_at w' n) = capacity (box_at w n)"
  using assms mpsc.pop_result [of "next_of w" "finished (box_at w m)" xs]
  by (auto simp: mailbox_try_take_def box_set_def box_rep_def split: prod.splits)

section \<open>Dispatch\<close>

text \<open>The calls that the delivery of a task makes.\<close>

definition done_calls :: "task \<Rightarrow> call list" where
  "done_calls t =
     (if cancelled t then [] else case complete_cb t of None \<Rightarrow> [] | Some f \<Rightarrow> [Complete f (user t)]) @
     (case destroy_cb t of None \<Rightarrow> [] | Some f \<Rightarrow> [Destroy f (user t)])"

text \<open>Callbacks that leave the library's records to the library.\<close>

definition quiet :: "callbacks \<Rightarrow> bool" where
  "quiet e \<longleftrightarrow>
     (\<forall>f u l w. work_fn e f u l w = w) \<and> (\<forall>f u w. done_fn e f u w = w) \<and>
     (\<forall>f u w. snd (open_fn e f u w) = w) \<and> (\<forall>f u l w. close_fn e f u l w = w)"

lemma deliver_quiet:
  assumes "quiet e"
  shows "mailbox_deliver e m a w = mailbox_release m (w\<lparr>calls := calls w @ done_calls (task_at w a)\<rparr>)"
  using assms
  by (auto simp: mailbox_deliver_def task_run_complete_def task_run_destroy_def done_calls_def quiet_def
      called_def Let_def split: option.splits)

lemma dispatch_loop_bound: "count \<le> limit \<Longrightarrow> fst (dispatch_loop e m limit count w) \<le> limit"
proof (induction e m limit count w rule: dispatch_loop.induct)
  case (1 e m limit count w)
  then show ?case
    by (subst dispatch_loop.simps) (auto simp: inc_le split: prod.splits option.splits)
qed

lemma dispatch_loop_quiet:
  assumes "quiet e" "box_rep w m xs" "length xs + unat count \<le> unat limit"
    "dispatch_loop e m limit count w = (n, w')"
  shows "n = count + of_nat (length xs) \<and> box_rep w' m [] \<and> task_at w' = task_at w \<and>
         used (box_at w' m) = used (box_at w m) - of_nat (length xs) \<and>
         capacity (box_at w' m) = capacity (box_at w m) \<and>
         calls w' = calls w @ concat (map (\<lambda>a. done_calls (task_at w a)) xs)"
  using assms(2-4)
proof (induction xs arbitrary: count w)
  case Nil
  obtain r w1 where t: "mailbox_try_take m w = (r, w1)" by fastforce
  with mailbox_try_take_rep [OF Nil.prems(1) t] Nil.prems(1,3) show ?case
    by (auto simp: dispatch_loop.simps [of e m limit count w] split: if_splits)
next
  case (Cons x xs)
  obtain r w1 where t: "mailbox_try_take m w = (r, w1)" by fastforce
  note take = mailbox_try_take_rep [OF Cons.prems(1) t]
  have lt: "count < limit" using Cons.prems(2) by (simp add: word_less_nat_alt)
  let ?w2 = "mailbox_deliver e m x w1"
  have w2: "box_rep ?w2 m xs" "task_at ?w2 = task_at w" "capacity (box_at ?w2 m) = capacity (box_at w m)"
    "used (box_at ?w2 m) = used (box_at w m) - 1" "calls ?w2 = calls w @ done_calls (task_at w x)"
    using take by (auto simp: deliver_quiet [OF assms(1)] box_rep_def)
  have "dispatch_loop e m limit (count + 1) ?w2 = (n, w')"
    using Cons.prems(3) t take(1) lt by (simp add: dispatch_loop.simps [of e m limit count w])
  from Cons.IH [OF w2(1) _ this] Cons.prems(2) w2 show ?case
    by (auto simp: unat_inc_less [OF lt])
qed

section \<open>The executor contract\<close>

text \<open>
  What \<^verbatim>\<open>lh_exec_executor_try_submit\<close> relies on: an accept call that refuses a task has changed
  nothing. Both executors of the library keep it.
\<close>

locale acceptor =
  fixes accept :: executor
  assumes refuse: "accept a w = Inr (False, w') \<Longrightarrow> w' = w"
begin

lemma try_submit_refused:
  assumes "executor_try_submit accept a m w = Inr (False, w')"
  shows "w' = w \<or> w' = task_set_mailbox a (Some m) w"
proof (cases "mailbox_try_reserve m w")
  case (Pair r w1)
  show ?thesis
  proof (cases r)
    case False
    with assms Pair show ?thesis
      by (auto simp: executor_try_submit_def mailbox_try_reserve_def Let_def split: if_splits)
  next
    case True
    with assms Pair obtain w2 where
      "accept a (task_set_mailbox a (Some m) w1) = Inr (False, w2)" "w' = mailbox_release m w2"
      by (cases "accept a (task_set_mailbox a (Some m) w1)")
        (auto simp: executor_try_submit_def executor_try_accept_def split: if_splits)
    with refuse have "w' = mailbox_release m (task_set_mailbox a (Some m) w1)" by blast
    with Pair True show ?thesis by (simp add: release_set_mailbox release_after_reserve)
  qed
qed

end

interpretation inline: acceptor "inline_try_accept e"
  by unfold_locales (auto simp: inline_try_accept_def Let_def split: option.splits)


text \<open>
  With callbacks that leave the library's records alone, one dispatch delivers every finished
  task, in the order they were posted: complete unless the task was cancelled, then destroy; it
  counts them, empties the queue and gives exactly that many places back.
\<close>

theorem dispatch_delivers:
  assumes "quiet e" "box_rep w m xs" "length xs \<le> unat (used (box_at w m))"
    "mailbox_dispatch e m w = (n, w')"
  shows "unat n = length xs \<and> box_rep w' m [] \<and>
         unat (used (box_at w' m)) = unat (used (box_at w m)) - length xs \<and>
         calls w' = calls w @ concat (map (\<lambda>a. done_calls (task_at w a)) xs)"
proof -
  have "length xs < 2 ^ 32" using assms(3) unsigned_less [of "used (box_at w m)", where ?'a = nat] by simp
  then have u: "unat (of_nat (length xs) :: uint_t) = length xs" by (simp add: unat_of_nat)
  with assms(3) have "unat (used (box_at w m) - of_nat (length xs)) = unat (used (box_at w m)) - length xs"
    by (simp add: unat_sub word_le_nat_alt)
  with u dispatch_loop_quiet [of e w m xs 0 "used (box_at w m)" n w'] assms show ?thesis
    by (simp add: mailbox_dispatch_def)
qed

section \<open>The inline executor\<close>

lemma run_work_quiet:
  "quiet e \<Longrightarrow> task_run_work e a lcl w = called (Work (work_cb (task_at w a)) (user (task_at w a)) lcl) w"
  by (simp add: task_run_work_def quiet_def Let_def)

lemma inline_submit:
  assumes "quiet e" "box_rep w m xs" "used (box_at w m) < capacity (box_at w m)"
    and "a \<notin> set xs" "a \<noteq> q_stub (finished (box_at w m))"
  shows "\<exists>w'. executor_submit (inline_try_accept e) a m w = Inr w' \<and> box_rep w' m (xs @ [a]) \<and>
           unat (used (box_at w' m)) = Suc (unat (used (box_at w m))) \<and>
           task_at w' = (task_at w)(a := (task_at w a)\<lparr>mailbox_ref := Some m\<rparr>) \<and>
           calls w' = calls w @ [Work (work_cb (task_at w a)) (user (task_at w a)) None]"
proof -
  obtain r w1 where r: "mailbox_try_reserve m w = (r, w1)" by fastforce
  note res = try_reserve_room [OF assms(3) r]
  let ?w2 = "task_set_mailbox a (Some m) w1"
  let ?w3 = "called (Work (work_cb (task_at w a)) (user (task_at w a)) None) ?w2"
  have "box_rep ?w3 m xs" "a \<noteq> q_stub (finished (box_at ?w3 m))"
    using assms res by (simp_all add: box_rep_def task_set_mailbox_def)
  note post = mailbox_post_rep [OF this assms(4)]
  have "executor_submit (inline_try_accept e) a m w = Inr (mailbox_post m a ?w3)"
    using r res run_work_quiet [OF assms(1)]
    by (simp add: executor_submit_def executor_try_submit_def executor_try_accept_def
        inline_try_accept_def Let_def task_set_mailbox_def)
  with post res show ?thesis by (auto simp: task_set_mailbox_def)
qed

text \<open>
  A task submitted to the inline executor with room in an idle mailbox and dispatched once has its
  work, complete and destroy called in this order, each once, and its place is free again.
\<close>

theorem inline_lifecycle:
  assumes "quiet e" "box_rep w m []" "used (box_at w m) = 0" "0 < capacity (box_at w m)"
    and "a \<noteq> q_stub (finished (box_at w m))"
    and "task_at w a = \<lparr>work_cb = f, complete_cb = Some g, destroy_cb = Some d, user = u,
                        mailbox_ref = None, cancelled = False\<rparr>"
  shows "\<exists>w1 w2. executor_submit (inline_try_accept e) a m w = Inr w1 \<and>
           mailbox_dispatch e m w1 = (1, w2) \<and> used (box_at w2 m) = 0 \<and> box_rep w2 m [] \<and>
           calls w2 = calls w @ [Work f u None, Complete g u, Destroy d u]"
proof -
  from inline_submit [OF assms(1,2), of a] assms obtain w1 where
    w1: "executor_submit (inline_try_accept e) a m w = Inr w1" "box_rep w1 m [a]"
      "unat (used (box_at w1 m)) = 1" "calls w1 = calls w @ [Work f u None]"
      "task_at w1 = (task_at w)(a := (task_at w a)\<lparr>mailbox_ref := Some m\<rparr>)" by auto
  obtain n w2 where d: "dispatch_loop e m (used (box_at w1 m)) 0 w1 = (n, w2)" by fastforce
  have "used (box_at w1 m) = 1" using w1(3) by (simp add: word_unat_eq_iff)
  with dispatch_loop_quiet [OF assms(1) w1(2) _ d] w1 assms(6) d show ?thesis
    by (auto simp: mailbox_dispatch_def done_calls_def)
qed

section \<open>A mailbox with a task\<close>

definition no_op :: callbacks where
  "no_op = \<lparr>work_fn = (\<lambda>_ _ _ w. w), done_fn = (\<lambda>_ _ w. w), open_fn = (\<lambda>_ _ w. (None, w)),
            close_fn = (\<lambda>_ _ _ w. w)\<rparr>"

text \<open>Mailbox 7 with two places and stub 0, and a fresh task 1.\<close>

definition one_task :: world where
  "one_task =
     task_init 1 10 (Some 11) (Some 12) (Some 5)
       (mailbox_init 7 2 0
         \<lparr>next_of = Map.empty,
          task_at = (\<lambda>_. \<lparr>work_cb = 0, complete_cb = None, destroy_cb = None, user = None,
                          mailbox_ref = None, cancelled = False\<rparr>),
          box_at = (\<lambda>_. \<lparr>capacity = 0, used = 0, finished = \<lparr>q_back = 0, q_front = 0, q_stub = 0\<rparr>\<rparr>),
          thread_at = (\<lambda>_. \<lparr>pending = \<lparr>q_back = 0, q_front = 0, q_stub = 0\<rparr>,
                            thread_context = context_init None None None, local = None,
                            stop = Stop_None, ended = False,
                            os = \<lparr>mutex_open = False, wake_open = False, end_open = False,
                                  thread_started = False\<rparr>\<rparr>),
          calls = []\<rparr>)"

lemma no_op_quiet: "quiet no_op"
  by (simp add: quiet_def no_op_def)

lemma one_task_rep: "box_rep one_task 7 []"
  by (auto simp: one_task_def task_init_def mailbox_init_def queue_init_def box_set_def box_rep_def
      queue_rep_def queue_nodes_def intro!: exI [of _ "[0]"])

lemma one_task_fields:
  "used (box_at one_task 7) = 0" "capacity (box_at one_task 7) = 2"
  "q_stub (finished (box_at one_task 7)) = 0" "calls one_task = []"
  "task_at one_task 1 = \<lparr>work_cb = 10, complete_cb = Some 11, destroy_cb = Some 12, user = Some 5,
                         mailbox_ref = None, cancelled = False\<rparr>"
  by (simp_all add: one_task_def task_init_def mailbox_init_def queue_init_def box_set_def)

theorem inline_lifecycle_witness:
  "\<exists>w1 w2. executor_submit (inline_try_accept no_op) 1 7 one_task = Inr w1 \<and>
     mailbox_dispatch no_op 7 w1 = (1, w2) \<and>
     calls w2 = [Work 10 (Some 5) None, Complete 11 (Some 5), Destroy 12 (Some 5)]"
  using inline_lifecycle [OF no_op_quiet one_task_rep one_task_fields(1) _ _ one_task_fields(5)]
  by (auto simp: one_task_fields)

theorem dispatch_delivers_witness:
  "\<exists>w1 n w'. executor_submit (inline_try_accept no_op) 1 7 one_task = Inr w1 \<and>
     mailbox_dispatch no_op 7 w1 = (n, w') \<and> unat n = 1 \<and> box_rep w' 7 []"
proof -
  from inline_submit [OF no_op_quiet one_task_rep, of 1] obtain w1 where
    w1: "executor_submit (inline_try_accept no_op) 1 7 one_task = Inr w1" "box_rep w1 7 [1]"
      "unat (used (box_at w1 7)) = 1" by (auto simp: one_task_fields)
  obtain n w' where d: "mailbox_dispatch no_op 7 w1 = (n, w')" by fastforce
  with w1 dispatch_delivers [OF no_op_quiet w1(2) _ d] show ?thesis by auto
qed

end
