(* ===== verification/Exec_Reserve.thy ===== *)
theory Exec_Reserve
  imports Exec_Mailbox
begin

text \<open>
  The places of a mailbox under contention: \<^verbatim>\<open>lh_exec_mailbox_try_reserve\<close> and
  \<^verbatim>\<open>lh_exec_mailbox_release\<close> of \<^verbatim>\<open>src/lh/exec/mailbox.c\<close>, with every atomic access a step of its own and
  any number of submissions in flight. A submission is one call of the reserve loop together with the
  place it may obtain.
\<close>

datatype submission =
    S_Trying
  | S_Seen uint_t
  | S_Holding
  | S_Refused
  | S_Released

record places =
  room :: uint_t
  taken :: uint_t
  submissions :: "nat \<rightharpoonup> submission"

definition places_start :: "uint_t \<Rightarrow> places" where
  "places_start c = \<lparr>room = c, taken = 0, submissions = Map.empty\<rparr>"

inductive places_step :: "places \<Rightarrow> places \<Rightarrow> bool" where
  enter:
  "submissions s i = None \<Longrightarrow> places_step s (s\<lparr>submissions := (submissions s)(i \<mapsto> S_Trying)\<rparr>)"
| read_full:
  "submissions s i = Some S_Trying \<Longrightarrow> taken s \<ge> room s \<Longrightarrow>
   places_step s (s\<lparr>submissions := (submissions s)(i \<mapsto> S_Refused)\<rparr>)"
| read_room:
  "submissions s i = Some S_Trying \<Longrightarrow> taken s < room s \<Longrightarrow>
   places_step s (s\<lparr>submissions := (submissions s)(i \<mapsto> S_Seen (taken s))\<rparr>)"
| exchange:
  "submissions s i = Some (S_Seen seen) \<Longrightarrow> taken s = seen \<Longrightarrow>
   places_step s (s\<lparr>taken := seen + 1, submissions := (submissions s)(i \<mapsto> S_Holding)\<rparr>)"
| exchange_lost:
  "submissions s i = Some (S_Seen seen) \<Longrightarrow> taken s \<noteq> seen \<Longrightarrow>
   places_step s (s\<lparr>submissions := (submissions s)(i \<mapsto> S_Trying)\<rparr>)"
| release:
  "submissions s i = Some S_Holding \<Longrightarrow>
   places_step s (s\<lparr>taken := taken s - 1, submissions := (submissions s)(i \<mapsto> S_Released)\<rparr>)"

inductive places_reachable :: "uint_t \<Rightarrow> places \<Rightarrow> bool" for c where
  start: "places_reachable c (places_start c)"
| step: "places_reachable c s \<Longrightarrow> places_step s t \<Longrightarrow> places_reachable c t"

definition holders :: "places \<Rightarrow> nat set" where
  "holders s = {i. submissions s i = Some S_Holding}"

definition places_inv :: "uint_t \<Rightarrow> places \<Rightarrow> bool" where
  "places_inv c s \<longleftrightarrow>
     room s = c \<and> taken s \<le> c \<and> finite (holders s) \<and> card (holders s) = unat (taken s) \<and>
     (\<forall>i seen. submissions s i = Some (S_Seen seen) \<longrightarrow> seen < c)"

lemma holders_upd:
  "holders (s\<lparr>submissions := (submissions s)(i \<mapsto> x)\<rparr>) =
     (if x = S_Holding then insert i (holders s) else holders s - {i})"
  "holders (s\<lparr>taken := k, submissions := (submissions s)(i \<mapsto> x)\<rparr>) =
     (if x = S_Holding then insert i (holders s) else holders s - {i})"
  by (auto simp: holders_def)

lemma not_holding: "submissions s i \<noteq> Some S_Holding \<Longrightarrow> i \<notin> holders s"
  by (simp add: holders_def)

lemma places_step_inv: "places_step s t \<Longrightarrow> places_inv c s \<Longrightarrow> places_inv c t"
proof (induction rule: places_step.induct)
  case (exchange s i seen)
  then have "seen < c" "i \<notin> holders s" by (auto simp: places_inv_def holders_def)
  moreover from this(1) have "unat (seen + 1) = Suc (unat seen)" "seen + 1 \<le> c"
    by (simp_all add: unat_inc_less inc_le)
  ultimately show ?case using exchange by (auto simp: places_inv_def holders_upd)
next
  case (release s i)
  then have i: "i \<in> holders s" "finite (holders s)" by (auto simp: places_inv_def holders_def)
  then have "0 < card (holders s)" by (auto simp: card_gt_0_iff)
  with release have pos: "0 < taken s" by (simp add: places_inv_def word_less_nat_alt)
  then have "taken s - 1 \<le> taken s" by (simp add: word_le_nat_alt unat_dec_pos)
  with release i pos show ?case by (auto simp: places_inv_def holders_upd unat_dec_pos)
qed (auto simp: places_inv_def holders_upd not_holding)

lemma places_reachable_inv: "places_reachable c s \<Longrightarrow> places_inv c s"
proof (induction rule: places_reachable.induct)
  case start
  then show ?case by (simp add: places_inv_def places_start_def holders_def)
qed (rule places_step_inv)

text \<open>
  C9: however submissions race, the count of taken places is exactly the number of submissions that
  hold one and never passes the capacity.
\<close>

theorem places_bounded:
  assumes "places_reachable c s"
  shows "unat (taken s) = card {i. submissions s i = Some S_Holding} \<and> taken s \<le> c"
  using places_reachable_inv [OF assms] by (simp add: places_inv_def holders_def)

text \<open>
  An exchange whose snapshot of the count is still current succeeds and adds exactly one holder: a
  submission goes round again only when another one changed the count in the meantime, so the reserve
  loop is lock-free.
\<close>

theorem reserve_progress:
  assumes "places_reachable c s" "submissions s i = Some (S_Seen seen)" "taken s = seen"
  shows "\<exists>t. places_step s t \<and> submissions t i = Some S_Holding \<and>
             card {j. submissions t j = Some S_Holding} = Suc (card {j. submissions s j = Some S_Holding})"
proof -
  let ?t = "s\<lparr>taken := seen + 1, submissions := (submissions s)(i \<mapsto> S_Holding)\<rparr>"
  have st: "places_step s ?t" by (rule places_step.exchange) (use assms in auto)
  have inv: "places_inv c s" "places_inv c ?t"
    using places_reachable_inv [OF assms(1)] places_step_inv [OF st] by auto
  then have "seen < c" using assms by (auto simp: places_inv_def)
  with inv assms(3) have "card (holders ?t) = Suc (card (holders s))"
    by (simp add: places_inv_def unat_inc_less)
  with st show ?thesis by (intro exI [of _ ?t]) (simp add: holders_def)
qed

lemma places_run: "\<exists>s. places_reachable 1 s \<and> submissions s 0 = Some (S_Seen 0) \<and> taken s = 0"
proof -
  let ?s1 = "(places_start 1)\<lparr>submissions := (submissions (places_start 1))(0 \<mapsto> S_Trying)\<rparr>"
  have "places_reachable 1 ?s1"
    by (rule places_reachable.step [OF places_reachable.start], rule places_step.enter)
      (simp add: places_start_def)
  then have "places_reachable 1 (?s1\<lparr>submissions := (submissions ?s1)(0 \<mapsto> S_Seen (taken ?s1))\<rparr>)"
    by (rule places_reachable.step, intro places_step.read_room) (simp_all add: places_start_def)
  then show ?thesis by (intro exI conjI, assumption) (simp_all add: places_start_def)
qed

theorem places_bounded_witness:
  "\<exists>s. places_reachable 1 s \<and> unat (taken s) = card {i. submissions s i = Some S_Holding} \<and> taken s \<le> 1"
  using places_run places_bounded by blast

theorem reserve_progress_witness:
  "\<exists>s t. places_reachable 1 s \<and> places_step s t \<and> submissions t 0 = Some S_Holding"
  using places_run reserve_progress by metis

end
