(* ===== verification/Exec_Thread.thy ===== *)
theory Exec_Thread
  imports Exec_Mailbox
begin

text \<open>
  The thread executor, \<^verbatim>\<open>src/lh/exec/thread.c\<close>: the operations as functions on the world. A section
  under the executor's mutex is one function; theory \<open>Exec_System\<close> lets them interleave.
\<close>

section \<open>Stop kinds are ordered\<close>

fun stop_value :: "stop_kind \<Rightarrow> nat" where
  "stop_value Stop_None = 0"
| "stop_value Stop_Drain = 1"
| "stop_value Stop_Cancel = 2"

instantiation stop_kind :: linorder
begin

definition less_eq_stop_kind :: "stop_kind \<Rightarrow> stop_kind \<Rightarrow> bool" where
  "less_eq_stop_kind x y \<longleftrightarrow> stop_value x \<le> stop_value y"

definition less_stop_kind :: "stop_kind \<Rightarrow> stop_kind \<Rightarrow> bool" where
  "less_stop_kind x y \<longleftrightarrow> stop_value x < stop_value y"

instance
proof
  fix x y :: stop_kind
  show "x \<le> y \<Longrightarrow> y \<le> x \<Longrightarrow> x = y"
    by (cases x; cases y) (simp_all add: less_eq_stop_kind_def)
qed (auto simp: less_eq_stop_kind_def less_stop_kind_def)

end

lemma stop_none_least [simp]: "Stop_None \<le> k"
  by (simp add: less_eq_stop_kind_def)

lemma stop_le_none [simp]: "k \<le> Stop_None \<longleftrightarrow> k = Stop_None"
  by (cases k) (simp_all add: less_eq_stop_kind_def)

lemma stop_cancel_le [simp]: "Stop_Cancel \<le> k \<longleftrightarrow> k = Stop_Cancel"
  by (cases k) (simp_all add: less_eq_stop_kind_def)

section \<open>The operations\<close>

definition thread_set :: "addr \<Rightarrow> exec_thread \<Rightarrow> world \<Rightarrow> world" where
  "thread_set th x w = w\<lparr>thread_at := (thread_at w)(th := x)\<rparr>"

definition thread_release :: "addr \<Rightarrow> world \<Rightarrow> world" where
  "thread_release th w =
     thread_set th ((thread_at w th)\<lparr>os := (os (thread_at w th))
       \<lparr>end_open := False, wake_open := False, mutex_open := False\<rparr>\<rparr>) w"

text \<open>
  The results of the three open calls and of the OS thread's start are parameters; the calls stop at
  the first that fails.
\<close>

definition thread_try_start ::
  "addr \<Rightarrow> exec_context \<Rightarrow> addr \<Rightarrow> bool \<Rightarrow> bool \<Rightarrow> bool \<Rightarrow> bool \<Rightarrow> world \<Rightarrow> bool \<times> world" where
  "thread_try_start th c st mutex_ok wake_ok end_ok thread_ok w =
     (let (h, q) = queue_init (next_of w) st;
          opened = \<lparr>mutex_open = mutex_ok, wake_open = mutex_ok \<and> wake_ok,
                    end_open = mutex_ok \<and> wake_ok \<and> end_ok,
                    thread_started = mutex_ok \<and> wake_ok \<and> end_ok \<and> thread_ok\<rparr>;
          w1 = (thread_set th \<lparr>pending = q, thread_context = context_assign c, local = None,
                               stop = Stop_None, ended = False, os = opened\<rparr> w)\<lparr>next_of := h\<rparr>
      in if \<not> mutex_ok \<or> \<not> wake_ok \<or> \<not> end_ok \<or> \<not> thread_ok then (False, thread_release th w1)
         else (True, w1))"

definition thread_try_accept :: "addr \<Rightarrow> executor" where
  "thread_try_accept th a w =
     (if stop (thread_at w th) \<noteq> Stop_None then Inr (False, w)
      else
        (let (h, q) = queue_push (next_of w) (pending (thread_at w th)) a
         in Inr (True, (thread_set th ((thread_at w th)\<lparr>pending := q\<rparr>) w)\<lparr>next_of := h\<rparr>)))"

text \<open>
  One turn of the loop in \<^verbatim>\<open>lh_exec_thread_wait_task\<close>, between taking the mutex (or coming back from
  the wait) and giving it up: \<open>Again\<close> sleeps on the condition, \<open>Got\<close> returns.
\<close>

datatype turn = Again | Got ptr

definition thread_wait_turn :: "addr \<Rightarrow> world \<Rightarrow> turn \<times> world" where
  "thread_wait_turn th w =
     (let (r, h, q) = queue_try_pop (next_of w) (pending (thread_at w th));
          w1 = (thread_set th ((thread_at w th)\<lparr>pending := q\<rparr>) w)\<lparr>next_of := h\<rparr>
      in case r of
           None \<Rightarrow> if stop (thread_at w1 th) = Stop_None then (Again, w1) else (Got None, w1)
         | Some a \<Rightarrow>
             if stop (thread_at w1 th) = Stop_Cancel then (Got (Some a), task_set_cancelled a True w1)
             else (Got (Some a), w1))"

definition thread_run_task :: "callbacks \<Rightarrow> addr \<Rightarrow> addr \<Rightarrow> world \<Rightarrow> error_code + world" where
  "thread_run_task e th a w =
     (let w1 = (if \<not> cancelled (task_at w a) then task_run_work e a (local (thread_at w th)) w else w)
      in case mailbox_ref (task_at w1 a) of
           None \<Rightarrow> Inl Null_pointer
         | Some m \<Rightarrow> Inr (mailbox_post m a w1))"

definition thread_raise_stop :: "addr \<Rightarrow> stop_kind \<Rightarrow> world \<Rightarrow> world" where
  "thread_raise_stop th kind w =
     (if stop (thread_at w th) < kind then thread_set th ((thread_at w th)\<lparr>stop := kind\<rparr>) w else w)"

text \<open>
  The wait of \<^verbatim>\<open>lh_exec_thread_try_stop\<close>: each turn sees, under the mutex, whether the thread has ended
  and what the clock says; the result is the list of timed waits it asked for and, once it left the
  loop, whether the thread had ended.
\<close>

fun stop_wait :: "u64 \<Rightarrow> u32 \<Rightarrow> (bool \<times> u64) list \<Rightarrow> u32 list \<times> bool option" where
  "stop_wait start timeout [] = ([], None)"
| "stop_wait start timeout ((ended_now, now) # turns) =
     (if ended_now then ([], Some True)
      else
        (let elapsed = now - start
         in if elapsed \<ge> ucast timeout then ([], Some False)
            else
              (let (waits, r) = stop_wait start timeout turns
               in (ucast (ucast timeout - elapsed) # waits, r))))"

definition thread_destroy_stop :: "addr \<Rightarrow> world \<Rightarrow> world" where
  "thread_destroy_stop th w =
     (if stop (thread_at w th) = Stop_None
      then thread_set th ((thread_at w th)\<lparr>stop := Stop_Drain\<rparr>) w else w)"

definition thread_open :: "callbacks \<Rightarrow> addr \<Rightarrow> world \<Rightarrow> world" where
  "thread_open e th w =
     (let (l, w1) = context_run_open e (thread_context (thread_at w th)) w
      in thread_set th ((thread_at w1 th)\<lparr>local := l\<rparr>) w1)"

definition thread_close :: "callbacks \<Rightarrow> addr \<Rightarrow> world \<Rightarrow> world" where
  "thread_close e th w =
     context_run_close e (thread_context (thread_at w th)) (local (thread_at w th)) w"

definition thread_mark_ended :: "addr \<Rightarrow> world \<Rightarrow> world" where
  "thread_mark_ended th w = thread_set th ((thread_at w th)\<lparr>ended := True\<rparr>) w"

interpretation thread: acceptor "thread_try_accept th"
  by unfold_locales (auto simp: thread_try_accept_def split: if_splits prod.splits)

text \<open>
  C11: a submission to the thread executor that is refused leaves the mailboxes, the queues and the
  executor as they were: the place it had reserved is given back.
\<close>

theorem thread_submit_refused:
  assumes "executor_try_submit (thread_try_accept th) a m w = Inr (False, w')"
  shows "box_at w' = box_at w \<and> next_of w' = next_of w \<and> thread_at w' = thread_at w \<and> calls w' = calls w \<and>
         (used (box_at w m) \<ge> capacity (box_at w m) \<or> stop (thread_at w th) \<noteq> Stop_None)"
proof -
  have "used (box_at w m) \<ge> capacity (box_at w m) \<or> stop (thread_at w th) \<noteq> Stop_None"
  proof (rule ccontr)
    assume "\<not> ?thesis"
    then show False using assms
      by (auto simp: executor_try_submit_def executor_try_accept_def mailbox_try_reserve_def
          thread_try_accept_def task_set_mailbox_def box_set_def Let_def split: prod.splits)
  qed
  then show ?thesis using thread.try_submit_refused [OF assms] by (auto simp: task_set_mailbox_def)
qed

text \<open>
  A start that fails halfway leaves no OS object open and no thread running.
\<close>

theorem thread_start_failed:
  assumes "thread_try_start th c st mutex_ok wake_ok end_ok thread_ok w = (False, w')"
  shows "os (thread_at w' th) =
           \<lparr>mutex_open = False, wake_open = False, end_open = False, thread_started = False\<rparr>"
  using assms
  by (auto simp: thread_try_start_def thread_release_def thread_set_def Let_def split: prod.splits if_splits)

text \<open>
  The bounded wait of a stop returns at the first turn that sees the end or a clock past the
  timeout: it reports the end only when it saw it, and gives up only when the time has run out.
\<close>

theorem stop_wait_turns:
  "snd (stop_wait start timeout turns) = Some r \<Longrightarrow>
   \<exists>pre now post. turns = pre @ (r, now) # post \<and> (\<not> r \<longrightarrow> now - start \<ge> ucast timeout) \<and>
     (\<forall>x \<in> set pre. \<not> fst x \<and> snd x - start < ucast timeout)"
proof (induction start timeout turns rule: stop_wait.induct)
  case (2 start timeout ended_now now turns)
  show ?case
  proof (cases "ended_now \<or> now - start \<ge> ucast timeout")
    case True
    with 2 show ?thesis by (intro exI [of _ "[]"]) (auto simp: Let_def split: if_splits)
  next
    case False
    with 2 obtain pre n post where "turns = pre @ (r, n) # post" "\<not> r \<longrightarrow> n - start \<ge> ucast timeout"
      "\<forall>x \<in> set pre. \<not> fst x \<and> snd x - start < ucast timeout"
      by (auto simp: Let_def split: prod.splits)
    with False show ?thesis by (intro exI [of _ "(ended_now, now) # pre"]) auto
  qed
qed simp

theorem stop_wait_turns_witness:
  "\<exists>pre now post. [(False, 105), (False, 112)] = pre @ (False, now) # post \<and> now - 100 \<ge> (10 :: u64) \<and>
     (\<forall>x \<in> set pre. \<not> fst x \<and> snd x - 100 < (10 :: u64))"
  using stop_wait_turns [of 100 10 "[(False, 105), (False, 112)]" False] by simp

theorem thread_start_failed_witness:
  "os (thread_at (snd (thread_try_start 9 (context_init None None None) 8 True True False True one_task)) 9) =
     \<lparr>mutex_open = False, wake_open = False, end_open = False, thread_started = False\<rparr>"
proof -
  have "fst (thread_try_start 9 (context_init None None None) 8 True True False True one_task) = False"
    by (simp add: thread_try_start_def Let_def split: prod.splits)
  then show ?thesis using thread_start_failed prod.collapse by metis
qed

theorem thread_submit_refused_witness:
  "\<exists>w'. executor_try_submit (thread_try_accept 9) 1 7 (thread_raise_stop 9 Stop_Drain one_task) =
          Inr (False, w') \<and> box_at w' = box_at one_task"
proof -
  let ?w = "thread_raise_stop 9 Stop_Drain one_task"
  have s: "stop (thread_at ?w 9) = Stop_Drain" "box_at ?w = box_at one_task"
    by (simp_all add: thread_raise_stop_def thread_set_def one_task_def task_init_def mailbox_init_def
        queue_init_def box_set_def less_stop_kind_def)
  then obtain w' where "executor_try_submit (thread_try_accept 9) 1 7 ?w = Inr (False, w')"
    by (simp add: executor_try_submit_def executor_try_accept_def mailbox_try_reserve_def
        thread_try_accept_def task_set_mailbox_def box_set_def Let_def one_task_fields split: prod.splits)
  with thread_submit_refused [OF this] s show ?thesis by simp
qed

end
