(* ===== verification/Exec_System.thy ===== *)
theory Exec_System
  imports Exec_Thread "HOL-Library.Multiset"
begin

text \<open>
  The thread executor at work: submitters, the executor's thread (\<^verbatim>\<open>lh_exec_thread_run\<close>), the threads
  that stop it and the owners of mailboxes as one step relation. A section under the executor's mutex
  is one step, and steps interleave freely. What a callback does to the library (a callback that
  submits a task, say) is a step of its own, so the callbacks of the steps only leave their entry in
  the log (\<open>quiet\<close>).
\<close>

section \<open>The system\<close>

text \<open>Where the executor's thread is in \<^verbatim>\<open>lh_exec_thread_run\<close>.\<close>

datatype position = T_Start | T_Wait | T_Have addr | T_Close | T_Closed | T_End

text \<open>Where a task is, with the mailbox in which it holds a place.\<close>

datatype phase =
    Free
  | Reserved addr
  | Pending addr
  | Held addr
  | Finished addr
  | Delivering addr

fun phase_box :: "phase \<Rightarrow> ptr" where
  "phase_box Free = None"
| "phase_box (Reserved m) = Some m"
| "phase_box (Pending m) = Some m"
| "phase_box (Held m) = Some m"
| "phase_box (Finished m) = Some m"
| "phase_box (Delivering m) = Some m"

record sys =
  wld :: world
  pc :: position
  phase :: "addr \<Rightarrow> phase"
  accepted :: "addr list"
  started :: "addr list"
  worked :: "addr list"
  delivered :: "addr list"

text \<open>All queues of the system: the executor's own under \<open>None\<close>, the mailboxes' under \<open>Some\<close>.\<close>

definition queues :: "addr \<Rightarrow> world \<Rightarrow> addr option \<Rightarrow> exec_queue" where
  "queues th w i = (case i of None \<Rightarrow> pending (thread_at w th) | Some m \<Rightarrow> finished (box_at w m))"

abbreviation owners :: "addr set \<Rightarrow> addr option set" where
  "owners B \<equiv> insert None (Some ` B)"

text \<open>The records that the queues keep for themselves.\<close>

definition stubs :: "addr \<Rightarrow> addr set \<Rightarrow> world \<Rightarrow> addr set" where
  "stubs th B w = (\<lambda>i. q_stub (queues th w i)) ` owners B"

definition to_phase :: "(addr \<Rightarrow> phase) \<Rightarrow> addr \<Rightarrow> (addr \<Rightarrow> phase) \<Rightarrow> addr \<Rightarrow> phase" where
  "to_phase f a p = p(a := (case phase_box (p a) of None \<Rightarrow> Free | Some m \<Rightarrow> f m))"

inductive thread_step :: "callbacks \<Rightarrow> addr \<Rightarrow> addr set \<Rightarrow> sys \<Rightarrow> sys \<Rightarrow> bool" for e th B where
  fill:
  "phase s a = Free \<Longrightarrow> a \<notin> stubs th B (wld s) \<Longrightarrow>
   thread_step e th B s (s\<lparr>wld := task_init a f g d u (wld s)\<rparr>)"
| reserve:
  "phase s a = Free \<Longrightarrow> a \<notin> stubs th B (wld s) \<Longrightarrow> \<not> cancelled (task_at (wld s) a) \<Longrightarrow> m \<in> B \<Longrightarrow>
   mailbox_try_reserve m (wld s) = (True, w1) \<Longrightarrow>
   thread_step e th B s
     (s\<lparr>wld := task_set_mailbox a (Some m) w1, phase := (phase s)(a := Reserved m)\<rparr>)"
| full:
  "m \<in> B \<Longrightarrow> mailbox_try_reserve m (wld s) = (False, w1) \<Longrightarrow> thread_step e th B s (s\<lparr>wld := w1\<rparr>)"
| accept:
  "phase s a = Reserved m \<Longrightarrow> thread_try_accept th a (wld s) = Inr (True, w1) \<Longrightarrow>
   thread_step e th B s
     (s\<lparr>wld := w1, phase := (phase s)(a := Pending m), accepted := accepted s @ [a]\<rparr>)"
| refuse:
  "phase s a = Reserved m \<Longrightarrow> thread_try_accept th a (wld s) = Inr (False, w1) \<Longrightarrow>
   thread_step e th B s (s\<lparr>wld := mailbox_release m w1, phase := (phase s)(a := Free)\<rparr>)"
| open_context:
  "pc s = T_Start \<Longrightarrow> thread_step e th B s (s\<lparr>wld := thread_open e th (wld s), pc := T_Wait\<rparr>)"
| sleep:
  "pc s = T_Wait \<Longrightarrow> thread_wait_turn th (wld s) = (Again, w1) \<Longrightarrow> thread_step e th B s (s\<lparr>wld := w1\<rparr>)"
| take:
  "pc s = T_Wait \<Longrightarrow> thread_wait_turn th (wld s) = (Got (Some a), w1) \<Longrightarrow>
   thread_step e th B s
     (s\<lparr>wld := w1, pc := T_Have a, phase := to_phase Held a (phase s), started := started s @ [a]\<rparr>)"
| leave:
  "pc s = T_Wait \<Longrightarrow> thread_wait_turn th (wld s) = (Got None, w1) \<Longrightarrow>
   thread_step e th B s (s\<lparr>wld := w1, pc := T_Close\<rparr>)"
| run:
  "pc s = T_Have a \<Longrightarrow> thread_run_task e th a (wld s) = Inr w1 \<Longrightarrow>
   thread_step e th B s
     (s\<lparr>wld := w1, pc := T_Wait, phase := to_phase Finished a (phase s),
        worked := worked s @ (if cancelled (task_at (wld s) a) then [] else [a])\<rparr>)"
| close_context:
  "pc s = T_Close \<Longrightarrow> thread_step e th B s (s\<lparr>wld := thread_close e th (wld s), pc := T_Closed\<rparr>)"
| ending:
  "pc s = T_Closed \<Longrightarrow> thread_step e th B s (s\<lparr>wld := thread_mark_ended th (wld s), pc := T_End\<rparr>)"
| stopping:
  "thread_step e th B s (s\<lparr>wld := thread_raise_stop th k (wld s)\<rparr>)"
| destroying:
  "thread_step e th B s (s\<lparr>wld := thread_destroy_stop th (wld s)\<rparr>)"
| fetch:
  "m \<in> B \<Longrightarrow> mailbox_try_take m (wld s) = (Some a, w1) \<Longrightarrow>
   thread_step e th B s (s\<lparr>wld := w1, phase := to_phase Delivering a (phase s)\<rparr>)"
| fetch_none:
  "m \<in> B \<Longrightarrow> mailbox_try_take m (wld s) = (None, w1) \<Longrightarrow> thread_step e th B s (s\<lparr>wld := w1\<rparr>)"
| deliver:
  "phase s a = Delivering m \<Longrightarrow>
   thread_step e th B s
     (s\<lparr>wld := mailbox_deliver e m a (wld s), phase := (phase s)(a := Free),
        delivered := delivered s @ [a]\<rparr>)"

text \<open>A started executor and empty mailboxes, no task anywhere.\<close>

definition sys_start :: "world \<Rightarrow> sys" where
  "sys_start w =
     \<lparr>wld = w, pc = T_Start, phase = (\<lambda>_. Free), accepted = [], started = [], worked = [], delivered = []\<rparr>"

definition start_ok :: "addr \<Rightarrow> addr set \<Rightarrow> world \<Rightarrow> bool" where
  "start_ok th B w \<longleftrightarrow>
     mpsc.family (next_of w) (queues th w) (owners B) (\<lambda>_. []) \<and>
     stop (thread_at w th) = Stop_None \<and> \<not> ended (thread_at w th) \<and>
     (\<forall>m \<in> B. used (box_at w m) = 0)"

inductive thread_reachable :: "callbacks \<Rightarrow> addr \<Rightarrow> addr set \<Rightarrow> sys \<Rightarrow> bool" for e th B where
  start: "start_ok th B w \<Longrightarrow> thread_reachable e th B (sys_start w)"
| step: "thread_reachable e th B s \<Longrightarrow> thread_step e th B s t \<Longrightarrow> thread_reachable e th B t"

section \<open>What each operation does to the queues\<close>

lemma queues_simps [simp]:
  "queues th w None = pending (thread_at w th)" "queues th w (Some m) = finished (box_at w m)"
  by (simp_all add: queues_def)

lemma queues_same:
  assumes "pending (thread_at w' th) = pending (thread_at w th)"
    and "\<And>m. finished (box_at w' m) = finished (box_at w m)"
  shows "queues th w' = queues th w"
proof
  fix i show "queues th w' i = queues th w i" using assms by (cases i) auto
qed

lemma queues_pending:
  assumes "pending (thread_at w' th) = q" and "\<And>m. finished (box_at w' m) = finished (box_at w m)"
  shows "queues th w' = (queues th w)(None := q)"
proof
  fix i show "queues th w' i = ((queues th w)(None := q)) i" using assms by (cases i) auto
qed

lemma queues_finished:
  assumes "pending (thread_at w' th) = pending (thread_at w th)"
    and "\<And>n. finished (box_at w' n) = (if n = m then q else finished (box_at w n))"
  shows "queues th w' = (queues th w)(Some m := q)"
proof
  fix i show "queues th w' i = ((queues th w)(Some m := q)) i" using assms by (cases i) auto
qed

lemma accept_world:
  assumes "thread_try_accept th a w = Inr (True, w1)"
  shows "\<exists>h q. queue_push (next_of w) (queues th w None) a = (h, q) \<and> next_of w1 = h \<and>
           queues th w1 = (queues th w)(None := q) \<and> task_at w1 = task_at w \<and> box_at w1 = box_at w \<and>
           thread_at w1 = (thread_at w)(th := (thread_at w th)\<lparr>pending := q\<rparr>) \<and>
           stop (thread_at w th) = Stop_None \<and> calls w1 = calls w"
  using assms
  by (auto simp: thread_try_accept_def thread_set_def intro!: queues_pending split: if_splits prod.splits)

lemma turn_world:
  assumes "thread_wait_turn th w = (t, w1)"
  shows "\<exists>r h q. queue_try_pop (next_of w) (queues th w None) = (r, h, q) \<and> next_of w1 = h \<and>
           queues th w1 = (queues th w)(None := q) \<and> box_at w1 = box_at w \<and>
           thread_at w1 = (thread_at w)(th := (thread_at w th)\<lparr>pending := q\<rparr>) \<and> calls w1 = calls w \<and>
           t = (case r of None \<Rightarrow> if stop (thread_at w th) = Stop_None then Again else Got None
                        | Some a \<Rightarrow> Got (Some a)) \<and>
           task_at w1 = (case r of
               Some a \<Rightarrow> if stop (thread_at w th) = Stop_Cancel
                         then (task_at w)(a := (task_at w a)\<lparr>cancelled := True\<rparr>) else task_at w
             | None \<Rightarrow> task_at w)"
  using assms
  by (auto simp: thread_wait_turn_def thread_set_def task_set_cancelled_def intro!: queues_pending
      split: if_splits prod.splits option.splits)

lemma post_world:
  "\<exists>h q. queue_push (next_of w) (queues th w (Some m)) a = (h, q) \<and>
     next_of (mailbox_post m a w) = h \<and> queues th (mailbox_post m a w) = (queues th w)(Some m := q) \<and>
     task_at (mailbox_post m a w) = task_at w \<and> thread_at (mailbox_post m a w) = thread_at w \<and>
     (\<forall>n. used (box_at (mailbox_post m a w) n) = used (box_at w n)) \<and>
     (\<forall>n. capacity (box_at (mailbox_post m a w) n) = capacity (box_at w n))"
  by (auto simp: mailbox_post_def box_set_def intro!: queues_finished split: prod.splits)

lemma run_world:
  assumes "quiet e" "thread_run_task e th a w = Inr w1" "mailbox_ref (task_at w a) = Some m"
  shows "\<exists>h q. queue_push (next_of w) (queues th w (Some m)) a = (h, q) \<and>
           next_of w1 = h \<and> queues th w1 = (queues th w)(Some m := q) \<and>
           task_at w1 = task_at w \<and> thread_at w1 = thread_at w \<and>
           (\<forall>n. used (box_at w1 n) = used (box_at w n)) \<and>
           (\<forall>n. capacity (box_at w1 n) = capacity (box_at w n))"
proof -
  let ?w = "if cancelled (task_at w a) then w else task_run_work e a (local (thread_at w th)) w"
  have "next_of ?w = next_of w" "task_at ?w = task_at w" "thread_at ?w = thread_at w" "box_at ?w = box_at w"
    using run_work_quiet [OF assms(1)] by (auto simp: called_def)
  moreover from this have "queues th ?w = queues th w" by (intro queues_same) metis+
  moreover have "w1 = mailbox_post m a ?w"
    using assms(2,3) calculation(2) by (auto simp: thread_run_task_def Let_def split: option.splits if_splits)
  ultimately show ?thesis using post_world [of ?w th m a] by simp
qed

lemma take_world:
  assumes "mailbox_try_take m w = (r, w1)"
  shows "\<exists>h q. queue_try_pop (next_of w) (queues th w (Some m)) = (r, h, q) \<and>
           next_of w1 = h \<and> queues th w1 = (queues th w)(Some m := q) \<and>
           task_at w1 = task_at w \<and> thread_at w1 = thread_at w \<and>
           (\<forall>n. used (box_at w1 n) = used (box_at w n)) \<and>
           (\<forall>n. capacity (box_at w1 n) = capacity (box_at w n))"
  using assms
  by (auto simp: mailbox_try_take_def box_set_def intro!: queues_finished split: prod.splits)

lemma deliver_world:
  assumes "quiet e"
  shows "next_of (mailbox_deliver e m a w) = next_of w" "task_at (mailbox_deliver e m a w) = task_at w"
    "thread_at (mailbox_deliver e m a w) = thread_at w" "queues th (mailbox_deliver e m a w) = queues th w"
    "capacity (box_at (mailbox_deliver e m a w) n) = capacity (box_at w n)"
    "used (box_at (mailbox_deliver e m a w) n) =
       (if n = m then used (box_at w m) - 1 else used (box_at w n))"
  by (auto simp: deliver_quiet [OF assms] mailbox_release_def box_set_def intro!: queues_same)

lemma reserve_world:
  assumes "mailbox_try_reserve m w = (r, w1)"
  shows "next_of w1 = next_of w" "task_at w1 = task_at w" "thread_at w1 = thread_at w"
    "queues th w1 = queues th w" "capacity (box_at w1 n) = capacity (box_at w n)"
    "r \<Longrightarrow> used (box_at w m) < capacity (box_at w m)"
    "used (box_at w1 n) = (if n = m \<and> r then used (box_at w m) + 1 else used (box_at w n))"
  using assms
  by (auto simp: mailbox_try_reserve_def box_set_def Let_def not_le intro!: queues_same
      split: if_splits)

lemma release_world:
  "thread_at (mailbox_release m w) = thread_at w" "queues th (mailbox_release m w) = queues th w"
  by (auto simp: mailbox_release_def box_set_def intro!: queues_same)

lemma control_world:
  assumes "quiet e"
  shows "next_of (thread_open e th w) = next_of w" "task_at (thread_open e th w) = task_at w"
    "box_at (thread_open e th w) = box_at w" "queues th (thread_open e th w) = queues th w"
    "stop (thread_at (thread_open e th w) th) = stop (thread_at w th)"
    "ended (thread_at (thread_open e th w) th) = ended (thread_at w th)"
    "next_of (thread_close e th w) = next_of w" "task_at (thread_close e th w) = task_at w"
    "box_at (thread_close e th w) = box_at w" "queues th (thread_close e th w) = queues th w"
    "thread_at (thread_close e th w) = thread_at w"
proof -
  obtain l w1 where o: "context_run_open e (thread_context (thread_at w th)) w = (l, w1)" by fastforce
  have open_world: "snd (open_fn e f u w') = w'" for f u w' using assms by (simp add: quiet_def)
  have w1: "next_of w1 = next_of w" "task_at w1 = task_at w" "box_at w1 = box_at w"
    "thread_at w1 = thread_at w"
    using o open_world by (auto simp: context_run_open_def split: option.splits) (metis called_frame snd_conv)+
  show "next_of (thread_open e th w) = next_of w" "task_at (thread_open e th w) = task_at w"
    "box_at (thread_open e th w) = box_at w" "queues th (thread_open e th w) = queues th w"
    "stop (thread_at (thread_open e th w) th) = stop (thread_at w th)"
    "ended (thread_at (thread_open e th w) th) = ended (thread_at w th)"
    using o w1 by (auto simp: thread_open_def thread_set_def intro!: queues_same)
  show "next_of (thread_close e th w) = next_of w" "task_at (thread_close e th w) = task_at w"
    "box_at (thread_close e th w) = box_at w" "queues th (thread_close e th w) = queues th w"
    "thread_at (thread_close e th w) = thread_at w"
    using assms
    by (auto simp: thread_close_def context_run_close_def quiet_def called_def intro!: queues_same
        split: option.splits)
qed


section \<open>Shape: every task in at most one queue\<close>

definition shape_inv :: "addr \<Rightarrow> addr set \<Rightarrow> sys \<Rightarrow> (addr option \<Rightarrow> addr list) \<Rightarrow> bool" where
  "shape_inv th B s c \<longleftrightarrow>
     mpsc.family (next_of (wld s)) (queues th (wld s)) (owners B) c \<and>
     (\<forall>a. a \<in> set (c None) \<longleftrightarrow> (\<exists>m. phase s a = Pending m)) \<and>
     (\<forall>m \<in> B. \<forall>a. a \<in> set (c (Some m)) \<longleftrightarrow> phase s a = Finished m) \<and>
     (\<forall>a m. phase_box (phase s a) = Some m \<longrightarrow>
        m \<in> B \<and> mailbox_ref (task_at (wld s) a) = Some m \<and> a \<notin> stubs th B (wld s)) \<and>
     (\<forall>a. (\<exists>m. phase s a = Held m) \<longleftrightarrow> pc s = T_Have a) \<and>
     accepted s = started s @ c None"

lemma shape_start: "start_ok th B w \<Longrightarrow> shape_inv th B (sys_start w) (\<lambda>_. [])"
  by (simp add: start_ok_def shape_inv_def sys_start_def)

lemma shape_box:
  assumes "shape_inv th B s c" "phase_box (phase s a) = Some m"
  shows "m \<in> B" and "mailbox_ref (task_at (wld s) a) = Some m" and "a \<notin> stubs th B (wld s)"
  using assms by (simp_all add: shape_inv_def)

lemma shape_frame:
  assumes "shape_inv th B s c" "next_of (wld t) = next_of (wld s)" "queues th (wld t) = queues th (wld s)"
    "task_at (wld t) = task_at (wld s)" "phase t = phase s" "accepted t = accepted s"
    "started t = started s" "\<And>a. pc t = T_Have a \<longleftrightarrow> pc s = T_Have a"
  shows "shape_inv th B t c"
  using assms by (simp add: shape_inv_def stubs_def)

text \<open>A task that is in no queue may change its phase, and its record, at will.\<close>

lemma shape_phase:
  assumes inv: "shape_inv th B s c"
    and out: "\<And>m. phase s a \<noteq> Pending m" "\<And>m. phase s a \<noteq> Finished m" "\<And>m. phase s a \<noteq> Held m"
    and new: "p = Free \<or> (\<exists>m. p = Reserved m \<and> m \<in> B \<and> mailbox_ref (task_at (wld t) a) = Some m \<and>
                a \<notin> stubs th B (wld s))"
    and t: "phase t = (phase s)(a := p)" "\<And>b. b \<noteq> a \<Longrightarrow> next_of (wld t) b = next_of (wld s) b"
      "next_of (wld t) a = next_of (wld s) a \<or> a \<notin> stubs th B (wld s)"
      "queues th (wld t) = queues th (wld s)" "\<And>b. b \<noteq> a \<Longrightarrow> task_at (wld t) b = task_at (wld s) b"
      "accepted t = accepted s" "started t = started s" "pc t = pc s"
  shows "shape_inv th B t c"
proof -
  have no: "\<forall>i \<in> owners B. a \<notin> set (c i)"
    using inv out by (auto simp: shape_inv_def)
  have "\<forall>i \<in> owners B. \<forall>b \<in> insert (q_stub (queues th (wld s) i)) (set (c i)).
          next_of (wld t) b = next_of (wld s) b"
  proof (intro ballI)
    fix i b assume "i \<in> owners B" "b \<in> insert (q_stub (queues th (wld s) i)) (set (c i))"
    then show "next_of (wld t) b = next_of (wld s) b"
      using no t(2) [of b] t(3) by (cases "b = a") (auto simp: stubs_def)
  qed
  then have fam: "mpsc.family (next_of (wld t)) (queues th (wld t)) (owners B) c"
    using mpsc.family_frame [of "next_of (wld s)" "queues th (wld s)" "owners B" c "next_of (wld t)"]
      inv t(4) by (simp add: shape_inv_def)
  have nohave: "pc s \<noteq> T_Have a" using inv out(3) unfolding shape_inv_def by metis
  have st: "stubs th B (wld t) = stubs th B (wld s)" using t(4) by (simp add: stubs_def)
  show ?thesis
    unfolding shape_inv_def
  proof (intro conjI allI ballI impI fam)
    fix b
    show "b \<in> set (c None) \<longleftrightarrow> (\<exists>m. phase t b = Pending m)"
      using inv new no t(1) by (auto simp: shape_inv_def)
    show "(\<exists>m. phase t b = Held m) \<longleftrightarrow> pc t = T_Have b"
      using inv new nohave t(1,8) by (auto simp: shape_inv_def)
    fix m assume "m \<in> B"
    then show "b \<in> set (c (Some m)) \<longleftrightarrow> phase t b = Finished m"
      using inv new no t(1) by (auto simp: shape_inv_def)
  next
    fix b m assume b: "phase_box (phase t b) = Some m"
    show "m \<in> B" "mailbox_ref (task_at (wld t) b) = Some m" "b \<notin> stubs th B (wld t)"
      using b inv new t(1) t(5) [of b] st by (auto simp: shape_inv_def split: if_splits)
  next
    show "accepted t = started t @ c None" using inv t(6,7) by (simp add: shape_inv_def)
  qed
qed

lemma shape_push:
  assumes inv: "shape_inv th B s c" and i: "i \<in> owners B"
    and a: "phase_box (phase s a) = Some m" "\<And>m. phase s a \<noteq> Pending m" "\<And>m. phase s a \<noteq> Finished m"
    and p: "queue_push (next_of (wld s)) (queues th (wld s) i) a = (next_of (wld t), q)"
      "queues th (wld t) = (queues th (wld s))(i := q)"
  shows "mpsc.family (next_of (wld t)) (queues th (wld t)) (owners B) (c(i := c i @ [a]))"
    and "stubs th B (wld t) = stubs th B (wld s)"
proof -
  have "a \<notin> stubs th B (wld s)" "\<forall>j \<in> owners B. a \<notin> set (c j)"
    using inv a by (auto simp: shape_inv_def)
  then have "\<forall>j \<in> owners B. a \<noteq> q_stub (queues th (wld s) j) \<and> a \<notin> set (c j)"
    unfolding stubs_def by blast
  with mpsc.family_push [of "next_of (wld s)" "queues th (wld s)" "owners B" c i a] inv i p
  have *: "mpsc.family (next_of (wld t)) (queues th (wld t)) (owners B) (c(i := c i @ [a]))"
    "q_stub q = q_stub (queues th (wld s) i)" by (auto simp: shape_inv_def)
  then show "mpsc.family (next_of (wld t)) (queues th (wld t)) (owners B) (c(i := c i @ [a]))" by blast
  show "stubs th B (wld t) = stubs th B (wld s)"
    unfolding stubs_def by (rule image_cong) (use * p(2) in auto)
qed

lemma shape_pop:
  assumes inv: "shape_inv th B s c" and i: "i \<in> owners B"
    and p: "queue_try_pop (next_of (wld s)) (queues th (wld s) i) = (r, next_of (wld t), q)"
      "queues th (wld t) = (queues th (wld s))(i := q)"
  shows "mpsc.family (next_of (wld t)) (queues th (wld t)) (owners B) (c(i := tl (c i)))"
    and "stubs th B (wld t) = stubs th B (wld s)"
    and "r = (case c i of [] \<Rightarrow> None | x # _ \<Rightarrow> Some x)" and "distinct (c i)"
proof -
  from inv have fam: "mpsc.family (next_of (wld s)) (queues th (wld s)) (owners B) c"
    by (simp add: shape_inv_def)
  note f = mpsc.family_pop [OF fam i p(1)]
  then show "mpsc.family (next_of (wld t)) (queues th (wld t)) (owners B) (c(i := tl (c i)))"
    and "r = (case c i of [] \<Rightarrow> None | x # _ \<Rightarrow> Some x)" using p(2) by auto
  show "stubs th B (wld t) = stubs th B (wld s)"
    unfolding stubs_def by (rule image_cong) (use f(2) p(2) in auto)
  show "distinct (c i)" using mpsc.family_distinct [OF fam i] by simp
qed

lemma shape_accept:
  assumes inv: "shape_inv th B s c" and a: "phase s a = Reserved m"
    and w: "thread_try_accept th a (wld s) = Inr (True, w1)"
  shows "shape_inv th B (s\<lparr>wld := w1, phase := (phase s)(a := Pending m), accepted := accepted s @ [a]\<rparr>)
           (c(None := c None @ [a]))"
proof -
  let ?t = "s\<lparr>wld := w1, phase := (phase s)(a := Pending m), accepted := accepted s @ [a]\<rparr>"
  from accept_world [OF w] obtain q where
    q: "queue_push (next_of (wld s)) (queues th (wld s) None) a = (next_of (wld ?t), q)"
      "queues th (wld ?t) = (queues th (wld s))(None := q)" "task_at w1 = task_at (wld s)" by auto
  have "phase_box (phase s a) = Some m" using a by simp
  note f = shape_push [OF inv _ this _ _ q(1,2)]
  have nohave: "pc s \<noteq> T_Have a" using inv a unfolding shape_inv_def by (metis phase.distinct)
  have "m \<in> B" "mailbox_ref (task_at (wld s) a) = Some m" "a \<notin> stubs th B (wld s)"
    using shape_box [OF inv, of a m] a by simp_all
  then show ?thesis
    unfolding shape_inv_def using f inv a q(3) nohave by (auto simp: shape_inv_def)
qed

lemma shape_take:
  assumes inv: "shape_inv th B s c" and pc: "pc s = T_Wait"
    and w: "thread_wait_turn th (wld s) = (Got (Some a), w1)"
  shows "shape_inv th B (s\<lparr>wld := w1, pc := T_Have a, phase := to_phase Held a (phase s),
             started := started s @ [a]\<rparr>) (c(None := tl (c None)))"
    and "c None = a # tl (c None)"
proof -
  let ?t = "s\<lparr>wld := w1, pc := T_Have a, phase := to_phase Held a (phase s), started := started s @ [a]\<rparr>"
  from turn_world [OF w] obtain q where
    q: "queue_try_pop (next_of (wld s)) (queues th (wld s) None) = (Some a, next_of (wld ?t), q)"
      "queues th (wld ?t) = (queues th (wld s))(None := q)"
      "\<And>b. mailbox_ref (task_at w1 b) = mailbox_ref (task_at (wld s) b)"
    by (auto split: if_splits option.splits)
  note f = shape_pop [OF inv _ q(1,2)]
  then show c: "c None = a # tl (c None)" by (cases "c None") auto
  then have "a \<in> set (c None)" by (metis list.set_intros(1))
  with inv obtain m where m: "phase s a = Pending m" by (auto simp: shape_inv_def)
  have box: "m \<in> B" "mailbox_ref (task_at (wld s) a) = Some m" "a \<notin> stubs th B (wld s)"
    using shape_box [OF inv, of a m] m by simp_all
  have nt: "a \<notin> set (tl (c None))" using f(4) c by (metis distinct.simps(2) insertI1)
  have cs: "set (c None) = insert a (set (tl (c None)))" by (subst c) simp
  have h: "\<And>b m. phase s b \<noteq> Held m" using inv pc by (auto simp: shape_inv_def)
  have acc: "accepted s = started s @ a # tl (c None)" using inv c by (simp add: shape_inv_def)
  show "shape_inv th B ?t (c(None := tl (c None)))"
    unfolding shape_inv_def using f(1,2) inv m box q(3) nt cs h acc
    by (auto simp: shape_inv_def to_phase_def)
qed

lemma shape_run:
  assumes inv: "shape_inv th B s c" and e: "quiet e" and pc: "pc s = T_Have a"
    and w: "thread_run_task e th a (wld s) = Inr w1"
  shows "\<exists>m. phase s a = Held m \<and> m \<in> B \<and>
           shape_inv th B (s\<lparr>wld := w1, pc := T_Wait, phase := to_phase Finished a (phase s), worked := x\<rparr>)
             (c(Some m := c (Some m) @ [a]))"
proof -
  let ?t = "s\<lparr>wld := w1, pc := T_Wait, phase := to_phase Finished a (phase s), worked := x\<rparr>"
  from inv pc obtain m where ph: "phase s a = Held m" by (metis shape_inv_def)
  note m = this shape_box [OF inv, of a m, unfolded ph, simplified]
  from run_world [OF e w m(3)] obtain q where
    q: "queue_push (next_of (wld s)) (queues th (wld s) (Some m)) a = (next_of (wld ?t), q)"
      "queues th (wld ?t) = (queues th (wld s))(Some m := q)" "task_at w1 = task_at (wld s)" by auto
  have "phase_box (phase s a) = Some m" "Some m \<in> owners B" using m by simp_all
  note f = shape_push [OF inv this(2,1) _ _ q(1,2)]
  have h: "\<forall>b n. b \<noteq> a \<longrightarrow> phase s b \<noteq> Held n" using inv pc unfolding shape_inv_def by auto
  have ph: "phase ?t = (phase s)(a := Finished m)" using m by (simp add: to_phase_def)
  have "shape_inv th B ?t (c(Some m := c (Some m) @ [a]))"
    unfolding shape_inv_def ph
  proof (intro conjI allI ballI impI)
    fix b
    show "b \<in> set ((c(Some m := c (Some m) @ [a])) None) \<longleftrightarrow> (\<exists>n. ((phase s)(a := Finished m)) b = Pending n)"
      using inv m(1) by (auto simp: shape_inv_def)
    show "(\<exists>n. ((phase s)(a := Finished m)) b = Held n) \<longleftrightarrow> pc ?t = T_Have b" using h by auto
  qed (use f inv m q(3) in \<open>auto simp: shape_inv_def split: if_splits\<close>)
  with m show ?thesis by blast
qed

lemma shape_fetch:
  assumes inv: "shape_inv th B s c" and m: "m \<in> B"
    and w: "mailbox_try_take m (wld s) = (Some a, w1)"
  shows "shape_inv th B (s\<lparr>wld := w1, phase := to_phase Delivering a (phase s)\<rparr>)
           (c(Some m := tl (c (Some m))))" and "phase s a = Finished m"
proof -
  let ?t = "s\<lparr>wld := w1, phase := to_phase Delivering a (phase s)\<rparr>"
  from take_world [OF w, of th] obtain q where
    q: "queue_try_pop (next_of (wld s)) (queues th (wld s) (Some m)) = (Some a, next_of (wld ?t), q)"
      "queues th (wld ?t) = (queues th (wld s))(Some m := q)" "task_at w1 = task_at (wld s)" by auto
  have "Some m \<in> owners B" using m by simp
  note f = shape_pop [OF inv this q(1,2)]
  then have c: "c (Some m) = a # tl (c (Some m))" by (cases "c (Some m)") auto
  then have "a \<in> set (c (Some m))" by (metis list.set_intros(1))
  with inv m show ph: "phase s a = Finished m" by (auto simp: shape_inv_def)
  have nt: "a \<notin> set (tl (c (Some m)))" using f(4) c by (metis distinct.simps(2) insertI1)
  have cs: "set (c (Some m)) = insert a (set (tl (c (Some m))))" by (subst c) simp
  have box: "mailbox_ref (task_at (wld s) a) = Some m" "a \<notin> stubs th B (wld s)"
    using shape_box [OF inv, of a m] ph by simp_all
  have nohave: "pc s \<noteq> T_Have a" using inv ph unfolding shape_inv_def by (metis phase.distinct)
  show "shape_inv th B ?t (c(Some m := tl (c (Some m))))"
    unfolding shape_inv_def using f(1,2) inv m box q(3) nt cs ph nohave
    by (auto simp: shape_inv_def to_phase_def)
qed

lemma shape_poll:
  assumes inv: "shape_inv th B s c" and i: "i \<in> owners B"
    and p: "queue_try_pop (next_of (wld s)) (queues th (wld s) i) = (None, next_of (wld t), q)"
      "queues th (wld t) = (queues th (wld s))(i := q)"
    and t: "task_at (wld t) = task_at (wld s)" "phase t = phase s" "accepted t = accepted s"
      "started t = started s" "\<And>a. pc t = T_Have a \<longleftrightarrow> pc s = T_Have a"
  shows "shape_inv th B t c" and "c i = []"
proof -
  note f = shape_pop [OF inv i p]
  from f(3) show ci: "c i = []" by (cases "c i") auto
  have "c(i := tl (c i)) = c" using ci by (simp add: fun_eq_iff)
  with f(1,2) inv t show "shape_inv th B t c" by (simp add: shape_inv_def)
qed

lemma shape_turn_none:
  assumes inv: "shape_inv th B s c" and w: "thread_wait_turn th (wld s) = (r, w1)" "r = Again \<or> r = Got None"
    and t: "wld t = w1" "phase t = phase s" "accepted t = accepted s"
      "started t = started s" "\<And>a. pc t = T_Have a \<longleftrightarrow> pc s = T_Have a"
  shows "shape_inv th B t c" and "c None = []"
    and "r = Got None \<longrightarrow> stop (thread_at w1 th) \<noteq> Stop_None"
proof -
  from turn_world [OF w(1)] w(2) obtain q where
    q: "queue_try_pop (next_of (wld s)) (queues th (wld s) None) = (None, next_of (wld t), q)"
      "queues th (wld t) = (queues th (wld s))(None := q)" "task_at (wld t) = task_at (wld s)"
      "r = Got None \<longrightarrow> stop (thread_at w1 th) \<noteq> Stop_None"
    using t(1) by (auto split: option.splits if_splits)
  from shape_poll [OF inv _ q(1,2) q(3) t(2-5)] q(4)
  show "shape_inv th B t c" and "c None = []"
    and "r = Got None \<longrightarrow> stop (thread_at w1 th) \<noteq> Stop_None" by auto
qed

lemma thread_stop_world:
  "next_of (thread_raise_stop th k w) = next_of w" "task_at (thread_raise_stop th k w) = task_at w"
  "queues th (thread_raise_stop th k w) = queues th w" "box_at (thread_raise_stop th k w) = box_at w"
  "next_of (thread_destroy_stop th w) = next_of w" "task_at (thread_destroy_stop th w) = task_at w"
  "queues th (thread_destroy_stop th w) = queues th w" "box_at (thread_destroy_stop th w) = box_at w"
  "next_of (thread_mark_ended th w) = next_of w" "task_at (thread_mark_ended th w) = task_at w"
  "queues th (thread_mark_ended th w) = queues th w" "box_at (thread_mark_ended th w) = box_at w"
  by (auto simp: thread_raise_stop_def thread_destroy_stop_def thread_mark_ended_def thread_set_def
      intro!: queues_same)

lemma task_init_world:
  "b \<noteq> a \<Longrightarrow> next_of (task_init a f g d u w) b = next_of w b"
  "b \<noteq> a \<Longrightarrow> task_at (task_init a f g d u w) b = task_at w b"
  "queues th (task_init a f g d u w) = queues th w" "box_at (task_init a f g d u w) = box_at w"
  "thread_at (task_init a f g d u w) = thread_at w"
  by (auto simp: task_init_def intro!: queues_same)

lemma set_mailbox_world:
  "next_of (task_set_mailbox a m w) = next_of w" "b \<noteq> a \<Longrightarrow> task_at (task_set_mailbox a m w) b = task_at w b"
  "queues th (task_set_mailbox a m w) = queues th w" "box_at (task_set_mailbox a m w) = box_at w"
  "thread_at (task_set_mailbox a m w) = thread_at w"
  "mailbox_ref (task_at (task_set_mailbox a m w) a) = m"
  by (auto simp: task_set_mailbox_def intro!: queues_same)

lemma shape_step:
  assumes "thread_step e th B s t" "quiet e" "shape_inv th B s c"
  shows "\<exists>c'. shape_inv th B t c'"
  using assms
proof (induction rule: thread_step.induct)
  case (fill s a f g d u)
  have same: "phase s = (phase s)(a := Free)" using fill(1) by (simp add: fun_upd_idem)
  show ?case
    by (rule exI [of _ c], rule shape_phase [of th B s c a Free])
      (use fill same in \<open>simp_all add: task_init_world\<close>)
next
  case (reserve s a m w1)
  note w = reserve_world [OF reserve(5)]
  show ?case
    by (rule exI [of _ c], rule shape_phase [of th B s c a "Reserved m"])
      (use reserve w(1-4) in \<open>simp_all add: set_mailbox_world\<close>)
next
  case (full m s w1)
  note w = reserve_world [OF full(2)]
  show ?case by (rule exI [of _ c], rule shape_frame [of th B s c]) (use full w(1-4) in simp_all)
next
  case (accept s a m w1)
  then show ?case by (blast intro: shape_accept)
next
  case (refuse s a m w1)
  then have "w1 = wld s" by (auto intro: thread.refuse)
  show ?case
    by (rule exI [of _ c], rule shape_phase [of th B s c a Free])
      (use refuse \<open>w1 = wld s\<close> in \<open>simp_all add: release_world\<close>)
next
  case (open_context s)
  show ?case by (rule exI [of _ c], rule shape_frame [of th B s c]) (use open_context in \<open>simp_all add: control_world\<close>)
next
  case (sleep s w1)
  show ?case by (rule exI [of _ c], rule shape_turn_none(1) [of th B s c Again w1]) (use sleep in simp_all)
next
  case (take s a w1)
  then show ?case by (blast intro: shape_take(1))
next
  case (leave s w1)
  show ?case by (rule exI [of _ c], rule shape_turn_none(1) [of th B s c "Got None" w1]) (use leave in simp_all)
next
  case (run s a w1)
  then show ?case using shape_run [of th B s c e a w1] by blast
next
  case (close_context s)
  show ?case by (rule exI [of _ c], rule shape_frame [of th B s c]) (use close_context in \<open>simp_all add: control_world\<close>)
next
  case (fetch m s a w1)
  then show ?case by (blast intro: shape_fetch(1))
next
  case (fetch_none m s w1)
  from take_world [OF fetch_none(2), of th] obtain q where
    "queue_try_pop (next_of (wld s)) (queues th (wld s) (Some m)) = (None, next_of w1, q)"
    "queues th w1 = (queues th (wld s))(Some m := q)" "task_at w1 = task_at (wld s)" by auto
  note q = this
  show ?case
    by (rule exI [of _ c], rule shape_poll(1) [of th B s c "Some m" _ q]) (use fetch_none q in simp_all)
next
  case (deliver s a m)
  show ?case
    by (rule exI [of _ c], rule shape_phase [of th B s c a Free])
      (use deliver in \<open>simp_all add: deliver_world\<close>)
next
  case (ending s)
  show ?case by (rule exI [of _ c], rule shape_frame [of th B s c]) (use ending in \<open>simp_all add: thread_stop_world\<close>)
next
  case (stopping s k)
  show ?case by (rule exI [of _ c], rule shape_frame [of th B s c]) (use stopping in \<open>simp_all add: thread_stop_world\<close>)
next
  case (destroying s)
  show ?case by (rule exI [of _ c], rule shape_frame [of th B s c]) (use destroying in \<open>simp_all add: thread_stop_world\<close>)
qed

lemma shape_reachable:
  assumes "thread_reachable e th B s" "quiet e"
  shows "\<exists>c. shape_inv th B s c"
  using assms
proof (induction rule: thread_reachable.induct)
  case (start w)
  then show ?case by (blast intro: shape_start)
next
  case (step s t)
  then show ?case by (blast intro: shape_step)
qed

section \<open>Stop, end and order\<close>

abbreviation stop_of :: "addr \<Rightarrow> sys \<Rightarrow> stop_kind" where
  "stop_of th s \<equiv> stop (thread_at (wld s) th)"

abbreviation ended_of :: "addr \<Rightarrow> sys \<Rightarrow> bool" where
  "ended_of th s \<equiv> ended (thread_at (wld s) th)"

lemma control_thread:
  "stop (thread_at (thread_raise_stop th k w) th) = max (stop (thread_at w th)) k"
  "ended (thread_at (thread_raise_stop th k w) th) = ended (thread_at w th)"
  "stop (thread_at (thread_destroy_stop th w) th) = max (stop (thread_at w th)) Stop_Drain"
  "ended (thread_at (thread_destroy_stop th w) th) = ended (thread_at w th)"
  "stop (thread_at (thread_mark_ended th w) th) = stop (thread_at w th)"
  "ended (thread_at (thread_mark_ended th w) th)"
  by (cases "stop (thread_at w th)"; cases k;
      simp add: thread_raise_stop_def thread_destroy_stop_def thread_mark_ended_def thread_set_def
        max_def less_stop_kind_def less_eq_stop_kind_def)+

text \<open>The stop kind and the end flag move in three steps only.\<close>

lemma step_control:
  assumes "thread_step e th B s t" "quiet e" "shape_inv th B s c"
  shows "stop_of th s \<le> stop_of th t" and "ended_of th t \<longleftrightarrow> ended_of th s \<or> pc s = T_Closed \<and> pc t = T_End"
    and "stop_of th s \<noteq> Stop_None \<Longrightarrow> accepted t = accepted s"
  using assms
proof (atomize (full), induction rule: thread_step.induct)
  case (fill s a f g d u)
  then show ?case by (auto simp: task_init_world)
next
  case (reserve s a m w1)
  then show ?case using reserve_world(3) [OF reserve(5)] by (auto simp: set_mailbox_world)
next
  case (full m s w1)
  then show ?case using reserve_world(3) [OF full(2)] by auto
next
  case (accept s a m w1)
  then show ?case using accept_world [OF accept(2)] by auto
next
  case (refuse s a m w1)
  then show ?case using thread.refuse [OF refuse(2)] by (auto simp: release_world)
next
  case (open_context s)
  then show ?case by (auto simp: control_world)
next
  case (sleep s w1)
  then show ?case using turn_world [OF sleep(2)] by auto
next
  case (take s a w1)
  then show ?case using turn_world [OF take(2)] by auto
next
  case (leave s w1)
  then show ?case using turn_world [OF leave(2)] by auto
next
  case (run s a w1)
  then obtain m where "phase s a = Held m" by (metis shape_inv_def)
  with run have "mailbox_ref (task_at (wld s) a) = Some m" by (simp add: shape_box)
  from run_world [OF run(3,2) this] show ?case by auto
next
  case (close_context s)
  then show ?case by (auto simp: control_world)
next
  case (fetch m s a w1)
  then show ?case using take_world [OF fetch(2), of th] by auto
next
  case (fetch_none m s w1)
  then show ?case using take_world [OF fetch_none(2), of th] by auto
next
  case (deliver s a m)
  then show ?case by (auto simp: deliver_world)
qed (auto simp: control_thread)

lemma step_stop_same:
  assumes "thread_step e th B s t" "quiet e" "thread_reachable e th B s" "pc t \<noteq> pc s"
  shows "stop_of th t = stop_of th s"
  using assms
proof (induction rule: thread_step.induct)
  case (open_context s)
  then show ?case by (simp add: control_world)
next
  case (take s a w1)
  then show ?case using turn_world [OF take(2)] by auto
next
  case (leave s w1)
  then show ?case using turn_world [OF leave(2)] by auto
next
  case (run s a w1)
  obtain c where c: "shape_inv th B s c" using shape_reachable [OF run(4,3)] by blast
  then obtain m where "phase s a = Held m" using run(1) by (metis shape_inv_def)
  then have "mailbox_ref (task_at (wld s) a) = Some m" using shape_box [OF c] by simp
  from run_world [OF run(3,2) this] show ?case by auto
next
  case (close_context s)
  then show ?case by (simp add: control_world)
qed (simp_all add: control_thread)

definition stage_ok :: "addr \<Rightarrow> sys \<Rightarrow> bool" where
  "stage_ok th s \<longleftrightarrow>
     (pc s \<in> {T_Close, T_Closed, T_End} \<longrightarrow> stop_of th s \<noteq> Stop_None \<and> accepted s = started s) \<and>
     (ended_of th s \<longleftrightarrow> pc s = T_End)"

lemma step_started:
  "thread_step e th B s t \<Longrightarrow> pc s \<noteq> T_Wait \<Longrightarrow> started t = started s"
  by (induction rule: thread_step.induct) auto

lemma step_pc:
  assumes "thread_step e th B s t" "pc t \<in> {T_Close, T_Closed, T_End}" "pc s \<notin> {T_Close, T_Closed, T_End}"
  shows "pc s = T_Wait \<and> started t = started s \<and> accepted t = accepted s \<and>
    (\<exists>w1. thread_wait_turn th (wld s) = (Got None, w1) \<and> t = s\<lparr>wld := w1, pc := T_Close\<rparr>)"
  using assms by (induction rule: thread_step.induct) auto

lemma step_end:
  assumes "thread_step e th B s t"
  shows "pc t = T_End \<longleftrightarrow> pc s = T_End \<or> pc s = T_Closed \<and> pc t = T_End"
  using assms by (induction rule: thread_step.induct) auto

lemma stage_step:
  assumes st: "thread_step e th B s t" and e: "quiet e" and sh: "shape_inv th B s c" and ok: "stage_ok th s"
  shows "stage_ok th t"
proof -
  note ctl = step_control [OF st e sh]
  have "ended_of th t \<longleftrightarrow> pc t = T_End" using ctl(2) ok step_end [OF st] by (auto simp: stage_ok_def)
  moreover have "stop_of th t \<noteq> Stop_None \<and> accepted t = started t"
    if t: "pc t \<in> {T_Close, T_Closed, T_End}"
  proof (cases "pc s \<in> {T_Close, T_Closed, T_End}")
    case True
    with ok have s: "stop_of th s \<noteq> Stop_None" "accepted s = started s" by (auto simp: stage_ok_def)
    moreover have "started t = started s" using step_started [OF st] True by auto
    ultimately show ?thesis using ctl(1,3) by auto
  next
    case False
    from step_pc [OF st t False] obtain w1 where
      w: "thread_wait_turn th (wld s) = (Got None, w1)" "t = s\<lparr>wld := w1, pc := T_Close\<rparr>"
      and pc: "pc s = T_Wait" by blast
    from shape_turn_none(2,3) [OF sh w(1), of t] w pc have "c None = []" "stop_of th t \<noteq> Stop_None"
      by auto
    with w sh show ?thesis by (simp add: shape_inv_def)
  qed
  ultimately show ?thesis by (auto simp: stage_ok_def)
qed

lemma reachable_stage:
  assumes "thread_reachable e th B s" "quiet e"
  shows "stage_ok th s"
  using assms
proof (induction rule: thread_reachable.induct)
  case (start w)
  then show ?case by (simp add: stage_ok_def start_ok_def sys_start_def)
next
  case (step s t)
  then show ?case using shape_reachable [of e th B s] stage_step by blast
qed

section \<open>Which tasks run\<close>

definition held_list :: "position \<Rightarrow> addr list" where
  "held_list p = (case p of T_Have a \<Rightarrow> [a] | _ \<Rightarrow> [])"

lemma held_list_simps [simp]:
  "held_list T_Start = []" "held_list T_Wait = []" "held_list (T_Have a) = [a]"
  "held_list T_Close = []" "held_list T_Closed = []" "held_list T_End = []"
  by (simp_all add: held_list_def)

definition work_ok :: "addr \<Rightarrow> sys \<Rightarrow> bool" where
  "work_ok th s \<longleftrightarrow>
     (\<forall>a m. phase s a = Reserved m \<or> phase s a = Pending m \<longrightarrow> \<not> cancelled (task_at (wld s) a)) \<and>
     (stop_of th s \<noteq> Stop_Cancel \<longrightarrow>
        started s = worked s @ held_list (pc s) \<and>
        (\<forall>a. pc s = T_Have a \<longrightarrow> \<not> cancelled (task_at (wld s) a)))"

lemma work_frame:
  assumes "work_ok th s" "stop_of th s \<le> stop_of th t" "started t = started s" "worked t = worked s"
    "held_list (pc t) = held_list (pc s)" "\<And>a. pc t = T_Have a \<longleftrightarrow> pc s = T_Have a"
    "\<And>a. cancelled (task_at (wld t) a) = cancelled (task_at (wld s) a)"
    "\<And>a m. phase t a = Reserved m \<or> phase t a = Pending m \<Longrightarrow>
       \<exists>m. phase s a = Reserved m \<or> phase s a = Pending m"
  shows "work_ok th t"
proof -
  have "stop_of th s \<noteq> Stop_Cancel" if "stop_of th t \<noteq> Stop_Cancel" using that assms(2) by auto
  then show ?thesis using assms unfolding work_ok_def by metis
qed

lemma work_take:
  assumes ok: "work_ok th s" and sh: "shape_inv th B s c" and pc: "pc s = T_Wait"
    and w: "thread_wait_turn th (wld s) = (Got (Some a), w1)"
  shows "work_ok th (s\<lparr>wld := w1, pc := T_Have a, phase := to_phase Held a (phase s),
           started := started s @ [a]\<rparr>)"
proof -
  from turn_world [OF w] have w1: "stop (thread_at w1 th) = stop_of th s"
    "\<And>b. b \<noteq> a \<Longrightarrow> task_at w1 b = task_at (wld s) b"
    "stop_of th s \<noteq> Stop_Cancel \<Longrightarrow> task_at w1 = task_at (wld s)"
    by (auto split: option.splits if_splits)
  have "a \<in> set (c None)" using shape_take(2) [OF sh pc w] by (metis list.set_intros(1))
  with sh obtain m where m: "phase s a = Pending m" by (auto simp: shape_inv_def)
  with ok have "\<not> cancelled (task_at (wld s) a)" by (auto simp: work_ok_def)
  with ok w1 pc m show ?thesis by (auto simp: work_ok_def to_phase_def split: if_splits)
qed

lemma work_run:
  assumes ok: "work_ok th s" and sh: "shape_inv th B s c" and e: "quiet e" and pc: "pc s = T_Have a"
    and w: "thread_run_task e th a (wld s) = Inr w1"
  shows "work_ok th (s\<lparr>wld := w1, pc := T_Wait, phase := to_phase Finished a (phase s),
           worked := worked s @ (if cancelled (task_at (wld s) a) then [] else [a])\<rparr>)"
proof -
  from sh pc obtain m where m: "phase s a = Held m" by (metis shape_inv_def)
  then have "mailbox_ref (task_at (wld s) a) = Some m" using shape_box [OF sh] by simp
  from run_world [OF e w this] have "task_at w1 = task_at (wld s)" "thread_at w1 = thread_at (wld s)"
    by auto
  with ok pc m show ?thesis by (auto simp: work_ok_def to_phase_def)
qed

lemma work_step:
  assumes "thread_step e th B s t" "quiet e" "shape_inv th B s c" "work_ok th s"
  shows "work_ok th t"
proof -
  note mono = step_control(1) [OF assms(1-3)]
  from assms mono show ?thesis
  proof (induction rule: thread_step.induct)
    case (fill s a f g d u)
    have t: "\<not> cancelled (task_at (task_init a f g d u (wld s)) a)" by (simp add: task_init_def)
    have "pc s \<noteq> T_Have a" using fill(1,4) unfolding shape_inv_def by (metis phase.distinct(5))
    with fill t show ?case
      by (auto simp: work_ok_def task_init_world) (metis task_init_world(2))+
  next
    case (reserve s a m w1)
    have ne: "pc s \<noteq> T_Have a" using reserve unfolding shape_inv_def by (metis phase.distinct(5))
    from reserve_world(2) [OF reserve(5)] have
      c: "\<And>b. cancelled (task_at (task_set_mailbox a (Some m) w1) b) = cancelled (task_at (wld s) b)"
      by (simp add: task_set_mailbox_def)
    from reserve_world(3) [OF reserve(5)] have
      "thread_at (task_set_mailbox a (Some m) w1) = thread_at (wld s)" by (simp add: set_mailbox_world)
    with reserve c show ?case by (auto simp: work_ok_def)
  next
    case (full m s w1)
    then show ?case using reserve_world(2,3) [OF full(2)] by (rule_tac work_frame [of th s]) auto
  next
    case (accept s a m w1)
    from accept_world [OF accept(2)] have "task_at w1 = task_at (wld s)" by auto
    with accept show ?case by (rule_tac work_frame [of th s]) (auto split: if_splits)
  next
    case (refuse s a m w1)
    from thread.refuse [OF refuse(2)] refuse show ?case
      by (rule_tac work_frame [of th s]) (auto split: if_splits simp: release_world)
  next
    case (sleep s w1)
    from turn_world [OF sleep(2)] have "task_at w1 = task_at (wld s)" by (auto split: option.splits if_splits)
    with sleep show ?case by (rule_tac work_frame [of th s]) auto
  next
    case (leave s w1)
    from turn_world [OF leave(2)] have "task_at w1 = task_at (wld s)" by (auto split: option.splits if_splits)
    with leave show ?case by (rule_tac work_frame [of th s]) auto
  next
    case (take s a w1)
    then show ?case by (intro work_take)
  next
    case (run s a w1)
    then show ?case by (intro work_run)
  next
    case (fetch m s a w1)
    from take_world [OF fetch(2), of th] have "task_at w1 = task_at (wld s)" by auto
    with fetch show ?case
      by (rule_tac work_frame [of th s]) (auto simp: to_phase_def split: if_splits option.splits)
  next
    case (fetch_none m s w1)
    from take_world [OF fetch_none(2), of th] have "task_at w1 = task_at (wld s)" by auto
    with fetch_none show ?case by (rule_tac work_frame [of th s]) auto
  next
    case (open_context s)
    then show ?case by (rule_tac work_frame [of th s]) (auto simp: control_world)
  next
    case (close_context s)
    then show ?case by (rule_tac work_frame [of th s]) (auto simp: control_world)
  next
    case (deliver s a m)
    then show ?case by (rule_tac work_frame [of th s]) (auto simp: deliver_world split: if_splits)
  next
    case (ending s)
    then show ?case by (rule_tac work_frame [of th s]) (auto simp: thread_stop_world)
  next
    case (stopping s k)
    then show ?case by (rule_tac work_frame [of th s]) (auto simp: thread_stop_world)
  next
    case (destroying s)
    then show ?case by (rule_tac work_frame [of th s]) (auto simp: thread_stop_world)
  qed
qed

lemma reachable_work:
  assumes "thread_reachable e th B s" "quiet e"
  shows "work_ok th s"
  using assms
proof (induction rule: thread_reachable.induct)
  case (start w)
  then show ?case by (simp add: work_ok_def sys_start_def)
next
  case (step s t)
  then show ?case using shape_reachable [of e th B s] work_step by blast
qed

section \<open>Places and deliveries\<close>

definition place_holders :: "sys \<Rightarrow> addr \<Rightarrow> addr set" where
  "place_holders s m = {a. phase_box (phase s a) = Some m}"

definition place_ok :: "addr set \<Rightarrow> sys \<Rightarrow> bool" where
  "place_ok B s \<longleftrightarrow>
     (\<forall>m \<in> B. finite (place_holders s m) \<and> card (place_holders s m) = unat (used (box_at (wld s) m)) \<and>
        used (box_at (wld s) m) \<le> capacity (box_at (wld s) m))"

fun in_flight :: "phase \<Rightarrow> bool" where
  "in_flight Free \<longleftrightarrow> False"
| "in_flight (Reserved m) \<longleftrightarrow> False"
| "in_flight p \<longleftrightarrow> True"

definition flight :: "(addr \<Rightarrow> phase) \<Rightarrow> addr set" where
  "flight p = {a. in_flight (p a)}"

definition flow_ok :: "sys \<Rightarrow> bool" where
  "flow_ok s \<longleftrightarrow>
     finite (flight (phase s)) \<and> mset (accepted s) = mset (delivered s) + mset_set (flight (phase s))"

lemma place_frame:
  assumes "place_ok B s" "\<And>a. phase_box (phase t a) = phase_box (phase s a)"
    "\<And>m. used (box_at (wld t) m) = used (box_at (wld s) m)"
    "\<And>m. capacity (box_at (wld t) m) = capacity (box_at (wld s) m)"
  shows "place_ok B t"
  using assms by (simp add: place_ok_def place_holders_def)

lemma flow_frame:
  assumes "flow_ok s" "\<And>a. in_flight (phase t a) = in_flight (phase s a)"
    "accepted t = accepted s" "delivered t = delivered s"
  shows "flow_ok t"
  using assms by (simp add: flow_ok_def flight_def)

lemma to_phase_box: "(\<And>m. phase_box (f m) = Some m) \<Longrightarrow> phase_box (to_phase f a p b) = phase_box (p b)"
  by (cases "p a") (auto simp: to_phase_def)

lemma place_reserve:
  assumes ok: "place_ok B s" and a: "phase s a = Free"
    and w: "mailbox_try_reserve m (wld s) = (True, w1)"
  shows "place_ok B (s\<lparr>wld := task_set_mailbox a (Some m) w1, phase := (phase s)(a := Reserved m)\<rparr>)"
    (is "place_ok B ?t")
  unfolding place_ok_def
proof
  fix n assume n: "n \<in> B"
  note r = reserve_world [OF w]
  have h: "place_holders ?t n = (if n = m then insert a (place_holders s n) else place_holders s n)"
    using a by (auto simp: place_holders_def)
  have "a \<notin> place_holders s n" using a by (simp add: place_holders_def)
  then show "finite (place_holders ?t n) \<and> card (place_holders ?t n) = unat (used (box_at (wld ?t) n)) \<and>
      used (box_at (wld ?t) n) \<le> capacity (box_at (wld ?t) n)"
    using ok n h r(5-7) by (auto simp: place_ok_def set_mailbox_world unat_inc_less inc_le)
qed

lemma place_give_back:
  assumes ok: "place_ok B s" and a: "phase_box (phase s a) = Some m"
    and t: "phase t = (phase s)(a := Free)"
      "\<And>n. used (box_at (wld t) n) = (if n = m then used (box_at (wld s) m) - 1 else used (box_at (wld s) n))"
      "\<And>n. capacity (box_at (wld t) n) = capacity (box_at (wld s) n)"
  shows "place_ok B t"
  unfolding place_ok_def
proof
  fix n assume n: "n \<in> B"
  have h: "place_holders t n = (if n = m then place_holders s n - {a} else place_holders s n)"
    using a t(1) by (auto simp: place_holders_def)
  have am: "a \<in> place_holders s m" using a by (simp add: place_holders_def)
  show "finite (place_holders t n) \<and> card (place_holders t n) = unat (used (box_at (wld t) n)) \<and>
      used (box_at (wld t) n) \<le> capacity (box_at (wld t) n)"
  proof (cases "n = m")
    case True
    with ok n have fin: "finite (place_holders s m)" "card (place_holders s m) = unat (used (box_at (wld s) m))"
      "used (box_at (wld s) m) \<le> capacity (box_at (wld s) m)"
      by (auto simp: place_ok_def)
    with am have "0 < unat (used (box_at (wld s) m))" by (metis card_gt_0_iff empty_iff)
    then have pos: "0 < used (box_at (wld s) m)" by (simp add: word_less_nat_alt)
    then show ?thesis using True h t(2,3) fin am
      by (simp add: unat_dec_pos word_le_nat_alt)
  next
    case False
    then show ?thesis using ok n h t(2,3) by (simp add: place_ok_def)
  qed
qed

lemma place_step:
  assumes "thread_step e th B s t" "quiet e" "shape_inv th B s c" "place_ok B s"
  shows "place_ok B t"
  using assms
proof (induction rule: thread_step.induct)
  case (reserve s a m w1)
  then show ?case by (simp add: place_reserve)
next
  case (full m s w1)
  show ?case by (rule place_frame [OF full(5)]) (use full reserve_world [OF full(2)] in simp_all)
next
  case (accept s a m w1)
  from accept_world [OF accept(2)] accept show ?case
    by (rule_tac place_frame [of B s]) auto
next
  case (refuse s a m w1)
  from thread.refuse [OF refuse(2)] refuse show ?case
    by (rule_tac place_give_back [of B s a m]) auto
next
  case (sleep s w1)
  from turn_world [OF sleep(2)] sleep show ?case by (rule_tac place_frame [of B s]) auto
next
  case (leave s w1)
  from turn_world [OF leave(2)] leave show ?case by (rule_tac place_frame [of B s]) auto
next
  case (take s a w1)
  from turn_world [OF take(2)] take show ?case by (rule_tac place_frame [of B s]) (auto simp: to_phase_box)
next
  case (run s a w1)
  then obtain m where "phase s a = Held m" by (metis shape_inv_def)
  with run have "mailbox_ref (task_at (wld s) a) = Some m" by (simp add: shape_box)
  from run_world [OF run(3,2) this] run show ?case
    by (rule_tac place_frame [of B s]) (auto simp: to_phase_box)
next
  case (fetch m s a w1)
  from take_world [OF fetch(2), of th] fetch show ?case
    by (rule_tac place_frame [of B s]) (auto simp: to_phase_box)
next
  case (fetch_none m s w1)
  from take_world [OF fetch_none(2), of th] fetch_none show ?case by (rule_tac place_frame [of B s]) auto
next
  case (deliver s a m)
  show ?case by (rule place_give_back [OF deliver(4), of a m]) (use deliver in \<open>simp_all add: deliver_world\<close>)
next
  case (fill s a f g d u)
  then show ?case by (rule_tac place_frame [of B s]) (auto simp: task_init_world)
next
  case (open_context s)
  then show ?case by (rule_tac place_frame [of B s]) (auto simp: control_world)
next
  case (close_context s)
  then show ?case by (rule_tac place_frame [of B s]) (auto simp: control_world)
next
  case (ending s)
  then show ?case by (rule_tac place_frame [of B s]) (auto simp: thread_stop_world)
next
  case (stopping s k)
  then show ?case by (rule_tac place_frame [of B s]) (auto simp: thread_stop_world)
next
  case (destroying s)
  then show ?case by (rule_tac place_frame [of B s]) (auto simp: thread_stop_world)
qed

lemma flight_upd:
  "flight (p(a := q)) = (if in_flight q then insert a (flight p) else flight p - {a})"
  by (auto simp: flight_def)

lemma flow_step:
  assumes "thread_step e th B s t" "shape_inv th B s c" "quiet e" "flow_ok s"
  shows "flow_ok t"
  using assms
proof (induction rule: thread_step.induct)
  case (accept s a m w1)
  then have "a \<notin> flight (phase s)" by (simp add: flight_def)
  with accept show ?case by (simp add: flow_ok_def flight_upd)
next
  case (deliver s a m)
  then have "a \<in> flight (phase s)" "finite (flight (phase s))" by (simp_all add: flow_ok_def flight_def)
  then have "mset_set (flight (phase s)) = add_mset a (mset_set (flight (phase s) - {a}))"
    by (simp add: mset_set.remove)
  with deliver show ?case by (simp add: flow_ok_def flight_upd)
next
  case (take s a w1)
  have "a \<in> set (c None)" using shape_take(2) [OF take(3,1,2)] by (metis list.set_intros(1))
  with take obtain m where "phase s a = Pending m" by (auto simp: shape_inv_def)
  with take show ?case by (rule_tac flow_frame [of s]) (auto simp: to_phase_def)
next
  case (run s a w1)
  then obtain m where "phase s a = Held m" by (metis shape_inv_def)
  with run show ?case by (rule_tac flow_frame [of s]) (auto simp: to_phase_def)
next
  case (fetch m s a w1)
  from shape_fetch(2) [OF fetch(3,1,2)] fetch show ?case
    by (rule_tac flow_frame [of s]) (auto simp: to_phase_def)
next
  case (reserve s a m w1)
  then have "a \<notin> flight (phase s)" by (simp add: flight_def)
  with reserve show ?case by (simp add: flow_ok_def flight_upd)
next
  case (refuse s a m w1)
  then have "a \<notin> flight (phase s)" by (simp add: flight_def)
  with refuse show ?case by (simp add: flow_ok_def flight_upd)
qed (simp_all add: flow_ok_def)

lemma reachable_places_flow:
  assumes "thread_reachable e th B s" "quiet e"
  shows "place_ok B s \<and> flow_ok s"
  using assms
proof (induction rule: thread_reachable.induct)
  case (start w)
  then show ?case
    by (simp add: place_ok_def flow_ok_def sys_start_def start_ok_def place_holders_def flight_def)
next
  case (step s t)
  then show ?case using shape_reachable [of e th B s] place_step flow_step by blast
qed

section \<open>What the executor promises\<close>

text \<open>
  C1: tasks start on the executor's thread in the order in which they were accepted: what was started
  is a prefix of what was accepted, and the rest is exactly what waits in the pending queue.
\<close>

theorem thread_in_order:
  assumes "thread_reachable e th B s" "quiet e"
  shows "\<exists>waiting. accepted s = started s @ waiting \<and>
           queue_rep (next_of (wld s)) (pending (thread_at (wld s) th)) waiting"
proof -
  from shape_reachable [OF assms] obtain c where c: "shape_inv th B s c" by blast
  then have "mpsc.family (next_of (wld s)) (queues th (wld s)) (owners B) c" by (simp add: shape_inv_def)
  then have "queue_rep (next_of (wld s)) (queues th (wld s) None) (c None)" unfolding mpsc.family_def by blast
  with c show ?thesis by (auto simp: shape_inv_def)
qed

text \<open>
  C4: once a stop was asked for, it never gets weaker, and no task is accepted any more.
\<close>

theorem thread_stop_is_final:
  assumes "thread_reachable e th B s" "quiet e" "(thread_step e th B)\<^sup>*\<^sup>* s t"
    "stop (thread_at (wld s) th) \<noteq> Stop_None"
  shows "accepted t = accepted s \<and> stop (thread_at (wld s) th) \<le> stop (thread_at (wld t) th)"
proof -
  have "thread_reachable e th B t \<and> accepted t = accepted s \<and> stop_of th s \<le> stop_of th t"
    using assms(3)
  proof (induction rule: rtranclp_induct)
    case base
    then show ?case using assms by simp
  next
    case (step t u)
    from step shape_reachable [OF _ assms(2)] obtain c where "shape_inv th B t c" by blast
    note ctl = step_control [OF step(2) assms(2) this]
    from step assms(4) have "stop_of th t \<noteq> Stop_None" by auto
    with step ctl show ?case by (auto intro: thread_reachable.step order_trans)
  qed
  then show ?thesis by blast
qed

text \<open>
  When the executor reports its end, every task it accepted was started, none is held by the
  thread or waits for it: each has gone to its mailbox.
\<close>

theorem thread_ended_complete:
  assumes "thread_reachable e th B s" "quiet e" "ended (thread_at (wld s) th)"
  shows "started s = accepted s \<and> (\<forall>a m. phase s a \<noteq> Pending m \<and> phase s a \<noteq> Held m)"
proof -
  from shape_reachable [OF assms(1,2)] obtain c where c: "shape_inv th B s c" by blast
  have "accepted s = started s" "pc s = T_End"
    using reachable_stage [OF assms(1,2)] assms(3) by (auto simp: stage_ok_def)
  moreover from this c have "c None = []" by (simp add: shape_inv_def)
  ultimately show ?thesis using c by (auto simp: shape_inv_def)
qed



text \<open>How many tasks the thread still has to run before it sees a cancelling stop: at most one.\<close>

definition debt :: "sys \<Rightarrow> nat" where
  "debt s = length (filter (\<lambda>a. \<not> cancelled (task_at (wld s) a)) (held_list (pc s)))"

lemma debt_frame:
  "held_list (pc t) = held_list (pc s) \<Longrightarrow>
   (\<And>a. pc s = T_Have a \<Longrightarrow> cancelled (task_at (wld t) a) = cancelled (task_at (wld s) a)) \<Longrightarrow> debt t = debt s"
  by (cases "pc s") (auto simp: debt_def)

lemma held_not_free: "shape_inv th B s c \<Longrightarrow> phase s a = Free \<Longrightarrow> pc s \<noteq> T_Have a"
  unfolding shape_inv_def by (metis phase.distinct(5))

lemma cancel_step:
  assumes "thread_step e th B s t" "quiet e" "shape_inv th B s c" "stop_of th s = Stop_Cancel"
  shows "length (worked t) + debt t \<le> length (worked s) + debt s"
  using assms
proof (induction rule: thread_step.induct)
  case (take s a w1)
  then have "cancelled (task_at w1 a)" using turn_world [OF take(2)] by (auto split: option.splits)
  with take show ?case by (simp add: debt_def)
next
  case (run s a w1)
  then show ?case by (simp add: debt_def)
next
  case (fill s a f g d u)
  have "debt (s\<lparr>wld := task_init a f g d u (wld s)\<rparr>) = debt s"
    by (rule debt_frame) (use held_not_free [OF fill(4,1)] task_init_world(2) in auto)
  then show ?case by simp
next
  case (reserve s a m w1)
  have "debt (s\<lparr>wld := task_set_mailbox a (Some m) w1, phase := (phase s)(a := Reserved m)\<rparr>) = debt s"
    by (rule debt_frame) (use reserve_world(2) [OF reserve(5)] in \<open>auto simp: task_set_mailbox_def\<close>)
  then show ?case by simp
next
  case (full m s w1)
  then show ?case using reserve_world(2) [OF full(2)] by (simp add: debt_def)
next
  case (accept s a m w1)
  then show ?case using accept_world [OF accept(2)] by (auto simp: debt_def)
next
  case (refuse s a m w1)
  then show ?case using thread.refuse [OF refuse(2)] by (simp add: debt_def)
next
  case (sleep s w1)
  then show ?case by (simp add: debt_def)
next
  case (fetch m s a w1)
  then show ?case using take_world [OF fetch(2), of th] by (auto simp: debt_def)
next
  case (fetch_none m s w1)
  then show ?case using take_world [OF fetch_none(2), of th] by (auto simp: debt_def)
qed (simp_all add: debt_def control_world thread_stop_world deliver_world)




section \<open>A run\<close>

text \<open>
  Executor 9 (stub 8) with mailbox 7 (stub 0): task 1 is submitted, a drain is asked for, the thread
  opens its context, runs the task, finds nothing left and ends.
\<close>

definition run0 :: sys where
  "run0 = sys_start (snd (thread_try_start 9 (context_init None None None) 8 True True True True one_task))"

definition run1 :: sys where
  "run1 = run0\<lparr>wld := task_set_mailbox 1 (Some 7) (snd (mailbox_try_reserve 7 (wld run0))),
               phase := (phase run0)(1 := Reserved 7)\<rparr>"

definition run2 :: sys where
  "run2 = run1\<lparr>wld := snd (projr (thread_try_accept 9 1 (wld run1))),
               phase := (phase run1)(1 := Pending 7), accepted := accepted run1 @ [1]\<rparr>"

definition run3 :: sys where
  "run3 = run2\<lparr>wld := thread_raise_stop 9 Stop_Drain (wld run2)\<rparr>"

definition run4 :: sys where
  "run4 = run3\<lparr>wld := thread_open no_op 9 (wld run3), pc := T_Wait\<rparr>"

definition run5 :: sys where
  "run5 = run4\<lparr>wld := snd (thread_wait_turn 9 (wld run4)), pc := T_Have 1,
               phase := to_phase Held 1 (phase run4), started := started run4 @ [1]\<rparr>"

definition run6 :: sys where
  "run6 = run5\<lparr>wld := projr (thread_run_task no_op 9 1 (wld run5)), pc := T_Wait,
               phase := to_phase Finished 1 (phase run5),
               worked := worked run5 @ (if cancelled (task_at (wld run5) 1) then [] else [1])\<rparr>"

definition run7 :: sys where
  "run7 = run6\<lparr>wld := snd (thread_wait_turn 9 (wld run6)), pc := T_Close\<rparr>"

definition run8 :: sys where
  "run8 = run7\<lparr>wld := thread_close no_op 9 (wld run7), pc := T_Closed\<rparr>"

definition run9 :: sys where
  "run9 = run8\<lparr>wld := thread_mark_ended 9 (wld run8), pc := T_End\<rparr>"

lemmas run_defs = run0_def run1_def run2_def run3_def run4_def run5_def run6_def run7_def run8_def run9_def

lemma run0_ok: "thread_reachable no_op 9 {7} run0"
proof -
  let ?w = "snd (thread_try_start 9 (context_init None None None) 8 True True True True one_task)"
  have r: "queue_rep (next_of ?w) (queues 9 ?w None) []" "queue_rep (next_of ?w) (queues 9 ?w (Some 7)) []"
    by (auto simp: thread_try_start_def queue_init_def thread_set_def queue_rep_def queue_nodes_def
        one_task_def task_init_def mailbox_init_def box_set_def Let_def intro: exI [of _ "[8]"] exI [of _ "[0]"])
  have "start_ok 9 {7} ?w"
    using r
    by (auto simp: start_ok_def mpsc.family_def mpsc.apart_def)
      (simp_all add: thread_try_start_def queue_init_def thread_set_def one_task_def task_init_def
        mailbox_init_def box_set_def Let_def)
  then show ?thesis unfolding run0_def by (rule thread_reachable.start)
qed

lemma run_facts:
  "fst (mailbox_try_reserve 7 (wld run0))" "\<not> cancelled (task_at (wld run0) 1)"
  "stubs 9 {7} (wld run0) = {8, 0}"
  "isl (thread_try_accept 9 1 (wld run1)) = False" "fst (projr (thread_try_accept 9 1 (wld run1)))"
  "fst (thread_wait_turn 9 (wld run4)) = Got (Some 1)"
  "isl (thread_run_task no_op 9 1 (wld run5)) = False"
  "fst (thread_wait_turn 9 (wld run6)) = Got None"
  by code_simp+

lemma run_fields:
  "phase run0 1 = Free" "phase run1 1 = Reserved 7" "pc run3 = T_Start" "pc run4 = T_Wait" "pc run5 = T_Have 1"
  "pc run6 = T_Wait" "pc run7 = T_Close" "pc run8 = T_Closed"
  by (simp_all add: run_defs sys_start_def)

lemma accepted_result: "isl x = False \<Longrightarrow> fst (projr x) \<Longrightarrow> x = Inr (True, snd (projr x))"
  by (cases x) auto

lemma run3_ok: "thread_reachable no_op 9 {7} run3"
proof -
  have "thread_step no_op 9 {7} run0 run1"
    unfolding run1_def
    by (rule thread_step.reserve) (use run_facts run_fields in \<open>simp_all add: prod_eq_iff\<close>)
  moreover have "thread_step no_op 9 {7} run1 run2"
    unfolding run2_def
    by (rule thread_step.accept [OF run_fields(2)], rule accepted_result) (use run_facts(4,5) in simp_all)
  moreover have "thread_step no_op 9 {7} run2 run3"
    unfolding run3_def by (rule thread_step.stopping)
  ultimately show ?thesis using run0_ok by (meson thread_reachable.step)
qed

lemma run_steps:
  "thread_step no_op 9 {7} run3 run4" "thread_step no_op 9 {7} run4 run5"
  "thread_step no_op 9 {7} run5 run6" "thread_step no_op 9 {7} run6 run7"
  "thread_step no_op 9 {7} run7 run8" "thread_step no_op 9 {7} run8 run9"
proof -
  show "thread_step no_op 9 {7} run3 run4"
    unfolding run4_def by (rule thread_step.open_context) (rule run_fields)
  show "thread_step no_op 9 {7} run4 run5"
    unfolding run5_def
    by (rule thread_step.take) (use run_facts run_fields in \<open>simp_all add: prod_eq_iff\<close>)
  show "thread_step no_op 9 {7} run5 run6"
    unfolding run6_def
    by (rule thread_step.run) (use run_facts run_fields in \<open>simp_all add: sum.expand\<close>)
  show "thread_step no_op 9 {7} run6 run7"
    unfolding run7_def
    by (rule thread_step.leave) (use run_facts run_fields in \<open>simp_all add: prod_eq_iff\<close>)
  show "thread_step no_op 9 {7} run7 run8"
    unfolding run8_def by (rule thread_step.close_context) (rule run_fields)
  show "thread_step no_op 9 {7} run8 run9"
    unfolding run9_def by (rule thread_step.ending) (rule run_fields)
qed

lemma run_oks:
  "thread_reachable no_op 9 {7} run4" "thread_reachable no_op 9 {7} run5" "thread_reachable no_op 9 {7} run6"
  "thread_reachable no_op 9 {7} run7" "thread_reachable no_op 9 {7} run8" "thread_reachable no_op 9 {7} run9"
proof -
  show r4: "thread_reachable no_op 9 {7} run4" by (rule thread_reachable.step [OF run3_ok run_steps(1)])
  show r5: "thread_reachable no_op 9 {7} run5" by (rule thread_reachable.step [OF r4 run_steps(2)])
  show r6: "thread_reachable no_op 9 {7} run6" by (rule thread_reachable.step [OF r5 run_steps(3)])
  show r7: "thread_reachable no_op 9 {7} run7" by (rule thread_reachable.step [OF r6 run_steps(4)])
  show r8: "thread_reachable no_op 9 {7} run8" by (rule thread_reachable.step [OF r7 run_steps(5)])
  show "thread_reachable no_op 9 {7} run9" by (rule thread_reachable.step [OF r8 run_steps(6)])
qed

lemma run3_run9: "(thread_step no_op 9 {7})\<^sup>*\<^sup>* run3 run9"
proof -
  let ?r = "thread_step no_op 9 {7}"
  note into = rtranclp.rtrancl_into_rtrancl [of ?r run3]
  have "?r\<^sup>*\<^sup>* run3 run6"
    by (rule into [OF into [OF into [OF rtranclp.rtrancl_refl run_steps(1)] run_steps(2)] run_steps(3)])
  then show ?thesis
    by (rule into [OF into [OF into [OF _ run_steps(4)] run_steps(5)] run_steps(6)])
qed

lemma run3_stop: "stop (thread_at (wld run3) 9) = Stop_Drain"
  by code_simp

lemma run9_facts:
  "ended (thread_at (wld run9) 9)" "stop (thread_at (wld run9) 9) = Stop_Drain" "accepted run9 = [1]"
  "stop (thread_at (wld run3) 9) = Stop_Drain"
proof -
  have pc9: "pc run9 = T_End" by (simp add: run9_def)
  show "stop (thread_at (wld run9) 9) = Stop_Drain"
    using step_stop_same [OF run_steps(1) no_op_quiet run3_ok] run3_stop
      step_stop_same [OF run_steps(2) no_op_quiet run_oks(1)]
      step_stop_same [OF run_steps(3) no_op_quiet run_oks(2)]
      step_stop_same [OF run_steps(4) no_op_quiet run_oks(3)]
      step_stop_same [OF run_steps(5) no_op_quiet run_oks(4)]
      step_stop_same [OF run_steps(6) no_op_quiet run_oks(5)] run_fields pc9
    by simp
  show "ended (thread_at (wld run9) 9)" by (simp add: run9_def control_thread)
  show "accepted run9 = [1]" by (simp add: run_defs sys_start_def)
qed (rule run3_stop)

lemmas run9_ok = run_oks(6)

theorem thread_in_order_witness:
  "\<exists>waiting. [1] = started run9 @ waiting \<and>
     queue_rep (next_of (wld run9)) (pending (thread_at (wld run9) 9)) waiting"
  using thread_in_order [OF run9_ok no_op_quiet] by (simp add: run9_facts)

theorem thread_stop_is_final_witness:
  "accepted run9 = accepted run3 \<and> Stop_Drain \<le> stop (thread_at (wld run9) 9)"
  using thread_stop_is_final [OF run3_ok no_op_quiet run3_run9] by (simp add: run9_facts)

theorem thread_ended_complete_witness: "started run9 = [1] \<and> phase run9 1 \<noteq> Pending 7"
  using thread_ended_complete [OF run9_ok no_op_quiet] by (simp add: run9_facts)




end
