(* ===== verification/Exec_Loop.thy ===== *)
theory Exec_Loop
  imports Exec_Mailbox
begin

text \<open>
  The worker loop, \<^verbatim>\<open>src/lh/exec/loop.c\<close>: one thread that steps, sleeps and is woken, stopped, abandoned
  and reaped from other threads. Every atomic access and every section under the loop's mutex is one
  step; \<open>Lp_Checked\<close> is the moment in \<^verbatim>\<open>lh_exec_loop_sleep\<close> between the test of the flags and the wait,
  in which a loop without a waiter holds its mutex.
\<close>

section \<open>The record\<close>

datatype loop_state = State_running | State_abandoned | State_ended | State_released

record exec_loop =
  wait_cb :: "cb option"
  wake_cb :: "cb option"
  period_ms :: u32
  is_started :: bool
  last_step :: bool
  pending_wake :: bool
  stopping :: bool
  state :: loop_state
  release_cb :: "cb option"
  release_user :: ptr

definition loop_init_flags :: "exec_loop \<Rightarrow> exec_loop" where
  "loop_init_flags l = l\<lparr>pending_wake := False, stopping := False, state := State_running\<rparr>"

text \<open>
  \<^verbatim>\<open>lh_exec_loop_try_create\<close>: \<open>alloc_ok\<close>, \<open>mutex_ok\<close> and \<open>condition_ok\<close> are the results of the allocation
  and of the two OS calls; the result is \<open>None\<close> for a null pointer.
\<close>

definition loop_try_create ::
  "u32 \<Rightarrow> cb option \<Rightarrow> bool \<Rightarrow> bool \<Rightarrow> bool \<Rightarrow> exec_loop option" where
  "loop_try_create period step_cb alloc_ok mutex_ok condition_ok =
     (if period = 0 \<or> step_cb = None then None
      else if \<not> alloc_ok then None
      else
        (let l = loop_init_flags
           \<lparr>wait_cb = None, wake_cb = None, period_ms = period, is_started = False, last_step = False,
            pending_wake = False, stopping = False, state = State_running, release_cb = None,
            release_user = None\<rparr>
         in if \<not> mutex_ok \<or> \<not> condition_ok then None else Some l))"

definition loop_try_create_waiting ::
  "u32 \<Rightarrow> cb option \<Rightarrow> cb option \<Rightarrow> cb option \<Rightarrow> bool \<Rightarrow> bool \<Rightarrow> bool \<Rightarrow> exec_loop option" where
  "loop_try_create_waiting period step_cb wait wake alloc_ok mutex_ok condition_ok =
     (if wait = None \<or> wake = None then None
      else case loop_try_create period step_cb alloc_ok mutex_ok condition_ok of
             None \<Rightarrow> None
           | Some l \<Rightarrow> Some (l\<lparr>wait_cb := wait, wake_cb := wake\<rparr>))"

definition loop_try_start_on :: "bool \<Rightarrow> exec_loop \<Rightarrow> bool \<times> exec_loop" where
  "loop_try_start_on os_ok l =
     (if is_started l then (False, l) else (os_ok, l\<lparr>is_started := os_ok\<rparr>))"

definition loop_take_pending :: "exec_loop \<Rightarrow> bool \<times> exec_loop" where
  "loop_take_pending l = (pending_wake l, l\<lparr>pending_wake := False\<rparr>)"

definition loop_exchange_state :: "loop_state \<Rightarrow> loop_state \<Rightarrow> exec_loop \<Rightarrow> bool \<times> exec_loop" where
  "loop_exchange_state expected desired l =
     (if state l = expected then (True, l\<lparr>state := desired\<rparr>) else (False, l))"

text \<open>The two stores of \<^verbatim>\<open>lh_exec_loop_try_abandon\<close> are published by its exchange.\<close>

definition loop_try_abandon :: "cb option \<Rightarrow> ptr \<Rightarrow> exec_loop \<Rightarrow> bool \<times> exec_loop" where
  "loop_try_abandon r u l =
     loop_exchange_state State_running State_abandoned (l\<lparr>release_cb := r, release_user := u\<rparr>)"

definition loop_is_ended :: "exec_loop \<Rightarrow> bool" where
  "loop_is_ended l \<longleftrightarrow> state l = State_ended"

text \<open>The longest sleep: the period, or less when a timer is due before; both are 32-bit ticks.\<close>

definition loop_timeout :: "exec_loop \<Rightarrow> u32 \<Rightarrow> u32" where
  "loop_timeout l until_next = min (period_ms l) until_next"

text \<open>
  The poll of \<^verbatim>\<open>lh_exec_loop_try_stop\<close>: each turn sees whether the loop has ended and what the clock
  says; the final load decides the result.
\<close>

fun loop_stop_poll :: "u64 \<Rightarrow> u32 \<Rightarrow> (bool \<times> u64) list \<Rightarrow> bool \<Rightarrow> bool option" where
  "loop_stop_poll start timeout [] final = None"
| "loop_stop_poll start timeout ((ended_now, now) # turns) final =
     (if \<not> ended_now \<and> now - start < ucast timeout then loop_stop_poll start timeout turns final
      else Some final)"

section \<open>The system\<close>

datatype loop_pos =
    Lp_Unstarted
  | Lp_Top
  | Lp_Read bool
  | Lp_Step bool
  | Lp_Sleep
  | Lp_Checked
  | Lp_Asleep
  | Lp_End
  | Lp_Release
  | Lp_Store
  | Lp_Done

text \<open>
  \<open>signalled\<close> is the signal that a waiter keeps until its \<open>wait\<close> consumes it. The rest is history:
  \<open>woken\<close> (a wake was completed since the flag was last taken), the value of \<open>last_step\<close> for each step
  that ran, the calls of the release callback, and what the owner has done.
\<close>

record loop_sys =
  loop :: exec_loop
  pos :: loop_pos
  signalled :: bool
  woken :: bool
  steps :: "bool list"
  releases :: "(cb \<times> ptr) list"
  given_up :: bool
  freed :: bool

abbreviation has_waiter :: "loop_sys \<Rightarrow> bool" where
  "has_waiter s \<equiv> wake_cb (loop s) \<noteq> None"

text \<open>Waking the thread from its sleep, when it sleeps.\<close>

definition rouse :: "loop_pos \<Rightarrow> loop_pos" where
  "rouse p = (if p = Lp_Asleep then Lp_Top else p)"

inductive loop_step :: "loop_sys \<Rightarrow> loop_sys \<Rightarrow> bool" where
  start:
  "pos s = Lp_Unstarted \<Longrightarrow> \<not> freed s \<Longrightarrow> loop_try_start_on True (loop s) = (True, l) \<Longrightarrow>
   loop_step s (s\<lparr>loop := l, pos := Lp_Top\<rparr>)"
| read_stop:
  "pos s = Lp_Top \<Longrightarrow> loop_step s (s\<lparr>pos := Lp_Read (stopping (loop s))\<rparr>)"
| take:
  "pos s = Lp_Read b \<Longrightarrow> loop_take_pending (loop s) = (p, l) \<Longrightarrow>
   loop_step s (s\<lparr>loop := l\<lparr>last_step := b\<rparr>, pos := Lp_Step b, woken := False\<rparr>)"
| run_step:
  "pos s = Lp_Step b \<Longrightarrow>
   loop_step s (s\<lparr>pos := (if b then Lp_End else Lp_Sleep), steps := steps s @ [last_step (loop s)]\<rparr>)"
| sleep_skip:
  "pos s = Lp_Sleep \<Longrightarrow> pending_wake (loop s) \<or> stopping (loop s) \<Longrightarrow> loop_step s (s\<lparr>pos := Lp_Top\<rparr>)"
| sleep_check:
  "pos s = Lp_Sleep \<Longrightarrow> \<not> pending_wake (loop s) \<Longrightarrow> \<not> stopping (loop s) \<Longrightarrow>
   loop_step s (s\<lparr>pos := Lp_Checked\<rparr>)"
| sleep:
  "pos s = Lp_Checked \<Longrightarrow> loop_step s (s\<lparr>pos := Lp_Asleep\<rparr>)"
| wait_signal:
  "pos s = Lp_Asleep \<Longrightarrow> has_waiter s \<Longrightarrow> signalled s \<Longrightarrow>
   loop_step s (s\<lparr>pos := Lp_Top, signalled := False\<rparr>)"
| wait_timeout:
  "pos s = Lp_Asleep \<Longrightarrow> loop_step s (s\<lparr>pos := Lp_Top\<rparr>)"
| wake_locked:
  "\<not> has_waiter s \<Longrightarrow> pos s \<noteq> Lp_Checked \<Longrightarrow> \<not> given_up s \<Longrightarrow> \<not> freed s \<Longrightarrow>
   loop_step s (s\<lparr>loop := (loop s)\<lparr>pending_wake := True\<rparr>, pos := rouse (pos s), woken := True\<rparr>)"
| hint_flag:
  "\<not> given_up s \<Longrightarrow> \<not> freed s \<Longrightarrow> loop_step s (s\<lparr>loop := (loop s)\<lparr>pending_wake := True\<rparr>\<rparr>)"
| hint_signal:
  "\<not> has_waiter s \<Longrightarrow> \<not> given_up s \<Longrightarrow> \<not> freed s \<Longrightarrow> loop_step s (s\<lparr>pos := rouse (pos s)\<rparr>)"
| wake_waiter:
  "has_waiter s \<Longrightarrow> \<not> given_up s \<Longrightarrow> \<not> freed s \<Longrightarrow> loop_step s (s\<lparr>signalled := True, woken := True\<rparr>)"
| stop_locked:
  "\<not> has_waiter s \<Longrightarrow> pos s \<noteq> Lp_Checked \<Longrightarrow> \<not> given_up s \<Longrightarrow> \<not> freed s \<Longrightarrow>
   loop_step s (s\<lparr>loop := (loop s)\<lparr>stopping := True\<rparr>, pos := rouse (pos s)\<rparr>)"
| stop_flag:
  "has_waiter s \<Longrightarrow> \<not> given_up s \<Longrightarrow> \<not> freed s \<Longrightarrow>
   loop_step s (s\<lparr>loop := (loop s)\<lparr>stopping := True\<rparr>\<rparr>)"
| abandon_won:
  "\<not> given_up s \<Longrightarrow> \<not> freed s \<Longrightarrow> is_started (loop s) \<Longrightarrow> loop_try_abandon r u (loop s) = (True, l) \<Longrightarrow>
   loop_step s (s\<lparr>loop := l, given_up := True\<rparr>)"
| abandon_lost:
  "\<not> given_up s \<Longrightarrow> \<not> freed s \<Longrightarrow> is_started (loop s) \<Longrightarrow> loop_try_abandon r u (loop s) = (False, l) \<Longrightarrow>
   loop_step s (s\<lparr>loop := l\<rparr>)"
| end_first:
  "pos s = Lp_End \<Longrightarrow> loop_exchange_state State_running State_ended (loop s) = (True, l) \<Longrightarrow>
   loop_step s (s\<lparr>loop := l, pos := Lp_Done\<rparr>)"
| end_abandoned:
  "pos s = Lp_End \<Longrightarrow> loop_exchange_state State_running State_ended (loop s) = (False, l) \<Longrightarrow>
   loop_step s (s\<lparr>loop := l, pos := Lp_Release\<rparr>)"
| release:
  "pos s = Lp_Release \<Longrightarrow>
   loop_step s (s\<lparr>pos := Lp_Store,
     releases := (case release_cb (loop s) of None \<Rightarrow> releases s
                  | Some r \<Rightarrow> releases s @ [(r, release_user (loop s))])\<rparr>)"
| store:
  "pos s = Lp_Store \<Longrightarrow> loop_step s (s\<lparr>loop := (loop s)\<lparr>state := State_released\<rparr>, pos := Lp_Done\<rparr>)"
| destroy:
  "\<not> given_up s \<Longrightarrow> \<not> freed s \<Longrightarrow> is_started (loop s) \<longrightarrow> pos s = Lp_Done \<Longrightarrow>
   loop_step s (s\<lparr>freed := True\<rparr>)"
| reap:
  "given_up s \<Longrightarrow> \<not> freed s \<Longrightarrow> state (loop s) = State_released \<Longrightarrow> loop_step s (s\<lparr>freed := True\<rparr>)"

definition loop_start :: "exec_loop \<Rightarrow> loop_sys" where
  "loop_start l = \<lparr>loop = l, pos = Lp_Unstarted, signalled = False, woken = False, steps = [],
                   releases = [], given_up = False, freed = False\<rparr>"

inductive loop_reachable :: "loop_sys \<Rightarrow> bool" where
  create: "loop_try_create p st a m c = Some l \<Longrightarrow> loop_reachable (loop_start l)"
| create_waiting: "loop_try_create_waiting p st wt wk a m c = Some l \<Longrightarrow> loop_reachable (loop_start l)"
| step: "loop_reachable s \<Longrightarrow> loop_step s t \<Longrightarrow> loop_reachable t"

section \<open>Invariants\<close>

fun finished_pos :: "loop_pos \<Rightarrow> bool" where
  "finished_pos Lp_End \<longleftrightarrow> True"
| "finished_pos Lp_Release \<longleftrightarrow> True"
| "finished_pos Lp_Store \<longleftrightarrow> True"
| "finished_pos Lp_Done \<longleftrightarrow> True"
| "finished_pos p \<longleftrightarrow> False"

definition wake_inv :: "loop_sys \<Rightarrow> bool" where
  "wake_inv s \<longleftrightarrow>
     (\<not> has_waiter s \<longrightarrow>
        (woken s \<longrightarrow> pending_wake (loop s)) \<and>
        (pos s = Lp_Checked \<or> pos s = Lp_Asleep \<longrightarrow> \<not> woken s \<and> \<not> stopping (loop s))) \<and>
     (has_waiter s \<longrightarrow> woken s \<longrightarrow> signalled s \<or> pos s = Lp_Top \<or> (\<exists>b. pos s = Lp_Read b))"

definition step_inv :: "loop_sys \<Rightarrow> bool" where
  "step_inv s \<longleftrightarrow>
     (\<forall>b. pos s = Lp_Step b \<longrightarrow> last_step (loop s) = b) \<and>
     (pos s = Lp_Read True \<or> pos s = Lp_Step True \<or> finished_pos (pos s) \<longrightarrow> stopping (loop s)) \<and>
     (\<exists>n. steps s = replicate n False @ (if finished_pos (pos s) then [True] else []))"

definition end_inv :: "loop_sys \<Rightarrow> bool" where
  "end_inv s \<longleftrightarrow>
     (is_started (loop s) \<longleftrightarrow> pos s \<noteq> Lp_Unstarted) \<and> (given_up s \<longrightarrow> is_started (loop s)) \<and>
     (freed s \<longrightarrow> pos s = Lp_Done \<or> pos s = Lp_Unstarted) \<and>
     (pos s = Lp_Release \<or> pos s = Lp_Store \<longrightarrow> given_up s) \<and>
     state (loop s) =
       (if pos s = Lp_Done then (if given_up s then State_released else State_ended)
        else if given_up s then State_abandoned else State_running) \<and>
     releases s =
       (if given_up s \<and> (pos s = Lp_Store \<or> pos s = Lp_Done)
        then (case release_cb (loop s) of None \<Rightarrow> [] | Some r \<Rightarrow> [(r, release_user (loop s))]) else [])"

lemmas loop_op_defs = loop_try_start_on_def loop_take_pending_def loop_exchange_state_def
  loop_try_abandon_def rouse_def

lemma wake_inv_step: "loop_step s t \<Longrightarrow> wake_inv s \<Longrightarrow> wake_inv t"
  by (induction rule: loop_step.induct) (auto simp: wake_inv_def loop_op_defs split: if_splits)

lemma replicate_snoc: "replicate n x @ [x] = replicate (Suc n) x"
  by (simp add: replicate_append_same)

lemma step_inv_step: "loop_step s t \<Longrightarrow> step_inv s \<Longrightarrow> step_inv t"
proof (induction rule: loop_step.induct)
  case (run_step s b)
  then obtain n where n: "steps s = replicate n False" "last_step (loop s) = b" by (auto simp: step_inv_def)
  show ?case
  proof (cases b)
    case True
    with run_step n show ?thesis by (auto simp: step_inv_def)
  next
    case False
    with n have "steps s @ [False] = replicate (Suc n) False" by (simp add: replicate_append_same)
    with False n run_step show ?thesis unfolding step_inv_def by (auto simp del: replicate.simps)
  qed
qed (auto simp: step_inv_def loop_op_defs split: if_splits)

lemma end_inv_step: "loop_step s t \<Longrightarrow> end_inv s \<Longrightarrow> end_inv t"
  by (induction rule: loop_step.induct)
    (auto simp: end_inv_def loop_op_defs split: if_splits option.splits)

lemma loop_start_inv:
  assumes "\<not> is_started l" "\<not> stopping l" "state l = State_running"
  shows "wake_inv (loop_start l) \<and> step_inv (loop_start l) \<and> end_inv (loop_start l)"
  using assms by (simp add: wake_inv_def step_inv_def end_inv_def loop_start_def)

lemma created_fields:
  "loop_try_create p st a m c = Some l \<Longrightarrow> \<not> is_started l \<and> \<not> stopping l \<and> state l = State_running"
  by (auto simp: loop_try_create_def loop_init_flags_def Let_def split: if_splits)

lemma created_waiting_fields:
  "loop_try_create_waiting p st wt wk a m c = Some l \<Longrightarrow> \<not> is_started l \<and> \<not> stopping l \<and> state l = State_running"
  by (auto simp: loop_try_create_waiting_def dest: created_fields split: if_splits option.splits)

lemma loop_reachable_inv: "loop_reachable s \<Longrightarrow> wake_inv s \<and> step_inv s \<and> end_inv s"
proof (induction rule: loop_reachable.induct)
  case (step s t)
  then show ?case by (blast intro: wake_inv_step step_inv_step end_inv_step)
qed (use loop_start_inv created_fields created_waiting_fields in blast)+

section \<open>What the loop promises\<close>

text \<open>
  C12: a wake is never lost: while one is outstanding (made since the thread last took the flag) the
  thread is not asleep, or its waiter holds the signal that ends the sleep; and a loop without a waiter
  never sleeps once a stop was asked for.
\<close>

theorem loop_wake_not_lost:
  assumes "loop_reachable s" "pos s = Lp_Asleep"
  shows "(woken s \<longrightarrow> has_waiter s \<and> signalled s) \<and> (stopping (loop s) \<longrightarrow> has_waiter s)"
  using loop_reachable_inv [OF assms(1)] assms(2) by (auto simp: wake_inv_def)

text \<open>
  The step that is told it is the last one is the last one: every step before it was told it is
  not, it runs exactly when the thread leaves its loop, and only after a stop was asked for.
\<close>

theorem loop_last_step_once:
  assumes "loop_reachable s"
  shows "\<exists>n. steps s = replicate n False @ (if finished_pos (pos s) then [True] else []) \<and>
             (finished_pos (pos s) \<longrightarrow> stopping (loop s))"
  using loop_reachable_inv [OF assms] by (auto simp: step_inv_def)


text \<open>A loop record is freed only once its thread has returned from its body, or never ran.\<close>

theorem loop_freed_unused:
  assumes "loop_reachable s" "freed s"
  shows "pos s = Lp_Done \<or> \<not> is_started (loop s)"
  using loop_reachable_inv [OF assms(1)] assms(2) by (auto simp: end_inv_def)

text \<open>How many more steps the thread runs once a stop was asked for.\<close>

fun steps_left :: "loop_pos \<Rightarrow> nat" where
  "steps_left (Lp_Read b) = (if b then 1 else 2)"
| "steps_left (Lp_Step b) = (if b then 1 else 2)"
| "steps_left p = (if finished_pos p then 0 else 1)"

lemma stop_step:
  assumes "loop_step s t" "stopping (loop s)"
  shows "stopping (loop t) \<and> length (steps t) + steps_left (pos t) \<le> length (steps s) + steps_left (pos s)"
  using assms
  by (induction rule: loop_step.induct) (auto simp: loop_op_defs split: if_splits)

text \<open>
  Once a stop was asked for, at most two more steps run: the one the thread had already decided on,
  and the last one.
\<close>

theorem loop_stop_bound:
  assumes "stopping (loop s)" "loop_step\<^sup>*\<^sup>* s t"
  shows "length (steps t) \<le> length (steps s) + 2"
proof -
  have "stopping (loop t) \<and> length (steps t) + steps_left (pos t) \<le> length (steps s) + steps_left (pos s)"
    using assms(2)
  proof (induction rule: rtranclp_induct)
    case base
    then show ?case using assms(1) by simp
  next
    case (step t u)
    then show ?case using stop_step [of t u] by simp
  qed
  moreover have "steps_left (pos s) \<le> 2" by (cases "pos s") auto
  ultimately show ?thesis by linarith
qed

section \<open>A run\<close>

text \<open>A started loop that sleeps.\<close>

definition lrun0 :: loop_sys where
  "lrun0 = loop_start (the (loop_try_create 10 (Some 1) True True True))"

definition lrun1 :: loop_sys where
  "lrun1 = lrun0\<lparr>loop := snd (loop_try_start_on True (loop lrun0)), pos := Lp_Top\<rparr>"

definition lrun2 :: loop_sys where
  "lrun2 = lrun1\<lparr>pos := Lp_Asleep, steps := [False]\<rparr>"

text \<open>The same loop stopped and abandoned while it sleeps, then gone.\<close>

definition lrun3 :: loop_sys where
  "lrun3 = lrun2\<lparr>loop := (loop lrun2)\<lparr>stopping := True\<rparr>, pos := Lp_Top\<rparr>"

definition lrun4 :: loop_sys where
  "lrun4 = lrun3\<lparr>loop := snd (loop_try_abandon (Some 5) (Some 6) (loop lrun3)), given_up := True\<rparr>"

definition lrun5 :: loop_sys where
  "lrun5 = lrun4\<lparr>loop := (loop lrun4)\<lparr>last_step := True, state := State_released\<rparr>, pos := Lp_Done,
                 steps := [False, True], releases := [(5, Some 6)]\<rparr>"

definition lrun6 :: loop_sys where
  "lrun6 = lrun5\<lparr>freed := True\<rparr>"

lemmas lrun_defs = lrun0_def lrun1_def lrun2_def lrun3_def lrun4_def lrun5_def lrun6_def loop_start_def
  loop_try_create_def loop_init_flags_def loop_op_defs

lemma lrun1_ok: "loop_reachable lrun1"
proof -
  have "loop_reachable lrun0"
    unfolding lrun0_def
    by (rule loop_reachable.create [of 10 "Some 1" True True True]) (simp add: loop_try_create_def Let_def)
  then show ?thesis
    by (rule loop_reachable.step, unfold lrun1_def, intro loop_step.start) (simp_all add: lrun_defs Let_def)
qed

lemma lrun2_ok: "loop_reachable lrun2"
proof -
  let ?a = "lrun1\<lparr>pos := Lp_Read False\<rparr>"
  let ?b = "lrun1\<lparr>pos := Lp_Step False\<rparr>"
  let ?c = "lrun1\<lparr>pos := Lp_Sleep, steps := [False]\<rparr>"
  let ?d = "lrun1\<lparr>pos := Lp_Checked, steps := [False]\<rparr>"
  have "loop_step lrun1 ?a" using loop_step.read_stop [of lrun1] by (simp add: lrun_defs Let_def)
  moreover have "loop_step ?a ?b"
    using loop_step.take [of ?a False False "loop lrun1"] by (simp add: lrun_defs Let_def)
  moreover have "loop_step ?b ?c" using loop_step.run_step [of ?b False] by (simp add: lrun_defs Let_def)
  moreover have "loop_step ?c ?d" using loop_step.sleep_check [of ?c] by (simp add: lrun_defs Let_def)
  moreover have "loop_step ?d lrun2" using loop_step.sleep [of ?d] by (simp add: lrun_defs Let_def)
  ultimately show ?thesis using lrun1_ok by (metis loop_reachable.step)
qed

lemma lrun4_ok: "loop_reachable lrun4"
proof -
  have "loop_step lrun2 lrun3" using loop_step.stop_locked [of lrun2] by (simp add: lrun_defs Let_def)
  moreover have "loop_step lrun3 lrun4"
    unfolding lrun4_def by (rule loop_step.abandon_won) (simp_all add: lrun_defs Let_def)
  ultimately show ?thesis using lrun2_ok by (metis loop_reachable.step)
qed

lemma lrun4_lrun6: "loop_step\<^sup>*\<^sup>* lrun4 lrun5" "loop_step lrun5 lrun6"
proof -
  let ?a = "lrun4\<lparr>pos := Lp_Read True\<rparr>"
  let ?b = "lrun4\<lparr>loop := (loop lrun4)\<lparr>last_step := True\<rparr>, pos := Lp_Step True\<rparr>"
  let ?c = "?b\<lparr>pos := Lp_End, steps := [False, True]\<rparr>"
  let ?d = "?b\<lparr>pos := Lp_Release, steps := [False, True]\<rparr>"
  let ?e = "?b\<lparr>pos := Lp_Store, steps := [False, True], releases := [(5, Some 6)]\<rparr>"
  have "loop_step lrun4 ?a" using loop_step.read_stop [of lrun4] by (simp add: lrun_defs Let_def)
  moreover have "loop_step ?a ?b"
    using loop_step.take [of ?a True False "loop lrun4"] by (simp add: lrun_defs Let_def)
  moreover have "loop_step ?b ?c" using loop_step.run_step [of ?b True] by (simp add: lrun_defs Let_def)
  moreover have "loop_step ?c ?d"
    using loop_step.end_abandoned [of ?c "loop ?c"] by (simp add: lrun_defs Let_def)
  moreover have "loop_step ?d ?e" using loop_step.release [of ?d] by (simp add: lrun_defs Let_def)
  moreover have "loop_step ?e lrun5" using loop_step.store [of ?e] by (simp add: lrun_defs Let_def)
  ultimately show "loop_step\<^sup>*\<^sup>* lrun4 lrun5"
    by (auto intro: converse_rtranclp_into_rtranclp)
  show "loop_step lrun5 lrun6" using loop_step.reap [of lrun5] by (simp add: lrun_defs Let_def)
qed

lemma lrun5_ok: "loop_reachable lrun5"
  using lrun4_lrun6(1) lrun4_ok by (induction rule: rtranclp_induct) (auto intro: loop_reachable.step)

theorem loop_wake_not_lost_witness: "pos lrun2 = Lp_Asleep \<and> \<not> woken lrun2 \<and> \<not> stopping (loop lrun2)"
proof -
  have "pos lrun2 = Lp_Asleep" "\<not> has_waiter lrun2" by (simp_all add: lrun_defs Let_def)
  then show ?thesis using loop_wake_not_lost [OF lrun2_ok] by blast
qed

theorem loop_last_step_once_witness:
  "\<exists>n. steps lrun5 = replicate n False @ [True] \<and> stopping (loop lrun5)"
proof -
  have "pos lrun5 = Lp_Done" by (simp add: lrun5_def)
  then show ?thesis using loop_last_step_once [OF lrun5_ok] by simp
qed


theorem loop_freed_unused_witness: "freed lrun6 \<and> is_started (loop lrun6) \<and> pos lrun6 = Lp_Done"
proof -
  have f: "freed lrun6" by (simp add: lrun6_def)
  have i: "is_started (loop lrun6)" by (simp add: lrun_defs Let_def)
  then show ?thesis
    using loop_freed_unused [of lrun6] loop_reachable.step [OF lrun5_ok lrun4_lrun6(2)] f by blast
qed

theorem loop_stop_bound_witness: "length (steps lrun5) \<le> length (steps lrun4) + 2"
proof -
  have "stopping (loop lrun4)" by (simp add: lrun_defs Let_def)
  then show ?thesis using loop_stop_bound lrun4_lrun6(1) by blast
qed

end
