(* ===== verification/Spsc.thy ===== *)
theory Spsc
  imports Prelude
begin

text \<open>
  The bounded single-producer single-consumer ring, \<^verbatim>\<open>src/lh/core/spsc.c\<close>, down to the bytes of its
  storage and the wrap-around of its 32-bit counters. The first half is the operations as one thread
  runs them, refined to a bounded list (locale \<open>bounded_fifo\<close>). The second half interleaves the
  producer, which copies a record byte by byte, with the consumer.
\<close>

section \<open>The operations\<close>

record spsc =
  sp_storage :: "u8 list"
  sp_capacity :: uint_t
  sp_item_size :: u64
  sp_written :: uint_t
  sp_read :: uint_t

definition spsc_is_valid_shape :: "bool \<Rightarrow> uint_t \<Rightarrow> u64 \<Rightarrow> bool" where
  "spsc_is_valid_shape storage_set capacity item_size \<longleftrightarrow>
     storage_set \<and> capacity \<noteq> 0 \<and> capacity AND (capacity - 1) = 0 \<and> capacity \<le> (- 1) div 2 \<and>
     item_size \<noteq> 0 \<and> item_size \<le> (- 1) div ucast capacity"

text \<open>
  A null storage is \<open>None\<close>; \<open>alloc_ok\<close> is the outcome of the allocator (its callbacks are set and the
  record was allocated), \<open>lock_free\<close> that of \<^verbatim>\<open>lh_spsc_is_lock_free\<close>.
\<close>

definition spsc_create :: "u8 list option \<Rightarrow> uint_t \<Rightarrow> u64 \<Rightarrow> bool \<Rightarrow> bool \<Rightarrow> spsc option" where
  "spsc_create storage capacity item_size alloc_ok lock_free =
     (if \<not> spsc_is_valid_shape (storage \<noteq> None) capacity item_size then None
      else if \<not> alloc_ok then None
      else
        (let q = \<lparr>sp_storage = the storage, sp_capacity = capacity, sp_item_size = item_size,
                  sp_written = 0, sp_read = 0\<rparr>
         in if \<not> lock_free then None else Some q))"

definition spsc_offset :: "spsc \<Rightarrow> uint_t \<Rightarrow> u64" where
  "spsc_offset q position = ucast (position AND (sp_capacity q - 1)) * sp_item_size q"

definition spsc_slot :: "spsc \<Rightarrow> uint_t \<Rightarrow> u8 list" where
  "spsc_slot q position = take (unat (sp_item_size q)) (drop (unat (spsc_offset q position)) (sp_storage q))"

definition blit :: "'a list \<Rightarrow> nat \<Rightarrow> 'a list \<Rightarrow> 'a list" where
  "blit dst off src = take off dst @ src @ drop (off + length src) dst"

definition spsc_push :: "spsc \<Rightarrow> u8 list \<Rightarrow> bool \<times> spsc" where
  "spsc_push q item =
     (let position = sp_written q
      in if position - sp_read q \<ge> sp_capacity q then (False, q)
         else (True, q\<lparr>sp_storage := blit (sp_storage q) (unat (spsc_offset q position)) item,
                       sp_written := position + 1\<rparr>))"

definition spsc_peek :: "spsc \<Rightarrow> u8 list option" where
  "spsc_peek q = (if sp_read q = sp_written q then None else Some (spsc_slot q (sp_read q)))"

definition spsc_release :: "spsc \<Rightarrow> error_code + spsc" where
  "spsc_release q =
     (if spsc_peek q = None then Inl Null_pointer else Inr (q\<lparr>sp_read := sp_read q + 1\<rparr>))"

section \<open>The ring as a list\<close>

definition spsc_length :: "spsc \<Rightarrow> nat" where
  "spsc_length q = unat (sp_written q - sp_read q)"

definition spsc_items :: "spsc \<Rightarrow> u8 list list" where
  "spsc_items q = map (\<lambda>i. spsc_slot q (sp_read q + of_nat i)) [0..<spsc_length q]"

definition spsc_ok :: "spsc \<Rightarrow> bool" where
  "spsc_ok q \<longleftrightarrow>
     spsc_is_valid_shape True (sp_capacity q) (sp_item_size q) \<and>
     length (sp_storage q) = unat (sp_capacity q) * unat (sp_item_size q) \<and>
     spsc_length q \<le> unat (sp_capacity q)"

lemma blit_length [simp]: "off + length src \<le> length dst \<Longrightarrow> length (blit dst off src) = length dst"
  by (simp add: blit_def)

lemma blit_same:
  "off + length src \<le> length dst \<Longrightarrow> take (length src) (drop off (blit dst off src)) = src"
  by (simp add: blit_def)

lemma blit_other:
  assumes "off + length src \<le> length dst" "k + n \<le> off \<or> off + length src \<le> k"
  shows "take n (drop k (blit dst off src)) = take n (drop k dst)"
proof (rule nth_equalityI)
  show l: "length (take n (drop k (blit dst off src))) = length (take n (drop k dst))" using assms by simp
  fix i assume "i < length (take n (drop k (blit dst off src)))"
  then have "i < n" "k + i < length dst" using assms by auto
  then show "take n (drop k (blit dst off src)) ! i = take n (drop k dst) ! i"
    using assms by (auto simp: blit_def nth_append)
qed

text \<open>What the shape test buys: the slot of a position is a multiple of the item size, inside the storage.\<close>

lemma shape_pow2:
  assumes "spsc_is_valid_shape st c n"
  obtains k where "k < 32" "unat c = 2 ^ k" "c - 1 = mask k"
proof -
  have "c \<noteq> 0" "c AND (c - 1) = 0" using assms by (auto simp: spsc_is_valid_shape_def)
  from word_pow2 [OF this] that show ?thesis by auto
qed

lemma shape_product:
  assumes "spsc_is_valid_shape st c n"
  shows "unat c * unat n < 2 ^ 64"
proof -
  have c: "unat (ucast c :: u64) = unat c" by (simp add: unat_ucast_up)
  have "unat n \<le> unat ((- 1 :: u64) div ucast c)"
    using assms by (simp add: spsc_is_valid_shape_def word_le_nat_alt)
  also have "\<dots> = (2 ^ 64 - 1) div unat c" by (simp add: unat_div c unsigned_minus_1_eq_mask mask_eq_exp_minus_1)
  finally have "unat n * unat c \<le> (2 ^ 64 - 1) div unat c * unat c" by (rule mult_le_mono1)
  also have "\<dots> \<le> 2 ^ 64 - 1" by (rule div_times_less_eq_dividend)
  finally have "unat n * unat c \<le> 2 ^ 64 - 1" .
  then show ?thesis by (simp add: mult.commute)
qed

lemma slot_offset:
  assumes "spsc_is_valid_shape st (sp_capacity q) (sp_item_size q)"
  shows "unat (spsc_offset q position) = (unat position mod unat (sp_capacity q)) * unat (sp_item_size q)"
proof -
  from assms obtain k where k: "k < 32" "unat (sp_capacity q) = 2 ^ k" "sp_capacity q - 1 = mask k"
    by (rule shape_pow2)
  let ?i = "unat position mod unat (sp_capacity q)"
  have i: "unat (position AND (sp_capacity q - 1)) = ?i" using k by (simp add: unat_and_mask)
  have lt: "?i < unat (sp_capacity q)" using k by simp
  have u: "unat (ucast (position AND (sp_capacity q - 1)) :: u64) = ?i"
    using i by (simp add: unat_ucast_up)
  have "?i * unat (sp_item_size q) \<le> unat (sp_capacity q) * unat (sp_item_size q)"
    using lt by (intro mult_le_mono1) simp
  also have "\<dots> < 2 ^ 64" by (rule shape_product [OF assms])
  finally have "?i * unat (sp_item_size q) < 2 ^ 64" .
  then show ?thesis unfolding spsc_offset_def by (simp add: unat_word_ariths u)
qed

lemma slot_inside:
  assumes "spsc_ok q"
  shows "unat (spsc_offset q position) + unat (sp_item_size q) \<le> length (sp_storage q)"
proof -
  let ?c = "unat (sp_capacity q)" and ?n = "unat (sp_item_size q)"
  from assms have v: "spsc_is_valid_shape True (sp_capacity q) (sp_item_size q)" by (simp add: spsc_ok_def)
  then have "0 < ?c" by (simp add: spsc_is_valid_shape_def unat_gt_0)
  then have "Suc (unat position mod ?c) \<le> ?c" by (simp add: Suc_leI)
  then have "Suc (unat position mod ?c) * ?n \<le> ?c * ?n" by (rule mult_le_mono1)
  then show ?thesis using assms by (simp add: slot_offset [OF v] spsc_ok_def)
qed

lemma slot_length: "spsc_ok q \<Longrightarrow> length (spsc_slot q position) = unat (sp_item_size q)"
  using slot_inside [of q position] by (simp add: spsc_slot_def)

lemma slot_index:
  assumes "spsc_is_valid_shape st c n"
  shows "unat ((r :: uint_t) + of_nat i) mod unat c = (unat r + i) mod unat c"
proof -
  from assms obtain k where k: "k < 32" "unat c = 2 ^ k" by (rule shape_pow2)
  from k(1) have "(2::nat) ^ k dvd 2 ^ 32" by (intro le_imp_power_dvd) simp
  with k(2) have "unat c dvd 2 ^ 32" by simp
  moreover have "unat (r + of_nat i) = (unat r + i) mod 2 ^ 32"
    by (simp add: unat_word_ariths unat_of_nat mod_add_right_eq)
  ultimately show ?thesis by (simp add: mod_mod_cancel)
qed

lemma mod_add_distinct:
  assumes "(i::nat) < j" "j < i + m"
  shows "(a + i) mod m \<noteq> (a + j) mod m"
proof
  assume "(a + i) mod m = (a + j) mod m"
  then have "m dvd (a + j) - (a + i)" by (metis mod_eq_dvd_iff_nat assms(1) add_le_cancel_left less_imp_le)
  then have "m dvd j - i" by simp
  with assms show False by (auto dest: dvd_imp_le)
qed

text \<open>Positions less than the capacity apart have disjoint slots.\<close>

lemma slots_apart:
  assumes "spsc_ok q" "i < j" "j < i + unat (sp_capacity q)"
  shows "unat (spsc_offset q (r + of_nat i)) + unat (sp_item_size q) \<le> unat (spsc_offset q (r + of_nat j)) \<or>
         unat (spsc_offset q (r + of_nat j)) + unat (sp_item_size q) \<le> unat (spsc_offset q (r + of_nat i))"
proof -
  let ?c = "unat (sp_capacity q)" and ?n = "unat (sp_item_size q)"
  from assms have v: "spsc_is_valid_shape True (sp_capacity q) (sp_item_size q)" by (simp add: spsc_ok_def)
  let ?a = "(unat r + i) mod ?c" and ?b = "(unat r + j) mod ?c"
  have "?a \<noteq> ?b" using assms by (intro mod_add_distinct)
  then have "Suc ?a \<le> ?b \<or> Suc ?b \<le> ?a" by linarith
  then have "Suc ?a * ?n \<le> ?b * ?n \<or> Suc ?b * ?n \<le> ?a * ?n" by (meson mult_le_mono1)
  then show ?thesis by (simp add: slot_offset [OF v] slot_index [OF v] add.commute)
qed

lemma written_position: "sp_written q = sp_read q + of_nat (spsc_length q)"
  by (simp add: spsc_length_def)

lemma spsc_push_room:
  assumes "spsc_ok q" "length item = unat (sp_item_size q)" "spsc_length q < unat (sp_capacity q)"
  shows "\<exists>q'. spsc_push q item = (True, q') \<and> spsc_ok q' \<and> spsc_items q' = spsc_items q @ [item] \<and>
           sp_capacity q' = sp_capacity q \<and> sp_item_size q' = sp_item_size q"
proof -
  let ?n = "spsc_length q"
  let ?q = "q\<lparr>sp_storage := blit (sp_storage q) (unat (spsc_offset q (sp_written q))) item,
             sp_written := sp_written q + 1\<rparr>"
  have lt: "sp_written q - sp_read q < sp_capacity q"
    using assms(3) by (simp add: spsc_length_def word_less_nat_alt)
  have in_st: "unat (spsc_offset q (sp_written q)) + length item \<le> length (sp_storage q)"
    using slot_inside [OF assms(1)] assms(2) by simp
  have len: "spsc_length ?q = Suc ?n"
    using unat_inc_less [OF lt] by (simp add: spsc_length_def diff_add_eq)
  have off: "\<And>p. spsc_offset ?q p = spsc_offset q p" by (simp add: spsc_offset_def)
  have old: "spsc_slot ?q (sp_read q + of_nat i) = spsc_slot q (sp_read q + of_nat i)" if "i < ?n" for i
  proof -
    have "unat (spsc_offset q (sp_read q + of_nat i)) + unat (sp_item_size q) \<le> unat (spsc_offset q (sp_written q)) \<or>
          unat (spsc_offset q (sp_written q)) + unat (sp_item_size q) \<le> unat (spsc_offset q (sp_read q + of_nat i))"
      unfolding written_position [of q] using slots_apart [OF assms(1) that] assms(3) by simp
    then show ?thesis
      unfolding spsc_slot_def off using in_st assms(2)
      by (auto intro!: blit_other)
  qed
  have new: "spsc_slot ?q (sp_written q) = item"
    unfolding spsc_slot_def off using blit_same [OF in_st] assms(2) by simp
  have "spsc_items ?q = map (\<lambda>i. spsc_slot ?q (sp_read q + of_nat i)) [0..<?n] @ [spsc_slot ?q (sp_written q)]"
    unfolding spsc_items_def len using written_position [of q] by simp
  also have "\<dots> = spsc_items q @ [item]" using old new by (simp add: spsc_items_def)
  finally have items: "spsc_items ?q = spsc_items q @ [item]" .
  have "spsc_ok ?q" using assms len in_st by (simp add: spsc_ok_def)
  with items lt show ?thesis by (intro exI [of _ ?q]) (simp add: spsc_push_def Let_def)
qed

lemma spsc_push_full:
  "spsc_length q = unat (sp_capacity q) \<Longrightarrow> spsc_push q item = (False, q)"
  by (simp add: spsc_push_def spsc_length_def Let_def word_le_nat_alt)

lemma items_Nil_iff: "spsc_items q = [] \<longleftrightarrow> sp_read q = sp_written q"
  by (auto simp: spsc_items_def spsc_length_def unat_eq_zero)

lemma spsc_peek_items: "spsc_peek q = (case spsc_items q of [] \<Rightarrow> None | x # _ \<Rightarrow> Some x)"
proof (cases "sp_read q = sp_written q")
  case True
  then show ?thesis using items_Nil_iff [of q] by (simp add: spsc_peek_def)
next
  case False
  then have "0 < spsc_length q" by (simp add: spsc_length_def unat_gt_0)
  then have "spsc_items q = spsc_slot q (sp_read q) # map (\<lambda>i. spsc_slot q (sp_read q + of_nat i)) [1..<spsc_length q]"
    by (simp add: spsc_items_def upt_conv_Cons)
  with False show ?thesis by (simp add: spsc_peek_def)
qed

lemma spsc_release_items:
  assumes "spsc_ok q" "spsc_items q = x # xs"
  shows "\<exists>q'. spsc_release q = Inr q' \<and> spsc_ok q' \<and> spsc_items q' = xs \<and>
           sp_capacity q' = sp_capacity q \<and> sp_item_size q' = sp_item_size q"
proof -
  let ?q = "q\<lparr>sp_read := sp_read q + 1\<rparr>"
  have ne: "sp_read q \<noteq> sp_written q" using assms(2) items_Nil_iff [of q] by auto
  then have pos: "0 < sp_written q - sp_read q" by (simp add: word_neq_0_conv [symmetric])
  have len: "spsc_length ?q = spsc_length q - 1" "0 < spsc_length q"
    using unat_dec_pos [OF pos] ne by (auto simp: spsc_length_def diff_diff_eq [symmetric] unat_gt_0)
  have "spsc_items ?q = map (\<lambda>i. spsc_slot q (sp_read q + of_nat (Suc i))) [0..<spsc_length q - 1]"
    unfolding spsc_items_def len by (simp add: spsc_slot_def spsc_offset_def add.assoc)
  also have "\<dots> = tl (spsc_items q)"
    using len(2) by (cases "spsc_length q") (simp_all add: spsc_items_def upt_conv_Cons map_Suc_upt [symmetric] del: upt_Suc)
  finally have "spsc_items ?q = xs" using assms(2) by simp
  moreover have "spsc_ok ?q" using assms(1) len by (auto simp: spsc_ok_def)
  ultimately show ?thesis using ne by (simp add: spsc_release_def spsc_peek_def)
qed

section \<open>The contract of a bounded queue\<close>

locale bounded_fifo =
  fixes ok :: "'q \<Rightarrow> bool"
    and items :: "'q \<Rightarrow> 'x list"
    and cap :: "'q \<Rightarrow> nat"
    and fits :: "'q \<Rightarrow> 'x \<Rightarrow> bool"
    and push :: "'q \<Rightarrow> 'x \<Rightarrow> bool \<times> 'q"
    and peek :: "'q \<Rightarrow> 'x option"
    and release :: "'q \<Rightarrow> 'e + 'q"
  assumes bound: "ok q \<Longrightarrow> length (items q) \<le> cap q"
    and push_room: "ok q \<Longrightarrow> fits q x \<Longrightarrow> length (items q) < cap q \<Longrightarrow>
          \<exists>q'. push q x = (True, q') \<and> ok q' \<and> items q' = items q @ [x] \<and> cap q' = cap q \<and> fits q' = fits q"
    and push_full: "length (items q) = cap q \<Longrightarrow> push q x = (False, q)"
    and peek_items: "peek q = (case items q of [] \<Rightarrow> None | x # _ \<Rightarrow> Some x)"
    and release_items: "ok q \<Longrightarrow> items q = x # xs \<Longrightarrow>
          \<exists>q'. release q = Inr q' \<and> ok q' \<and> items q' = xs \<and> cap q' = cap q \<and> fits q' = fits q"
begin

text \<open>A burst of pushes keeps what fits and rejects the newest.\<close>

lemma push_burst:
  assumes "ok q" "\<forall>x \<in> set xs. fits q x"
  shows "ok (foldl (\<lambda>q x. snd (push q x)) q xs) \<and>
         items (foldl (\<lambda>q x. snd (push q x)) q xs) = items q @ take (cap q - length (items q)) xs"
  using assms
proof (induction xs arbitrary: q)
  case (Cons x xs)
  show ?case
  proof (cases "length (items q) < cap q")
    case True
    with push_room [of q x] Cons.prems obtain q' where
      q': "push q x = (True, q')" "ok q'" "items q' = items q @ [x]" "cap q' = cap q" "fits q' = fits q"
      by auto
    with Cons.IH [of q'] Cons.prems True show ?thesis by (simp add: Suc_diff_Suc take_Cons')
  next
    case False
    with bound [of q] Cons.prems have full: "length (items q) = cap q" by simp
    with push_full [OF full] Cons.IH [of q] Cons.prems show ?thesis by simp
  qed
qed simp

lemma release_nth:
  assumes "ok q" "n < length (items q)"
  shows "peek (((\<lambda>q. projr (release q)) ^^ n) q) = Some (items q ! n)"
  using assms
proof (induction n arbitrary: q)
  case 0
  then show ?case by (cases "items q") (simp_all add: peek_items)
next
  case (Suc n)
  then obtain x xs where xs: "items q = x # xs" by (cases "items q") auto
  from release_items [OF Suc.prems(1) xs] obtain q' where
    q': "release q = Inr q'" "ok q'" "items q' = xs" by blast
  with Suc.IH [of q'] Suc.prems xs show ?case by (simp add: funpow_Suc_right del: funpow.simps)
qed

end

interpretation ring: bounded_fifo spsc_ok spsc_items "\<lambda>q. unat (sp_capacity q)"
  "\<lambda>q x. length x = unat (sp_item_size q)" spsc_push spsc_peek spsc_release
proof
  show "spsc_ok q \<Longrightarrow> length (spsc_items q) \<le> unat (sp_capacity q)" for q
    by (simp add: spsc_ok_def spsc_items_def)
next
  fix q and x :: "u8 list"
  assume "spsc_ok q" "length x = unat (sp_item_size q)" "length (spsc_items q) < unat (sp_capacity q)"
  then show "\<exists>q'. spsc_push q x = (True, q') \<and> spsc_ok q' \<and> spsc_items q' = spsc_items q @ [x] \<and>
      unat (sp_capacity q') = unat (sp_capacity q) \<and>
      (\<lambda>x :: u8 list. length x = unat (sp_item_size q')) = (\<lambda>x. length x = unat (sp_item_size q))"
    using spsc_push_room [of q x] by (auto simp: spsc_items_def)
next
  show "length (spsc_items q) = unat (sp_capacity q) \<Longrightarrow> spsc_push q x = (False, q)" for q x
    by (simp add: spsc_items_def spsc_push_full)
next
  show "spsc_peek q = (case spsc_items q of [] \<Rightarrow> None | x # _ \<Rightarrow> Some x)" for q
    by (rule spsc_peek_items)
next
  fix q x xs assume "spsc_ok q" "spsc_items q = x # xs"
  then show "\<exists>q'. spsc_release q = Inr q' \<and> spsc_ok q' \<and> spsc_items q' = xs \<and>
      unat (sp_capacity q') = unat (sp_capacity q) \<and>
      (\<lambda>x :: u8 list. length x = unat (sp_item_size q')) = (\<lambda>x. length x = unat (sp_item_size q))"
    using spsc_release_items [of q x xs] by auto
qed

lemma spsc_create_ok:
  assumes "spsc_create (Some st) c n True True = Some q" "length st = unat c * unat n"
  shows "spsc_ok q" and "spsc_items q = []" and "sp_capacity q = c" and "sp_item_size q = n"
  using assms
  by (auto simp: spsc_create_def spsc_ok_def spsc_items_def spsc_length_def Let_def split: if_splits)



section \<open>Producer and consumer side by side\<close>

text \<open>
  The producer inside \<^verbatim>\<open>lh_spsc_push\<close>: it has found room, then copies its record into the slot byte by
  byte (\<open>k\<close> bytes done), then publishes the new count. The consumer holds the pointer that
  \<^verbatim>\<open>lh_spsc_peek\<close> returned until it calls \<^verbatim>\<open>lh_spsc_release\<close>.
\<close>

datatype ring_producer = Pr_Idle | Pr_Copy "u8 list" nat

datatype ring_consumer = Co_Idle | Co_Peeked

record ring_sys =
  ring_q :: spsc
  prod_at :: ring_producer
  cons_at :: ring_consumer
  ring_pushed :: "u8 list list"
  ring_taken :: "u8 list list"

inductive ring_step :: "ring_sys \<Rightarrow> ring_sys \<Rightarrow> bool" where
  push_full:
  "prod_at s = Pr_Idle \<Longrightarrow> sp_written (ring_q s) - sp_read (ring_q s) \<ge> sp_capacity (ring_q s) \<Longrightarrow>
   ring_step s s"
| push_room:
  "prod_at s = Pr_Idle \<Longrightarrow> sp_written (ring_q s) - sp_read (ring_q s) < sp_capacity (ring_q s) \<Longrightarrow>
   length item = unat (sp_item_size (ring_q s)) \<Longrightarrow> ring_step s (s\<lparr>prod_at := Pr_Copy item 0\<rparr>)"
| copy_byte:
  "prod_at s = Pr_Copy item k \<Longrightarrow> k < length item \<Longrightarrow>
   ring_step s (s\<lparr>ring_q := (ring_q s)\<lparr>sp_storage :=
       (sp_storage (ring_q s))[unat (spsc_offset (ring_q s) (sp_written (ring_q s))) + k := item ! k]\<rparr>,
     prod_at := Pr_Copy item (Suc k)\<rparr>)"
| publish:
  "prod_at s = Pr_Copy item (length item) \<Longrightarrow>
   ring_step s (s\<lparr>ring_q := (ring_q s)\<lparr>sp_written := sp_written (ring_q s) + 1\<rparr>, prod_at := Pr_Idle,
     ring_pushed := ring_pushed s @ [item]\<rparr>)"
| peek_none:
  "cons_at s = Co_Idle \<Longrightarrow> spsc_peek (ring_q s) = None \<Longrightarrow> ring_step s s"
| peek_some:
  "cons_at s = Co_Idle \<Longrightarrow> spsc_peek (ring_q s) = Some x \<Longrightarrow> ring_step s (s\<lparr>cons_at := Co_Peeked\<rparr>)"
| release:
  "cons_at s = Co_Peeked \<Longrightarrow> spsc_release (ring_q s) = Inr q \<Longrightarrow>
   ring_step s (s\<lparr>ring_q := q, cons_at := Co_Idle,
     ring_taken := ring_taken s @ [spsc_slot (ring_q s) (sp_read (ring_q s))]\<rparr>)"

definition ring_start :: "spsc \<Rightarrow> ring_sys" where
  "ring_start q = \<lparr>ring_q = q, prod_at = Pr_Idle, cons_at = Co_Idle, ring_pushed = [], ring_taken = []\<rparr>"

inductive ring_reachable :: "ring_sys \<Rightarrow> bool" where
  start: "spsc_create (Some st) c n True True = Some q \<Longrightarrow> length st = unat c * unat n \<Longrightarrow>
          ring_reachable (ring_start q)"
| step: "ring_reachable s \<Longrightarrow> ring_step s t \<Longrightarrow> ring_reachable t"

definition ring_inv :: "ring_sys \<Rightarrow> bool" where
  "ring_inv s \<longleftrightarrow>
     spsc_ok (ring_q s) \<and> ring_pushed s = ring_taken s @ spsc_items (ring_q s) \<and>
     (cons_at s = Co_Peeked \<longrightarrow> spsc_items (ring_q s) \<noteq> []) \<and>
     (\<forall>item k. prod_at s = Pr_Copy item k \<longrightarrow>
        length item = unat (sp_item_size (ring_q s)) \<and> k \<le> length item \<and>
        spsc_length (ring_q s) < unat (sp_capacity (ring_q s)) \<and>
        take k (spsc_slot (ring_q s) (sp_written (ring_q s))) = take k item)"

text \<open>Writing one byte of the free slot leaves the waiting records alone.\<close>

lemma free_slot_byte:
  assumes ok: "spsc_ok q" and room: "spsc_length q < unat (sp_capacity q)" and k: "k < unat (sp_item_size q)"
    and q': "q' = q\<lparr>sp_storage := (sp_storage q)[unat (spsc_offset q (sp_written q)) + k := b]\<rparr>"
  shows "spsc_ok q'" and "spsc_items q' = spsc_items q"
    and "spsc_slot q' (sp_written q) = (spsc_slot q (sp_written q))[k := b]"
proof -
  let ?o = "unat (spsc_offset q (sp_written q))" and ?n = "unat (sp_item_size q)"
  have off: "\<And>p. spsc_offset q' p = spsc_offset q p" using q' by (simp add: spsc_offset_def)
  have len: "spsc_length q' = spsc_length q" using q' by (simp add: spsc_length_def)
  show "spsc_ok q'" using ok q' len by (simp add: spsc_ok_def)
  have "spsc_slot q' (sp_read q + of_nat i) = spsc_slot q (sp_read q + of_nat i)" if "i < spsc_length q" for i
  proof -
    have "unat (spsc_offset q (sp_read q + of_nat i)) + ?n \<le> ?o \<or> ?o + ?n \<le> unat (spsc_offset q (sp_read q + of_nat i))"
      unfolding written_position [of q] using slots_apart [OF ok that] room by simp
    then show ?thesis using k q' unfolding spsc_slot_def off
      by (auto simp: drop_update_swap)
  qed
  then show "spsc_items q' = spsc_items q" using q' len by (simp add: spsc_items_def)
  show "spsc_slot q' (sp_written q) = (spsc_slot q (sp_written q))[k := b]"
    using k q' unfolding spsc_slot_def off by (simp add: drop_update_swap take_update_swap)
qed

lemma publish_items:
  assumes ok: "spsc_ok q" and room: "spsc_length q < unat (sp_capacity q)"
    and q': "q' = q\<lparr>sp_written := sp_written q + 1\<rparr>"
  shows "spsc_ok q'" and "spsc_items q' = spsc_items q @ [spsc_slot q (sp_written q)]"
proof -
  have lt: "sp_written q - sp_read q < sp_capacity q"
    using room by (simp add: spsc_length_def word_less_nat_alt)
  have len: "spsc_length q' = Suc (spsc_length q)"
    using unat_inc_less [OF lt] q' by (simp add: spsc_length_def diff_add_eq)
  then show "spsc_ok q'" using ok room q' by (simp add: spsc_ok_def)
  have slot: "\<And>p. spsc_slot q' p = spsc_slot q p" using q' by (simp add: spsc_slot_def spsc_offset_def)
  show "spsc_items q' = spsc_items q @ [spsc_slot q (sp_written q)]"
    unfolding spsc_items_def len slot using q' written_position [of q] by simp
qed

lemma ring_step_inv: "ring_step s t \<Longrightarrow> ring_inv s \<Longrightarrow> ring_inv t"
proof (induction rule: ring_step.induct)
  case (push_room s item)
  then show ?case by (auto simp: ring_inv_def spsc_length_def word_less_nat_alt)
next
  case (copy_byte s item k)
  let ?q = "ring_q s"
  let ?q' = "?q\<lparr>sp_storage := (sp_storage ?q)[unat (spsc_offset ?q (sp_written ?q)) + k := item ! k]\<rparr>"
  have i: "spsc_ok ?q" "spsc_length ?q < unat (sp_capacity ?q)" "k < unat (sp_item_size ?q)"
    "length item = unat (sp_item_size ?q)" "take k (spsc_slot ?q (sp_written ?q)) = take k item"
    using copy_byte by (auto simp: ring_inv_def)
  note f = free_slot_byte [OF i(1-3) refl, of "item ! k"]
  have "length (spsc_slot ?q (sp_written ?q)) = length item" using slot_length [OF i(1)] i(4) by simp
  then have "take (Suc k) ((spsc_slot ?q (sp_written ?q))[k := item ! k]) = take (Suc k) item"
    using i(5) copy_byte(2) by (simp add: take_Suc_conv_app_nth)
  with f copy_byte i show ?case by (auto simp: ring_inv_def spsc_length_def)
next
  case (publish s item)
  let ?q = "ring_q s"
  have i: "spsc_ok ?q" "spsc_length ?q < unat (sp_capacity ?q)" "length item = unat (sp_item_size ?q)"
    "take (length item) (spsc_slot ?q (sp_written ?q)) = item"
    using publish by (auto simp: ring_inv_def)
  then have "spsc_slot ?q (sp_written ?q) = item" using slot_length [OF i(1)] by simp
  with publish_items [OF i(1,2) refl] publish show ?case by (auto simp: ring_inv_def)
next
  case (peek_some s x)
  then show ?case by (auto simp: ring_inv_def spsc_peek_items split: list.splits)
next
  case (release s q)
  let ?q = "ring_q s"
  obtain x xs where xs: "spsc_items ?q = x # xs" using release by (cases "spsc_items ?q") (auto simp: ring_inv_def)
  have ok: "spsc_ok ?q" using release by (simp add: ring_inv_def)
  from spsc_release_items [OF ok xs] release(2) have q: "spsc_ok q" "spsc_items q = xs" by auto
  have x: "x = spsc_slot ?q (sp_read ?q)"
    using xs spsc_peek_items [of ?q] by (auto simp: spsc_peek_def split: if_splits)
  have qq: "q = ?q\<lparr>sp_read := sp_read ?q + 1\<rparr>" using release(2) by (auto simp: spsc_release_def split: if_splits)
  have "spsc_length q = length (spsc_items q)" "spsc_length ?q = length (spsc_items ?q)" by (simp_all add: spsc_items_def)
  then have "spsc_length q < spsc_length ?q" using q xs by simp
  moreover have "spsc_slot q p = spsc_slot ?q p" for p using qq by (simp add: spsc_slot_def spsc_offset_def)
  ultimately show ?case using release q x xs qq by (auto simp: ring_inv_def)
qed auto

lemma ring_reachable_inv: "ring_reachable s \<Longrightarrow> ring_inv s"
proof (induction rule: ring_reachable.induct)
  case (start st c n q)
  from spsc_create_ok [OF start] show ?case by (simp add: ring_inv_def ring_start_def)
qed (rule ring_step_inv)

text \<open>
  C32: with the producer copying byte by byte while the consumer reads, records still come out whole
  and in order, and the record behind a peeked pointer stays what was pushed, byte for byte, until it
  is released.
\<close>

theorem ring_concurrent:
  assumes "ring_reachable s"
  shows "ring_pushed s = ring_taken s @ spsc_items (ring_q s) \<and>
         (cons_at s = Co_Peeked \<longrightarrow>
            length (ring_taken s) < length (ring_pushed s) \<and>
            spsc_slot (ring_q s) (sp_read (ring_q s)) = ring_pushed s ! length (ring_taken s))"
proof -
  have inv: "ring_inv s" by (rule ring_reachable_inv [OF assms])
  then have p: "ring_pushed s = ring_taken s @ spsc_items (ring_q s)" by (simp add: ring_inv_def)
  moreover have "length (ring_taken s) < length (ring_pushed s) \<and>
      spsc_slot (ring_q s) (sp_read (ring_q s)) = ring_pushed s ! length (ring_taken s)"
    if "cons_at s = Co_Peeked"
  proof -
    have ne: "spsc_items (ring_q s) \<noteq> []" using inv that by (simp add: ring_inv_def)
    then have "spsc_peek (ring_q s) = Some (spsc_items (ring_q s) ! 0)"
      by (cases "spsc_items (ring_q s)") (simp_all add: spsc_peek_items)
    then have "spsc_slot (ring_q s) (sp_read (ring_q s)) = spsc_items (ring_q s) ! 0"
      by (simp add: spsc_peek_def split: if_splits)
    with p ne show ?thesis by (simp add: nth_append)
  qed
  ultimately show ?thesis by blast
qed

theorem ring_concurrent_witness:
  "\<exists>q. ring_reachable (ring_start q) \<and> spsc_items q = [] \<and> sp_capacity q = 4"
proof -
  have v: "spsc_is_valid_shape True 4 2" by (simp add: spsc_is_valid_shape_def word_le_nat_alt unat_div)
  then obtain q where q: "spsc_create (Some (replicate 8 0)) 4 2 True True = Some q"
    by (simp add: spsc_create_def)
  then have r: "ring_reachable (ring_start q)" by (rule ring_reachable.start) simp
  from ring_concurrent [OF r] spsc_create_ok(3) [OF q] r show ?thesis by (auto simp: ring_start_def)
qed

end
