(* ===== verification/Ring_List.thy ===== *)
theory Ring_List
  imports Prelude
begin

text \<open>
  The intrusive doubly linked list, \<^verbatim>\<open>src/lh/core/list.c\<close> and \<^verbatim>\<open>src/lh/core/list/node.c\<close>: a ring through
  the list's head, on a shared heap of \<open>next\<close> and \<open>prev\<close> links. Operations that check a node before they
  link it return \<open>Inl\<close> where the runtime check fails; loops over the ring are partial functions, whose
  value is \<open>None\<close> when they do not end, and are shown to end on every well-formed list.
\<close>

section \<open>Nodes\<close>

record heap2 =
  nxt :: "addr \<Rightarrow> addr"
  prv :: "addr \<Rightarrow> addr"

definition node_set_next :: "addr \<Rightarrow> addr \<Rightarrow> heap2 \<Rightarrow> heap2" where
  "node_set_next a b h = h\<lparr>nxt := (nxt h)(a := b)\<rparr>"

definition node_set_prev :: "addr \<Rightarrow> addr \<Rightarrow> heap2 \<Rightarrow> heap2" where
  "node_set_prev a b h = h\<lparr>prv := (prv h)(a := b)\<rparr>"

definition node_init :: "addr \<Rightarrow> heap2 \<Rightarrow> heap2" where
  "node_init a h = node_set_prev a a (node_set_next a a h)"

definition node_is_linked :: "heap2 \<Rightarrow> addr \<Rightarrow> bool" where
  "node_is_linked h a \<longleftrightarrow> nxt h a \<noteq> a"

definition node_link :: "addr \<Rightarrow> addr \<Rightarrow> addr \<Rightarrow> heap2 \<Rightarrow> error_code + heap2" where
  "node_link a p n h =
     (if node_is_linked h a then Inl Invalid_argument
      else Inr (node_set_prev n a (node_set_next p a (node_set_next a n (node_set_prev a p h)))))"

definition node_unlink :: "addr \<Rightarrow> heap2 \<Rightarrow> heap2" where
  "node_unlink a h =
     (let p = prv h a; n = nxt h a
      in node_init a (node_set_prev n p (node_set_next p n h)))"

definition node_insert_after :: "addr \<Rightarrow> addr \<Rightarrow> heap2 \<Rightarrow> error_code + heap2" where
  "node_insert_after a pos h = node_link a pos (nxt h pos) h"

definition node_insert_before :: "addr \<Rightarrow> addr \<Rightarrow> heap2 \<Rightarrow> error_code + heap2" where
  "node_insert_before a pos h = node_link a (prv h pos) pos h"

definition node_move_after :: "addr \<Rightarrow> addr \<Rightarrow> heap2 \<Rightarrow> error_code + heap2" where
  "node_move_after a pos h = (if a = pos then Inr h else node_insert_after a pos (node_unlink a h))"

definition node_move_before :: "addr \<Rightarrow> addr \<Rightarrow> heap2 \<Rightarrow> error_code + heap2" where
  "node_move_before a pos h = (if a = pos then Inr h else node_insert_before a pos (node_unlink a h))"

section \<open>Lists\<close>

text \<open>A list is the address of its head.\<close>

definition list_as_element :: "addr \<Rightarrow> addr \<Rightarrow> ptr" where
  "list_as_element l a = (if a = l then None else Some a)"

definition list_init :: "addr \<Rightarrow> heap2 \<Rightarrow> heap2" where
  "list_init l h = node_init l h"

definition list_is_empty :: "heap2 \<Rightarrow> addr \<Rightarrow> bool" where
  "list_is_empty h l \<longleftrightarrow> \<not> node_is_linked h l"

definition list_push_front :: "addr \<Rightarrow> addr \<Rightarrow> heap2 \<Rightarrow> error_code + heap2" where
  "list_push_front l a h = node_insert_after a l h"

definition list_push_back :: "addr \<Rightarrow> addr \<Rightarrow> heap2 \<Rightarrow> error_code + heap2" where
  "list_push_back l a h = node_insert_before a l h"

definition list_get_first :: "heap2 \<Rightarrow> addr \<Rightarrow> ptr" where
  "list_get_first h l = list_as_element l (nxt h l)"

definition list_get_last :: "heap2 \<Rightarrow> addr \<Rightarrow> ptr" where
  "list_get_last h l = list_as_element l (prv h l)"

definition list_get_next :: "heap2 \<Rightarrow> addr \<Rightarrow> addr \<Rightarrow> ptr" where
  "list_get_next h l a = list_as_element l (nxt h a)"

definition list_get_prev :: "heap2 \<Rightarrow> addr \<Rightarrow> addr \<Rightarrow> ptr" where
  "list_get_prev h l a = list_as_element l (prv h a)"

partial_function (option) size_from :: "heap2 \<Rightarrow> addr \<Rightarrow> ptr \<Rightarrow> u64 \<Rightarrow> u64 option" where
  "size_from h l node count =
     (case node of None \<Rightarrow> Some count | Some a \<Rightarrow> size_from h l (list_get_next h l a) (count + 1))"

definition list_get_size :: "heap2 \<Rightarrow> addr \<Rightarrow> u64 option" where
  "list_get_size h l = size_from h l (list_get_first h l) 0"

partial_function (option) at_from :: "heap2 \<Rightarrow> addr \<Rightarrow> ptr \<Rightarrow> u64 \<Rightarrow> ptr option" where
  "at_from h l node index =
     (case node of
        None \<Rightarrow> Some None
      | Some a \<Rightarrow> if index = 0 then Some (Some a) else at_from h l (list_get_next h l a) (index - 1))"

definition list_get_at :: "heap2 \<Rightarrow> addr \<Rightarrow> u64 \<Rightarrow> ptr option" where
  "list_get_at h l index = at_from h l (list_get_first h l) index"

text \<open>\<^verbatim>\<open>LH_LIST_INVALID\<close> is the largest index.\<close>

partial_function (option) index_from :: "heap2 \<Rightarrow> addr \<Rightarrow> addr \<Rightarrow> ptr \<Rightarrow> u64 \<Rightarrow> u64 option" where
  "index_from h l a at index =
     (case at of
        None \<Rightarrow> Some (- 1)
      | Some b \<Rightarrow> if b = a then Some index else index_from h l a (list_get_next h l b) (index + 1))"

definition list_index_of :: "heap2 \<Rightarrow> addr \<Rightarrow> addr \<Rightarrow> u64 option" where
  "list_index_of h l a = index_from h l a (list_get_first h l) 0"

definition list_contains :: "heap2 \<Rightarrow> addr \<Rightarrow> addr \<Rightarrow> bool option" where
  "list_contains h l a = map_option (\<lambda>i. i \<noteq> - 1) (list_index_of h l a)"

text \<open>The comparison is the caller's: a negative result puts the new node before the old one.\<close>

type_synonym node_cmp = "addr \<Rightarrow> addr \<Rightarrow> int"

partial_function (option) insert_from ::
  "heap2 \<Rightarrow> addr \<Rightarrow> addr \<Rightarrow> node_cmp \<Rightarrow> ptr \<Rightarrow> (error_code + heap2) option" where
  "insert_from h l a cmp pos =
     (case pos of
        None \<Rightarrow> Some (list_push_back l a h)
      | Some b \<Rightarrow>
          if cmp a b < 0 then Some (node_insert_before a b h)
          else insert_from h l a cmp (list_get_next h l b))"

definition list_insert_sorted :: "addr \<Rightarrow> addr \<Rightarrow> node_cmp \<Rightarrow> heap2 \<Rightarrow> (error_code + heap2) option" where
  "list_insert_sorted l a cmp h = insert_from h l a cmp (list_get_first h l)"

definition list_pop_front :: "addr \<Rightarrow> heap2 \<Rightarrow> ptr \<times> heap2" where
  "list_pop_front l h =
     (case list_get_first h l of None \<Rightarrow> (None, h) | Some a \<Rightarrow> (Some a, node_unlink a h))"

definition list_pop_back :: "addr \<Rightarrow> heap2 \<Rightarrow> ptr \<times> heap2" where
  "list_pop_back l h =
     (case list_get_last h l of None \<Rightarrow> (None, h) | Some a \<Rightarrow> (Some a, node_unlink a h))"

definition list_splice_between :: "addr \<Rightarrow> addr \<Rightarrow> addr \<Rightarrow> heap2 \<Rightarrow> heap2" where
  "list_splice_between other p n h =
     (case (list_get_first h other, list_get_last h other) of
        (Some f, Some e) \<Rightarrow>
          if list_is_empty h other then h
          else list_init other
            (node_set_prev n e (node_set_next e n (node_set_next p f (node_set_prev f p h))))
      | _ \<Rightarrow> h)"

definition list_splice_back :: "addr \<Rightarrow> addr \<Rightarrow> heap2 \<Rightarrow> error_code + heap2" where
  "list_splice_back l other h =
     (if l = other then Inl Invalid_argument else Inr (list_splice_between other (prv h l) l h))"

definition list_splice_front :: "addr \<Rightarrow> addr \<Rightarrow> heap2 \<Rightarrow> error_code + heap2" where
  "list_splice_front l other h =
     (if l = other then Inl Invalid_argument else Inr (list_splice_between other l (nxt h l) h))"

partial_function (option) list_clear :: "addr \<Rightarrow> heap2 \<Rightarrow> heap2 option" where
  "list_clear l h = (case list_pop_front l h of (None, h') \<Rightarrow> Some h' | (Some a, h') \<Rightarrow> list_clear l h')"

section \<open>The ring as a list\<close>

fun dseg :: "heap2 \<Rightarrow> addr \<Rightarrow> addr list \<Rightarrow> addr \<Rightarrow> bool" where
  "dseg h a [] b \<longleftrightarrow> nxt h a = b \<and> prv h b = a"
| "dseg h a (x # xs) b \<longleftrightarrow> nxt h a = x \<and> prv h x = a \<and> dseg h x xs b"

definition ring :: "heap2 \<Rightarrow> addr \<Rightarrow> addr list \<Rightarrow> bool" where
  "ring h l xs \<longleftrightarrow> distinct (l # xs) \<and> dseg h l xs l"

definition lone :: "heap2 \<Rightarrow> addr \<Rightarrow> bool" where
  "lone h a \<longleftrightarrow> nxt h a = a \<and> prv h a = a"

lemmas node_defs = node_set_next_def node_set_prev_def node_init_def node_is_linked_def node_link_def
  node_unlink_def node_insert_after_def node_insert_before_def

lemma dseg_append: "dseg h a (xs @ y # ys) b \<longleftrightarrow> dseg h a xs y \<and> dseg h y ys b"
  by (induction xs arbitrary: a) auto

lemma dseg_frame:
  assumes "\<forall>x \<in> set (a # xs). nxt h' x = nxt h x" "\<forall>x \<in> set (xs @ [b]). prv h' x = prv h x"
  shows "dseg h' a xs b = dseg h a xs b"
  using assms by (induction xs arbitrary: a) auto

lemma dseg_first: "dseg h a xs b \<Longrightarrow> nxt h a = (case xs of [] \<Rightarrow> b | x # _ \<Rightarrow> x)"
  by (cases xs) auto

lemma dseg_last: "dseg h a xs b \<Longrightarrow> prv h b = (if xs = [] then a else last xs)"
  by (induction xs arbitrary: a) auto

lemma ring_split: "ring h l (xs @ y # ys) \<longleftrightarrow> distinct (l # xs @ y # ys) \<and> dseg h l xs y \<and> dseg h y ys l"
  by (auto simp: ring_def dseg_append)

text \<open>Linking a lone node between two neighbours, unlinking one, and what neither touches.\<close>

lemma dseg_link:
  assumes d: "distinct (l # xs @ a # ys)" and seg: "dseg h l (xs @ ys) l"
    and p: "p = (if xs = [] then l else last xs)" and n: "n = (case ys of [] \<Rightarrow> l | y # _ \<Rightarrow> y)"
    and h': "nxt h' = (nxt h)(a := n, p := a)" "prv h' = (prv h)(a := p, n := a)"
  shows "dseg h' l (xs @ a # ys) l"
proof -
  have left: "dseg h' l xs a"
  proof (cases xs rule: rev_cases)
    case Nil
    then show ?thesis using p h' d n by (auto split: list.splits)
  next
    case (snoc xs0 x)
    then have "dseg h l xs0 x" using seg by (simp add: dseg_append)
    moreover have "dseg h' l xs0 x = dseg h l xs0 x"
      by (rule dseg_frame) (use snoc d p n h' in \<open>auto split: list.splits\<close>)
    ultimately show ?thesis using snoc p h' d n by (auto simp: dseg_append split: list.splits)
  qed
  moreover have "dseg h' a ys l"
  proof (cases ys)
    case Nil
    then show ?thesis using n h' d p by auto
  next
    case (Cons y ys0)
    then have "dseg h y ys0 l" using seg by (simp add: dseg_append)
    moreover have "p \<in> set (l # xs)" using p by simp
    then have "dseg h' y ys0 l = dseg h y ys0 l"
      by (intro dseg_frame) (use Cons d n h' in auto)
    ultimately show ?thesis using Cons n h' d p by auto
  qed
  ultimately show ?thesis by (simp add: dseg_append)
qed

lemma link_between:
  assumes d: "distinct (l # xs @ a # ys)" and seg: "ring h l (xs @ ys)" and a: "lone h a"
    and p: "p = (if xs = [] then l else last xs)" and n: "n = (case ys of [] \<Rightarrow> l | y # _ \<Rightarrow> y)"
  shows "\<exists>h'. node_link a p n h = Inr h' \<and> ring h' l (xs @ a # ys) \<and>
           (\<forall>b. b \<notin> set (l # xs @ a # ys) \<longrightarrow> nxt h' b = nxt h b \<and> prv h' b = prv h b)"
proof -
  let ?h = "node_set_prev n a (node_set_next p a (node_set_next a n (node_set_prev a p h)))"
  have "node_link a p n h = Inr ?h" using a by (simp add: node_link_def node_is_linked_def lone_def)
  moreover have "dseg ?h l (xs @ a # ys) l"
    by (rule dseg_link [OF d _ p n]) (use seg in \<open>simp_all add: ring_def node_set_next_def node_set_prev_def\<close>)
  moreover have "p \<in> set (l # xs)" "n \<in> set (l # ys)" using p n by (auto split: list.splits)
  then have "\<forall>b. b \<notin> set (l # xs @ a # ys) \<longrightarrow> nxt ?h b = nxt h b \<and> prv ?h b = prv h b"
    by (auto simp: node_set_next_def node_set_prev_def)
  ultimately show ?thesis using d by (auto simp: ring_def)
qed

lemma unlink_ring:
  assumes "ring h l (xs @ a # ys)"
  shows "ring (node_unlink a h) l (xs @ ys)" and "lone (node_unlink a h) a"
    and "b \<notin> set (l # xs @ a # ys) \<Longrightarrow> nxt (node_unlink a h) b = nxt h b \<and> prv (node_unlink a h) b = prv h b"
proof -
  let ?p = "if xs = [] then l else last xs" and ?n = "case ys of [] \<Rightarrow> l | y # _ \<Rightarrow> y"
  let ?h = "node_unlink a h"
  have d: "distinct (l # xs @ a # ys)" and s1: "dseg h l xs a" and s2: "dseg h a ys l"
    using assms by (auto simp: ring_split)
  have pn: "prv h a = ?p" "nxt h a = ?n" using dseg_last [OF s1] dseg_first [OF s2] by auto
  have h': "nxt ?h = (nxt h)(?p := ?n, a := a)" "prv ?h = (prv h)(?n := ?p, a := a)"
    by (simp_all add: node_unlink_def node_init_def node_set_next_def node_set_prev_def pn Let_def)
  show "lone ?h a" by (simp add: lone_def h')
  have mem: "?p \<in> set (l # xs)" "?n \<in> set (l # ys)" by (auto split: list.splits)
  then show "b \<notin> set (l # xs @ a # ys) \<Longrightarrow> nxt ?h b = nxt h b \<and> prv ?h b = prv h b"
    by (auto simp: h')
  have "dseg ?h l (xs @ ys) l"
  proof (cases xs rule: rev_cases)
    case Nil
    show ?thesis
    proof (cases ys)
      case Nil
      then show ?thesis using \<open>xs = []\<close> d h' by simp
    next
      case (Cons y ys0)
      have "dseg ?h y ys0 l = dseg h y ys0 l"
        by (rule dseg_frame) (use \<open>xs = []\<close> Cons d h' in auto)
      then show ?thesis using \<open>xs = []\<close> Cons d h' s2 by simp
    qed
  next
    case (snoc xs0 x)
    have l1: "dseg ?h l xs0 x = dseg h l xs0 x"
      by (rule dseg_frame) (use snoc d h' in \<open>auto split: list.splits\<close>)
    show ?thesis
    proof (cases ys)
      case Nil
      then show ?thesis using snoc d h' s1 l1 by (simp add: dseg_append)
    next
      case (Cons y ys0)
      have "dseg ?h y ys0 l = dseg h y ys0 l"
        by (rule dseg_frame) (use snoc Cons d h' in auto)
      then show ?thesis using snoc Cons d h' s1 s2 l1 by (simp add: dseg_append)
    qed
  qed
  with d show "ring ?h l (xs @ ys)" by (auto simp: ring_def)
qed

section \<open>What each operation does\<close>

lemma list_init_ring: "ring (list_init l h) l []"
  by (simp add: ring_def list_init_def node_init_def node_set_next_def node_set_prev_def)

lemma is_empty_ring: "ring h l xs \<Longrightarrow> list_is_empty h l \<longleftrightarrow> xs = []"
  by (cases xs) (auto simp: list_is_empty_def node_is_linked_def ring_def)

lemma first_ring: "ring h l xs \<Longrightarrow> list_get_first h l = (case xs of [] \<Rightarrow> None | x # _ \<Rightarrow> Some x)"
  by (cases xs) (auto simp: list_get_first_def list_as_element_def ring_def)

lemma last_ring: "ring h l xs \<Longrightarrow> list_get_last h l = (if xs = [] then None else Some (last xs))"
  using dseg_last [of h l xs l] last_in_set [of xs]
  by (auto simp: list_get_last_def list_as_element_def ring_def simp del: last_in_set)

lemma next_ring:
  "ring h l (xs @ a # ys) \<Longrightarrow> list_get_next h l a = (case ys of [] \<Rightarrow> None | y # _ \<Rightarrow> Some y)"
  using dseg_first [of h a ys l]
  by (auto simp: list_get_next_def list_as_element_def ring_split split: list.splits)

lemma prev_ring:
  "ring h l (xs @ a # ys) \<Longrightarrow> list_get_prev h l a = (if xs = [] then None else Some (last xs))"
  using dseg_last [of h l xs a] by (auto simp: list_get_prev_def list_as_element_def ring_split)

abbreviation same_outside :: "addr set \<Rightarrow> heap2 \<Rightarrow> heap2 \<Rightarrow> bool" where
  "same_outside A h h' \<equiv> \<forall>b. b \<notin> A \<longrightarrow> nxt h' b = nxt h b \<and> prv h' b = prv h b"

lemma insert_before_ring:
  assumes "ring h l (xs @ b # ys)" "lone h a" "a \<notin> set (l # xs @ b # ys)"
  shows "\<exists>h'. node_insert_before a b h = Inr h' \<and> ring h' l (xs @ a # b # ys) \<and>
           same_outside (set (l # a # xs @ b # ys)) h h'"
proof -
  have p: "prv h b = (if xs = [] then l else last xs)"
    using assms(1) dseg_last [of h l xs b] by (simp add: ring_split)
  have d: "distinct (l # xs @ a # b # ys)" using assms by (auto simp: ring_def)
  from link_between [OF d _ assms(2) p] assms(1) show ?thesis
    by (auto simp: node_insert_before_def)
qed

lemma push_back_ring:
  assumes "ring h l xs" "lone h a" "a \<notin> set (l # xs)"
  shows "\<exists>h'. list_push_back l a h = Inr h' \<and> ring h' l (xs @ [a]) \<and> same_outside (set (l # a # xs)) h h'"
proof -
  have p: "prv h l = (if xs = [] then l else last xs)"
    using assms(1) dseg_last [of h l xs l] by (simp add: ring_def)
  have d: "distinct (l # xs @ a # [])" using assms by (auto simp: ring_def)
  from link_between [OF d _ assms(2) p] assms(1) show ?thesis
    by (auto simp: list_push_back_def node_insert_before_def)
qed

lemma push_front_ring:
  assumes "ring h l xs" "lone h a" "a \<notin> set (l # xs)"
  shows "\<exists>h'. list_push_front l a h = Inr h' \<and> ring h' l (a # xs) \<and> same_outside (set (l # a # xs)) h h'"
proof -
  have n: "nxt h l = (case xs of [] \<Rightarrow> l | y # _ \<Rightarrow> y)"
    using assms(1) dseg_first [of h l xs l] by (simp add: ring_def)
  have d: "distinct (l # [] @ a # xs)" using assms by (auto simp: ring_def)
  from link_between [OF d _ assms(2) _ n] assms(1) show ?thesis
    by (auto simp: list_push_front_def node_insert_after_def)
qed

lemma push_linked_refused:
  "nxt h a \<noteq> a \<Longrightarrow> list_push_back l a h = Inl Invalid_argument \<and> list_push_front l a h = Inl Invalid_argument"
  by (simp add: list_push_back_def list_push_front_def node_insert_before_def node_insert_after_def
      node_link_def node_is_linked_def)

lemma pop_front_ring:
  assumes "ring h l xs"
  shows "case xs of
           [] \<Rightarrow> list_pop_front l h = (None, h)
         | x # ys \<Rightarrow> \<exists>h'. list_pop_front l h = (Some x, h') \<and> ring h' l ys \<and> lone h' x \<and>
                          same_outside (set (l # xs)) h h'"
proof (cases xs)
  case Nil
  then show ?thesis using first_ring [OF assms] by (simp add: list_pop_front_def)
next
  case (Cons x ys)
  with assms have r: "ring h l ([] @ x # ys)" by simp
  show ?thesis using first_ring [OF assms] unlink_ring [OF r] Cons by (simp add: list_pop_front_def)
qed

lemma pop_back_ring:
  assumes "ring h l (xs @ [x])"
  shows "\<exists>h'. list_pop_back l h = (Some x, h') \<and> ring h' l xs \<and> lone h' x \<and>
           same_outside (set (l # xs @ [x])) h h'"
  using last_ring [OF assms] unlink_ring [of h l xs x "[]"] assms by (simp add: list_pop_back_def)

text \<open>Walking the ring: a loop that starts at the first node visits exactly the elements.\<close>

lemma size_from_ring:
  "ring h l (xs @ ys) \<Longrightarrow>
   size_from h l (case ys of [] \<Rightarrow> None | y # _ \<Rightarrow> Some y) n = Some (n + of_nat (length ys))"
proof (induction ys arbitrary: xs n)
  case Nil
  then show ?case by (subst size_from.simps) simp
next
  case (Cons y ys)
  then show ?case
    using next_ring [of h l xs y ys] Cons.IH [of "xs @ [y]" "n + 1"]
    by (subst size_from.simps) (simp add: add.assoc add.commute)
qed

lemma get_size_ring: "ring h l xs \<Longrightarrow> list_get_size h l = Some (of_nat (length xs))"
  using size_from_ring [of h l "[]" xs 0] first_ring [of h l xs] by (simp add: list_get_size_def)

lemma at_from_ring:
  "ring h l (xs @ ys) \<Longrightarrow>
   at_from h l (case ys of [] \<Rightarrow> None | y # _ \<Rightarrow> Some y) i =
     Some (if unat i < length ys then Some (ys ! unat i) else None)"
proof (induction ys arbitrary: xs i)
  case Nil
  then show ?case by (subst at_from.simps) simp
next
  case (Cons y ys)
  show ?case
  proof (cases "i = 0")
    case True
    then show ?thesis by (subst at_from.simps) simp
  next
    case False
    then have "0 < i" by (simp add: word_neq_0_conv)
    then have "unat (i - 1) = unat i - 1" "0 < unat i" by (simp_all add: unat_dec_pos word_less_nat_alt)
    then have u: "unat i = Suc (unat (i - 1))" by simp
    with False next_ring [of h l xs y ys] Cons show ?thesis
      using Cons.IH [of "xs @ [y]" "i - 1"] by (subst at_from.simps) simp
  qed
qed

lemma get_at_ring:
  "ring h l xs \<Longrightarrow> list_get_at h l i = Some (if unat i < length xs then Some (xs ! unat i) else None)"
  using at_from_ring [of h l "[]" xs i] first_ring [of h l xs] by (simp add: list_get_at_def)

lemma index_from_ring:
  "ring h l (xs @ ys) \<Longrightarrow>
   index_from h l a (case ys of [] \<Rightarrow> None | y # _ \<Rightarrow> Some y) n =
     Some (if a \<in> set ys then n + of_nat (length (takeWhile (\<lambda>y. y \<noteq> a) ys)) else - 1)"
proof (induction ys arbitrary: xs n)
  case Nil
  then show ?case by (subst index_from.simps) simp
next
  case (Cons y ys)
  then show ?case
    using next_ring [of h l xs y ys] Cons.IH [of "xs @ [y]" "n + 1"]
    by (subst index_from.simps) (auto simp: add.assoc add.commute)
qed

lemma index_of_ring:
  "ring h l xs \<Longrightarrow> list_index_of h l a =
     Some (if a \<in> set xs then of_nat (length (takeWhile (\<lambda>y. y \<noteq> a) xs)) else - 1)"
  using index_from_ring [of h l "[]" xs a 0] first_ring [of h l xs] by (simp add: list_index_of_def)

lemma of_nat_not_max: "n < 2 ^ 64 - 1 \<Longrightarrow> (of_nat n :: u64) \<noteq> - 1"
proof
  assume n: "n < 2 ^ 64 - 1" and "(of_nat n :: u64) = - 1"
  then have "unat (of_nat n :: u64) = 2 ^ 64 - 1" by (simp add: unsigned_minus_1_eq_mask mask_eq_exp_minus_1)
  moreover have "unat (of_nat n :: u64) = n" using n by (simp add: unat_of_nat)
  ultimately show False using n by simp
qed

lemma contains_ring:
  assumes "ring h l xs" "length xs < 2 ^ 64"
  shows "list_contains h l a = Some (a \<in> set xs)"
proof -
  have "length (takeWhile (\<lambda>y. y \<noteq> a) xs) < length xs" if "a \<in> set xs"
    using that by (induction xs) auto
  then have "a \<in> set xs \<Longrightarrow> (of_nat (length (takeWhile (\<lambda>y. y \<noteq> a) xs)) :: u64) \<noteq> - 1"
    using assms(2) by (intro of_nat_not_max) simp
  then show ?thesis using index_of_ring [OF assms(1)] by (simp add: list_contains_def)
qed

section \<open>Sorted insertion\<close>

fun insert_cmp :: "node_cmp \<Rightarrow> addr \<Rightarrow> addr list \<Rightarrow> addr list" where
  "insert_cmp cmp a [] = [a]"
| "insert_cmp cmp a (b # bs) = (if cmp a b < 0 then a # b # bs else b # insert_cmp cmp a bs)"

lemma insert_cmp_set [simp]: "set (insert_cmp cmp a xs) = insert a (set xs)"
  by (induction xs) auto

lemma insert_from_ring:
  assumes "ring h l (xs @ ys)" "lone h a" "a \<notin> set (l # xs @ ys)"
  shows "\<exists>h'. insert_from h l a cmp (case ys of [] \<Rightarrow> None | y # _ \<Rightarrow> Some y) = Some (Inr h') \<and>
           ring h' l (xs @ insert_cmp cmp a ys) \<and> same_outside (set (l # a # xs @ ys)) h h'"
  using assms
proof (induction ys arbitrary: xs)
  case Nil
  then show ?case using push_back_ring [of h l xs a] by (subst insert_from.simps) auto
next
  case (Cons y ys)
  show ?case
  proof (cases "cmp a y < 0")
    case True
    with insert_before_ring [of h l xs y ys a] Cons.prems show ?thesis
      by (subst insert_from.simps) auto
  next
    case False
    with Cons.IH [of "xs @ [y]"] Cons.prems next_ring [of h l xs y ys] show ?thesis
      by (subst insert_from.simps) auto
  qed
qed

text \<open>
  What a caller of \<^verbatim>\<open>lh_list_insert_sorted\<close> owes: a comparison that is a total preorder. Then the
  list stays sorted, and a new node goes behind the ones it is equal to.
\<close>

locale node_order =
  fixes cmp :: node_cmp
  assumes cmp_sym: "cmp a b < 0 \<longleftrightarrow> 0 < cmp b a"
    and cmp_trans: "cmp a b \<le> 0 \<Longrightarrow> cmp b c \<le> 0 \<Longrightarrow> cmp a c \<le> 0"
begin

lemma insert_sorted:
  "sorted_wrt (\<lambda>a b. cmp a b \<le> 0) xs \<Longrightarrow> sorted_wrt (\<lambda>a b. cmp a b \<le> 0) (insert_cmp cmp a xs)"
proof (induction xs)
  case (Cons b bs)
  show ?case
  proof (cases "cmp a b < 0")
    case True
    with Cons.prems show ?thesis by (auto intro: cmp_trans [OF less_imp_le])
  next
    case False
    then have "cmp b a \<le> 0" using cmp_sym [of a b] cmp_sym [of b a] by linarith
    with False Cons show ?thesis by auto
  qed
qed simp

lemma insert_stable:
  assumes "sorted_wrt (\<lambda>a b. cmp a b \<le> 0) xs"
  shows "\<exists>ys zs. xs = ys @ zs \<and> insert_cmp cmp a xs = ys @ a # zs \<and>
           (\<forall>y \<in> set ys. cmp y a \<le> 0) \<and> (\<forall>z \<in> set zs. cmp a z < 0)"
  using assms
proof (induction xs)
  case (Cons b bs)
  show ?case
  proof (cases "cmp a b < 0")
    case True
    have "cmp a z < 0" if "z \<in> set bs" for z
    proof (rule ccontr)
      assume "\<not> cmp a z < 0"
      then have "cmp z a \<le> 0" using cmp_sym [of z a] cmp_sym [of a z] by linarith
      with that Cons.prems cmp_trans [of b z a] True cmp_sym [of a b] show False by auto
    qed
    with True show ?thesis by (intro exI [of _ "[]"] exI [of _ "b # bs"]) auto
  next
    case False
    then have "cmp b a \<le> 0" using cmp_sym [of a b] cmp_sym [of b a] by linarith
    moreover from Cons obtain ys zs where "bs = ys @ zs" "insert_cmp cmp a bs = ys @ a # zs"
      "\<forall>y \<in> set ys. cmp y a \<le> 0" "\<forall>z \<in> set zs. cmp a z < 0" by auto
    ultimately show ?thesis using False by (intro exI [of _ "b # ys"] exI [of _ zs]) auto
  qed
qed simp

end

section \<open>Moving, splicing, clearing\<close>

lemma move_before_ring:
  assumes "ring h l (xs @ a # ys)" "xs @ ys = us @ b # vs" "a \<noteq> b"
  shows "\<exists>h'. node_move_before a b h = Inr h' \<and> ring h' l (us @ a # b # vs)"
proof -
  note u = unlink_ring [OF assms(1)]
  have "a \<notin> set (l # us @ b # vs)" using assms(1) unfolding assms(2) [symmetric] by (auto simp: ring_def)
  with insert_before_ring [of "node_unlink a h" l us b vs a] u(1,2) assms show ?thesis
    by (auto simp: node_move_before_def)
qed

lemma splice_between_ring:
  assumes l: "ring h l (xs @ zs)" and other: "ring h o' ys" and dis: "set (l # xs @ zs) \<inter> set (o' # ys) = {}"
    and p: "p = (if xs = [] then l else last xs)" and n: "n = (case zs of [] \<Rightarrow> l | z # _ \<Rightarrow> z)"
  shows "ring (list_splice_between o' p n h) l (xs @ ys @ zs)" and "ring (list_splice_between o' p n h) o' []"
proof -
  let ?h = "list_splice_between o' p n h"
  have pn: "p \<in> set (l # xs)" "n \<in> set (l # zs)" using p n by (auto split: list.splits)
  show "ring ?h l (xs @ ys @ zs)"
  proof (cases ys)
    case Nil
    then show ?thesis using l first_ring [OF other] by (simp add: list_splice_between_def)
  next
    case (Cons y ys0)
    have f: "list_get_first h o' = Some y" "list_get_last h o' = Some (last ys)" "\<not> list_is_empty h o'"
      using first_ring [OF other] last_ring [OF other] is_empty_ring [OF other] Cons by auto
    have ly: "last ys \<in> set ys" using Cons by simp
    have h': "nxt ?h = (nxt h)(p := y, last ys := n, o' := o')" "prv ?h = (prv h)(y := p, n := last ys, o' := o')"
      using f by (simp_all add: list_splice_between_def list_init_def node_init_def node_set_next_def
          node_set_prev_def)
    have d: "distinct (l # xs @ zs)" "distinct (o' # ys)" using l other by (auto simp: ring_def)
    define e where "e = last ys"
    have out: "p \<notin> set ys" "p \<noteq> o'" "n \<notin> set ys" "n \<noteq> o'" "e \<in> set ys" "y \<in> set ys" "o' \<notin> set ys"
      using pn dis d ly Cons by (auto simp: e_def)
    have at: "nxt ?h p = y" "prv ?h n = e" "prv ?h y = p" "nxt ?h e = n"
      using out by (auto simp: h' e_def [symmetric])
    have old: "x \<noteq> p \<Longrightarrow> nxt ?h x = nxt h x" "x \<noteq> n \<Longrightarrow> prv ?h x = prv h x" if "x \<in> set (l # xs @ zs)" for x
    proof -
      have "x \<notin> set ys" "x \<noteq> o'" using that dis by auto
      then show "x \<noteq> p \<Longrightarrow> nxt ?h x = nxt h x" "x \<noteq> n \<Longrightarrow> prv ?h x = prv h x"
        using out by (auto simp: h' e_def [symmetric])
    qed
    have new: "x \<noteq> e \<Longrightarrow> nxt ?h x = nxt h x" "x \<noteq> y \<Longrightarrow> prv ?h x = prv h x" if "x \<in> set ys" for x
      using that out by (auto simp: h' e_def [symmetric])
    have s1: "dseg ?h l xs y"
    proof (cases xs rule: rev_cases)
      case Nil
      then show ?thesis using p at by simp
    next
      case (snoc xs0 x)
      have "dseg h l xs0 x" using l snoc by (simp add: ring_def dseg_append)
      moreover have "x = p" "n \<notin> set xs" using p n d snoc by (auto split: list.splits)
      then have "dseg ?h l xs0 x = dseg h l xs0 x"
        using snoc d by (intro dseg_frame ballI old) auto
      ultimately show ?thesis using snoc \<open>x = p\<close> at by (simp add: dseg_append)
    qed
    have s2: "dseg ?h y ys0 n"
    proof (cases ys0 rule: rev_cases)
      case Nil
      then show ?thesis using Cons at by (simp add: e_def)
    next
      case (snoc ys1 z)
      have "dseg h y ys1 z" using other Cons snoc by (simp add: ring_def dseg_append)
      moreover have "z = e" using Cons snoc by (simp add: e_def)
      then have "dseg ?h y ys1 z = dseg h y ys1 z"
        using snoc d Cons by (intro dseg_frame ballI new) auto
      ultimately show ?thesis using snoc \<open>z = e\<close> at by (simp add: dseg_append)
    qed
    have s3: "zs \<noteq> [] \<Longrightarrow> dseg ?h n (tl zs) l"
    proof -
      assume "zs \<noteq> []"
      then obtain z zs0 where z: "zs = z # zs0" by (cases zs) auto
      have "dseg h z zs0 l" using l z by (simp add: ring_def dseg_append)
      moreover have "z = n" using n z by simp
      then have "dseg ?h z zs0 l = dseg h z zs0 l"
        using z d pn by (intro dseg_frame ballI old) auto
      ultimately show ?thesis using z n by simp
    qed
    have "dseg ?h l (xs @ ys @ zs) l"
      using s1 s2 s3 n Cons by (cases zs) (auto simp: dseg_append)
    moreover have "distinct (l # xs @ ys @ zs)" using d dis by auto
    ultimately show ?thesis by (simp add: ring_def)
  qed
  show "ring ?h o' []"
    using other first_ring [OF other] last_ring [OF other] is_empty_ring [OF other]
    by (cases ys) (simp_all add: list_splice_between_def ring_def list_init_def node_init_def
        node_set_next_def node_set_prev_def)
qed

lemma clear_outside:
  assumes "ring h l xs" "list_clear l h = Some h'" "b \<notin> set (l # xs)"
  shows "nxt h' b = nxt h b \<and> prv h' b = prv h b"
  using assms
proof (induction xs arbitrary: h)
  case Nil
  then show ?case using pop_front_ring [of h l "[]"] by (subst (asm) list_clear.simps) simp
next
  case (Cons x xs)
  from pop_front_ring [OF Cons.prems(1)] obtain h1 where
    h1: "list_pop_front l h = (Some x, h1)" "ring h1 l xs" "same_outside (set (l # x # xs)) h h1" by auto
  with Cons.prems have "list_clear l h1 = Some h'" by (subst (asm) list_clear.simps) simp
  with Cons.IH [OF h1(2)] h1(3) Cons.prems(3) show ?case by simp
qed

lemma list_clear_ring:
  assumes "ring h l xs"
  shows "\<exists>h'. list_clear l h = Some h' \<and> ring h' l [] \<and> (\<forall>a \<in> set xs. lone h' a)"
  using assms
proof (induction xs arbitrary: h)
  case Nil
  then show ?case using pop_front_ring [of h l "[]"] by (subst list_clear.simps) simp
next
  case (Cons x xs)
  from pop_front_ring [OF Cons.prems] obtain h1 where
    h1: "list_pop_front l h = (Some x, h1)" "ring h1 l xs" "lone h1 x" by auto
  from Cons.IH [OF h1(2)] obtain h2 where h2: "list_clear l h1 = Some h2" "ring h2 l []" "\<forall>a \<in> set xs. lone h2 a"
    by blast
  have "x \<notin> set (l # xs)" using Cons.prems by (auto simp: ring_def)
  have "lone h2 x" using clear_outside [OF h1(2) h2(1)] h1(3) \<open>x \<notin> set (l # xs)\<close> by (simp add: lone_def)
  then show ?case using h1(1) h2 by (subst list_clear.simps) auto
qed

section \<open>The contract of a list\<close>

text \<open>What the users of a list rely on; \<open>free\<close> is a node that no list holds.\<close>

locale deque =
  fixes rep :: "'h \<Rightarrow> 'a \<Rightarrow> 'b list \<Rightarrow> bool"
    and free :: "'h \<Rightarrow> 'b \<Rightarrow> bool"
    and apart :: "'a \<Rightarrow> 'b list \<Rightarrow> 'b \<Rightarrow> bool"
    and push_front :: "'a \<Rightarrow> 'b \<Rightarrow> 'h \<Rightarrow> 'e + 'h"
    and push_back :: "'a \<Rightarrow> 'b \<Rightarrow> 'h \<Rightarrow> 'e + 'h"
    and pop_front :: "'a \<Rightarrow> 'h \<Rightarrow> 'b option \<times> 'h"
    and pop_back :: "'a \<Rightarrow> 'h \<Rightarrow> 'b option \<times> 'h"
  assumes push_front: "rep h l xs \<Longrightarrow> free h a \<Longrightarrow> apart l xs a \<Longrightarrow>
          \<exists>h'. push_front l a h = Inr h' \<and> rep h' l (a # xs)"
    and push_back: "rep h l xs \<Longrightarrow> free h a \<Longrightarrow> apart l xs a \<Longrightarrow>
          \<exists>h'. push_back l a h = Inr h' \<and> rep h' l (xs @ [a])"
    and pop_front: "rep h l (x # xs) \<Longrightarrow>
          \<exists>h'. pop_front l h = (Some x, h') \<and> rep h' l xs \<and> free h' x \<and> apart l xs x"
    and pop_back: "rep h l (xs @ [x]) \<Longrightarrow>
          \<exists>h'. pop_back l h = (Some x, h') \<and> rep h' l xs \<and> free h' x \<and> apart l xs x"
begin

text \<open>Pushing and popping on the same end undo each other; on opposite ends they rotate the list.\<close>

lemma push_pop_front:
  assumes "rep h l xs" "free h a" "apart l xs a"
  shows "\<exists>h1 h2. push_front l a h = Inr h1 \<and> pop_front l h1 = (Some a, h2) \<and> rep h2 l xs \<and> free h2 a"
  using push_front [OF assms] pop_front by blast

lemma rotate:
  assumes "rep h l (x # xs)"
  shows "\<exists>h1 h2. pop_front l h = (Some x, h1) \<and> push_back l x h1 = Inr h2 \<and> rep h2 l (xs @ [x])"
  using pop_front [OF assms] push_back by meson

lemma rotate_back:
  assumes "rep h l (xs @ [x])"
  shows "\<exists>h1 h2. pop_back l h = (Some x, h1) \<and> push_front l x h1 = Inr h2 \<and> rep h2 l (x # xs)"
  using pop_back [OF assms] push_front by meson

end

interpretation ring_list: deque ring lone "\<lambda>l xs a. a \<notin> set (l # xs)"
  list_push_front list_push_back list_pop_front list_pop_back
proof
  fix h l xs a assume "ring h l xs" "lone h a" "a \<notin> set (l # xs)"
  then show "\<exists>h'. list_push_front l a h = Inr h' \<and> ring h' l (a # xs)"
    and "\<exists>h'. list_push_back l a h = Inr h' \<and> ring h' l (xs @ [a])"
    using push_front_ring push_back_ring by blast+
next
  fix h l x xs assume r: "ring h l (x # xs)"
  then have "x \<notin> set (l # xs)" by (auto simp: ring_def)
  with pop_front_ring [OF r]
  show "\<exists>h'. list_pop_front l h = (Some x, h') \<and> ring h' l xs \<and> lone h' x \<and> x \<notin> set (l # xs)" by auto
next
  fix h l xs x assume r: "ring h l (xs @ [x])"
  then have "x \<notin> set (l # xs)" by (auto simp: ring_def)
  with pop_back_ring [OF r]
  show "\<exists>h'. list_pop_back l h = (Some x, h') \<and> ring h' l xs \<and> lone h' x \<and> x \<notin> set (l # xs)" by auto
qed

text \<open>
  On a well-formed list the size, the element at an index, the index of a node and the membership
  test agree with the sequence of its elements, and their loops end.
\<close>

theorem list_queries:
  assumes "ring h l xs" "length xs < 2 ^ 64"
  shows "list_get_size h l = Some (of_nat (length xs)) \<and>
         list_get_at h l i = Some (if unat i < length xs then Some (xs ! unat i) else None) \<and>
         list_contains h l a = Some (a \<in> set xs) \<and>
         (\<forall>k. k < length xs \<longrightarrow> list_index_of h l (xs ! k) = Some (of_nat k))"
proof -
  have "list_index_of h l (xs ! k) = Some (of_nat k)" if "k < length xs" for k
  proof -
    have "distinct xs" using assms(1) by (simp add: ring_def)
    then have "takeWhile (\<lambda>y. y \<noteq> xs ! k) xs = take k xs"
      using that by (intro takeWhile_eq_take_P_nth) (auto simp: nth_eq_iff_index_eq)
    with that index_of_ring [OF assms(1)] show ?thesis by simp
  qed
  then show ?thesis using get_size_ring [OF assms(1)] get_at_ring [OF assms(1)] contains_ring [OF assms]
    by blast
qed

text \<open>
  Splicing one list onto another moves every element, in order, and leaves the other list empty;
  splicing a list onto itself is refused.
\<close>

theorem splice_moves_all:
  assumes "ring h l xs" "ring h o' ys" "set (l # xs) \<inter> set (o' # ys) = {}"
  shows "(\<exists>h1. list_splice_back l o' h = Inr h1 \<and> ring h1 l (xs @ ys) \<and> ring h1 o' []) \<and>
         (\<exists>h2. list_splice_front l o' h = Inr h2 \<and> ring h2 l (ys @ xs) \<and> ring h2 o' []) \<and>
         list_splice_back l l h = Inl Invalid_argument"
proof -
  have ne: "l \<noteq> o'" using assms(3) by auto
  have p: "prv h l = (if xs = [] then l else last xs)" and n: "nxt h l = (case xs of [] \<Rightarrow> l | z # _ \<Rightarrow> z)"
    using assms(1) dseg_last [of h l xs l] dseg_first [of h l xs l] by (auto simp: ring_def)
  have b: "ring (list_splice_between o' (prv h l) l h) l (xs @ ys)"
    "ring (list_splice_between o' (prv h l) l h) o' []"
    using splice_between_ring [of h l xs "[]" o' ys "prv h l" l] assms p by auto
  have f: "ring (list_splice_between o' l (nxt h l) h) l (ys @ xs)"
    "ring (list_splice_between o' l (nxt h l) h) o' []"
    using splice_between_ring [of h l "[]" xs o' ys l "nxt h l"] assms n by auto
  show ?thesis using ne b f by (simp add: list_splice_back_def list_splice_front_def)
qed

end
