(* ===== verification/Timer.thy ===== *)
theory Timer
  imports Ring_List
begin

text \<open>
  Timers and their groups, \<^verbatim>\<open>src/lh/core/timer.c\<close> and \<^verbatim>\<open>src/lh/core/timer/tick.c\<close>. A timer is named by the
  address of its link; a group is the list of its running timers, kept by priority. Ticks are 32-bit
  counters that wrap. The callback of a timer is the host's and may call the library: it is a
  parameter that changes the timers and the links.
\<close>

section \<open>Ticks\<close>

type_synonym tick = u32

definition tick_equals :: "tick \<Rightarrow> tick \<Rightarrow> bool" where
  "tick_equals a b \<longleftrightarrow> a = b"

definition tick_is_at_least :: "tick \<Rightarrow> tick \<Rightarrow> bool" where
  "tick_is_at_least a minimum \<longleftrightarrow> a \<ge> minimum"

definition tick_is_less :: "tick \<Rightarrow> tick \<Rightarrow> bool" where
  "tick_is_less a b \<longleftrightarrow> a < b"

definition tick_is_greater :: "tick \<Rightarrow> tick \<Rightarrow> bool" where
  "tick_is_greater a b \<longleftrightarrow> tick_is_less b a"

definition tick_elapsed :: "tick \<Rightarrow> tick \<Rightarrow> tick" where
  "tick_elapsed since now = now - since"

definition tick_is_after :: "tick \<Rightarrow> tick \<Rightarrow> bool" where
  "tick_is_after a b \<longleftrightarrow> sint (tick_elapsed b a) > 0"

section \<open>Timers\<close>

type_synonym timer_cb = nat

record timer =
  period :: tick
  last_tick :: tick
  priority :: u8
  repeat :: bool
  paused :: bool
  timer_fn :: "timer_cb option"
  timer_context :: ptr

record timer_world =
  links2 :: heap2
  timer_at :: "addr \<Rightarrow> timer"
  fired :: "addr list"

type_synonym timer_env = "timer_cb \<Rightarrow> addr \<Rightarrow> ptr \<Rightarrow> timer_world \<Rightarrow> timer_world"

definition timer_upd :: "addr \<Rightarrow> (timer \<Rightarrow> timer) \<Rightarrow> timer_world \<Rightarrow> timer_world" where
  "timer_upd a f w = w\<lparr>timer_at := (timer_at w)(a := f (timer_at w a))\<rparr>"

definition timer_is_running :: "timer_world \<Rightarrow> addr \<Rightarrow> bool" where
  "timer_is_running w a \<longleftrightarrow> node_is_linked (links2 w) a"

definition timer_stop :: "addr \<Rightarrow> timer_world \<Rightarrow> timer_world" where
  "timer_stop a w =
     timer_upd a (\<lambda>t. t\<lparr>paused := False\<rparr>)
       (if node_is_linked (links2 w) a then w\<lparr>links2 := node_unlink a (links2 w)\<rparr> else w)"

definition timer_init :: "addr \<Rightarrow> timer_world \<Rightarrow> timer_world" where
  "timer_init a w =
     timer_upd a (\<lambda>_. \<lparr>period = 0, last_tick = 0, priority = 0, repeat = False, paused = False,
                       timer_fn = None, timer_context = None\<rparr>)
       (w\<lparr>links2 := node_init a (links2 w)\<rparr>)"

definition timer_deinit :: "addr \<Rightarrow> timer_world \<Rightarrow> timer_world" where
  "timer_deinit a w = timer_upd a (\<lambda>t. t\<lparr>timer_fn := None, timer_context := None\<rparr>) (timer_stop a w)"

definition timer_pause :: "addr \<Rightarrow> timer_world \<Rightarrow> timer_world" where
  "timer_pause a w = (if timer_is_running w a then timer_upd a (\<lambda>t. t\<lparr>paused := True\<rparr>) w else w)"

definition timer_resume :: "addr \<Rightarrow> tick \<Rightarrow> timer_world \<Rightarrow> timer_world" where
  "timer_resume a now w =
     (if timer_is_running w a then timer_upd a (\<lambda>t. t\<lparr>paused := False, last_tick := now\<rparr>) w else w)"

definition priority_is_at_least :: "timer \<Rightarrow> timer \<Rightarrow> bool" where
  "priority_is_at_least t minimum \<longleftrightarrow> priority t \<ge> priority minimum"

definition priority_is_less :: "timer \<Rightarrow> timer \<Rightarrow> bool" where
  "priority_is_less t other \<longleftrightarrow> \<not> priority_is_at_least t other"

definition priority_is_greater :: "timer \<Rightarrow> timer \<Rightarrow> bool" where
  "priority_is_greater t other \<longleftrightarrow> priority_is_less other t"

definition timer_cmp_priority :: "(addr \<Rightarrow> timer) \<Rightarrow> node_cmp" where
  "timer_cmp_priority ts a b =
     (if priority_is_greater (ts a) (ts b) then - 1
      else if priority_is_less (ts a) (ts b) then 1 else 0)"

section \<open>Groups\<close>

definition group_init :: "addr \<Rightarrow> timer_world \<Rightarrow> timer_world" where
  "group_init g w = w\<lparr>links2 := list_init g (links2 w)\<rparr>"

partial_function (option) group_deinit :: "addr \<Rightarrow> heap2 \<Rightarrow> heap2 option" where
  "group_deinit g h =
     (if list_is_empty h g then Some h
      else case list_get_first h g of
             None \<Rightarrow> Some h
           | Some a \<Rightarrow> group_deinit g (node_unlink a h))"

text \<open>
  \<^verbatim>\<open>lh_timer_start\<close>; an outer \<open>None\<close> is a sorted insertion that does not end, which a well-formed group
  rules out.
\<close>

definition timer_start ::
  "addr \<Rightarrow> addr \<Rightarrow> tick \<Rightarrow> bool \<Rightarrow> u8 \<Rightarrow> timer_cb option \<Rightarrow> ptr \<Rightarrow> tick \<Rightarrow> timer_world \<Rightarrow>
   (error_code + timer_world) option" where
  "timer_start g a per rep prio f ctx now w =
     (if f = None then Some (Inl Null_pointer)
      else if per = 0 then Some (Inl Invalid_argument)
      else
        (let w1 = timer_upd a (\<lambda>t. \<lparr>period = per, last_tick = now, priority = prio, repeat = rep,
                                    paused = False, timer_fn = f, timer_context = ctx\<rparr>) (timer_stop a w)
         in map_option (\<lambda>r. bind_result r (\<lambda>h. Inr (w1\<lparr>links2 := h\<rparr>)))
              (list_insert_sorted g a (timer_cmp_priority (timer_at w1)) (links2 w1))))"

definition group_set_priority ::
  "addr \<Rightarrow> addr \<Rightarrow> u8 \<Rightarrow> timer_world \<Rightarrow> (error_code + timer_world) option" where
  "group_set_priority g a prio w =
     (if priority (timer_at w a) = prio then Some (Inr w)
      else if timer_is_running w a then
        (case list_contains (links2 w) g a of
           None \<Rightarrow> None
         | Some False \<Rightarrow> Some (Inl Invalid_argument)
         | Some True \<Rightarrow>
             (let w1 = timer_upd a (\<lambda>t. t\<lparr>priority := prio\<rparr>) (w\<lparr>links2 := node_unlink a (links2 w)\<rparr>)
              in map_option (\<lambda>r. bind_result r (\<lambda>h. Inr (w1\<lparr>links2 := h\<rparr>)))
                   (list_insert_sorted g a (timer_cmp_priority (timer_at w1)) (links2 w1))))
      else Some (Inr (timer_upd a (\<lambda>t. t\<lparr>priority := prio\<rparr>) w)))"

partial_function (option) until_from :: "timer_world \<Rightarrow> addr \<Rightarrow> tick \<Rightarrow> ptr \<Rightarrow> tick \<Rightarrow> tick option" where
  "until_from w g now node best =
     (case node of
        None \<Rightarrow> Some best
      | Some a \<Rightarrow>
          let t = timer_at w a in
          if paused t then until_from w g now (list_get_next (links2 w) g a) best
          else
            let remain = period t - (now - last_tick t) in
            if now - last_tick t \<ge> period t then Some 0
            else until_from w g now (list_get_next (links2 w) g a) (if remain < best then remain else best))"

definition group_until_next :: "timer_world \<Rightarrow> addr \<Rightarrow> tick \<Rightarrow> tick option" where
  "group_until_next w g now = until_from w g now (list_get_first (links2 w) g) (- 1)"

text \<open>One firing: the check of the callback, the callback, and the stop of a timer that does not repeat.\<close>

definition timer_fire :: "timer_env \<Rightarrow> addr \<Rightarrow> tick \<Rightarrow> timer_world \<Rightarrow> error_code + timer_world" where
  "timer_fire e a now w =
     (let w1 = timer_upd a (\<lambda>t. t\<lparr>last_tick := now\<rparr>) w
      in case timer_fn (timer_at w1 a) of
           None \<Rightarrow> Inl Null_pointer
         | Some f \<Rightarrow>
             (let w2 = e f a (timer_context (timer_at w1 a)) (w1\<lparr>fired := fired w1 @ [a]\<rparr>)
              in Inr (if \<not> repeat (timer_at w2 a) \<and> timer_is_running w2 a then timer_stop a w2 else w2)))"

partial_function (option) handler_from ::
  "timer_env \<Rightarrow> addr \<Rightarrow> tick \<Rightarrow> ptr \<Rightarrow> timer_world \<Rightarrow> (error_code + timer_world) option" where
  "handler_from e g now node w =
     (case node of
        None \<Rightarrow> Some (Inr w)
      | Some a \<Rightarrow>
          let next = list_get_next (links2 w) g a; t = timer_at w a in
          if paused t then handler_from e g now next w
          else if now - last_tick t < period t then handler_from e g now next w
          else case timer_fire e a now w of
                 Inl err \<Rightarrow> Some (Inl err)
               | Inr w' \<Rightarrow> handler_from e g now next w')"

definition group_handler :: "timer_env \<Rightarrow> addr \<Rightarrow> tick \<Rightarrow> timer_world \<Rightarrow> (error_code + timer_world) option" where
  "group_handler e g now w = handler_from e g now (list_get_first (links2 w) g) w"

section \<open>The order of a group\<close>

lemma cmp_priority_less: "timer_cmp_priority ts a b < 0 \<longleftrightarrow> priority (ts b) < priority (ts a)"
  by (auto simp: timer_cmp_priority_def priority_is_greater_def priority_is_less_def priority_is_at_least_def)

lemma cmp_priority_le: "timer_cmp_priority ts a b \<le> 0 \<longleftrightarrow> priority (ts b) \<le> priority (ts a)"
  by (auto simp: timer_cmp_priority_def priority_is_greater_def priority_is_less_def priority_is_at_least_def)

lemma cmp_priority_pos: "0 < timer_cmp_priority ts a b \<longleftrightarrow> priority (ts a) < priority (ts b)"
  using cmp_priority_le [of ts a b] by (simp add: not_le [symmetric])

interpretation by_priority: node_order "timer_cmp_priority ts"
  by unfold_locales (auto simp: cmp_priority_less cmp_priority_le cmp_priority_pos)

text \<open>A well-formed group: a ring of timers, highest priority first.\<close>

definition group_ok :: "timer_world \<Rightarrow> addr \<Rightarrow> addr list \<Rightarrow> bool" where
  "group_ok w g xs \<longleftrightarrow>
     ring (links2 w) g xs \<and> sorted_wrt (\<lambda>a b. priority (timer_at w b) \<le> priority (timer_at w a)) xs"

lemma timer_upd_frame [simp]:
  "links2 (timer_upd a f w) = links2 w" "fired (timer_upd a f w) = fired w"
  "timer_at (timer_upd a f w) = (timer_at w)(a := f (timer_at w a))"
  by (simp_all add: timer_upd_def)

lemma running_ring:
  assumes "ring (links2 w) g (xs @ a # ys)"
  shows "timer_is_running w a"
proof -
  have "nxt (links2 w) a = (case ys of [] \<Rightarrow> g | y # _ \<Rightarrow> y)" "a \<noteq> g" "a \<notin> set ys"
    using assms dseg_first [of "links2 w" a ys g] by (auto simp: ring_split)
  then show ?thesis by (auto simp: timer_is_running_def node_is_linked_def split: list.splits)
qed

lemma timer_stop_ring:
  assumes "ring (links2 w) g (xs @ a # ys)"
  shows "ring (links2 (timer_stop a w)) g (xs @ ys)" and "lone (links2 (timer_stop a w)) a"
  using assms running_ring [OF assms] unlink_ring [OF assms]
  by (simp_all add: timer_stop_def timer_is_running_def)

lemma timer_stop_lone:
  "lone (links2 w) a \<Longrightarrow> links2 (timer_stop a w) = links2 w"
  by (simp add: timer_stop_def node_is_linked_def lone_def)

lemma timer_stop_timers: "timer_at (timer_stop a w) = (timer_at w)(a := (timer_at w a)\<lparr>paused := False\<rparr>)"
  by (simp add: timer_stop_def)

lemma sorted_priority_cong:
  assumes "\<forall>a \<in> set xs. priority (ts' a) = priority (ts a)"
  shows "sorted_wrt (\<lambda>a b. priority (ts' b) \<le> priority (ts' a)) xs \<longleftrightarrow>
         sorted_wrt (\<lambda>a b. priority (ts b) \<le> priority (ts a)) xs"
  using assms by (induction xs) auto

lemma insert_sorted_group:
  assumes "ring (links2 w) g xs" "lone (links2 w) a" "a \<notin> set (g # xs)"
    "sorted_wrt (\<lambda>a b. priority (timer_at w b) \<le> priority (timer_at w a)) xs"
  shows "\<exists>h' ys zs. list_insert_sorted g a (timer_cmp_priority (timer_at w)) (links2 w) = Some (Inr h') \<and>
           xs = ys @ zs \<and> group_ok (w\<lparr>links2 := h'\<rparr>) g (ys @ a # zs) \<and>
           (\<forall>y \<in> set ys. priority (timer_at w a) \<le> priority (timer_at w y)) \<and>
           (\<forall>z \<in> set zs. priority (timer_at w z) < priority (timer_at w a))"
proof -
  let ?cmp = "timer_cmp_priority (timer_at w)"
  have srt: "sorted_wrt (\<lambda>a b. ?cmp a b \<le> 0) xs" using assms(4) by (simp add: cmp_priority_le)
  from insert_from_ring [of "links2 w" g "[]" xs a ?cmp] assms(1-3) obtain h' where
    h': "list_insert_sorted g a ?cmp (links2 w) = Some (Inr h')" "ring h' g (insert_cmp ?cmp a xs)"
    using first_ring [OF assms(1)] by (auto simp: list_insert_sorted_def)
  from by_priority.insert_stable [OF srt, of a] obtain ys zs where
    yz: "xs = ys @ zs" "insert_cmp ?cmp a xs = ys @ a # zs"
      "\<forall>y \<in> set ys. ?cmp y a \<le> 0" "\<forall>z \<in> set zs. ?cmp a z < 0" by blast
  have "sorted_wrt (\<lambda>a b. ?cmp a b \<le> 0) (ys @ a # zs)"
    using by_priority.insert_sorted [OF srt, of a] yz(2) by simp
  then have "group_ok (w\<lparr>links2 := h'\<rparr>) g (ys @ a # zs)"
    using h'(2) yz(2) by (simp add: group_ok_def cmp_priority_le)
  with h' yz show ?thesis by (auto simp: cmp_priority_le cmp_priority_less)
qed

lemma timer_start_at:
  assumes "group_ok w g (us @ vs)" "a \<noteq> g" "a \<notin> set (us @ vs)" "per \<noteq> 0"
    and "w1 = w \<and> lone (links2 w) a \<or> group_ok w1 g (us @ a # vs) \<and> w = timer_stop a w1"
  shows "\<exists>w' ys zs. timer_start g a per rep prio (Some f) ctx now w1 = Some (Inr w') \<and>
           us @ vs = ys @ zs \<and> group_ok w' g (ys @ a # zs) \<and>
           (\<forall>y \<in> set ys. prio \<le> priority (timer_at w' y)) \<and>
           (\<forall>z \<in> set zs. priority (timer_at w' z) < prio)"
proof -
  let ?t = "\<lparr>period = per, last_tick = now, priority = prio, repeat = rep, paused = False,
            timer_fn = Some f, timer_context = ctx\<rparr>"
  let ?w = "timer_upd a (\<lambda>_. ?t) (timer_stop a w1)"
  have links: "links2 (timer_stop a w1) = links2 w" and l: "lone (links2 w) a"
    using assms(5) timer_stop_lone [of w a] timer_stop_ring(2) [of w1 g us a vs] by (auto simp: group_ok_def)
  have tm: "\<And>b. b \<noteq> a \<Longrightarrow> timer_at (timer_stop a w1) b = timer_at w b"
    using assms(5) by (auto simp: timer_stop_timers)
  have srt: "sorted_wrt (\<lambda>a b. priority (timer_at ?w b) \<le> priority (timer_at ?w a)) (us @ vs)"
    using assms(1,3) tm sorted_priority_cong [of "us @ vs" "timer_at ?w" "timer_at w"]
    by (auto simp: group_ok_def)
  have "ring (links2 ?w) g (us @ vs)" "lone (links2 ?w) a" "a \<notin> set (g # us @ vs)"
    using assms(1-3) links l by (auto simp: group_ok_def)
  from insert_sorted_group [OF this srt] obtain h' ys zs where
    r: "list_insert_sorted g a (timer_cmp_priority (timer_at ?w)) (links2 ?w) = Some (Inr h')"
      "us @ vs = ys @ zs" "group_ok (?w\<lparr>links2 := h'\<rparr>) g (ys @ a # zs)"
      "\<forall>y \<in> set ys. priority (timer_at ?w a) \<le> priority (timer_at ?w y)"
      "\<forall>z \<in> set zs. priority (timer_at ?w z) < priority (timer_at ?w a)" by blast
  have "timer_start g a per rep prio (Some f) ctx now w1 = Some (Inr (?w\<lparr>links2 := h'\<rparr>))"
    using assms(4) r(1) by (simp add: timer_start_def Let_def)
  with r show ?thesis by (intro exI [of _ "?w\<lparr>links2 := h'\<rparr>"] exI [of _ ys] exI [of _ zs]) auto
qed

text \<open>
  Starting a timer, running or not, puts it into the group once, behind every timer of at least
  its priority and ahead of every lower one, and leaves the others in their order; the group stays
  sorted by priority.
\<close>

theorem timer_start_sorted:
  assumes "group_ok w g xs" "a \<noteq> g" "a \<in> set xs \<or> lone (links2 w) a" "per \<noteq> 0"
  shows "\<exists>w' ys zs. timer_start g a per rep prio (Some f) ctx now w = Some (Inr w') \<and>
           filter (\<lambda>x. x \<noteq> a) xs = ys @ zs \<and> group_ok w' g (ys @ a # zs) \<and>
           (\<forall>y \<in> set ys. prio \<le> priority (timer_at w' y)) \<and>
           (\<forall>z \<in> set zs. priority (timer_at w' z) < prio)"
proof (cases "a \<in> set xs")
  case True
  then obtain us vs where xs: "xs = us @ a # vs" by (meson split_list)
  have d: "a \<notin> set (us @ vs)" using assms(1) xs by (auto simp: group_ok_def ring_def)
  have "sorted_wrt (\<lambda>a b. priority (timer_at w b) \<le> priority (timer_at w a)) (us @ vs)"
    using assms(1) xs by (auto simp: group_ok_def sorted_wrt_append)
  then have "group_ok (timer_stop a w) g (us @ vs)"
    using timer_stop_ring(1) [of w g us a vs] assms(1) xs d
      sorted_priority_cong [of "us @ vs" "timer_at (timer_stop a w)" "timer_at w"]
    by (auto simp: group_ok_def timer_stop_timers)
  from timer_start_at [OF this assms(2) d assms(4), of w] assms(1) xs d show ?thesis by simp
next
  case False
  with assms(3) have l: "lone (links2 w) a" by blast
  have "group_ok w g ([] @ xs)" "a \<notin> set ([] @ xs)" using assms(1) False by auto
  from timer_start_at [OF this(1) assms(2) this(2) assms(4), of w] l False show ?thesis by simp
qed

section \<open>The next due time\<close>

abbreviation due :: "timer \<Rightarrow> tick \<Rightarrow> bool" where
  "due t now \<equiv> \<not> paused t \<and> now - last_tick t \<ge> period t"

definition remaining :: "timer \<Rightarrow> tick \<Rightarrow> tick" where
  "remaining t now = period t - (now - last_tick t)"

fun best_remaining :: "(addr \<Rightarrow> timer) \<Rightarrow> tick \<Rightarrow> addr list \<Rightarrow> tick \<Rightarrow> tick" where
  "best_remaining ts now [] best = best"
| "best_remaining ts now (a # as) best =
     (if paused (ts a) then best_remaining ts now as best
      else if due (ts a) now then 0
      else best_remaining ts now as (if remaining (ts a) now < best then remaining (ts a) now else best))"

lemma until_from_ring:
  "ring (links2 w) g (xs @ ys) \<Longrightarrow>
   until_from w g now (case ys of [] \<Rightarrow> None | y # _ \<Rightarrow> Some y) best =
     Some (best_remaining (timer_at w) now ys best)"
proof (induction ys arbitrary: xs best)
  case Nil
  then show ?case by (subst until_from.simps) simp
next
  case (Cons y ys)
  then have "ring (links2 w) g ((xs @ [y]) @ ys)" by simp
  with Cons.IH [of "xs @ [y]"] next_ring [of "links2 w" g xs y ys] Cons.prems show ?case
    by (subst until_from.simps) (simp add: Let_def remaining_def)
qed

lemma best_remaining_props:
  "(\<exists>a \<in> set xs. due (ts a) now) \<Longrightarrow> best_remaining ts now xs best = 0"
  "\<forall>a \<in> set xs. \<not> due (ts a) now \<Longrightarrow>
     best_remaining ts now xs best \<le> best \<and>
     (\<forall>a \<in> set xs. \<not> paused (ts a) \<longrightarrow> best_remaining ts now xs best \<le> remaining (ts a) now) \<and>
     (best_remaining ts now xs best = best \<or>
      (\<exists>a \<in> set xs. \<not> paused (ts a) \<and> best_remaining ts now xs best = remaining (ts a) now))"
proof -
  show "(\<exists>a \<in> set xs. due (ts a) now) \<Longrightarrow> best_remaining ts now xs best = 0"
    by (induction xs arbitrary: best) auto
next
  show "\<forall>a \<in> set xs. \<not> due (ts a) now \<Longrightarrow>
     best_remaining ts now xs best \<le> best \<and>
     (\<forall>a \<in> set xs. \<not> paused (ts a) \<longrightarrow> best_remaining ts now xs best \<le> remaining (ts a) now) \<and>
     (best_remaining ts now xs best = best \<or>
      (\<exists>a \<in> set xs. \<not> paused (ts a) \<and> best_remaining ts now xs best = remaining (ts a) now))"
  proof (induction xs arbitrary: best)
    case (Cons a xs)
    let ?b = "if remaining (ts a) now < best then remaining (ts a) now else best"
    have "?b \<le> best" "?b \<le> remaining (ts a) now" by auto
    with Cons.IH [of ?b] Cons.IH [of best] Cons.prems show ?case
      by (cases "paused (ts a)") (auto intro: order_trans)
  qed simp
qed

lemma remaining_not_due:
  fixes t :: timer
  assumes "\<not> paused t" "\<not> due t now" "d < remaining t now"
  shows "\<not> due t (now + d)"
proof -
  let ?e = "now - last_tick t"
  have e: "unat ?e < unat (period t)" using assms(1,2) by (simp add: word_less_nat_alt not_le)
  then have r: "unat (remaining t now) = unat (period t) - unat ?e"
    by (simp add: remaining_def unat_sub word_le_nat_alt)
  with assms(3) have lt: "unat ?e + unat d < unat (period t)" by (simp add: word_less_nat_alt)
  also have "unat (period t) < 2 ^ 32" using unsigned_less [of "period t", where ?'a = nat] by simp
  finally have "unat (?e + d) = unat ?e + unat d" by (simp add: unat_word_ariths)
  then have "?e + d < period t" using lt by (simp add: word_less_nat_alt)
  then have "now + d - last_tick t < period t" by (simp add: algebra_simps)
  then show ?thesis by (simp add: not_le)
qed

lemma remaining_due: "\<not> paused t \<Longrightarrow> due t (now + remaining t now)"
  by (simp add: remaining_def algebra_simps)

text \<open>
  The time until the next timer is exact: it is zero when a timer is due now; otherwise no timer
  falls due at any earlier tick, counting wraps, and one is due when it is over (or there is none to
  wait for and the answer is the largest tick).
\<close>

theorem until_next_exact:
  assumes "ring (links2 w) g xs"
  shows "\<exists>r. group_until_next w g now = Some r \<and>
           ((\<exists>a \<in> set xs. due (timer_at w a) now) \<longrightarrow> r = 0) \<and>
           ((\<forall>a \<in> set xs. \<not> due (timer_at w a) now) \<longrightarrow>
              (\<forall>d a. d < r \<and> a \<in> set xs \<longrightarrow> \<not> due (timer_at w a) (now + d)) \<and>
              (r = - 1 \<or> (\<exists>a \<in> set xs. due (timer_at w a) (now + r))))"
proof -
  let ?r = "best_remaining (timer_at w) now xs (- 1)"
  have r: "group_until_next w g now = Some ?r"
    using until_from_ring [of w g "[]" xs now "- 1"] first_ring [OF assms] assms
    by (simp add: group_until_next_def)
  note p = best_remaining_props [where best = "- 1" and ts = "timer_at w" and xs = xs and now = now]
  have "\<not> due (timer_at w a) (now + d)"
    if n: "\<forall>a \<in> set xs. \<not> due (timer_at w a) now" and d: "d < ?r" and a: "a \<in> set xs" for d a
  proof (cases "paused (timer_at w a)")
    case False
    then have "?r \<le> remaining (timer_at w a) now" using p(2) n a by blast
    with d have "d < remaining (timer_at w a) now" by (rule less_le_trans)
    with False n a show ?thesis using remaining_not_due [of "timer_at w a" now d] by blast
  qed simp
  moreover have "?r = - 1 \<or> (\<exists>a \<in> set xs. due (timer_at w a) (now + ?r))"
    if n: "\<forall>a \<in> set xs. \<not> due (timer_at w a) now"
    using p(2) [OF n] remaining_due by metis
  ultimately show ?thesis using r p(1) by blast
qed

section \<open>Firing\<close>

text \<open>A callback that at most stops its own timer.\<close>

definition own_timer_only :: "timer_env \<Rightarrow> bool" where
  "own_timer_only e \<longleftrightarrow> (\<forall>f a c w. e f a c w = w \<or> e f a c w = timer_stop a w)"

lemma timer_stop_fired [simp]: "fired (timer_stop a w) = fired w"
  by (simp add: timer_stop_def)

lemma fire_ring:
  assumes e: "own_timer_only e" and r: "ring (links2 w) g (xs @ a # ys)"
    and f: "timer_fn (timer_at w a) \<noteq> None" and due: "due (timer_at w a) now"
  shows "\<exists>w' k. timer_fire e a now w = Inr w' \<and> fired w' = fired w @ [a] \<and>
           ring (links2 w') g (xs @ (if k then [a] else []) @ ys) \<and> (k \<longrightarrow> repeat (timer_at w a)) \<and>
           timer_at w' = (timer_at w)(a := (timer_at w a)\<lparr>last_tick := now\<rparr>)"
proof -
  obtain c where c: "timer_fn (timer_at w a) = Some c" using f by blast
  let ?w1 = "(timer_upd a (\<lambda>t. t\<lparr>last_tick := now\<rparr>) w)\<lparr>fired := fired w @ [a]\<rparr>"
  let ?w2 = "e c a (timer_context (timer_at w a)) ?w1"
  have ring1: "ring (links2 ?w1) g (xs @ a # ys)" using r by simp
  have same: "timer_at (timer_stop a ?w1) = timer_at ?w1" using due by (simp add: timer_stop_timers fun_eq_iff)
  have fire: "timer_fire e a now w =
      Inr (if \<not> repeat (timer_at ?w2 a) \<and> timer_is_running ?w2 a then timer_stop a ?w2 else ?w2)"
    using c by (simp add: timer_fire_def Let_def)
  from e consider "?w2 = ?w1" | "?w2 = timer_stop a ?w1" by (metis own_timer_only_def)
  then show ?thesis
  proof cases
    case 1
    note run = running_ring [OF ring1]
    show ?thesis
    proof (cases "repeat (timer_at w a)")
      case True
      then have "timer_fire e a now w = Inr ?w1" using fire 1 by simp
      with True ring1 show ?thesis by (intro exI [of _ ?w1] exI [of _ True]) simp
    next
      case False
      then have "timer_fire e a now w = Inr (timer_stop a ?w1)" using fire 1 run by simp
      with timer_stop_ring(1) [OF ring1] same show ?thesis
        by (intro exI [of _ "timer_stop a ?w1"] exI [of _ False]) simp
    qed
  next
    case 2
    have "\<not> timer_is_running ?w2 a" using 2 timer_stop_ring(2) [OF ring1]
      by (simp add: timer_is_running_def node_is_linked_def lone_def)
    then have "timer_fire e a now w = Inr (timer_stop a ?w1)" using fire 2 by simp
    with timer_stop_ring(1) [OF ring1] same show ?thesis
      by (intro exI [of _ "timer_stop a ?w1"] exI [of _ False]) simp
  qed
qed

lemma handler_from_ring:
  assumes "own_timer_only e" "ring (links2 w) g (xs @ ys)"
    "\<forall>a \<in> set ys. timer_fn (timer_at w a) \<noteq> None"
  shows "\<exists>w' zs. handler_from e g now (case ys of [] \<Rightarrow> None | y # _ \<Rightarrow> Some y) w = Some (Inr w') \<and>
           fired w' = fired w @ filter (\<lambda>a. due (timer_at w a) now) ys \<and>
           ring (links2 w') g (xs @ zs) \<and> set zs \<subseteq> set ys \<and>
           (\<forall>a \<in> set ys. \<not> due (timer_at w a) now \<longrightarrow> a \<in> set zs) \<and>
           (\<forall>a \<in> set zs. due (timer_at w a) now \<longrightarrow> repeat (timer_at w a))"
  using assms(2,3)
proof (induction ys arbitrary: xs w)
  case Nil
  then show ?case by (subst handler_from.simps) auto
next
  case (Cons y ys)
  note nx = next_ring [OF Cons.prems(1)]
  show ?case
  proof (cases "due (timer_at w y) now")
    case False
    have "ring (links2 w) g ((xs @ [y]) @ ys)" using Cons.prems(1) by simp
    from Cons.IH [OF this] Cons.prems(2) obtain w' zs where
      "handler_from e g now (case ys of [] \<Rightarrow> None | y # _ \<Rightarrow> Some y) w = Some (Inr w')"
      "fired w' = fired w @ filter (\<lambda>a. due (timer_at w a) now) ys"
      "ring (links2 w') g ((xs @ [y]) @ zs)" "set zs \<subseteq> set ys"
      "\<forall>a \<in> set ys. \<not> due (timer_at w a) now \<longrightarrow> a \<in> set zs"
      "\<forall>a \<in> set zs. due (timer_at w a) now \<longrightarrow> repeat (timer_at w a)" by auto
    with False nx show ?thesis
      by (subst handler_from.simps) (auto simp: Let_def not_le intro!: exI [of _ "y # zs"])
  next
    case True
    from fire_ring [OF assms(1) Cons.prems(1) _ True] Cons.prems(2) obtain w1 k where
      w1: "timer_fire e y now w = Inr w1" "fired w1 = fired w @ [y]"
        "ring (links2 w1) g ((xs @ (if k then [y] else [])) @ ys)" "k \<longrightarrow> repeat (timer_at w y)"
        "timer_at w1 = (timer_at w)(y := (timer_at w y)\<lparr>last_tick := now\<rparr>)" by auto
    have ny: "y \<notin> set ys" using Cons.prems(1) by (auto simp: ring_def)
    then have old: "\<forall>a \<in> set ys. timer_at w1 a = timer_at w a" using w1(5) by auto
    from Cons.IH [OF w1(3)] Cons.prems(2) old obtain w' zs where
      h: "handler_from e g now (case ys of [] \<Rightarrow> None | y # _ \<Rightarrow> Some y) w1 = Some (Inr w')"
        "fired w' = fired w1 @ filter (\<lambda>a. due (timer_at w1 a) now) ys"
        "ring (links2 w') g ((xs @ (if k then [y] else [])) @ zs)" "set zs \<subseteq> set ys"
        "\<forall>a \<in> set ys. \<not> due (timer_at w1 a) now \<longrightarrow> a \<in> set zs"
        "\<forall>a \<in> set zs. due (timer_at w1 a) now \<longrightarrow> repeat (timer_at w1 a)" by auto
    have fil: "filter (\<lambda>a. due (timer_at w1 a) now) ys = filter (\<lambda>a. due (timer_at w a) now) ys"
      using old by (intro filter_cong) auto
    have "handler_from e g now (case y # ys of [] \<Rightarrow> None | y # _ \<Rightarrow> Some y) w = Some (Inr w')"
      using True nx w1(1) h(1) by (subst handler_from.simps) (auto simp: Let_def not_less [symmetric])
    moreover have "fired w' = fired w @ filter (\<lambda>a. due (timer_at w a) now) (y # ys)"
      using h(2) w1(2) fil True by simp
    moreover have "\<forall>a \<in> set zs. due (timer_at w a) now \<longrightarrow> repeat (timer_at w a)"
      using h(4,6) old by (metis subsetD)
    ultimately show ?thesis using True h(3-5) w1(4) old
      by (intro exI [of _ w'] exI [of _ "(if k then [y] else []) @ zs"]) auto
  qed
qed


text \<open>A walk that stands on a node outside every list never leaves it.\<close>

lemma handler_stuck:
  assumes "nxt (links2 w) b = b" "b \<noteq> g" "paused (timer_at w b) \<or> now - last_tick (timer_at w b) < period (timer_at w b)"
  shows "handler_from e g now (Some b) w = None"
proof (rule ccontr)
  assume "handler_from e g now (Some b) w \<noteq> None"
  then obtain y where y: "handler_from e g now (Some b) w = Some y" by blast
  have nx: "list_get_next (links2 w) g b = Some b"
    using assms(1,2) by (simp add: list_get_next_def list_as_element_def)
  have "\<not> (g = g \<and> now = now \<and> Some b = Some b \<and> w = w)"
    by (rule handler_from.raw_induct [OF _ y, where P = "\<lambda>e' g' now' node w' r.
          \<not> (g' = g \<and> now' = now \<and> node = Some b \<and> w' = w)"])
      (use assms(3) nx in \<open>fastforce simp: Let_def split: if_splits\<close>)
  then show False by simp
qed

text \<open>
  C40: the walk keeps the next node before it calls back. A callback that stops that next timer leaves
  the walk on a node that links to itself: the handler never returns.
\<close>

theorem handler_hangs_when_next_stopped:
  assumes "ring (links2 w) g [a, b]" "due (timer_at w a) now" "timer_fn (timer_at w a) = Some f"
    "\<not> paused (timer_at w b)" "now - last_tick (timer_at w b) < period (timer_at w b)"
  shows "group_handler (\<lambda>_ _ _. timer_stop b) g now w = None"
proof -
  let ?e = "\<lambda>(_::timer_cb) (_::addr) (_::ptr). timer_stop b"
  let ?w1 = "(timer_upd a (\<lambda>t. t\<lparr>last_tick := now\<rparr>) w)\<lparr>fired := fired w @ [a]\<rparr>"
  let ?w2 = "timer_stop b ?w1"
  have d: "a \<noteq> g" "b \<noteq> g" "a \<noteq> b" using assms(1) by (auto simp: ring_def)
  have r1: "ring (links2 ?w1) g ([a] @ b # [])" using assms(1) by simp
  note s2 = timer_stop_ring [OF r1]
  have "nxt (links2 (timer_stop a ?w2)) b = b"
    using unlink_ring(3) [of "links2 ?w2" g "[]" a "[]" b] s2 d
    by (simp add: timer_stop_def [of a] lone_def)
  moreover have "nxt (links2 ?w2) b = b" using s2(2) by (simp add: lone_def)
  ultimately obtain w' where w': "timer_fire ?e a now w = Inr w'" "nxt (links2 w') b = b"
      "timer_at w' b = timer_at ?w2 b"
    using assms(3) d by (auto simp: timer_fire_def Let_def timer_stop_timers)
  have "timer_at ?w2 b = timer_at w b" using assms(4) d by (simp add: timer_stop_timers)
  with w' assms(5) d have "handler_from ?e g now (Some b) w' = None" by (intro handler_stuck) auto
  moreover have "list_get_first (links2 w) g = Some a" "list_get_next (links2 w) g a = Some b"
    using first_ring [OF assms(1)] next_ring [of "links2 w" g "[]" a "[b]"] assms(1) by auto
  ultimately show ?thesis
    using assms(2) w'(1) unfolding group_handler_def
    by (subst handler_from.simps) (auto simp: Let_def not_less [symmetric])
qed

section \<open>A group of two timers\<close>

definition two_links :: heap2 where
  "two_links = \<lparr>nxt = id(0 := 1, 1 := 2, 2 := 0), prv = id(0 := 2, 1 := 0, 2 := 1)\<rparr>"

definition two_timers :: timer_world where
  "two_timers =
     \<lparr>links2 = two_links,
      timer_at = (\<lambda>a. \<lparr>period = (if a = 1 then 10 else 100), last_tick = - 5, priority = (if a = 1 then 2 else 1),
                       repeat = False, paused = False, timer_fn = Some 0, timer_context = None\<rparr>),
      fired = []\<rparr>"

lemma two_ring: "ring two_links 0 [1, 2]"
  by (simp add: ring_def two_links_def)

lemma two_ok: "group_ok two_timers 0 [1, 2]"
  by (simp add: group_ok_def two_timers_def two_ring [simplified])

lemma two_due: "due (timer_at two_timers 1) 8" "\<not> due (timer_at two_timers 2) 8"
  by (simp_all add: two_timers_def)

theorem timer_start_sorted_witness:
  "\<exists>w' ys zs. timer_start 0 2 7 True 3 (Some 1) None 4 two_timers = Some (Inr w') \<and>
     [1] = ys @ zs \<and> group_ok w' 0 (ys @ 2 # zs)"
  using timer_start_sorted [OF two_ok, of 2 7 True 3 1 None 4] by auto

theorem until_next_exact_witness:
  "\<exists>r. group_until_next two_timers 0 8 = Some r \<and> r = 0"
  using until_next_exact [of two_timers 0 "[1, 2]" 8] two_ok two_due by (auto simp: group_ok_def)


theorem handler_hangs_when_next_stopped_witness:
  "group_handler (\<lambda>_ _ _. timer_stop 2) 0 8 two_timers = None"
  by (rule handler_hangs_when_next_stopped [of two_timers 0 1 2 8 0])
    (simp_all add: two_timers_def two_ring [simplified])

theorem list_queries_witness:
  "list_get_size two_links 0 = Some 2 \<and> list_get_at two_links 0 1 = Some (Some 2) \<and>
   list_contains two_links 0 3 = Some False"
  using list_queries [OF two_ring, of 1 3] by simp

theorem splice_moves_all_witness:
  "\<exists>h1. list_splice_back 0 5 (list_init 5 two_links) = Inr h1 \<and> ring h1 0 [1, 2] \<and> ring h1 5 []"
proof -
  have "ring (list_init 5 two_links) 0 [1, 2]" "ring (list_init 5 two_links) 5 []"
    by (simp_all add: ring_def two_links_def list_init_def node_init_def node_set_next_def node_set_prev_def)
  from splice_moves_all [OF this] show ?thesis by auto
qed

end
