(* ===== verification/List_Sort.thy ===== *)
theory List_Sort
  imports Ring_List "HOL-Library.Multiset"
begin

text \<open>
  \<^verbatim>\<open>lh_list_sort\<close> of \<^verbatim>\<open>src/lh/core/list.c\<close>: the bottom-up merge sort on the links of the list. The ring is
  opened into a chain that ends in a null link, so while the sort runs a next link may be null; runs
  of one, two, four and so on nodes are merged pairwise until a pass makes one merge; then the ring is closed
  and every prev link written again. Following a null link is undefined in C and has the value
  \<open>None\<close>, as has a loop that does not end. Shown: on a well-formed list the sort returns, and the list is then
  the stable sort of its elements.
\<close>

section \<open>The sort\<close>

type_synonym nexts = "addr \<Rightarrow> ptr"

text \<open>The first inner loop: the size of the left run and where the right run begins.\<close>

fun count_run :: "nexts \<Rightarrow> nat \<Rightarrow> nat \<Rightarrow> ptr \<Rightarrow> nat \<times> ptr" where
  "count_run nx 0 left_size right = (left_size, right)"
| "count_run nx (Suc run) left_size None = (left_size, None)"
| "count_run nx (Suc run) left_size (Some a) = count_run nx run (Suc left_size) (nx a)"

text \<open>What has been put out: the links, the first and the last node of the new chain.\<close>

record sorting =
  nx :: nexts
  chain :: ptr
  tail :: ptr

definition put_node :: "addr \<Rightarrow> sorting \<Rightarrow> sorting" where
  "put_node taken s =
     (case tail s of
        Some t \<Rightarrow> s\<lparr>nx := (nx s)(t := Some taken), tail := Some taken\<rparr>
      | None \<Rightarrow> s\<lparr>chain := Some taken, tail := Some taken\<rparr>)"

text \<open>The merge of the runs that begin at \<open>left\<close> and \<open>right\<close>; it returns where the right run stopped.\<close>

function merge_loop :: "node_cmp \<Rightarrow> ptr \<Rightarrow> nat \<Rightarrow> ptr \<Rightarrow> nat \<Rightarrow> sorting \<Rightarrow> (sorting \<times> ptr) option" where
  "merge_loop cmp left left_size right right_size s =
     (if 0 < left_size \<or> (0 < right_size \<and> right \<noteq> None) then
        if left_size = 0 then
          (case right of None \<Rightarrow> None
           | Some r \<Rightarrow> merge_loop cmp left left_size (nx s r) (right_size - 1) (put_node r s))
        else
          (case left of None \<Rightarrow> None
           | Some l \<Rightarrow>
               (case right of
                  Some r \<Rightarrow>
                    if 0 < right_size \<and> 0 < cmp l r
                    then merge_loop cmp left left_size (nx s r) (right_size - 1) (put_node r s)
                    else merge_loop cmp (nx s l) (left_size - 1) right right_size (put_node l s)
                | None \<Rightarrow> merge_loop cmp (nx s l) (left_size - 1) right right_size (put_node l s)))
      else Some (s, right))"
  by pat_completeness auto

termination merge_loop
  by (relation "measure (\<lambda>(cmp, left, left_size, right, right_size, s). left_size + right_size)") auto

declare merge_loop.simps [simp del]

text \<open>One pass over the chain with runs of one size; it returns the number of merges.\<close>

partial_function (option) sort_pass :: "node_cmp \<Rightarrow> nat \<Rightarrow> ptr \<Rightarrow> nat \<Rightarrow> sorting \<Rightarrow> (sorting \<times> nat) option" where
  "sort_pass cmp run left merges s =
     (case left of
        None \<Rightarrow> Some (s, merges)
      | Some a \<Rightarrow>
          (case count_run (nx s) run 0 left of
             (left_size, right) \<Rightarrow>
               (case merge_loop cmp left left_size right run s of
                  None \<Rightarrow> None
                | Some (s', right') \<Rightarrow> sort_pass cmp run right' (Suc merges) s')))"

partial_function (option) sort_passes :: "node_cmp \<Rightarrow> u64 \<Rightarrow> nexts \<Rightarrow> ptr \<Rightarrow> (nexts \<times> ptr) option" where
  "sort_passes cmp run links first =
     (case sort_pass cmp (unat run) first 0 \<lparr>nx = links, chain = None, tail = None\<rparr> of
        None \<Rightarrow> None
      | Some (s, merges) \<Rightarrow>
          (case tail s of
             None \<Rightarrow> None
           | Some t \<Rightarrow>
               if merges \<le> 1 then Some ((nx s)(t := None), chain s)
               else sort_passes cmp (run * 2) ((nx s)(t := None)) (chain s)))"

text \<open>The last loop: the prev links along the chain, and the last node.\<close>

partial_function (option) close_prev :: "nexts \<Rightarrow> ptr \<Rightarrow> addr \<Rightarrow> (addr \<Rightarrow> addr) \<Rightarrow> ((addr \<Rightarrow> addr) \<times> addr) option" where
  "close_prev links node prev prevs =
     (case node of
        None \<Rightarrow> Some (prevs, prev)
      | Some a \<Rightarrow> close_prev links (links a) a (prevs(a := prev)))"

definition list_sort :: "addr \<Rightarrow> node_cmp \<Rightarrow> heap2 \<Rightarrow> heap2 option" where
  "list_sort l cmp h =
     (case list_get_first h l of
        None \<Rightarrow> Some h
      | Some a \<Rightarrow>
          (case sort_passes cmp 1 ((Some \<circ> nxt h)(prv h l := None)) (Some a) of
             None \<Rightarrow> None
           | Some (links, first) \<Rightarrow>
               (case (close_prev links first l (prv h), first) of
                  (Some (prevs, prev), Some f) \<Rightarrow>
                    Some (h\<lparr>nxt := (the \<circ> links)(l := f, prev := l), prv := prevs(l := prev)\<rparr>)
                | _ \<Rightarrow> None)))"

section \<open>The sort on sequences\<close>

fun smerge :: "node_cmp \<Rightarrow> addr list \<Rightarrow> addr list \<Rightarrow> addr list" where
  "smerge cmp [] ys = ys"
| "smerge cmp xs [] = xs"
| "smerge cmp (x # xs) (y # ys) =
     (if 0 < cmp x y then y # smerge cmp (x # xs) ys else x # smerge cmp xs (y # ys))"

lemma smerge_Nil [simp]: "smerge cmp xs [] = xs"
  by (cases xs) auto

lemma smerge_length [simp]: "length (smerge cmp xs ys) = length xs + length ys"
  by (induction cmp xs ys rule: smerge.induct) auto

lemma smerge_mset: "mset (smerge cmp xs ys) = mset xs + mset ys"
  by (induction cmp xs ys rule: smerge.induct) auto

text \<open>The comparison orders the nodes by a key.\<close>

definition orders :: "node_cmp \<Rightarrow> (addr \<Rightarrow> 'k::linorder) \<Rightarrow> addr set \<Rightarrow> bool" where
  "orders cmp key A \<longleftrightarrow> (\<forall>a\<in>A. \<forall>b\<in>A. 0 < cmp a b \<longleftrightarrow> key b < key a)"

lemma orders_subset: "orders cmp key A \<Longrightarrow> B \<subseteq> A \<Longrightarrow> orders cmp key B"
  by (auto simp: orders_def)

lemma smerge_set [simp]: "set (smerge cmp xs ys) = set xs \<union> set ys"
  by (metis smerge_mset set_mset_mset set_mset_union)

lemma smerge_sorted:
  "orders cmp key (set xs \<union> set ys) \<Longrightarrow> sorted (map key xs) \<Longrightarrow> sorted (map key ys) \<Longrightarrow>
   sorted (map key (smerge cmp xs ys))"
proof (induction cmp xs ys rule: smerge.induct)
  case (3 cmp x xs y ys)
  have o: "0 < cmp x y \<longleftrightarrow> key y < key x" using 3(3) by (simp add: orders_def)
  show ?case
  proof (cases "0 < cmp x y")
    case True
    then have "sorted (map key (smerge cmp (x # xs) ys))"
      using 3 by (intro 3(1)) (auto intro: orders_subset)
    then show ?thesis using True o 3(4, 5) by auto
  next
    case False
    then have "sorted (map key (smerge cmp xs (y # ys)))"
      using 3 by (intro 3(2)) (auto intro: orders_subset)
    then show ?thesis using False o 3(4, 5) by auto
  qed
qed auto

lemma smerge_stable:
  "orders cmp key (set xs \<union> set ys) \<Longrightarrow> sorted (map key xs) \<Longrightarrow>
   filter (\<lambda>a. key a = k) (smerge cmp xs ys) = filter (\<lambda>a. key a = k) xs @ filter (\<lambda>a. key a = k) ys"
proof (induction cmp xs ys rule: smerge.induct)
  case (3 cmp x xs y ys)
  have o: "0 < cmp x y \<longleftrightarrow> key y < key x" using 3(3) by (simp add: orders_def)
  show ?case
  proof (cases "0 < cmp x y")
    case True
    then have IH: "filter (\<lambda>a. key a = k) (smerge cmp (x # xs) ys) = filter (\<lambda>a. key a = k) (x # xs) @ filter (\<lambda>a. key a = k) ys"
      using 3 by (intro 3(1)) (auto intro: orders_subset)
    have "filter (\<lambda>a. key a = k) (x # xs) = []" if "key y = k"
      using that True o 3(4) by (auto simp: filter_empty_conv)
    then show ?thesis using True IH by auto
  next
    case False
    then have "filter (\<lambda>a. key a = k) (smerge cmp xs (y # ys)) = filter (\<lambda>a. key a = k) xs @ filter (\<lambda>a. key a = k) (y # ys)"
      using 3 by (intro 3(2)) (auto intro: orders_subset)
    then show ?thesis using False by simp
  qed
qed auto

lemma smerge_sort:
  assumes "orders cmp key (set xs \<union> set ys)"
  shows "smerge cmp (sort_key key xs) (sort_key key ys) = sort_key key (xs @ ys)"
proof (rule sym, rule properties_for_sort_key)
  have o: "orders cmp key (set (sort_key key xs) \<union> set (sort_key key ys))" using assms by simp
  show "mset (smerge cmp (sort_key key xs) (sort_key key ys)) = mset (xs @ ys)" by (simp add: smerge_mset)
  show "filter (\<lambda>x. key k = key x) (smerge cmp (sort_key key xs) (sort_key key ys)) = filter (\<lambda>x. key k = key x) (xs @ ys)" for k
    using smerge_stable [OF o, of "key k"] by (simp add: sort_key_stable eq_commute [of "key k"])
  show "sorted (map key (smerge cmp (sort_key key xs) (sort_key key ys)))" using smerge_sorted [OF o] by simp
qed

text \<open>Runs of one size sorted, and the pass that merges them.\<close>

function chunk_sort :: "(addr \<Rightarrow> 'k::linorder) \<Rightarrow> nat \<Rightarrow> addr list \<Rightarrow> addr list" where
  "chunk_sort key run xs =
     (if xs = [] \<or> run = 0 then xs else sort_key key (take run xs) @ chunk_sort key run (drop run xs))"
  by pat_completeness auto
termination by (relation "measure (\<lambda>(key, run, xs). length xs)") auto

function pass_list :: "node_cmp \<Rightarrow> nat \<Rightarrow> addr list \<Rightarrow> addr list" where
  "pass_list cmp run xs =
     (if xs = [] \<or> run = 0 then xs
      else smerge cmp (take run xs) (take run (drop run xs)) @ pass_list cmp run (drop run (drop run xs)))"
  by pat_completeness auto
termination by (relation "measure (\<lambda>(cmp, run, xs). length xs)") auto

declare chunk_sort.simps [simp del] pass_list.simps [simp del]

lemma chunk_length [simp]: "length (chunk_sort key run xs) = length xs"
  by (induction key run xs rule: chunk_sort.induct) (subst chunk_sort.simps, auto)

lemma chunk_mset: "mset (chunk_sort key run xs) = mset xs"
proof (induction key run xs rule: chunk_sort.induct)
  case (1 key run xs)
  moreover have "mset xs = mset (take run xs) + mset (drop run xs)" by (metis append_take_drop_id mset_append)
  ultimately show ?case by (subst chunk_sort.simps) auto
qed

lemma chunk_set [simp]: "set (chunk_sort key run xs) = set xs"
  by (metis chunk_mset set_mset_mset)

lemma chunk_distinct [simp]: "distinct (chunk_sort key run xs) = distinct xs"
  by (metis chunk_mset mset_eq_imp_distinct_iff)

lemma chunk_one: "chunk_sort key 1 xs = xs"
proof (induction xs)
  case (Cons x xs)
  then show ?case by (subst chunk_sort.simps) simp
qed (simp add: chunk_sort.simps)

lemma chunk_take: "0 < run \<Longrightarrow> take run (chunk_sort key run xs) = sort_key key (take run xs)"
  by (subst chunk_sort.simps) (auto simp: chunk_sort.simps)

lemma chunk_drop: "0 < run \<Longrightarrow> drop run (chunk_sort key run xs) = chunk_sort key run (drop run xs)"
  by (subst chunk_sort.simps) (auto simp: chunk_sort.simps)

lemma chunk_all: "length xs \<le> run \<Longrightarrow> 0 < run \<Longrightarrow> chunk_sort key run xs = sort_key key xs"
  by (subst chunk_sort.simps) (simp add: chunk_sort.simps)

lemma pass_chunks:
  "0 < run \<Longrightarrow> orders cmp key (set xs) \<Longrightarrow> pass_list cmp run (chunk_sort key run xs) = chunk_sort key (2 * run) xs"
proof (induction xs rule: length_induct)
  case (1 xs)
  show ?case
  proof (cases "xs = []")
    case True
    then show ?thesis by (simp add: chunk_sort.simps pass_list.simps)
  next
    case False
    let ?c = "chunk_sort key run xs" let ?rest = "drop run (drop run xs)"
    have o: "orders cmp key (set (take run xs) \<union> set (take run (drop run xs)))" "orders cmp key (set ?rest)"
      using 1(3) by (auto intro: orders_subset dest: in_set_takeD in_set_dropD)
    have len: "length ?rest < length xs" using False 1(2) by (cases xs) auto
    have "?c \<noteq> []" using False chunk_length [of key run xs] by (metis length_0_conv)
    then have "pass_list cmp run ?c = smerge cmp (take run ?c) (take run (drop run ?c)) @ pass_list cmp run (drop run (drop run ?c))"
      using 1(2) by (subst pass_list.simps) simp
    also have "\<dots> = sort_key key (take run xs @ take run (drop run xs)) @ pass_list cmp run (chunk_sort key run ?rest)"
      using 1(2) by (simp add: chunk_take chunk_drop smerge_sort [OF o(1)])
    also have "\<dots> = sort_key key (take (2 * run) xs) @ chunk_sort key (2 * run) ?rest"
      using 1 len o(2) by (simp add: take_add [symmetric] mult_2)
    also have "\<dots> = chunk_sort key (2 * run) xs"
      using False 1(2) by (subst (2) chunk_sort.simps) (simp add: mult_2)
    finally show ?thesis .
  qed
qed

section \<open>The sort on links\<close>

fun lseg :: "nexts \<Rightarrow> ptr \<Rightarrow> addr list \<Rightarrow> ptr \<Rightarrow> bool" where
  "lseg n p [] q \<longleftrightarrow> p = q"
| "lseg n p (x # xs) q \<longleftrightarrow> p = Some x \<and> lseg n (n x) xs q"

lemma lseg_append: "lseg n p (xs @ ys) q \<longleftrightarrow> (\<exists>m. lseg n p xs m \<and> lseg n m ys q)"
  by (induction xs arbitrary: p) auto

lemma lseg_frame: "\<forall>x\<in>set xs. n' x = n x \<Longrightarrow> lseg n' p xs q = lseg n p xs q"
  by (induction xs arbitrary: p) auto

definition built :: "sorting \<Rightarrow> addr list \<Rightarrow> bool" where
  "built s xs \<longleftrightarrow> (if xs = [] then chain s = None \<and> tail s = None
     else tail s = Some (last xs) \<and> lseg (nx s) (chain s) (butlast xs) (Some (last xs)))"

lemma put_node_built:
  assumes "built s xs" "distinct xs" "a \<notin> set xs"
  shows "built (put_node a s) (xs @ [a])" "\<And>b. b \<notin> set xs \<Longrightarrow> nx (put_node a s) b = nx s b"
proof -
  show "built (put_node a s) (xs @ [a])"
  proof (cases xs rule: rev_cases)
    case Nil
    then show ?thesis using assms(1) by (simp add: built_def put_node_def)
  next
    case (snoc ys y)
    then have t: "tail s = Some y" "lseg (nx s) (chain s) ys (Some y)" using assms(1) by (simp_all add: built_def)
    have "lseg ((nx s)(y := Some a)) (chain s) ys (Some y)"
      using t(2) assms(2) snoc lseg_frame [of ys "(nx s)(y := Some a)" "nx s"] by auto
    then have "lseg ((nx s)(y := Some a)) (chain s) (ys @ [y]) (Some a)" unfolding lseg_append by auto
    then show ?thesis using t snoc by (simp add: built_def put_node_def butlast_append)
  qed
  show "nx (put_node a s) b = nx s b" if "b \<notin> set xs" for b
  proof (cases xs rule: rev_cases)
    case Nil
    then show ?thesis using assms(1) by (simp add: built_def put_node_def)
  next
    case (snoc ys y)
    then show ?thesis using assms(1) that by (simp add: built_def put_node_def)
  qed
qed

lemma merge_loop_spec:
  assumes "built s out" "lseg (nx s) left xs q" "lseg (nx s) right (ys @ zs) None" "length ys \<le> rs"
    "zs \<noteq> [] \<Longrightarrow> length ys = rs" "distinct (out @ xs @ ys @ zs)"
  shows "\<exists>s' r. merge_loop cmp left (length xs) right rs s = Some (s', r) \<and> built s' (out @ smerge cmp xs ys) \<and>
    lseg (nx s') r zs None \<and> (\<forall>b. b \<notin> set (out @ xs @ ys) \<longrightarrow> nx s' b = nx s b)"
  using assms
proof (induction "length xs + length ys" arbitrary: s out left xs right ys rs)
  case 0
  then have "xs = []" "ys = []" by simp_all
  moreover have "zs = [] \<Longrightarrow> right = None" using 0(4) \<open>ys = []\<close> by simp
  ultimately show ?case using 0 by (subst merge_loop.simps) auto
next
  case (Suc n)
  have put: "built (put_node a s) (out @ [a])" "\<And>b. b \<notin> set out \<Longrightarrow> nx (put_node a s) b = nx s b"
    if "a \<notin> set out" for a using put_node_built [OF Suc.prems(1) _ that] Suc.prems(6) by auto
  have keep: "lseg (nx (put_node a s)) p ws r = lseg (nx s) p ws r" if "a \<notin> set out" "set ws \<inter> set out = {}" for a p ws r
    by (rule lseg_frame) (use put(2) [OF that(1)] that(2) in blast)
  have right: "\<exists>s' r. merge_loop cmp left (length xs) (nx s y) (rs - 1) (put_node y s) = Some (s', r) \<and>
      built s' (out @ y # smerge cmp xs ys') \<and> lseg (nx s') r zs None \<and>
      (\<forall>b. b \<notin> set (out @ xs @ ys) \<longrightarrow> nx s' b = nx s b)" if ys: "ys = y # ys'" for y ys'
  proof -
    have y: "y \<notin> set out" using Suc.prems(6) ys by auto
    have dis: "set xs \<inter> set out = {}" "set (ys' @ zs) \<inter> set out = {}" using Suc.prems(6) ys by auto
    have "lseg (nx (put_node y s)) left xs q" "lseg (nx (put_node y s)) (nx s y) (ys' @ zs) None"
      using Suc.prems(2, 3) ys dis keep [OF y dis(1)] keep [OF y dis(2)] by auto
    moreover have "n = length xs + length ys'" "length ys' \<le> rs - 1" "zs \<noteq> [] \<Longrightarrow> length ys' = rs - 1"
      "distinct ((out @ [y]) @ xs @ ys' @ zs)"
      using Suc.hyps(2) Suc.prems(4-6) ys by auto
    ultimately obtain s' r where "merge_loop cmp left (length xs) (nx s y) (rs - 1) (put_node y s) = Some (s', r)"
      "built s' ((out @ [y]) @ smerge cmp xs ys')" "lseg (nx s') r zs None"
      "\<forall>b. b \<notin> set ((out @ [y]) @ xs @ ys') \<longrightarrow> nx s' b = nx (put_node y s) b"
      using Suc.hyps(1) [OF _ put(1) [OF y]] by blast
    then show ?thesis using put(2) [OF y] ys by auto
  qed
  have left: "\<exists>s' r. merge_loop cmp (nx s x) (length xs') right rs (put_node x s) = Some (s', r) \<and>
      built s' (out @ x # smerge cmp xs' ys) \<and> lseg (nx s') r zs None \<and>
      (\<forall>b. b \<notin> set (out @ xs @ ys) \<longrightarrow> nx s' b = nx s b)" if xs: "xs = x # xs'" for x xs'
  proof -
    have x: "x \<notin> set out" using Suc.prems(6) xs by auto
    have dis: "set xs' \<inter> set out = {}" "set (ys @ zs) \<inter> set out = {}" using Suc.prems(6) xs by auto
    have "lseg (nx (put_node x s)) (nx s x) xs' q" "lseg (nx (put_node x s)) right (ys @ zs) None"
      using Suc.prems(2, 3) xs dis keep [OF x dis(1)] keep [OF x dis(2)] by auto
    moreover have "n = length xs' + length ys" "distinct ((out @ [x]) @ xs' @ ys @ zs)"
      using Suc.hyps(2) Suc.prems(6) xs by auto
    ultimately obtain s' r where "merge_loop cmp (nx s x) (length xs') right rs (put_node x s) = Some (s', r)"
      "built s' ((out @ [x]) @ smerge cmp xs' ys)" "lseg (nx s') r zs None"
      "\<forall>b. b \<notin> set ((out @ [x]) @ xs' @ ys) \<longrightarrow> nx s' b = nx (put_node x s) b"
      using Suc.hyps(1) [OF _ put(1) [OF x]] Suc.prems(4, 5) by blast
    then show ?thesis using put(2) [OF x] xs by auto
  qed
  show ?case
  proof (cases xs)
    case Nil
    then obtain y ys' where ys: "ys = y # ys'" using Suc.hyps(2) by (cases ys) auto
    then have "right = Some y" "0 < rs" using Suc.prems(3, 4) by auto
    then show ?thesis using right [OF ys] Nil ys by (subst merge_loop.simps) simp
  next
    case (Cons x xs')
    then have l: "left = Some x" using Suc.prems(2) by simp
    show ?thesis
    proof (cases ys)
      case Nil
      then have "right = None \<or> rs = 0" using Suc.prems(3, 5) by (cases zs) auto
      then show ?thesis using left [OF Cons] Cons Nil l by (subst merge_loop.simps) (auto split: option.splits)
    next
      case (Cons y ys')
      then have "right = Some y" "0 < rs" using Suc.prems(3, 4) by auto
      then show ?thesis using left [OF \<open>xs = x # xs'\<close>] right [OF Cons] \<open>xs = x # xs'\<close> Cons l
        by (subst merge_loop.simps) simp
    qed
  qed
qed

lemma count_run_spec:
  "lseg n p xs None \<Longrightarrow> \<exists>r. count_run n run k p = (k + length (take run xs), r) \<and> lseg n p (take run xs) r \<and>
     lseg n r (drop run xs) None"
proof (induction n run k p arbitrary: xs rule: count_run.induct)
  case (3 n run k a)
  then obtain ys where ys: "xs = a # ys" "lseg n (n a) ys None" by (cases xs) auto
  then show ?case using 3(1) [OF ys(2)] by auto
next
  case (2 n run k)
  then have "xs = []" by (cases xs) auto
  then show ?case by simp
qed auto

function merges_of :: "nat \<Rightarrow> addr list \<Rightarrow> nat" where
  "merges_of run xs = (if xs = [] \<or> run = 0 then 0 else Suc (merges_of run (drop run (drop run xs))))"
  by pat_completeness auto
termination by (relation "measure (\<lambda>(run, xs). length xs)") auto

declare merges_of.simps [simp del]

lemma merges_le_1:
  assumes "0 < run"
  shows "merges_of run xs \<le> 1 \<longleftrightarrow> length xs \<le> 2 * run"
proof -
  have z: "merges_of run ys = 0 \<longleftrightarrow> ys = []" for ys using assms by (subst merges_of.simps) simp
  show ?thesis using assms by (cases "xs = []") (simp_all add: merges_of.simps [of run xs] merges_of.simps [of run "[]"] z mult_2)
qed

lemma sort_pass_spec:
  assumes "0 < run"
  shows "built s out \<Longrightarrow> lseg (nx s) left xs None \<Longrightarrow> distinct (out @ xs) \<Longrightarrow>
    \<exists>s'. sort_pass cmp run left m s = Some (s', m + merges_of run xs) \<and> built s' (out @ pass_list cmp run xs) \<and>
      (\<forall>b. b \<notin> set (out @ xs) \<longrightarrow> nx s' b = nx s b)"
proof (induction xs arbitrary: s out left m rule: length_induct)
  case (1 xs)
  show ?case
  proof (cases xs)
    case Nil
    then show ?thesis using 1 by (simp add: sort_pass.simps merges_of.simps pass_list.simps)
  next
    case (Cons x xs')
    let ?a = "take run xs" and ?b = "take run (drop run xs)" and ?c = "drop run (drop run xs)"
    have l: "left = Some x" using Cons 1(3) by simp
    from count_run_spec [OF 1(3), of run 0] obtain r where
      r: "count_run (nx s) run 0 left = (length ?a, r)" "lseg (nx s) left ?a r" "lseg (nx s) r (?b @ ?c) None"
      by (metis add_0 append_take_drop_id)
    have abc: "xs = ?a @ ?b @ ?c" by (metis append_take_drop_id)
    have d: "distinct (out @ ?a @ ?b @ ?c)" using 1(4) abc by metis
    have b: "length ?b \<le> run" "?c \<noteq> [] \<Longrightarrow> length ?b = run" by auto
    from merge_loop_spec [OF 1(2) r(2, 3) b d] obtain s' r' where
      m: "merge_loop cmp left (length ?a) r run s = Some (s', r')" "built s' (out @ smerge cmp ?a ?b)"
        "lseg (nx s') r' ?c None" "\<forall>b. b \<notin> set (out @ ?a @ ?b) \<longrightarrow> nx s' b = nx s b" by blast
    have "distinct ((out @ smerge cmp ?a ?b) @ ?c)"
    proof -
      have "mset (smerge cmp ?a ?b) = mset (?a @ ?b)" by (simp add: smerge_mset)
      then have "distinct (smerge cmp ?a ?b)" using d by (metis append.assoc distinct_append mset_eq_imp_distinct_iff)
      then show ?thesis using d by auto
    qed
    moreover have "length ?c < length xs" using assms Cons by simp
    ultimately obtain s'' where s'': "sort_pass cmp run r' (Suc m) s' = Some (s'', Suc m + merges_of run ?c)"
      "built s'' ((out @ smerge cmp ?a ?b) @ pass_list cmp run ?c)"
      "\<forall>b. b \<notin> set ((out @ smerge cmp ?a ?b) @ ?c) \<longrightarrow> nx s'' b = nx s' b"
      using 1(1) m(2, 3) by blast
    have "sort_pass cmp run left m s = Some (s'', m + merges_of run xs)"
    proof -
      have "merges_of run xs = Suc (merges_of run ?c)" using assms Cons by (subst merges_of.simps) simp
      then show ?thesis using s''(1) m(1) r(1) l by (subst sort_pass.simps) simp
    qed
    moreover have "pass_list cmp run xs = smerge cmp ?a ?b @ pass_list cmp run ?c"
      using assms Cons by (subst pass_list.simps) simp
    moreover have "nx s'' b = nx s b" if "b \<notin> set (out @ xs)" for b
    proof -
      have "b \<notin> set (out @ ?a @ ?b)" "b \<notin> set ((out @ smerge cmp ?a ?b) @ ?c)"
        using that by (auto dest: in_set_takeD in_set_dropD)
      then show ?thesis using s''(3) m(4) by simp
    qed
    ultimately show ?thesis using s''(2) by auto
  qed
qed

lemma built_close:
  assumes "built s xs" "distinct xs" "xs \<noteq> []"
  shows "tail s = Some (last xs)" "lseg ((nx s)(last xs := None)) (chain s) xs None"
proof -
  obtain ys y where xs: "xs = ys @ [y]" using assms(3) by (cases xs rule: rev_cases) auto
  then have t: "tail s = Some y" "lseg (nx s) (chain s) ys (Some y)" using assms(1) by (simp_all add: built_def)
  have "lseg ((nx s)(y := None)) (chain s) ys (Some y)"
    using t(2) assms(2) xs lseg_frame [of ys "(nx s)(y := None)" "nx s"] by auto
  then show "lseg ((nx s)(last xs := None)) (chain s) xs None" unfolding xs lseg_append by auto
  show "tail s = Some (last xs)" using t(1) xs by simp
qed

text \<open>The run size is a word; it is doubled only while a run is shorter than the list, so it never wraps.\<close>

lemma sort_passes_spec:
  assumes ord: "orders cmp key (set xs)" and d: "distinct xs" "xs \<noteq> []" "length xs < 2 ^ 64"
  shows "0 < unat run \<Longrightarrow> lseg links first (chunk_sort key (unat run) xs) None \<Longrightarrow>
    \<exists>links' first'. sort_passes cmp run links first = Some (links', first') \<and>
      lseg links' first' (sort_key key xs) None \<and> (\<forall>b. b \<notin> set xs \<longrightarrow> links' b = links b)"
proof (induction "length xs - unat run" arbitrary: run links first rule: less_induct)
  case less
  let ?c = "chunk_sort key (unat run) xs" and ?d = "chunk_sort key (2 * unat run) xs"
  let ?s = "\<lparr>nx = links, chain = None, tail = None\<rparr>"
  have "built ?s []" by (simp add: built_def)
  from sort_pass_spec [OF less.prems(1) this, of first ?c cmp 0] obtain s where
    s: "sort_pass cmp (unat run) first 0 ?s = Some (s, merges_of (unat run) ?c)" "built s ?d"
      "\<forall>b. b \<notin> set xs \<longrightarrow> nx s b = links b"
    using less.prems d(1) pass_chunks [OF less.prems(1) ord] by auto
  have "?d \<noteq> []" using d(2) chunk_length [of key "2 * unat run" xs] by (metis length_0_conv)
  with built_close [OF s(2)] d(1) have
    t: "tail s = Some (last ?d)" "lseg ((nx s)(last ?d := None)) (chain s) ?d None" by simp_all
  have "last ?d \<in> set xs" using \<open>?d \<noteq> []\<close> last_in_set [of ?d] by simp
  then have out: "\<forall>b. b \<notin> set xs \<longrightarrow> ((nx s)(last ?d := None)) b = links b" using s(3) by auto
  note step = sort_passes.simps [of cmp run links first]
  show ?case
  proof (cases "length xs \<le> 2 * unat run")
    case True
    then have "?d = sort_key key xs" using chunk_all [of xs "2 * unat run"] less.prems(1) by simp
    then show ?thesis using True s(1) t out merges_le_1 [OF less.prems(1), of ?c] by (subst step) simp
  next
    case False
    then have "unat (run * 2) = 2 * unat run" using d(3) by (simp add: unat_mult_lem [THEN iffD1])
    then show ?thesis
      using less.hyps [of "run * 2" "(nx s)(last ?d := None)" "chain s"] False less.prems(1) s(1) t out
        merges_le_1 [OF less.prems(1), of ?c] by (subst step) auto
  qed
qed

fun pseg :: "(addr \<Rightarrow> addr) \<Rightarrow> addr \<Rightarrow> addr list \<Rightarrow> bool" where
  "pseg pr a [] \<longleftrightarrow> True"
| "pseg pr a (x # xs) \<longleftrightarrow> pr x = a \<and> pseg pr x xs"

lemma close_prev_spec:
  "lseg n p xs None \<Longrightarrow> distinct xs \<Longrightarrow>
   \<exists>pr'. close_prev n p a pr = Some (pr', last (a # xs)) \<and> pseg pr' a xs \<and> (\<forall>b. b \<notin> set xs \<longrightarrow> pr' b = pr b)"
proof (induction xs arbitrary: p a pr)
  case Nil
  then show ?case by (simp add: close_prev.simps)
next
  case (Cons x xs)
  then obtain pr' where "close_prev n (n x) x (pr(x := a)) = Some (pr', last (x # xs))" "pseg pr' x xs"
    "\<forall>b. b \<notin> set xs \<longrightarrow> pr' b = (pr(x := a)) b" by (metis lseg.simps(2) distinct.simps(2))
  then show ?case using Cons.prems by (subst close_prev.simps) auto
qed

lemma dseg_of_chain:
  assumes "lseg n p xs None" "pseg pr a xs" "xs \<noteq> []" "nxt h a = hd xs" "\<forall>x\<in>set xs. prv h x = pr x"
    "\<forall>x\<in>set (butlast xs). nxt h x = the (n x)" "nxt h (last xs) = e" "prv h e = last xs"
  shows "dseg h a xs e"
  using assms
proof (induction xs arbitrary: p a)
  case (Cons x xs)
  show ?case
  proof (cases xs)
    case Nil
    then show ?thesis using Cons.prems by simp
  next
    case (Cons y ys)
    then show ?thesis using Cons.IH [of "n x" x] Cons.prems by auto
  qed
qed simp

lemma dseg_opened:
  "dseg h a xs l \<Longrightarrow> distinct (a # xs) \<Longrightarrow> xs \<noteq> [] \<Longrightarrow>
   lseg ((Some \<circ> nxt h)(last xs := None)) (Some (nxt h a)) xs None"
proof (induction xs arbitrary: a)
  case (Cons x xs)
  then show ?case by (cases xs) auto
qed simp

text \<open>
  C38: sorting a well-formed list returns, whatever its size; the list is then the stable sort of its
  elements by the key the comparison orders, its ring and both directions of its links are whole, and no node
  outside it is written.
\<close>

theorem list_sort_stable:
  assumes "ring h l xs" "orders cmp key (set xs)" "length xs < 2 ^ 64"
  shows "\<exists>h'. list_sort l cmp h = Some h' \<and> ring h' l (sort_key key xs) \<and> same_outside (set (l # xs)) h h'"
proof (cases xs)
  case Nil
  then show ?thesis using assms(1) first_ring [OF assms(1)] by (auto simp: list_sort_def)
next
  case (Cons x xs')
  let ?ys = "sort_key key xs"
  have r: "distinct (l # xs)" "dseg h l xs l" using assms(1) by (simp_all add: ring_def)
  have first: "list_get_first h l = Some x" "nxt h l = x" "prv h l = last xs"
    using first_ring [OF assms(1)] Cons r(2) dseg_last [OF r(2)] by auto
  let ?links = "(Some \<circ> nxt h)(prv h l := None)"
  have seg: "lseg ?links (Some x) (chunk_sort key (unat (1 :: u64)) xs) None"
    using dseg_opened [OF r(2, 1)] first Cons by (simp add: chunk_one del: One_nat_def)
  obtain links first' where
    p: "sort_passes cmp 1 ?links (Some x) = Some (links, first')" "lseg links first' ?ys None"
      "\<forall>b. b \<notin> set xs \<longrightarrow> links b = ?links b"
    using sort_passes_spec [OF assms(2) _ _ assms(3) _ seg] r(1) Cons by auto
  obtain pr where c: "close_prev links first' l (prv h) = Some (pr, last (l # ?ys))" "pseg pr l ?ys"
    "\<forall>b. b \<notin> set xs \<longrightarrow> pr b = prv h b"
    using close_prev_spec [OF p(2), of l "prv h"] r(1) by auto
  have ys: "?ys \<noteq> []" "distinct (l # ?ys)" using Cons r(1) by (metis length_0_conv length_sort list.distinct(1)) (use r(1) in simp)
  obtain f where f: "first' = Some f" "f = hd ?ys" using p(2) ys(1) by (cases ?ys) auto
  let ?h = "h\<lparr>nxt := (the \<circ> links)(l := f, last ?ys := l), prv := pr(l := last ?ys)\<rparr>"
  have "list_sort l cmp h = Some ?h" using p(1) c(1) f(1) first(1) ys(1) by (simp add: list_sort_def)
  moreover have "last ?ys \<in> set xs" using ys(1) last_in_set [of ?ys] by simp
  moreover have "dseg ?h l ?ys l"
  proof (rule dseg_of_chain [OF p(2) c(2) ys(1)])
    have "last ?ys \<notin> set (butlast ?ys)" using ys by (cases ?ys rule: rev_cases) auto
    then show "\<forall>y\<in>set (butlast ?ys). nxt ?h y = the (links y)" using ys(2) by (auto dest: in_set_butlastD)
  qed (use ys f(2) \<open>last ?ys \<in> set xs\<close> r(1) in auto)
  ultimately show ?thesis using p(3) c(3) ys(2) dseg_last [OF r(2)] by (auto simp: ring_def)
qed

text \<open>Four nodes whose keys are 1, 0, 1, 0.\<close>

theorem list_sort_stable_witness:
  "\<exists>h'. list_sort 0 (\<lambda>a b. int (a mod 2) - int (b mod 2)) \<lparr>nxt = (\<lambda>a. (a + 1) mod 5), prv = (\<lambda>a. (a + 4) mod 5)\<rparr> = Some h' \<and>
     ring h' 0 [2, 4, 1, 3]"
proof -
  have "ring \<lparr>nxt = (\<lambda>a. (a + 1) mod 5), prv = (\<lambda>a. (a + 4) mod 5)\<rparr> 0 [1, 2, 3, 4]" by (simp add: ring_def)
  moreover have "orders (\<lambda>a b. int (a mod 2) - int (b mod 2)) (\<lambda>a :: nat. a mod 2) (set [1, 2, 3, 4])"
    by (simp add: orders_def)
  ultimately show ?thesis using list_sort_stable by fastforce
qed

end
