(* ===== verification/Interval.thy ===== *)
theory Interval
  imports Prelude
begin

text \<open>
  Wrap-around arithmetic on a closed interval (\<^verbatim>\<open>include/lh/core/util/interval.h\<close> and
  \<^verbatim>\<open>util/interval/wrap.h\<close>), the one implementation behind the year, month, hour, minute and second
  fields of the calendar. The code computes on 64-bit unsigned words, returns the carry as a 32-bit one
  and stores the field back at its own width; the contract of such a field is the locale
  \<open>wrap_field\<close>: the field is one digit of a number in radix \<open>N\<close>, and adding or subtracting moves the
  number by the amount, the carry or borrow being the next digit's share.
\<close>

section \<open>Folding into an interval\<close>

definition closed_get_size :: "ullong_t \<Rightarrow> ullong_t \<Rightarrow> ullong_t" where
  "closed_get_size lower upper = upper - lower + 1"

definition wrap_get_overflow :: "ullong_t \<Rightarrow> ullong_t \<Rightarrow> ullong_t \<Rightarrow> ullong_t" where
  "wrap_get_overflow value origin sz = (value - origin) div sz"

definition wrap_get_value :: "ullong_t \<Rightarrow> ullong_t \<Rightarrow> ullong_t \<Rightarrow> ullong_t" where
  "wrap_get_value value origin sz = origin + (value - origin) mod sz"

definition wrap_unsigned_sub_overflow :: "ullong_t \<Rightarrow> ullong_t \<Rightarrow> ullong_t \<Rightarrow> ullong_t \<Rightarrow> ullong_t" where
  "wrap_unsigned_sub_overflow a b origin sz =
     (if b \<le> a - origin then 0 else (b - (a - origin) + (sz - 1)) div sz)"

definition wrap_unsigned_sub_value :: "ullong_t \<Rightarrow> ullong_t \<Rightarrow> ullong_t \<Rightarrow> ullong_t \<Rightarrow> ullong_t" where
  "wrap_unsigned_sub_value a b origin sz =
     (if b \<le> a - origin then a - b
      else origin + (wrap_unsigned_sub_overflow a b origin sz * sz + (a - origin) - b))"

text \<open>The three operations return the new value and the number of whole lengths that were folded away.\<close>

definition closed_wrap_set :: "ullong_t \<Rightarrow> ullong_t \<Rightarrow> ullong_t \<Rightarrow> ullong_t \<times> uint_t" where
  "closed_wrap_set value lower upper =
     (wrap_get_value value lower (closed_get_size lower upper),
      ucast (wrap_get_overflow value lower (closed_get_size lower upper)))"

definition closed_wrap_add :: "ullong_t \<Rightarrow> ullong_t \<Rightarrow> ullong_t \<Rightarrow> ullong_t \<Rightarrow> ullong_t \<times> uint_t" where
  "closed_wrap_add self value lower upper = closed_wrap_set (self + value) lower upper"

definition closed_wrap_sub :: "ullong_t \<Rightarrow> ullong_t \<Rightarrow> ullong_t \<Rightarrow> ullong_t \<Rightarrow> ullong_t \<times> uint_t" where
  "closed_wrap_sub self value lower upper =
     (wrap_unsigned_sub_value self value lower (closed_get_size lower upper),
      ucast (wrap_unsigned_sub_overflow self value lower (closed_get_size lower upper)))"

text \<open>
  Every field of the calendar widens itself and the amount to 64 bits, folds into \<open>[0, upper]\<close> and
  narrows the result back to its own type.
\<close>

definition field_set :: "ullong_t \<Rightarrow> uint_t \<Rightarrow> 'a::len word \<times> uint_t" where
  "field_set upper value = (let (cur, overflow) = closed_wrap_set (ucast value) 0 upper in (ucast cur, overflow))"

definition field_add :: "ullong_t \<Rightarrow> 'a::len word \<Rightarrow> uint_t \<Rightarrow> 'a word \<times> uint_t" where
  "field_add upper self value =
     (let (cur, overflow) = closed_wrap_add (ucast self) (ucast value) 0 upper in (ucast cur, overflow))"

definition field_sub :: "ullong_t \<Rightarrow> 'a::len word \<Rightarrow> uint_t \<Rightarrow> 'a word \<times> uint_t" where
  "field_sub upper self value =
     (let (cur, overflow) = closed_wrap_sub (ucast self) (ucast value) 0 upper in (ucast cur, overflow))"

section \<open>The contract of a field\<close>

locale wrap_field =
  fixes radix :: nat
    and add sub :: "'a::len word \<Rightarrow> uint_t \<Rightarrow> 'a word \<times> uint_t"
  assumes add_law: "unat x < radix \<Longrightarrow> add x v = (y, c) \<Longrightarrow>
      unat y < radix \<and> unat y + radix * unat c = unat x + unat v"
    and sub_law: "unat x < radix \<Longrightarrow> sub x v = (y, c) \<Longrightarrow>
      unat y < radix \<and> unat y + unat v = unat x + radix * unat c"
begin

lemma add_value:
  assumes "unat x < radix"
  shows "unat (fst (add x v)) = (unat x + unat v) mod radix"
    and "unat (snd (add x v)) = (unat x + unat v) div radix"
proof -
  obtain y c where yc: "add x v = (y, c)" by fastforce
  from add_law [OF assms yc] have y: "unat y < radix" "unat x + unat v = unat y + radix * unat c" by auto
  show "unat (fst (add x v)) = (unat x + unat v) mod radix"
    unfolding y(2) using y(1) yc by simp
  show "unat (snd (add x v)) = (unat x + unat v) div radix"
    unfolding y(2) using y(1) yc by simp
qed

lemma sub_undoes_add:
  assumes "unat x < radix" "add x v = (y, c)"
  shows "sub y v = (x, c)"
proof -
  obtain z b where zb: "sub y v = (z, b)" by fastforce
  have "unat z + radix * unat c = unat x + radix * unat b"
    using add_law [OF assms] sub_law [OF _ zb] by linarith
  with radix_digits_unique [of "unat z" radix "unat x" "unat c" "unat b"] add_law [OF assms] sub_law [OF _ zb] assms(1)
  show ?thesis using zb by (simp add: word_unat_eq_iff)
qed

lemma add_undoes_sub:
  assumes "unat x < radix" "sub x v = (y, b)"
  shows "add y v = (x, b)"
proof -
  obtain z c where zc: "add y v = (z, c)" by fastforce
  have "unat z + radix * unat c = unat x + radix * unat b"
    using sub_law [OF assms] add_law [OF _ zc] by linarith
  with radix_digits_unique [of "unat z" radix "unat x" "unat c" "unat b"] sub_law [OF assms] add_law [OF _ zc] assms(1)
  show ?thesis using zc by (simp add: word_unat_eq_iff)
qed

lemma add_less: "unat x < radix \<Longrightarrow> unat (fst (add x v)) < radix"
  using add_law [of x v "fst (add x v)" "snd (add x v)"] by simp

lemma sub_less: "unat x < radix \<Longrightarrow> unat (fst (sub x v)) < radix"
  using sub_law [of x v "fst (sub x v)" "snd (sub x v)"] by simp

end

section \<open>The code's fold meets the contract\<close>

lemma size_from_zero: "unat upper < 2 ^ 32 \<Longrightarrow> unat (closed_get_size 0 upper) = Suc (unat upper)"
  by (simp add: closed_get_size_def unat_word_ariths)

lemma fold_in_32:
  fixes m n :: nat
  assumes "m < Suc n" "v < 2 ^ 32"
  shows "(m + v) div Suc n < 2 ^ 32"
proof -
  have "m + v < 2 ^ 32 * Suc n"
  proof -
    have "m + v \<le> n + v" using assms by simp
    also have "\<dots> < n + 2 ^ 32" using assms by simp
    also have "\<dots> \<le> 2 ^ 32 * Suc n" by simp
    finally show ?thesis .
  qed
  then show ?thesis by (simp add: less_mult_imp_div_less)
qed

lemma closed_wrap_set_nat:
  assumes "unat upper < 2 ^ 32" "unat v div Suc (unat upper) < 2 ^ 32"
  shows "unat (fst (closed_wrap_set v 0 upper)) = unat v mod Suc (unat upper)"
    and "unat (snd (closed_wrap_set v 0 upper)) = unat v div Suc (unat upper)"
  using assms
  by (simp_all add: closed_wrap_set_def wrap_get_value_def wrap_get_overflow_def size_from_zero unat_mod
      unat_div unat_ucast_mod)

text \<open>The borrow rounds the missing amount up to whole lengths.\<close>

lemma round_up_facts:
  fixes d n :: nat
  assumes "0 < d"
  shows "d \<le> (d + n) div Suc n * Suc n" "(d + n) div Suc n * Suc n < d + Suc n"
proof -
  have "(d + n) div Suc n * Suc n + (d + n) mod Suc n = d + n" by (rule div_mult_mod_eq)
  moreover have "(d + n) mod Suc n < Suc n" by simp
  ultimately show "d \<le> (d + n) div Suc n * Suc n" "(d + n) div Suc n * Suc n < d + Suc n" by linarith+
qed

lemma closed_wrap_sub_nat:
  assumes "unat upper < 2 ^ 32" "unat a \<le> unat upper" "unat b < 2 ^ 32"
    and r: "closed_wrap_sub a b 0 upper = (y, c)"
  shows "unat y \<le> unat upper \<and> unat y + unat b = unat a + Suc (unat upper) * unat c"
proof (cases "b \<le> a")
  case True
  then show ?thesis using assms
    by (auto simp: closed_wrap_sub_def wrap_unsigned_sub_value_def wrap_unsigned_sub_overflow_def
        unat_sub word_le_nat_alt)
next
  case False
  define n where "n = unat upper"
  define d where "d = unat b - unat a"
  define q where "q = (d + n) div Suc n"
  have ab: "unat a < unat b" using False by (simp add: word_le_nat_alt)
  then have d: "0 < d" "d < 2 ^ 32" "unat b = unat a + d" using assms(3) by (auto simp: d_def)
  have n: "n < 2 ^ 32" "unat a \<le> n" using assms by (simp_all add: n_def)
  have sz: "unat (closed_get_size 0 upper) = Suc n" using assms(1) by (simp add: size_from_zero n_def)
  have szm: "unat (closed_get_size 0 upper - 1) = n"
    by (simp add: closed_get_size_def n_def)
  have bd: "unat (b - a) = d" using ab by (simp add: d_def unat_sub_if')
  have "unat (b - a + (closed_get_size 0 upper - 1)) = d + n"
    using d n by (simp add: unat_word_ariths bd szm)
  then have q: "unat (wrap_unsigned_sub_overflow a b 0 (closed_get_size 0 upper)) = q"
    using False by (simp add: wrap_unsigned_sub_overflow_def unat_div sz q_def)
  have q32: "q < 2 ^ 32" using fold_in_32 [of n n d] d by (simp add: q_def add.commute)
  note up = round_up_facts [OF d(1), of n, folded q_def]
  define k where "k = q * Suc n"
  have k: "k < 2 ^ 63" using up(2) d n by (simp add: k_def)
  have "unat (wrap_unsigned_sub_overflow a b 0 (closed_get_size 0 upper) * closed_get_size 0 upper + a) =
      (k mod 2 ^ 64 + unat a) mod 2 ^ 64"
    unfolding unat_word_ariths q sz k_def by simp
  also have "\<dots> = k + unat a" using n k by simp
  finally have qs: "unat (wrap_unsigned_sub_overflow a b 0 (closed_get_size 0 upper) * closed_get_size 0 upper + a) =
      q * Suc n + unat a" by (simp add: k_def)
  have le: "unat b \<le> q * Suc n + unat a" using up(1) d by simp
  have y: "unat y = q * Suc n + unat a - unat b"
    using r False le by (auto simp: closed_wrap_sub_def wrap_unsigned_sub_value_def unat_sub_if' qs)
  have c: "unat c = q" using r q q32 by (auto simp: closed_wrap_sub_def unat_ucast_mod)
  have "unat y + unat b = unat a + Suc n * unat c" unfolding y c using le by (simp add: algebra_simps)
  moreover have "unat y < Suc n" unfolding y using up(2) d le by linarith
  ultimately show ?thesis by (simp add: n_def)
qed

lemma field_add_law:
  fixes x :: "'a::len word"
  assumes "LENGTH('a) \<le> 32" "Suc (unat upper) \<le> 2 ^ LENGTH('a)" "unat x < Suc (unat upper)"
    and r: "field_add upper x v = (y, c)"
  shows "unat y < Suc (unat upper) \<and> unat y + Suc (unat upper) * unat c = unat x + unat v"
proof -
  have "(2::nat) ^ LENGTH('a) \<le> 2 ^ 32" using assms(1) by (rule power_increasing) simp
  then have up: "unat upper < 2 ^ 32" using assms(2) by linarith
  have v: "unat v < 2 ^ 32" using unsigned_less [of v, where ?'a = nat] by simp
  have s: "unat (ucast x + ucast v :: ullong_t) = unat x + unat v"
    using v up assms(1, 3) by (simp add: unat_word_ariths unat_ucast_up)
  have f: "(unat x + unat v) div Suc (unat upper) < 2 ^ 32" using fold_in_32 assms(3) v .
  have c: "unat c = (unat x + unat v) div Suc (unat upper)"
    using r closed_wrap_set_nat(2) [OF up, of "ucast x + ucast v"] s f
    by (auto simp: field_add_def closed_wrap_add_def Let_def split: prod.splits)
  have m: "(unat x + unat v) mod Suc (unat upper) < 2 ^ LENGTH('a)"
    using assms(2) by (meson less_le_trans mod_less_divisor zero_less_Suc)
  have y: "unat y = (unat x + unat v) mod Suc (unat upper)"
    using r closed_wrap_set_nat(1) [OF up, of "ucast x + ucast v"] s f m
    by (auto simp: field_add_def closed_wrap_add_def Let_def unat_ucast_mod split: prod.splits)
  show ?thesis unfolding y c by (simp add: mod_mult_div_eq del: mult_Suc)
qed

lemma field_sub_law:
  fixes x :: "'a::len word"
  assumes "LENGTH('a) \<le> 32" "Suc (unat upper) \<le> 2 ^ LENGTH('a)" "unat x < Suc (unat upper)"
    and r: "field_sub upper x v = (y, c)"
  shows "unat y < Suc (unat upper) \<and> unat y + unat v = unat x + Suc (unat upper) * unat c"
proof -
  have "(2::nat) ^ LENGTH('a) \<le> 2 ^ 32" using assms(1) by (rule power_increasing) simp
  then have up: "unat upper < 2 ^ 32" using assms(2) by linarith
  have v: "unat v < 2 ^ 32" using unsigned_less [of v, where ?'a = nat] by simp
  obtain z where z: "closed_wrap_sub (ucast x) (ucast v) 0 upper = (z, c)" "y = ucast z"
    using r by (auto simp: field_sub_def Let_def split: prod.splits)
  have u: "unat (ucast x :: ullong_t) = unat x" "unat (ucast v :: ullong_t) = unat v"
    using assms(1) by (simp_all add: unat_ucast_up)
  have "unat z \<le> unat upper \<and> unat z + unat v = unat x + Suc (unat upper) * unat c"
    using closed_wrap_sub_nat [OF up _ _ z(1)] u v assms(3) by simp
  then show ?thesis using z(2) assms(2) by (simp add: unat_ucast_mod)
qed

end
