(* ===== verification/Date.thy ===== *)
theory Date
  imports Interval "HOL-Library.Signed_Division"
begin

text \<open>
  The proleptic Gregorian calendar of \<^verbatim>\<open>src/lh/core/date.c\<close> with its fields
  (\<^verbatim>\<open>date/year.c\<close>, \<^verbatim>\<open>date/month.c\<close>, \<^verbatim>\<open>date/month/index.c\<close>, \<^verbatim>\<open>date/day.c\<close>). A year is a 16-bit word,
  a month and a day are bytes; day counts are signed 64-bit numbers, modelled by \<open>int\<close> with the range
  of the type as a proved bound. Shown here: the two loops that find a year end within one step
  of their guess, day counts and valid dates are in bijection, the order on dates is the order of the
  day counts, and month and day arithmetic do what the header says up to the wrap of the year.
\<close>

section \<open>Floor division\<close>

text \<open>C division truncates; \<^verbatim>\<open>lh_math_floor_div\<close> corrects the quotient.\<close>

definition math_floor_div :: "int \<Rightarrow> int \<Rightarrow> int" where
  "math_floor_div a b =
     (let q = a sdiv b; r = a smod b
      in if r \<noteq> 0 \<and> (r < 0) \<noteq> (b < 0) then q - 1 else q)"

definition math_floor_mod :: "int \<Rightarrow> int \<Rightarrow> int" where
  "math_floor_mod a b = a - b * math_floor_div a b"

lemma math_floor_div_pos [simp]: "0 < b \<Longrightarrow> math_floor_div a b = a div b"
proof -
  assume b: "0 < b"
  then have m: "0 \<le> (- a) mod b" "(- a) mod b < b" by simp_all
  show ?thesis
  proof (cases "0 \<le> a")
    case True
    then show ?thesis
      using b by (simp add: math_floor_div_def signed_divide_int_def signed_modulo_int_def sgn_if Let_def not_less)
  next
    case False
    have "a div b = (if (- a) mod b = 0 then - ((- a) div b) else - ((- a) div b) - 1)"
      using zdiv_zminus1_eq_if [of b "- a"] b by simp
    then show ?thesis
      using False b m
      by (auto simp: math_floor_div_def signed_divide_int_def signed_modulo_int_def sgn_if Let_def)
  qed
qed

lemma math_floor_mod_pos [simp]: "0 < b \<Longrightarrow> math_floor_mod a b = a mod b"
  by (simp add: math_floor_mod_def minus_mult_div_eq_mod)

section \<open>Years\<close>

definition year_is_leap :: "u16 \<Rightarrow> bool" where
  "year_is_leap self =
     (if self mod 4 \<noteq> 0 then False else if self mod 100 \<noteq> 0 then True else self mod 400 = 0)"

definition year_days_from_zero :: "int \<Rightarrow> int" where
  "year_days_from_zero year =
     (let y = year - 1;
          leap_4 = math_floor_div y 4;
          leap_100 = math_floor_div y 100;
          leap_400 = math_floor_div y 400;
          leap_count = leap_4 - leap_100 + leap_400 + 1
      in 365 * year + leap_count)"

definition year_guess :: "int \<Rightarrow> int" where
  "year_guess days = math_floor_div (days * 400) 146097"

text \<open>The same rule on unbounded years, against which the day counts are proved.\<close>

definition leap_int :: "int \<Rightarrow> bool" where
  "leap_int y \<longleftrightarrow> 4 dvd y \<and> (\<not> 100 dvd y \<or> 400 dvd y)"

lemma year_days_from_zero_eq:
  "year_days_from_zero y = 365 * y + ((y - 1) div 4 - (y - 1) div 100 + (y - 1) div 400 + 1)"
  by (simp add: year_days_from_zero_def Let_def)

lemma div_step:
  fixes y k :: int
  assumes "0 < k"
  shows "y div k = (y - 1) div k + (if k dvd y then 1 else 0)"
proof (cases "y mod k = 0")
  case True
  have "y - 1 = k * (y div k - 1) + (k - 1)"
    using True mult_div_mod_eq [of k y] by (simp add: algebra_simps)
  then have "(y - 1) div k = y div k - 1" by (rule int_div_pos_eq) (use assms in simp_all)
  then show ?thesis using True by (simp add: dvd_eq_mod_eq_0)
next
  case False
  have r: "0 \<le> y mod k" "y mod k < k" using assms by simp_all
  have "y - 1 = k * (y div k) + (y mod k - 1)" using mult_div_mod_eq [of k y] by linarith
  then have "(y - 1) div k = y div k" by (rule int_div_pos_eq) (use r False in linarith)+
  then show ?thesis using False by (simp add: dvd_eq_mod_eq_0)
qed

lemma year_days_step:
  "year_days_from_zero (y + 1) = year_days_from_zero y + (if leap_int y then 366 else 365)"
proof -
  have "400 dvd y \<Longrightarrow> 100 dvd y" by (rule dvd_trans [of _ 400]) simp_all
  moreover have "100 dvd y \<Longrightarrow> 4 dvd y" by (rule dvd_trans [of _ 100]) simp_all
  ultimately have "(if 4 dvd y then 1 else 0) - (if 100 dvd y then 1 else 0) + (if 400 dvd y then 1 else 0) =
      (if leap_int y then 1 else (0::int))"
    unfolding leap_int_def by presburger
  moreover have "year_days_from_zero (y + 1) = 365 * y + 365 + (y div 4 - y div 100 + y div 400 + 1)"
    by (simp add: year_days_from_zero_eq)
  moreover have "(if leap_int y then 366 else 365) = 365 + (if leap_int y then 1 else (0::int))" by simp
  moreover have "y div 4 = (y - 1) div 4 + (if 4 dvd y then 1 else 0)"
    "y div 100 = (y - 1) div 100 + (if 100 dvd y then 1 else 0)"
    "y div 400 = (y - 1) div 400 + (if 400 dvd y then 1 else 0)"
    using div_step [of 4 y] div_step [of 100 y] div_step [of 400 y] by simp_all
  ultimately show ?thesis using year_days_from_zero_eq [of y] by (simp only:)
qed

lemma year_days_step_ge: "year_days_from_zero y + 365 \<le> year_days_from_zero (y + 1)"
  by (simp add: year_days_step)

text \<open>The count grows by at least 365 for each year.\<close>

lemma year_days_mono: "a \<le> b \<Longrightarrow> year_days_from_zero a + 365 * (b - a) \<le> year_days_from_zero b"
proof (induction b rule: int_ge_induct)
  case base
  then show ?case by simp
next
  case (step b)
  then show ?case using year_days_step_ge [of b] by simp
qed

lemma year_days_less_iff: "year_days_from_zero a < year_days_from_zero b \<longleftrightarrow> a < b"
  using year_days_mono [of a b] year_days_mono [of b a] by (cases "a < b") auto

lemma year_days_le_iff: "year_days_from_zero a \<le> year_days_from_zero b \<longleftrightarrow> a \<le> b"
  using year_days_less_iff [of b a] by linarith

text \<open>
  The two loops of \<^verbatim>\<open>lh_date_year_from_days_from_zero\<close>: forward while the next year has begun, then
  back while this year has not. Each ends because a step moves the count of days by at least 365.
\<close>

function year_forward :: "int \<Rightarrow> int \<Rightarrow> int" where
  "year_forward days year =
     (if year_days_from_zero (year + 1) \<le> days then year_forward days (year + 1) else year)"
  by auto

termination year_forward
proof (relation "measure (\<lambda>(days, year). nat (days - year_days_from_zero year))", goal_cases)
  case (2 days year)
  then show ?case using year_days_step_ge [of year] by auto
qed simp

function year_backward :: "int \<Rightarrow> int \<Rightarrow> int" where
  "year_backward days year =
     (if days < year_days_from_zero year then year_backward days (year - 1) else year)"
  by auto

termination year_backward
proof (relation "measure (\<lambda>(days, year). nat (year_days_from_zero year - days))", goal_cases)
  case (2 days year)
  then show ?case using year_days_step_ge [of "year - 1"] by auto
qed simp

declare year_forward.simps [simp del] year_backward.simps [simp del]

definition year_from_days_from_zero :: "int \<Rightarrow> int" where
  "year_from_days_from_zero days = year_backward days (year_forward days (year_guess days))"

lemma year_forward_stops: "days < year_days_from_zero (year_forward days year + 1)"
proof (induction days year rule: year_forward.induct)
  case (1 days year)
  then show ?case by (subst year_forward.simps) auto
qed

lemma year_backward_stops:
  "days < year_days_from_zero (year + 1) \<Longrightarrow>
   year_days_from_zero (year_backward days year) \<le> days \<and>
   days < year_days_from_zero (year_backward days year + 1)"
proof (induction days year rule: year_backward.induct)
  case (1 days year)
  then show ?case by (subst (1 2) year_backward.simps) auto
qed

lemma year_from_days_bounds:
  "year_days_from_zero (year_from_days_from_zero days) \<le> days"
  "days < year_days_from_zero (year_from_days_from_zero days + 1)"
  using year_backward_stops [OF year_forward_stops, of days "year_guess days"]
  by (simp_all add: year_from_days_from_zero_def)

lemma year_from_days_unique:
  assumes "year_days_from_zero y \<le> days" "days < year_days_from_zero (y + 1)"
  shows "year_from_days_from_zero days = y"
proof -
  let ?z = "year_from_days_from_zero days"
  have "year_days_from_zero ?z < year_days_from_zero (y + 1)"
    using year_from_days_bounds(1) [of days] assms(2) by linarith
  moreover have "year_days_from_zero y < year_days_from_zero (?z + 1)"
    using year_from_days_bounds(2) [of days] assms(1) by linarith
  ultimately show ?thesis by (simp add: year_days_less_iff)
qed

text \<open>Four hundred years are 146097 days, and a year starts within two days of its average place.\<close>

lemma year_days_average:
  "146097 * y - 400 \<le> 400 * year_days_from_zero y"
  "400 * year_days_from_zero y \<le> 146097 * y + 700"
proof -
  define f where "f = y - 1"
  have quotient: "k * (f div k) \<le> f" "f < k * (f div k) + k" if "0 < k" for k
    using mult_div_mod_eq [of k f] pos_mod_sign [OF that, of f] pos_mod_bound [OF that, of f] by linarith+
  define a b c where "a = f div 4" and "b = f div 100" and "c = f div 400"
  have "4 * a \<le> f" "f < 4 * a + 4" "100 * b \<le> f" "f < 100 * b + 100" "400 * c \<le> f" "f < 400 * c + 400"
    unfolding a_def b_def c_def by (rule quotient, simp)+
  moreover have "year_days_from_zero y = 365 * y + (a - b + c + 1)"
    by (simp add: year_days_from_zero_eq f_def a_def b_def c_def)
  moreover have "y = f + 1" by (simp add: f_def)
  ultimately show "146097 * y - 400 \<le> 400 * year_days_from_zero y"
    "400 * year_days_from_zero y \<le> 146097 * y + 700" by linarith+
qed

lemma year_guess_near: "\<bar>year_guess days - year_from_days_from_zero days\<bar> \<le> 1"
proof -
  define g where "g = year_guess days"
  define y where "y = year_from_days_from_zero days"
  have g: "146097 * g \<le> days * 400" "days * 400 < 146097 * g + 146097"
    using mult_div_mod_eq [of 146097 "days * 400"] pos_mod_sign [of 146097 "days * 400"]
      pos_mod_bound [of 146097 "days * 400"]
    by (simp_all add: g_def year_guess_def)
  have y: "year_days_from_zero y \<le> days" "days < year_days_from_zero (y + 1)"
    by (simp_all add: y_def year_from_days_bounds)
  have "y \<le> g + 1" using year_days_average(1) [of y] y(1) g(2) by linarith
  moreover have "g \<le> y + 1"
  proof -
    have "days * 400 + 400 \<le> 400 * year_days_from_zero (y + 1)" using y(2) by simp
    also have "\<dots> \<le> 146097 * (y + 1) + 700" by (rule year_days_average)
    finally have "days * 400 < 146097 * (y + 2)" by simp
    with g(1) have "146097 * g < 146097 * (y + 2)" by (rule le_less_trans)
    then show ?thesis by simp
  qed
  ultimately show ?thesis by (simp add: g_def y_def)
qed

definition year_days :: "u16 \<Rightarrow> u16" where
  "year_days self = (if year_is_leap self then 365 + 1 else 365)"

definition year_add :: "u16 \<Rightarrow> uint_t \<Rightarrow> u16 \<times> uint_t" where
  "year_add = field_add 65535"

definition year_sub :: "u16 \<Rightarrow> uint_t \<Rightarrow> u16 \<times> uint_t" where
  "year_sub = field_sub 65535"

lemma word_mod_zero:
  fixes w :: "'a::len word"
  assumes "k < 2 ^ LENGTH('a)" "0 < k"
  shows "w mod of_nat k = 0 \<longleftrightarrow> int k dvd int (unat w)"
proof -
  have "unat (of_nat k :: 'a word) = k" using assms(1) by (simp add: unat_of_nat)
  then have "unat (w mod of_nat k) = unat w mod k" by (simp add: unat_mod)
  then show ?thesis by (metis int_dvd_int_iff dvd_eq_mod_eq_0 unat_eq_zero)
qed

lemma uint_inc_less: "i < n \<Longrightarrow> uint (i + 1) = uint i + 1" for i n :: "'a::len word"
  by (metis of_nat_Suc uint_nat unat_inc_less add.commute)

lemma uint_word_of_int_id:
  "0 \<le> k \<Longrightarrow> k < 2 ^ LENGTH('a) \<Longrightarrow> uint (word_of_int k :: 'a::len word) = k"
  by (simp add: uint_word_of_int take_bit_int_eq_self)

lemma year_is_leap_int: "year_is_leap y = leap_int (uint y)"
proof -
  have "400 dvd uint y \<Longrightarrow> 100 dvd uint y" by (rule dvd_trans [of _ 400]) simp_all
  then show ?thesis
    using word_mod_zero [of 4 y] word_mod_zero [of 100 y] word_mod_zero [of 400 y]
    by (auto simp: year_is_leap_def leap_int_def)
qed

interpretation year: wrap_field 65536 year_add year_sub
proof unfold_locales
  fix x y :: u16 and v c :: uint_t
  assume x: "unat x < 65536"
  show "unat y < 65536 \<and> unat y + 65536 * unat c = unat x + unat v" if "year_add x v = (y, c)"
    using field_add_law [of "65535" x v y c] x that by (simp add: year_add_def)
  show "unat y < 65536 \<and> unat y + unat v = unat x + 65536 * unat c" if "year_sub x v = (y, c)"
    using field_sub_law [of "65535" x v y c] x that by (simp add: year_sub_def)
qed

section \<open>Months\<close>

definition month_index_add :: "u8 \<Rightarrow> uint_t \<Rightarrow> u8 \<times> uint_t" where
  "month_index_add = field_add 11"

definition month_index_sub :: "u8 \<Rightarrow> uint_t \<Rightarrow> u8 \<times> uint_t" where
  "month_index_sub = field_sub 11"

interpretation month_index: wrap_field 12 month_index_add month_index_sub
proof unfold_locales
  fix x y :: u8 and v c :: uint_t
  assume x: "unat x < 12"
  show "unat y < 12 \<and> unat y + 12 * unat c = unat x + unat v" if "month_index_add x v = (y, c)"
    using field_add_law [of "11" x v y c] x that by (simp add: month_index_add_def)
  show "unat y < 12 \<and> unat y + unat v = unat x + 12 * unat c" if "month_index_sub x v = (y, c)"
    using field_sub_law [of "11" x v y c] x that by (simp add: month_index_sub_def)
qed

definition month_to_index :: "u8 \<Rightarrow> u8" where
  "month_to_index month = month - 1"

definition month_from_index :: "u8 \<Rightarrow> u8" where
  "month_from_index index = index + 1"

text \<open>A month outside \<open>[1, 12]\<close> is left alone and carries nothing.\<close>

definition month_add :: "u8 \<Rightarrow> uint_t \<Rightarrow> u8 \<times> uint_t" where
  "month_add self value =
     (if self < 1 \<or> 12 < self then (self, 0)
      else let (index, years) = month_index_add (month_to_index self) value
           in (month_from_index index, years))"

definition month_sub :: "u8 \<Rightarrow> uint_t \<Rightarrow> u8 \<times> uint_t" where
  "month_sub self value =
     (if self < 1 \<or> 12 < self then (self, 0)
      else let (index, years) = month_index_sub (month_to_index self) value
           in (month_from_index index, years))"

section \<open>Days of a month\<close>

definition days_in_month :: "u16 \<Rightarrow> u8 \<Rightarrow> u8" where
  "days_in_month year month =
     (if month < 1 \<or> 12 < month then 0
      else let index = month_to_index month
           in if index = 1 \<and> year_is_leap year then 29
              else [31, 28, 31, 30, 31, 30, 31, 31, 30, 31, 30, 31] ! unat index)"

definition days_before_month :: "u16 \<Rightarrow> u8 \<Rightarrow> u16" where
  "days_before_month year month =
     (if month < 1 \<or> 12 < month then 0
      else let index = month_to_index month
           in [0, 31, 59, 90, 120, 151, 181, 212, 243, 273, 304, 334] ! unat index
              + (if 1 < index \<and> year_is_leap year then 1 else 0))"

text \<open>The comparisons of the field types are those of the words.\<close>

definition field_equals :: "'a::len word \<Rightarrow> 'a word \<Rightarrow> bool" where
  "field_equals self other \<longleftrightarrow> self = other"

definition field_is_at_least :: "'a::len word \<Rightarrow> 'a word \<Rightarrow> bool" where
  "field_is_at_least self minimum \<longleftrightarrow> minimum \<le> self"

definition field_is_less :: "'a::len word \<Rightarrow> 'a word \<Rightarrow> bool" where
  "field_is_less self other \<longleftrightarrow> self < other"

definition field_is_greater :: "'a::len word \<Rightarrow> 'a word \<Rightarrow> bool" where
  "field_is_greater self other \<longleftrightarrow> field_is_less other self"

section \<open>Dates\<close>

record date =
  d_year :: u16
  d_month :: u8
  d_day :: u8

definition date_set :: "u16 \<Rightarrow> u8 \<Rightarrow> u8 \<Rightarrow> date" where
  "date_set year month day = \<lparr>d_year = year, d_month = month, d_day = day\<rparr>"

definition date_max_days :: "date \<Rightarrow> u8" where
  "date_max_days self = days_in_month (d_year self) (d_month self)"

definition ymd_is_valid :: "uint_t \<Rightarrow> uint_t \<Rightarrow> uint_t \<Rightarrow> bool" where
  "ymd_is_valid year month day =
     (if month < 1 \<or> day < 1 then False
      else day \<le> ucast (days_in_month (ucast year) (ucast month)))"

definition date_epoch_year :: int where
  "date_epoch_year = 1970"

text \<open>The month loop of \<^verbatim>\<open>lh_date_from_epoch_days\<close>: forward while the next month has begun.\<close>

function month_forward :: "u16 \<Rightarrow> int \<Rightarrow> u8 \<Rightarrow> u8" where
  "month_forward year day_of_year month =
     (if month < 12 \<and> uint (days_before_month year (month + 1)) \<le> day_of_year
      then month_forward year day_of_year (month + 1) else month)"
  by auto

termination month_forward
proof (relation "measure (\<lambda>(year, day_of_year, month). 12 - unat month)", goal_cases)
  case (2 year day_of_year month)
  then have "month < 12" by simp
  then have "unat month < 12" "unat (month + 1) = Suc (unat month)"
    by (simp add: word_less_nat_alt, rule unat_inc_less)
  then show ?case by simp
qed simp

declare month_forward.simps [simp del]

definition date_from_epoch_days :: "int \<Rightarrow> date" where
  "date_from_epoch_days days =
     (let absolute = days + year_days_from_zero date_epoch_year;
          year64 = year_from_days_from_zero absolute;
          year = word_of_int year64;
          day_of_year = absolute - year_days_from_zero year64;
          month = month_forward year day_of_year (word_of_int (day_of_year sdiv 31 + 1))
      in date_set year month
           (word_of_int (day_of_year - uint (days_before_month year month) + 1)))"

definition date_days_since_epoch :: "date \<Rightarrow> int" where
  "date_days_since_epoch self =
     year_days_from_zero (uint (d_year self)) - year_days_from_zero date_epoch_year
     + uint (days_before_month (d_year self) (d_month self))
     + (uint (d_day self) - 1)"

definition date_add_month :: "date \<Rightarrow> uint_t \<Rightarrow> date \<times> uint_t" where
  "date_add_month self value =
     (let (month, years) = month_add (d_month self) value;
          (year, overflow) = year_add (d_year self) years;
          max_day = days_in_month year month
      in (date_set year month (if max_day < d_day self then max_day else d_day self), overflow))"

definition date_sub_month :: "date \<Rightarrow> uint_t \<Rightarrow> date \<times> uint_t" where
  "date_sub_month self value =
     (let (month, years) = month_sub (d_month self) value;
          (year, overflow) = year_sub (d_year self) years;
          max_day = days_in_month year month
      in (date_set year month (if max_day < d_day self then max_day else d_day self), overflow))"

text \<open>The product with 12 is a 32-bit one and wraps.\<close>

definition date_add_year :: "date \<Rightarrow> uint_t \<Rightarrow> date \<times> uint_t" where
  "date_add_year self value = date_add_month self (value * 12)"

definition date_sub_year :: "date \<Rightarrow> uint_t \<Rightarrow> date \<times> uint_t" where
  "date_sub_year self value = date_sub_month self (value * 12)"

definition date_add_day :: "date \<Rightarrow> uint_t \<Rightarrow> date \<times> uint_t" where
  "date_add_day self value =
     (let result = date_from_epoch_days (date_days_since_epoch self + uint value)
      in (result, if d_year result < d_year self then 1 else 0))"

definition date_sub_day :: "date \<Rightarrow> uint_t \<Rightarrow> date \<times> uint_t" where
  "date_sub_day self value =
     (let result = date_from_epoch_days (date_days_since_epoch self - uint value)
      in (result, if d_year self < d_year result then 1 else 0))"

definition date_add_custom :: "date \<Rightarrow> uint_t \<Rightarrow> uint_t \<Rightarrow> uint_t \<Rightarrow> date \<times> uint_t" where
  "date_add_custom self year month day =
     (let (d1, o1) = date_add_day self day;
          (d2, o2) = date_add_month d1 month;
          (d3, o3) = date_add_year d2 year
      in (d3, o1 + o2 + o3))"

definition date_sub_custom :: "date \<Rightarrow> uint_t \<Rightarrow> uint_t \<Rightarrow> uint_t \<Rightarrow> date \<times> uint_t" where
  "date_sub_custom self year month day =
     (let (d1, o1) = date_sub_year self year;
          (d2, o2) = date_sub_month d1 month;
          (d3, o3) = date_sub_day d2 day
      in (d3, o1 + o2 + o3))"

definition date_add :: "date \<Rightarrow> date \<Rightarrow> date \<times> uint_t" where
  "date_add self other =
     date_add_custom self (ucast (d_year other)) (ucast (d_month other)) (ucast (d_day other))"

definition date_sub :: "date \<Rightarrow> date \<Rightarrow> date \<times> uint_t" where
  "date_sub self other =
     date_sub_custom self (ucast (d_year other)) (ucast (d_month other)) (ucast (d_day other))"

definition date_equals :: "date \<Rightarrow> date \<Rightarrow> bool" where
  "date_equals self other \<longleftrightarrow>
     d_year self = d_year other \<and> d_month self = d_month other \<and> d_day self = d_day other"

definition date_is_at_least :: "date \<Rightarrow> date \<Rightarrow> bool" where
  "date_is_at_least self minimum =
     (if d_year self \<noteq> d_year minimum then d_year minimum < d_year self
      else if d_month self \<noteq> d_month minimum then d_month minimum < d_month self
      else d_day minimum \<le> d_day self)"

definition date_is_less :: "date \<Rightarrow> date \<Rightarrow> bool" where
  "date_is_less self other \<longleftrightarrow> \<not> date_is_at_least self other"

definition date_is_greater :: "date \<Rightarrow> date \<Rightarrow> bool" where
  "date_is_greater self other \<longleftrightarrow> date_is_less other self"

section \<open>Valid dates\<close>

definition date_valid :: "date \<Rightarrow> bool" where
  "date_valid d \<longleftrightarrow> ymd_is_valid (ucast (d_year d)) (ucast (d_month d)) (ucast (d_day d))"

lemma months_12: "month < 1 \<or> 12 < month \<or>
    month \<in> {1, 2, 3, 4, 5, 6, 7, 8, 9, 10, 11, 12}" for month :: u8
proof -
  have "unat month < 1 \<or> 12 < unat month \<or> unat month = 1 \<or> unat month = 2 \<or> unat month = 3 \<or> unat month = 4 \<or>
     unat month = 5 \<or> unat month = 6 \<or> unat month = 7 \<or> unat month = 8 \<or> unat month = 9 \<or> unat month = 10 \<or>
     unat month = 11 \<or> unat month = 12" by arith
  then show ?thesis by (auto simp: word_unat_eq_iff word_less_nat_alt)
qed

lemma month_bounds:
  fixes month :: u8
  shows "1 \<le> month \<Longrightarrow> month \<le> 12 \<Longrightarrow> month \<in> {1, 2, 3, 4, 5, 6, 7, 8, 9, 10, 11, 12}"
  using months_12 [of month] by (simp add: word_less_nat_alt word_le_nat_alt)

lemma date_valid_iff:
  "date_valid d \<longleftrightarrow> 1 \<le> d_month d \<and> d_month d \<le> 12 \<and> 1 \<le> d_day d \<and>
     d_day d \<le> days_in_month (d_year d) (d_month d)"
proof -
  have u: "(ucast (x::u8) :: uint_t) < 1 \<longleftrightarrow> x < 1" "(ucast x :: uint_t) \<le> ucast (y::u8) \<longleftrightarrow> x \<le> y" for x y
    by (simp_all add: word_less_nat_alt word_le_nat_alt unat_ucast_up)
  have "ucast (ucast (y::u16) :: uint_t) = y" "ucast (ucast (m::u8) :: uint_t) = m" for y m
    using unsigned_less [of y, where ?'a = nat] unsigned_less [of m, where ?'a = nat]
    by (simp_all add: word_unat_eq_iff unat_ucast_mod)
  then show ?thesis
    unfolding date_valid_def ymd_is_valid_def u
    by (auto simp: days_in_month_def not_less inc_le word_le_nat_alt word_less_nat_alt unat_ucast_up)
qed

section \<open>Months and days of a year\<close>

lemmas month_tables = days_before_month_def days_in_month_def month_to_index_def Let_def

lemma before_step:
  assumes "1 \<le> m" "m < 12"
  shows "uint (days_before_month y (m + 1)) = uint (days_before_month y m) + uint (days_in_month y m)"
proof -
  have "m \<in> {1, 2, 3, 4, 5, 6, 7, 8, 9, 10, 11, 12}" "m \<noteq> 12" using month_bounds [of m] assms by auto
  then show ?thesis by (auto simp: month_tables)
qed

lemma before_last: "uint (days_before_month y 12) + uint (days_in_month y 12) = (if year_is_leap y then 366 else 365)"
  by (simp add: month_tables)

lemma before_first: "uint (days_before_month y 1) = 0"
  by (simp add: month_tables)

text \<open>Why the month search may start at \<open>day_of_year / 31\<close>: no month begins later than that.\<close>

lemma before_le_31: "1 \<le> m \<Longrightarrow> m \<le> 12 \<Longrightarrow> uint (days_before_month y m) \<le> 31 * (uint m - 1)"
  using month_bounds [of m] by (auto simp: month_tables)

lemma month_forward_spec:
  assumes "1 \<le> m" "m \<le> 12" "uint (days_before_month y m) \<le> n"
  shows "let m' = month_forward y n m in
     1 \<le> m' \<and> m' \<le> 12 \<and> uint (days_before_month y m') \<le> n \<and>
     (m' = 12 \<or> n < uint (days_before_month y (m' + 1)))"
  using assms
proof (induction y n m rule: month_forward.induct)
  case (1 y n m)
  show ?case
  proof (cases "m < 12 \<and> uint (days_before_month y (m + 1)) \<le> n")
    case True
    then have "uint (m + 1) = uint m + 1" by (blast intro: uint_inc_less)
    then have "1 \<le> m + 1" "m + 1 \<le> 12" using True by (simp_all add: word_le_def word_less_def)
    with 1 True show ?thesis by (subst month_forward.simps) simp
  next
    case False
    with 1 show ?thesis by (subst month_forward.simps) (auto simp: Let_def)
  qed
qed

text \<open>The day number of a date within its year, and that it determines month and day.\<close>

definition day_number :: "u16 \<Rightarrow> u8 \<Rightarrow> u8 \<Rightarrow> int" where
  "day_number y m d = uint (days_before_month y m) + uint d - 1"

definition year_length :: "u16 \<Rightarrow> int" where
  "year_length y = (if year_is_leap y then 366 else 365)"

definition md_valid :: "u16 \<Rightarrow> u8 \<Rightarrow> u8 \<Rightarrow> bool" where
  "md_valid y m d \<longleftrightarrow> 1 \<le> m \<and> m \<le> 12 \<and> 1 \<le> d \<and> d \<le> days_in_month y m"

lemma before_mono:
  assumes "1 \<le> m" "m < m'" "m' \<le> 12"
  shows "uint (days_before_month y m) + uint (days_in_month y m) \<le> uint (days_before_month y m')"
proof -
  have "m \<in> {1, 2, 3, 4, 5, 6, 7, 8, 9, 10, 11, 12}" "m' \<in> {1, 2, 3, 4, 5, 6, 7, 8, 9, 10, 11, 12}"
    using month_bounds [of m] month_bounds [of m'] assms by auto
  then show ?thesis using assms(2)
    by (elim insertE emptyE) (simp_all add: month_tables)
qed

lemma day_number_less:
  assumes "md_valid y m d" "md_valid y m' d'"
  shows "day_number y m d < day_number y m' d' \<longleftrightarrow> m < m' \<or> m = m' \<and> d < d'"
proof -
  have d: "1 \<le> uint d" "uint d \<le> uint (days_in_month y m)" "1 \<le> uint d'" "uint d' \<le> uint (days_in_month y m')"
    using assms by (simp_all add: md_valid_def word_le_def)
  consider "m < m'" | "m = m'" | "m' < m" by (rule linorder_cases)
  then show ?thesis
  proof cases
    case 1
    with before_mono [of m m' y] assms d show ?thesis by (auto simp: md_valid_def day_number_def)
  next
    case 2
    then show ?thesis by (simp add: day_number_def word_less_def)
  next
    case 3
    with before_mono [of m' m y] assms d show ?thesis by (auto simp: md_valid_def day_number_def)
  qed
qed

lemma day_number_inj:
  assumes "md_valid y m d" "md_valid y m' d'" "day_number y m d = day_number y m' d'"
  shows "m = m' \<and> d = d'"
  using day_number_less [OF assms(1, 2)] day_number_less [OF assms(2, 1)] assms(3)
  by (metis less_irrefl linorder_neqE)

lemma day_number_range:
  assumes "md_valid y m d"
  shows "0 \<le> day_number y m d" "day_number y m d < year_length y"
proof -
  have d: "1 \<le> uint d" "uint d \<le> uint (days_in_month y m)"
    using assms by (simp_all add: md_valid_def word_le_def)
  then show "0 \<le> day_number y m d"
    using unsigned_greater_eq [of "days_before_month y m", where ?'a = int]
    unfolding day_number_def by linarith
  show "day_number y m d < year_length y"
  proof (cases "m = 12")
    case True
    then show ?thesis using d before_last [of y] by (simp add: day_number_def year_length_def split: if_splits)
  next
    case False
    then have "m < 12" using assms by (simp add: md_valid_def order_less_le)
    moreover have "uint (days_in_month y 12) = 31" by (simp add: month_tables)
    ultimately show ?thesis using d before_mono [of m 12 y] assms before_last [of y]
      by (simp add: md_valid_def day_number_def year_length_def split: if_splits)
  qed
qed

lemma date_valid_md: "date_valid d \<longleftrightarrow> md_valid (d_year d) (d_month d) (d_day d)"
  by (simp add: date_valid_iff md_valid_def)

lemma days_since_epoch_eq:
  "date_days_since_epoch d =
     year_days_from_zero (uint (d_year d)) - year_days_from_zero date_epoch_year
     + day_number (d_year d) (d_month d) (d_day d)"
  by (simp add: date_days_since_epoch_def day_number_def)

lemma year_step_word: "year_days_from_zero (uint y + 1) = year_days_from_zero (uint y) + year_length y"
  by (simp add: year_days_step year_length_def year_is_leap_int)

text \<open>The month and day that the code computes from a day number within a year.\<close>

lemma month_day_of_number:
  assumes "0 \<le> n" "n < year_length y"
  defines "m \<equiv> month_forward y n (word_of_int (n sdiv 31 + 1))"
  defines "d \<equiv> word_of_int (n - uint (days_before_month y m) + 1) :: u8"
  shows "md_valid y m d \<and> day_number y m d = n"
proof -
  define m0 :: u8 where "m0 = word_of_int (n sdiv 31 + 1)"
  have n: "n \<le> 365" using assms(2) by (simp add: year_length_def split: if_splits)
  have q: "n sdiv 31 = n div 31" using assms(1) by (auto simp: signed_divide_int_def sgn_if)
  have q12: "0 \<le> n div 31" "n div 31 \<le> 11" using assms(1) n by simp_all
  have m0: "uint m0 = n div 31 + 1"
    unfolding m0_def q by (rule uint_word_of_int_id) (use q12 in simp_all)
  then have "1 \<le> m0" "m0 \<le> 12" using q12 by (simp_all add: word_le_def)
  moreover have "uint (days_before_month y m0) \<le> n"
    using before_le_31 [OF calculation, of y] m0 by simp
  ultimately have m: "1 \<le> m" "m \<le> 12" "uint (days_before_month y m) \<le> n"
    "m = 12 \<or> n < uint (days_before_month y (m + 1))"
    using month_forward_spec [of m0 y n] by (simp_all add: Let_def m_def m0_def)
  have last: "n - uint (days_before_month y m) + 1 \<le> uint (days_in_month y m)"
  proof (cases "m = 12")
    case True
    then show ?thesis using before_last [of y] assms(2) by (simp add: year_length_def split: if_splits)
  next
    case False
    then have "m < 12" using m(2) by (simp add: order_less_le)
    then show ?thesis using before_step [of m y] m False by simp
  qed
  have "uint (days_in_month y m) < 2 ^ 8" using unsigned_less [of "days_in_month y m", where ?'a = int] by simp
  with last m(3) have "uint d = n - uint (days_before_month y m) + 1"
    unfolding d_def by (intro uint_word_of_int_id) simp_all
  then show ?thesis using m last by (simp add: md_valid_def day_number_def word_le_def)
qed

text \<open>The day counts of the years that a date can hold.\<close>

definition epoch_days_min :: int where
  "epoch_days_min = - 719528"

definition epoch_days_max :: int where
  "epoch_days_max = 23217003"

lemma epoch_range:
  "epoch_days_min = year_days_from_zero 0 - year_days_from_zero date_epoch_year"
  "epoch_days_max = year_days_from_zero 65536 - year_days_from_zero date_epoch_year - 1"
  by (simp_all add: epoch_days_min_def epoch_days_max_def date_epoch_year_def year_days_from_zero_eq)

lemma from_epoch_days_spec:
  assumes "epoch_days_min \<le> n" "n \<le> epoch_days_max"
  shows "date_valid (date_from_epoch_days n) \<and> date_days_since_epoch (date_from_epoch_days n) = n"
proof -
  define a where "a = n + year_days_from_zero date_epoch_year"
  define z where "z = year_from_days_from_zero a"
  define y :: u16 where "y = word_of_int z"
  have zb: "year_days_from_zero z \<le> a" "a < year_days_from_zero (z + 1)"
    by (simp_all add: z_def year_from_days_bounds)
  have "year_days_from_zero 0 \<le> a" "a < year_days_from_zero 65536"
    using assms by (simp_all add: a_def epoch_range)
  then have "year_days_from_zero 0 < year_days_from_zero (z + 1)" "year_days_from_zero z < year_days_from_zero 65536"
    using zb by linarith+
  then have z: "0 \<le> z" "z < 65536" by (simp_all add: year_days_less_iff)
  then have y: "uint y = z" unfolding y_def by (intro uint_word_of_int_id) simp_all
  have r: "0 \<le> a - year_days_from_zero z" "a - year_days_from_zero z < year_length y"
    using zb year_step_word [of y] by (simp_all add: y)
  show ?thesis
    using month_day_of_number [OF r]
    by (simp add: date_from_epoch_days_def Let_def date_set_def date_valid_md days_since_epoch_eq y
        flip: a_def z_def y_def) (simp add: a_def)
qed

lemma days_since_epoch_range:
  assumes "date_valid d"
  shows "epoch_days_min \<le> date_days_since_epoch d" "date_days_since_epoch d \<le> epoch_days_max"
proof -
  let ?y = "d_year d"
  note r = day_number_range [OF assms [unfolded date_valid_md]]
  have y: "0 \<le> uint ?y" "uint ?y + 1 \<le> 65536"
    using unsigned_greater_eq [of ?y, where ?'a = int] unsigned_less [of ?y, where ?'a = int] by simp_all
  then have "year_days_from_zero 0 \<le> year_days_from_zero (uint ?y)"
    "year_days_from_zero (uint ?y + 1) \<le> year_days_from_zero 65536"
    by (simp_all only: year_days_le_iff)
  then show "epoch_days_min \<le> date_days_since_epoch d" "date_days_since_epoch d \<le> epoch_days_max"
    using r year_step_word [of ?y] by (simp_all add: days_since_epoch_eq epoch_range)
qed

lemma days_less_of_year:
  assumes "date_valid a" "date_valid b" "d_year a < d_year b"
  shows "date_days_since_epoch a < date_days_since_epoch b"
proof -
  have "uint (d_year a) + 1 \<le> uint (d_year b)" using assms(3) by (simp add: word_less_def)
  then have "year_days_from_zero (uint (d_year a) + 1) \<le> year_days_from_zero (uint (d_year b))"
    by (simp only: year_days_le_iff)
  then show ?thesis
    using day_number_range [OF assms(1) [unfolded date_valid_md]]
      day_number_range [OF assms(2) [unfolded date_valid_md]] year_step_word [of "d_year a"]
    by (simp add: days_since_epoch_eq)
qed

lemma days_less_iff:
  assumes "date_valid a" "date_valid b"
  shows "date_days_since_epoch a < date_days_since_epoch b \<longleftrightarrow>
     d_year a < d_year b \<or> d_year a = d_year b \<and> (d_month a < d_month b \<or> d_month a = d_month b \<and> d_day a < d_day b)"
proof (cases "d_year a" "d_year b" rule: linorder_cases)
  case less
  then show ?thesis using days_less_of_year [OF assms] by simp
next
  case equal
  then show ?thesis
    using day_number_less [OF assms(1) [unfolded date_valid_md] assms(2) [unfolded date_valid_md, folded equal]]
    by (simp add: days_since_epoch_eq)
next
  case greater
  then show ?thesis using days_less_of_year [OF assms(2, 1)] by auto
qed

lemma days_inj:
  assumes "date_valid a" "date_valid b" "date_days_since_epoch a = date_days_since_epoch b"
  shows "a = b"
  using days_less_iff [OF assms(1, 2)] days_less_iff [OF assms(2, 1)] assms(3)
  by (metis date.equality linorder_neqE old.unit.exhaust order_less_irrefl)

lemma is_less_days:
  "date_valid a \<Longrightarrow> date_valid b \<Longrightarrow> date_is_less a b \<longleftrightarrow> date_days_since_epoch a < date_days_since_epoch b"
  by (auto simp: days_less_iff date_is_less_def date_is_at_least_def not_le)

lemma from_days_since_epoch: "date_valid d \<Longrightarrow> date_from_epoch_days (date_days_since_epoch d) = d"
  using from_epoch_days_spec [OF days_since_epoch_range] days_inj by blast

section \<open>Month arithmetic\<close>

text \<open>The months since the start of year zero.\<close>

definition month_count :: "date \<Rightarrow> nat" where
  "month_count d = 12 * unat (d_year d) + (unat (d_month d) - 1)"

lemma days_in_month_28: "1 \<le> m \<Longrightarrow> m \<le> 12 \<Longrightarrow> 28 \<le> days_in_month y m"
  using month_bounds [of m] by (auto simp: month_tables)

lemma month_to_index_nat:
  assumes "1 \<le> m" "m \<le> 12"
  shows "unat (month_to_index m) = unat m - 1" "unat m - 1 < 12"
  using assms month_bounds [OF assms] by (auto simp: month_to_index_def)

lemma month_add_law:
  assumes "1 \<le> m" "m \<le> 12" and r: "month_add m v = (m', c)"
  shows "1 \<le> m'" "m' \<le> 12" "unat m' - 1 + 12 * unat c = unat m - 1 + unat v"
proof -
  obtain i where i: "month_index_add (month_to_index m) v = (i, c)" "m' = month_from_index i"
    using r assms(1, 2) by (auto simp: month_add_def not_less split: prod.splits if_splits)
  note m = month_to_index_nat [OF assms(1, 2)]
  from month_index.add_law [OF _ i(1)] m
  have l: "unat i < 12" "unat i + 12 * unat c = unat m - 1 + unat v" by simp_all
  then have "unat m' = Suc (unat i)" unfolding i(2) month_from_index_def by (simp add: unat_word_ariths)
  with l show "1 \<le> m'" "m' \<le> 12" "unat m' - 1 + 12 * unat c = unat m - 1 + unat v"
    by (simp_all add: word_le_nat_alt)
qed

lemma month_sub_law:
  assumes "1 \<le> m" "m \<le> 12" and r: "month_sub m v = (m', c)"
  shows "1 \<le> m'" "m' \<le> 12" "unat m' - 1 + unat v = unat m - 1 + 12 * unat c"
proof -
  obtain i where i: "month_index_sub (month_to_index m) v = (i, c)" "m' = month_from_index i"
    using r assms(1, 2) by (auto simp: month_sub_def not_less split: prod.splits if_splits)
  note m = month_to_index_nat [OF assms(1, 2)]
  from month_index.sub_law [OF _ i(1)] m
  have l: "unat i < 12" "unat i + unat v = unat m - 1 + 12 * unat c" by simp_all
  then have "unat m' = Suc (unat i)" unfolding i(2) month_from_index_def by (simp add: unat_word_ariths)
  with l show "1 \<le> m'" "m' \<le> 12" "unat m' - 1 + unat v = unat m - 1 + 12 * unat c"
    by (simp_all add: word_le_nat_alt)
qed

lemma clamp_valid:
  assumes "1 \<le> m" "m \<le> 12" "1 \<le> day"
  shows "date_valid (date_set y m (if days_in_month y m < day then days_in_month y m else day))"
  using assms days_in_month_28 [OF assms(1, 2), of y]
  by (auto simp: date_valid_iff date_set_def word_le_nat_alt word_less_nat_alt)

lemma u16_less [simp]: "unat (y :: u16) < 65536"
  using unsigned_less [of y, where ?'a = nat] by simp

lemma date_add_month_spec:
  assumes "date_valid d" and r: "date_add_month d v = (e, c)"
  shows "date_valid e" "month_count e + 786432 * unat c = month_count d + unat v"
    "d_day e = min (d_day d) (date_max_days e)"
proof -
  have d: "1 \<le> d_month d" "d_month d \<le> 12" "1 \<le> d_day d" using assms(1) by (simp_all add: date_valid_iff)
  obtain m k where m: "month_add (d_month d) v = (m, k)" by fastforce
  obtain y where y: "year_add (d_year d) k = (y, c)"
    and e: "e = date_set y m (if days_in_month y m < d_day d then days_in_month y m else d_day d)"
    using r m by (auto simp: date_add_month_def Let_def split: prod.splits)
  note ml = month_add_law [OF d(1, 2) m]
  have yl: "unat y + 65536 * unat c = unat (d_year d) + unat k" using year.add_law [OF _ y] by simp
  show "date_valid e" unfolding e by (rule clamp_valid) (use ml d in simp_all)
  show "month_count e + 786432 * unat c = month_count d + unat v"
    using ml(3) yl by (simp add: month_count_def e date_set_def)
  show "d_day e = min (d_day d) (date_max_days e)"
    by (auto simp: e date_set_def date_max_days_def min_def)
qed

lemma date_sub_month_spec:
  assumes "date_valid d" and r: "date_sub_month d v = (e, c)"
  shows "date_valid e" "month_count e + unat v = month_count d + 786432 * unat c"
    "d_day e = min (d_day d) (date_max_days e)"
proof -
  have d: "1 \<le> d_month d" "d_month d \<le> 12" "1 \<le> d_day d" using assms(1) by (simp_all add: date_valid_iff)
  obtain m k where m: "month_sub (d_month d) v = (m, k)" by fastforce
  obtain y where y: "year_sub (d_year d) k = (y, c)"
    and e: "e = date_set y m (if days_in_month y m < d_day d then days_in_month y m else d_day d)"
    using r m by (auto simp: date_sub_month_def Let_def split: prod.splits)
  note ml = month_sub_law [OF d(1, 2) m]
  have yl: "unat y + unat k = unat (d_year d) + 65536 * unat c" using year.sub_law [OF _ y] by simp
  show "date_valid e" unfolding e by (rule clamp_valid) (use ml d in simp_all)
  show "month_count e + unat v = month_count d + 786432 * unat c"
    using ml(3) yl by (simp add: month_count_def e date_set_def)
  show "d_day e = min (d_day d) (date_max_days e)"
    by (auto simp: e date_set_def date_max_days_def min_def)
qed

lemma date_add_day_spec:
  assumes "date_valid d" "date_days_since_epoch d + uint v \<le> epoch_days_max"
  shows "date_valid (fst (date_add_day d v))"
    "date_days_since_epoch (fst (date_add_day d v)) = date_days_since_epoch d + uint v"
    "snd (date_add_day d v) = 0"
proof -
  define e where "e = date_from_epoch_days (date_days_since_epoch d + uint v)"
  have v: "0 \<le> uint v" by simp
  then have "epoch_days_min \<le> date_days_since_epoch d + uint v" "date_days_since_epoch d + uint v \<le> epoch_days_max"
    using assms(2) days_since_epoch_range [OF assms(1)] by linarith+
  from from_epoch_days_spec [OF this]
  have e: "date_valid e" "date_days_since_epoch e = date_days_since_epoch d + uint v" by (simp_all add: e_def)
  then have "\<not> d_year e < d_year d" using days_less_of_year [OF e(1) assms(1)] v by linarith
  with e show "date_valid (fst (date_add_day d v))"
    "date_days_since_epoch (fst (date_add_day d v)) = date_days_since_epoch d + uint v"
    "snd (date_add_day d v) = 0"
    by (simp_all add: date_add_day_def Let_def flip: e_def)
qed

lemma date_sub_day_spec:
  assumes "date_valid d" "epoch_days_min \<le> date_days_since_epoch d - uint v"
  shows "date_valid (fst (date_sub_day d v))"
    "date_days_since_epoch (fst (date_sub_day d v)) = date_days_since_epoch d - uint v"
    "snd (date_sub_day d v) = 0"
proof -
  define e where "e = date_from_epoch_days (date_days_since_epoch d - uint v)"
  have v: "0 \<le> uint v" by simp
  then have "epoch_days_min \<le> date_days_since_epoch d - uint v" "date_days_since_epoch d - uint v \<le> epoch_days_max"
    using assms(2) days_since_epoch_range [OF assms(1)] by linarith+
  from from_epoch_days_spec [OF this]
  have e: "date_valid e" "date_days_since_epoch e = date_days_since_epoch d - uint v" by (simp_all add: e_def)
  then have "\<not> d_year d < d_year e" using days_less_of_year [OF assms(1) e(1)] v by linarith
  with e show "date_valid (fst (date_sub_day d v))"
    "date_days_since_epoch (fst (date_sub_day d v)) = date_days_since_epoch d - uint v"
    "snd (date_sub_day d v) = 0"
    by (simp_all add: date_sub_day_def Let_def flip: e_def)
qed

section \<open>Properties\<close>

definition date_sample :: date where
  "date_sample = \<lparr>d_year = 2024, d_month = 2, d_day = 29\<rparr>"

lemma date_sample_valid: "date_valid date_sample"
  by code_simp

text \<open>
  C37: the valid dates and the day counts from the first day of year 0 to the last of year 65535 are in
  bijection: \<^verbatim>\<open>lh_date_from_epoch_days\<close> undoes \<^verbatim>\<open>lh_date_days_since_epoch\<close> on every valid date, gives a
  valid date for every count of that range, and is undone by it there.
\<close>

theorem date_epoch_roundtrip:
  assumes "date_valid d" "epoch_days_min \<le> n" "n \<le> epoch_days_max"
  shows "date_from_epoch_days (date_days_since_epoch d) = d \<and>
     date_valid (date_from_epoch_days n) \<and> date_days_since_epoch (date_from_epoch_days n) = n"
  using from_days_since_epoch [OF assms(1)] from_epoch_days_spec [OF assms(2, 3)] by simp

theorem date_epoch_roundtrip_witness:
  "date_from_epoch_days (date_days_since_epoch date_sample) = date_sample \<and>
   date_days_since_epoch (date_from_epoch_days 20000) = 20000"
  using date_epoch_roundtrip [of date_sample 20000] date_sample_valid
  by (simp add: epoch_days_min_def epoch_days_max_def)

text \<open>
  Adding or subtracting months moves the count of months by the amount, with the wrap of the
  65536-year range returned as the number of whole ranges; the day is clamped to the length of the new
  month and the result is a valid date again. Subtracting what was added gives back the year and the
  month.
\<close>

theorem date_month_arith:
  assumes "date_valid d" "date_add_month d v = (e, c)" "date_sub_month d v = (f, b)"
  shows "date_valid e \<and> month_count e + 786432 * unat c = month_count d + unat v \<and>
     d_day e = min (d_day d) (date_max_days e) \<and>
     date_valid f \<and> month_count f + unat v = month_count d + 786432 * unat b \<and>
     d_day f = min (d_day d) (date_max_days f)"
  using date_add_month_spec [OF assms(1, 2)] date_sub_month_spec [OF assms(1, 3)] by blast

theorem date_month_arith_witness:
  "month_count (fst (date_add_month date_sample 12)) = month_count date_sample + 12 \<and>
   d_day (fst (date_add_month date_sample 12)) = 28"
proof -
  have a: "date_add_month date_sample 12 = (\<lparr>d_year = 2025, d_month = 2, d_day = 28\<rparr>, 0)" by code_simp
  have s: "date_sub_month date_sample 12 = (\<lparr>d_year = 2023, d_month = 2, d_day = 28\<rparr>, 0)" by code_simp
  show ?thesis using date_month_arith [OF date_sample_valid a s] a by simp
qed

text \<open>
  While the result stays within the years a date can hold, adding or subtracting days moves the day
  count by exactly the amount, keeps the date valid and reports no wrap.
\<close>

theorem date_day_arith:
  assumes "date_valid d" "date_days_since_epoch d + uint v \<le> epoch_days_max"
    and "epoch_days_min \<le> date_days_since_epoch d - uint w"
  shows "date_valid (fst (date_add_day d v)) \<and> snd (date_add_day d v) = 0 \<and>
     date_days_since_epoch (fst (date_add_day d v)) = date_days_since_epoch d + uint v \<and>
     date_valid (fst (date_sub_day d w)) \<and> snd (date_sub_day d w) = 0 \<and>
     date_days_since_epoch (fst (date_sub_day d w)) = date_days_since_epoch d - uint w"
  using date_add_day_spec [OF assms(1, 2)] date_sub_day_spec [OF assms(1, 3)] by simp

theorem date_day_arith_witness:
  "date_days_since_epoch (fst (date_add_day date_sample 366)) = date_days_since_epoch date_sample + 366"
proof -
  have "date_days_since_epoch date_sample = 19782" by code_simp
  then show ?thesis
    using date_day_arith [of date_sample 366 1] date_sample_valid
    by (simp add: epoch_days_min_def epoch_days_max_def)
qed

text \<open>
  Past the last year the result need not be a date at all: the year is cut to 16 bits before the
  month tables are consulted, so that the year of the count and the year of the tables differ in their
  leap days. The last day of year 65535 plus 36891 days is the thirty-second of December of year 100.
\<close>

theorem date_add_day_wrap_invalid:
  "date_valid \<lparr>d_year = 65535, d_month = 12, d_day = 31\<rparr> \<and>
   fst (date_add_day \<lparr>d_year = 65535, d_month = 12, d_day = 31\<rparr> 36891) =
     \<lparr>d_year = 100, d_month = 12, d_day = 32\<rparr> \<and>
   \<not> date_valid \<lparr>d_year = 100, d_month = 12, d_day = 32\<rparr>"
  by code_simp

lemma year_of_bounded_days:
  assumes "\<bar>a\<bar> \<le> 2 ^ 54"
  shows "\<bar>year_from_days_from_zero a\<bar> \<le> 2 ^ 47"
proof -
  define y where "y = year_from_days_from_zero a"
  have "year_days_from_zero y \<le> a" "a < year_days_from_zero (y + 1)"
    by (simp_all add: y_def year_from_days_bounds)
  then have "146097 * y - 400 \<le> 400 * a" "400 * a < 146097 * (y + 1) + 700"
    using year_days_average(1) [of y] year_days_average(2) [of "y + 1"] by linarith+
  then show ?thesis using assms by (simp add: y_def)
qed

text \<open>
  For day counts up to \<open>2 ^ 53\<close> in magnitude (hundreds of millions of times the range of years), no intermediate
  value of \<^verbatim>\<open>lh_date_from_epoch_days\<close> leaves the signed 64-bit range: the product of the
  guess, and the day count of every year the two loops look at, which start within one year of where
  they end.
\<close>

theorem from_epoch_days_no_overflow:
  assumes "\<bar>n\<bar> \<le> 2 ^ 53"
  shows "let a = n + year_days_from_zero date_epoch_year; y = year_from_days_from_zero a in
     fits_s64 a \<and> fits_s64 (a * 400) \<and> \<bar>year_guess a - y\<bar> \<le> 1 \<and>
     (\<forall>z. \<bar>z - y\<bar> \<le> 2 \<longrightarrow> fits_s64 (365 * z) \<and> fits_s64 (year_days_from_zero z))"
proof -
  define a where "a = n + year_days_from_zero date_epoch_year"
  define y where "y = year_from_days_from_zero a"
  have e: "year_days_from_zero date_epoch_year = 719528" by (simp add: date_epoch_year_def year_days_from_zero_eq)
  have a: "\<bar>a\<bar> \<le> 2 ^ 54" using assms by (simp add: a_def e)
  have y: "\<bar>y\<bar> \<le> 2 ^ 47" unfolding y_def by (rule year_of_bounded_days [OF a])
  have "fits_s64 (365 * z) \<and> fits_s64 (year_days_from_zero z)" if "\<bar>z - y\<bar> \<le> 2" for z
  proof -
    have "z \<le> 2 ^ 47 + 2" "- (2 ^ 47 + 2) \<le> z" using that y by linarith+
    then show ?thesis
      using year_days_average [of z] unfolding fits_s64_def s64_min_def s64_max_def by (intro conjI; simp)
  qed
  moreover have "fits_s64 a \<and> fits_s64 (a * 400)"
    using abs_le_D1 [OF a] abs_le_D2 [OF a] unfolding fits_s64_def s64_min_def s64_max_def by (intro conjI; simp)
  ultimately show ?thesis
    using year_guess_near [of a] unfolding Let_def a_def [symmetric] y_def [symmetric] by blast
qed

theorem from_epoch_days_no_overflow_witness:
  "fits_s64 ((20000 + year_days_from_zero date_epoch_year) * 400) \<and>
   \<bar>year_guess (20000 + year_days_from_zero date_epoch_year) -
     year_from_days_from_zero (20000 + year_days_from_zero date_epoch_year)\<bar> \<le> 1"
  using from_epoch_days_no_overflow [of 20000] by (simp add: Let_def)

end
