(* ===== verification/Time_Of_Day.thy ===== *)
theory Time_Of_Day
  imports Interval
begin

text \<open>
  The time of day of \<^verbatim>\<open>src/lh/core/time.c\<close> with its fields (\<^verbatim>\<open>time/hour.c\<close>, \<^verbatim>\<open>time/minute.c\<close>,
  \<^verbatim>\<open>time/second.c\<close>). The three fields are digits in the sense of \<open>wrap_field\<close>; a time is the number
  of seconds they spell, and the carries of addition and the borrows of subtraction chain from one
  field to the next in 32-bit arithmetic.
\<close>

definition hour_set :: "uint_t \<Rightarrow> u8 \<times> uint_t" where
  "hour_set = field_set 23"

definition hour_add :: "u8 \<Rightarrow> uint_t \<Rightarrow> u8 \<times> uint_t" where
  "hour_add = field_add 23"

definition hour_sub :: "u8 \<Rightarrow> uint_t \<Rightarrow> u8 \<times> uint_t" where
  "hour_sub = field_sub 23"

definition minute_set :: "uint_t \<Rightarrow> u8 \<times> uint_t" where
  "minute_set = field_set 59"

definition minute_add :: "u8 \<Rightarrow> uint_t \<Rightarrow> u8 \<times> uint_t" where
  "minute_add = field_add 59"

definition minute_sub :: "u8 \<Rightarrow> uint_t \<Rightarrow> u8 \<times> uint_t" where
  "minute_sub = field_sub 59"

definition second_set :: "uint_t \<Rightarrow> u8 \<times> uint_t" where
  "second_set = field_set 59"

definition second_add :: "u8 \<Rightarrow> uint_t \<Rightarrow> u8 \<times> uint_t" where
  "second_add = field_add 59"

definition second_sub :: "u8 \<Rightarrow> uint_t \<Rightarrow> u8 \<times> uint_t" where
  "second_sub = field_sub 59"

record time_of_day =
  t_hour :: u8
  t_minute :: u8
  t_second :: u8

definition time_set :: "u8 \<Rightarrow> u8 \<Rightarrow> u8 \<Rightarrow> time_of_day" where
  "time_set hour minute second = \<lparr>t_hour = hour, t_minute = minute, t_second = second\<rparr>"

definition time_add_custom :: "time_of_day \<Rightarrow> uint_t \<Rightarrow> uint_t \<Rightarrow> uint_t \<Rightarrow> time_of_day \<times> uint_t" where
  "time_add_custom self hour minute second =
     (let (self_second, overflow1) = second_add (t_second self) second;
          (self_minute, overflow2) = minute_add (t_minute self) (minute + overflow1);
          (self_hour, overflow3) = hour_add (t_hour self) (hour + overflow2)
      in (time_set self_hour self_minute self_second, overflow3))"

definition time_sub_custom :: "time_of_day \<Rightarrow> uint_t \<Rightarrow> uint_t \<Rightarrow> uint_t \<Rightarrow> time_of_day \<times> uint_t" where
  "time_sub_custom self hour minute second =
     (let (self_second, overflow1) = second_sub (t_second self) second;
          (self_minute, overflow2) = minute_sub (t_minute self) (minute + overflow1);
          (self_hour, overflow3) = hour_sub (t_hour self) (hour + overflow2)
      in (time_set self_hour self_minute self_second, overflow3))"

definition time_add_hour :: "time_of_day \<Rightarrow> uint_t \<Rightarrow> time_of_day \<times> uint_t" where
  "time_add_hour self value = time_add_custom self value 0 0"

definition time_sub_hour :: "time_of_day \<Rightarrow> uint_t \<Rightarrow> time_of_day \<times> uint_t" where
  "time_sub_hour self value = time_sub_custom self value 0 0"

definition time_add_minute :: "time_of_day \<Rightarrow> uint_t \<Rightarrow> time_of_day \<times> uint_t" where
  "time_add_minute self value = time_add_custom self 0 value 0"

definition time_sub_minute :: "time_of_day \<Rightarrow> uint_t \<Rightarrow> time_of_day \<times> uint_t" where
  "time_sub_minute self value = time_sub_custom self 0 value 0"

definition time_add_second :: "time_of_day \<Rightarrow> uint_t \<Rightarrow> time_of_day \<times> uint_t" where
  "time_add_second self value = time_add_custom self 0 0 value"

definition time_sub_second :: "time_of_day \<Rightarrow> uint_t \<Rightarrow> time_of_day \<times> uint_t" where
  "time_sub_second self value = time_sub_custom self 0 0 value"

definition time_add :: "time_of_day \<Rightarrow> time_of_day \<Rightarrow> time_of_day \<times> uint_t" where
  "time_add self other =
     time_add_custom self (ucast (t_hour other)) (ucast (t_minute other)) (ucast (t_second other))"

definition time_sub :: "time_of_day \<Rightarrow> time_of_day \<Rightarrow> time_of_day \<times> uint_t" where
  "time_sub self other =
     time_sub_custom self (ucast (t_hour other)) (ucast (t_minute other)) (ucast (t_second other))"

definition time_seconds_of_day :: "time_of_day \<Rightarrow> uint_t" where
  "time_seconds_of_day self =
     ucast (t_hour self) * 3600 + ucast (t_minute self) * 60 + ucast (t_second self)"

definition time_from_seconds_of_day :: "uint_t \<Rightarrow> time_of_day" where
  "time_from_seconds_of_day seconds =
     (let seconds_of_hour = seconds mod 3600
      in time_set (ucast (seconds div 3600)) (ucast (seconds_of_hour div 60)) (ucast (seconds mod 60)))"

definition time_equals :: "time_of_day \<Rightarrow> time_of_day \<Rightarrow> bool" where
  "time_equals self other \<longleftrightarrow>
     t_hour self = t_hour other \<and> t_minute self = t_minute other \<and> t_second self = t_second other"

definition time_is_at_least :: "time_of_day \<Rightarrow> time_of_day \<Rightarrow> bool" where
  "time_is_at_least self minimum =
     (if t_hour self \<noteq> t_hour minimum then t_hour minimum < t_hour self
      else if t_minute self \<noteq> t_minute minimum then t_minute minimum < t_minute self
      else t_second minimum \<le> t_second self)"

definition time_is_less :: "time_of_day \<Rightarrow> time_of_day \<Rightarrow> bool" where
  "time_is_less self other \<longleftrightarrow> \<not> time_is_at_least self other"

definition time_is_greater :: "time_of_day \<Rightarrow> time_of_day \<Rightarrow> bool" where
  "time_is_greater self other \<longleftrightarrow> time_is_less other self"

section \<open>The fields are digits\<close>

interpretation hour: wrap_field 24 hour_add hour_sub
proof unfold_locales
  fix x y :: u8 and v c :: uint_t
  assume x: "unat x < 24"
  show "unat y < 24 \<and> unat y + 24 * unat c = unat x + unat v" if "hour_add x v = (y, c)"
    using field_add_law [of 23 x v y c] x that by (simp add: hour_add_def)
  show "unat y < 24 \<and> unat y + unat v = unat x + 24 * unat c" if "hour_sub x v = (y, c)"
    using field_sub_law [of 23 x v y c] x that by (simp add: hour_sub_def)
qed

interpretation minute: wrap_field 60 minute_add minute_sub
proof unfold_locales
  fix x y :: u8 and v c :: uint_t
  assume x: "unat x < 60"
  show "unat y < 60 \<and> unat y + 60 * unat c = unat x + unat v" if "minute_add x v = (y, c)"
    using field_add_law [of 59 x v y c] x that by (simp add: minute_add_def)
  show "unat y < 60 \<and> unat y + unat v = unat x + 60 * unat c" if "minute_sub x v = (y, c)"
    using field_sub_law [of 59 x v y c] x that by (simp add: minute_sub_def)
qed

interpretation second: wrap_field 60 second_add second_sub
proof unfold_locales
  fix x y :: u8 and v c :: uint_t
  assume x: "unat x < 60"
  show "unat y < 60 \<and> unat y + 60 * unat c = unat x + unat v" if "second_add x v = (y, c)"
    using field_add_law [of 59 x v y c] x that by (simp add: second_add_def)
  show "unat y < 60 \<and> unat y + unat v = unat x + 60 * unat c" if "second_sub x v = (y, c)"
    using field_sub_law [of 59 x v y c] x that by (simp add: second_sub_def)
qed

section \<open>A time is its second of the day\<close>

definition time_valid :: "time_of_day \<Rightarrow> bool" where
  "time_valid t \<longleftrightarrow> t_hour t < 24 \<and> t_minute t < 60 \<and> t_second t < 60"

lemma time_valid_nat: "time_valid t \<longleftrightarrow> unat (t_hour t) < 24 \<and> unat (t_minute t) < 60 \<and> unat (t_second t) < 60"
  by (simp add: time_valid_def word_less_nat_alt)

definition sod :: "time_of_day \<Rightarrow> nat" where
  "sod t = 3600 * unat (t_hour t) + 60 * unat (t_minute t) + unat (t_second t)"

lemma sod_less: "time_valid t \<Longrightarrow> sod t < 86400"
  by (simp add: time_valid_nat sod_def)

lemma seconds_of_day_nat: "unat (time_seconds_of_day t) = sod t"
proof -
  have b: "unat (x :: u8) < 256" for x using unsigned_less [of x, where ?'a = nat] by simp
  have u: "unat (ucast (x :: u8) :: uint_t) = unat x" for x by (simp add: unat_ucast_up)
  show ?thesis using b [of "t_hour t"] b [of "t_minute t"] b [of "t_second t"]
    by (simp add: time_seconds_of_day_def sod_def unat_word_ariths u)
qed

lemma from_seconds_fields:
  assumes "unat n < 86400"
  shows "unat (t_hour (time_from_seconds_of_day n)) = unat n div 3600"
    "unat (t_minute (time_from_seconds_of_day n)) = unat n mod 3600 div 60"
    "unat (t_second (time_from_seconds_of_day n)) = unat n mod 60"
proof -
  have "unat n div 3600 < 256" using assms by simp
  moreover have "unat n mod 3600 div 60 < 256" "unat n mod 60 < 256"
    using mod_less_divisor [of 3600 "unat n"] mod_less_divisor [of 60 "unat n"] by linarith+
  ultimately show "unat (t_hour (time_from_seconds_of_day n)) = unat n div 3600"
    "unat (t_minute (time_from_seconds_of_day n)) = unat n mod 3600 div 60"
    "unat (t_second (time_from_seconds_of_day n)) = unat n mod 60"
    by (simp_all add: time_from_seconds_of_day_def Let_def time_set_def unat_ucast_mod unat_div unat_mod)
qed

lemma sod_from_seconds:
  assumes "unat n < 86400"
  shows "time_valid (time_from_seconds_of_day n)" "sod (time_from_seconds_of_day n) = unat n"
proof -
  have "unat n mod 3600 < 3600" by simp
  then show "time_valid (time_from_seconds_of_day n)"
    using assms by (simp add: time_valid_nat from_seconds_fields) linarith
  have "unat n mod 60 = unat n mod 3600 mod 60" by (simp add: mod_mod_cancel)
  then show "sod (time_from_seconds_of_day n) = unat n"
    using assms mult_div_mod_eq [of 60 "unat n mod 3600"] mult_div_mod_eq [of 3600 "unat n"]
    by (simp add: sod_def from_seconds_fields)
qed

lemma sod_less_iff:
  assumes "time_valid a" "time_valid b"
  shows "time_is_less a b \<longleftrightarrow> sod a < sod b"
  using assms
  by (auto simp: time_is_less_def time_is_at_least_def sod_def time_valid_nat word_less_nat_alt word_le_nat_alt
      word_unat_eq_iff)

lemma sod_inj:
  assumes "time_valid a" "time_valid b" "sod a = sod b"
  shows "a = b"
proof -
  have "\<not> time_is_less a b" "\<not> time_is_less b a" using sod_less_iff assms by simp_all
  then show ?thesis
    by (auto simp: time_is_less_def time_is_at_least_def intro!: time_of_day.equality split: if_splits)
qed

lemma from_seconds_of_sod: "time_valid t \<Longrightarrow> time_from_seconds_of_day (time_seconds_of_day t) = t"
  using sod_inj sod_from_seconds sod_less seconds_of_day_nat by metis

section \<open>Addition and subtraction\<close>

text \<open>
  The carries are added to the amounts in 32 bits; an amount of minutes or hours that leaves room for
  the carry of the field below (at most \<open>2 ^ 27\<close>) keeps the sum exact.
\<close>

definition amount_ok :: "uint_t \<Rightarrow> bool" where
  "amount_ok v \<longleftrightarrow> unat v < 2 ^ 32 - 2 ^ 27"

lemma amount_carry:
  assumes "amount_ok v" "60 * unat c \<le> unat (w :: uint_t) + 60"
  shows "unat (v + c) = unat v + unat c"
proof -
  have "unat w < 2 ^ 32" using unsigned_less [of w, where ?'a = nat] by simp
  then have "unat c < 2 ^ 27" using assms(2) by simp
  then show ?thesis using assms(1) by (simp add: amount_ok_def unat_word_ariths)
qed

lemma time_add_custom_spec:
  assumes "time_valid t" "amount_ok h" "amount_ok m" and r: "time_add_custom t h m s = (u, c)"
  shows "time_valid u" "sod u + 86400 * unat c = sod t + 3600 * unat h + 60 * unat m + unat s"
proof -
  have t: "unat (t_hour t) < 24" "unat (t_minute t) < 60" "unat (t_second t) < 60"
    using assms(1) by (simp_all add: time_valid_nat)
  obtain s' c1 where 1: "second_add (t_second t) s = (s', c1)" by fastforce
  obtain m' c2 where 2: "minute_add (t_minute t) (m + c1) = (m', c2)" by fastforce
  obtain h' where 3: "hour_add (t_hour t) (h + c2) = (h', c)" and u: "u = time_set h' m' s'"
    using r 1 2 by (auto simp: time_add_custom_def Let_def split: prod.splits)
  note l1 = second.add_law [OF t(3) 1] and l2 = minute.add_law [OF t(2) 2] and l3 = hour.add_law [OF t(1) 3]
  have e1: "unat (m + c1) = unat m + unat c1" by (rule amount_carry [OF assms(3), of _ s]) (use l1 t in simp)
  have e2: "unat (h + c2) = unat h + unat c2"
    by (rule amount_carry [OF assms(2), of _ "m + c1"]) (use l2 t in simp)
  show "time_valid u" using l1 l2 l3 by (simp add: u time_valid_nat time_set_def)
  show "sod u + 86400 * unat c = sod t + 3600 * unat h + 60 * unat m + unat s"
    using l1 l2 l3 e1 e2 by (simp add: u sod_def time_set_def)
qed

lemma time_sub_custom_spec:
  assumes "time_valid t" "amount_ok h" "amount_ok m" and r: "time_sub_custom t h m s = (u, c)"
  shows "time_valid u" "sod u + 3600 * unat h + 60 * unat m + unat s = sod t + 86400 * unat c"
proof -
  have t: "unat (t_hour t) < 24" "unat (t_minute t) < 60" "unat (t_second t) < 60"
    using assms(1) by (simp_all add: time_valid_nat)
  obtain s' c1 where 1: "second_sub (t_second t) s = (s', c1)" by fastforce
  obtain m' c2 where 2: "minute_sub (t_minute t) (m + c1) = (m', c2)" by fastforce
  obtain h' where 3: "hour_sub (t_hour t) (h + c2) = (h', c)" and u: "u = time_set h' m' s'"
    using r 1 2 by (auto simp: time_sub_custom_def Let_def split: prod.splits)
  note l1 = second.sub_law [OF t(3) 1] and l2 = minute.sub_law [OF t(2) 2] and l3 = hour.sub_law [OF t(1) 3]
  have e1: "unat (m + c1) = unat m + unat c1" by (rule amount_carry [OF assms(3), of _ s]) (use l1 t in simp)
  have e2: "unat (h + c2) = unat h + unat c2"
    by (rule amount_carry [OF assms(2), of _ "m + c1"]) (use l2 t in simp)
  show "time_valid u" using l1 l2 l3 by (simp add: u time_valid_nat time_set_def)
  show "sod u + 3600 * unat h + 60 * unat m + unat s = sod t + 86400 * unat c"
    using l1 l2 l3 e1 e2 by (simp add: u sod_def time_set_def)
qed

lemma u8_amount: "amount_ok (ucast (x :: u8))" "unat (ucast x :: uint_t) = unat x"
  using unsigned_less [of x, where ?'a = nat] by (simp_all add: amount_ok_def unat_ucast_up)

lemma time_add_spec:
  assumes "time_valid t" "time_add t d = (u, c)"
  shows "time_valid u" "sod u + 86400 * unat c = sod t + sod d"
  using time_add_custom_spec [OF assms(1) u8_amount(1) u8_amount(1) assms(2) [unfolded time_add_def]]
  by (simp_all add: u8_amount sod_def [of d])

lemma time_sub_spec:
  assumes "time_valid t" "time_sub t d = (u, c)"
  shows "time_valid u" "sod u + sod d = sod t + 86400 * unat c"
  using time_sub_custom_spec [OF assms(1) u8_amount(1) u8_amount(1) assms(2) [unfolded time_sub_def]]
  by (simp_all add: u8_amount sod_def [of d])

section \<open>Properties\<close>

definition time_sample :: time_of_day where
  "time_sample = \<lparr>t_hour = 23, t_minute = 59, t_second = 58\<rparr>"

lemma time_sample_valid: "time_valid time_sample"
  by code_simp

text \<open>
  Adding or subtracting hours, minutes and seconds moves the second of the day by exactly the
  amount, modulo a day, and returns the number of days carried or borrowed; the result is a valid time,
  and subtracting after adding restores the time and the count of days.
\<close>

theorem time_arith:
  assumes "time_valid t" "amount_ok h" "amount_ok m"
    and "time_add_custom t h m s = (u, c)" "time_sub_custom t h m s = (w, b)"
  shows "time_valid u \<and> sod u + 86400 * unat c = sod t + 3600 * unat h + 60 * unat m + unat s \<and>
     time_valid w \<and> sod w + 3600 * unat h + 60 * unat m + unat s = sod t + 86400 * unat b \<and>
     time_sub_custom u h m s = (t, c)"
proof -
  note a = time_add_custom_spec [OF assms(1-4)] and d = time_sub_custom_spec [OF assms(1-3, 5)]
  obtain x e where x: "time_sub_custom u h m s = (x, e)" by fastforce
  note xs = time_sub_custom_spec [OF a(1) assms(2, 3) x]
  have "sod x + 86400 * unat c = sod t + 86400 * unat e" using a(2) xs(2) by simp
  with radix_digits_unique [OF sod_less [OF xs(1)] sod_less [OF assms(1)]]
  have "sod x = sod t" "unat c = unat e" by blast+
  with sod_inj [OF xs(1) assms(1)] have "time_sub_custom u h m s = (t, c)" using x by (simp add: word_unat_eq_iff)
  with a d show ?thesis by blast
qed

theorem time_arith_witness:
  "time_sub_custom (fst (time_add_custom time_sample 0 0 3)) 0 0 3 = (time_sample, 1)"
proof -
  have a: "time_add_custom time_sample 0 0 3 = (\<lparr>t_hour = 0, t_minute = 0, t_second = 1\<rparr>, 1)" by code_simp
  have s: "time_sub_custom time_sample 0 0 3 = (\<lparr>t_hour = 23, t_minute = 59, t_second = 55\<rparr>, 0)" by code_simp
  show ?thesis
    using time_arith [OF time_sample_valid _ _ a s] a by (simp add: amount_ok_def)
qed

end
