(* ===== verification/Datetime.thy ===== *)
theory Datetime
  imports Date Time_Of_Day
begin

text \<open>
  Date and time together (\<^verbatim>\<open>src/lh/core/datetime.c\<close>) and the signed count of seconds since 1970
  (\<^verbatim>\<open>src/lh/core/timestamp.c\<close>). A timestamp splits into days and seconds of the day by floor division,
  so that instants before the epoch have a nonnegative time of day. The theorems: date-times and
  timestamps are in bijection over the years a date can hold, the comparison of date-times is
  the order of their timestamps, and adding a duration of hours, minutes and seconds to a date-time adds
  the same number of seconds to its timestamp.
\<close>

section \<open>Date-times\<close>

record datetime =
  dt_date :: date
  dt_time :: time_of_day

definition datetime_set :: "date \<Rightarrow> time_of_day \<Rightarrow> datetime" where
  "datetime_set date time = \<lparr>dt_date = date, dt_time = time\<rparr>"

text \<open>The day carried by the time comes before the years, months and days; when subtracting, after.\<close>

definition datetime_add :: "datetime \<Rightarrow> datetime \<Rightarrow> datetime \<times> uint_t" where
  "datetime_add self other =
     (let (time, day_carry) = time_add (dt_time self) (dt_time other);
          (date1, overflow1) = date_add_day (dt_date self) day_carry;
          (date2, overflow2) = date_add date1 (dt_date other)
      in (datetime_set date2 time, overflow1 + overflow2))"

definition datetime_sub :: "datetime \<Rightarrow> datetime \<Rightarrow> datetime \<times> uint_t" where
  "datetime_sub self other =
     (let (date1, overflow1) = date_sub (dt_date self) (dt_date other);
          (time, day_borrow) = time_sub (dt_time self) (dt_time other);
          (date2, overflow2) = date_sub_day date1 day_borrow
      in (datetime_set date2 time, overflow1 + overflow2))"

definition datetime_equals :: "datetime \<Rightarrow> datetime \<Rightarrow> bool" where
  "datetime_equals self other \<longleftrightarrow>
     date_equals (dt_date self) (dt_date other) \<and> time_equals (dt_time self) (dt_time other)"

definition datetime_is_at_least :: "datetime \<Rightarrow> datetime \<Rightarrow> bool" where
  "datetime_is_at_least self minimum =
     (if \<not> date_equals (dt_date self) (dt_date minimum)
      then date_is_at_least (dt_date self) (dt_date minimum)
      else time_is_at_least (dt_time self) (dt_time minimum))"

definition datetime_is_less :: "datetime \<Rightarrow> datetime \<Rightarrow> bool" where
  "datetime_is_less self other \<longleftrightarrow> \<not> datetime_is_at_least self other"

definition datetime_is_greater :: "datetime \<Rightarrow> datetime \<Rightarrow> bool" where
  "datetime_is_greater self other \<longleftrightarrow> datetime_is_less other self"

section \<open>Timestamps\<close>

type_synonym timestamp = int

definition timestamp_from_date :: "date \<Rightarrow> timestamp" where
  "timestamp_from_date self = date_days_since_epoch self * 86400"

definition timestamp_from_time :: "time_of_day \<Rightarrow> timestamp" where
  "timestamp_from_time self = uint (time_seconds_of_day self)"

definition timestamp_from_datetime :: "datetime \<Rightarrow> timestamp" where
  "timestamp_from_datetime self = timestamp_from_date (dt_date self) + timestamp_from_time (dt_time self)"

definition timestamp_get_days :: "timestamp \<Rightarrow> int" where
  "timestamp_get_days self = math_floor_div self 86400"

definition timestamp_get_seconds_of_day :: "timestamp \<Rightarrow> int" where
  "timestamp_get_seconds_of_day self = math_floor_mod self 86400"

definition timestamp_get_date :: "timestamp \<Rightarrow> date" where
  "timestamp_get_date self = date_from_epoch_days (timestamp_get_days self)"

definition timestamp_get_time :: "timestamp \<Rightarrow> time_of_day" where
  "timestamp_get_time self = time_from_seconds_of_day (word_of_int (timestamp_get_seconds_of_day self))"

definition timestamp_to_datetime :: "timestamp \<Rightarrow> datetime" where
  "timestamp_to_datetime self = datetime_set (timestamp_get_date self) (timestamp_get_time self)"

definition timestamp_get_year :: "timestamp \<Rightarrow> u16" where
  "timestamp_get_year self = d_year (timestamp_get_date self)"

definition timestamp_get_month :: "timestamp \<Rightarrow> u8" where
  "timestamp_get_month self = d_month (timestamp_get_date self)"

definition timestamp_get_day :: "timestamp \<Rightarrow> u8" where
  "timestamp_get_day self = d_day (timestamp_get_date self)"

definition timestamp_get_hour :: "timestamp \<Rightarrow> u8" where
  "timestamp_get_hour self = t_hour (timestamp_get_time self)"

definition timestamp_get_minute :: "timestamp \<Rightarrow> u8" where
  "timestamp_get_minute self = t_minute (timestamp_get_time self)"

definition timestamp_get_second :: "timestamp \<Rightarrow> u8" where
  "timestamp_get_second self = t_second (timestamp_get_time self)"

definition timestamp_add_seconds :: "timestamp \<Rightarrow> timestamp \<Rightarrow> timestamp" where
  "timestamp_add_seconds self seconds = self + seconds"

definition timestamp_sub_seconds :: "timestamp \<Rightarrow> timestamp \<Rightarrow> timestamp" where
  "timestamp_sub_seconds self seconds = self - seconds"

definition timestamp_add_days :: "timestamp \<Rightarrow> int \<Rightarrow> timestamp" where
  "timestamp_add_days self days = timestamp_add_seconds self (days * 86400)"

definition timestamp_sub_days :: "timestamp \<Rightarrow> int \<Rightarrow> timestamp" where
  "timestamp_sub_days self days = timestamp_sub_seconds self (days * 86400)"

definition timestamp_add_months :: "timestamp \<Rightarrow> uint_t \<Rightarrow> timestamp" where
  "timestamp_add_months self months =
     timestamp_from_date (fst (date_add_month (timestamp_get_date self) months)) + timestamp_get_seconds_of_day self"

definition timestamp_sub_months :: "timestamp \<Rightarrow> uint_t \<Rightarrow> timestamp" where
  "timestamp_sub_months self months =
     timestamp_from_date (fst (date_sub_month (timestamp_get_date self) months)) + timestamp_get_seconds_of_day self"

definition timestamp_add_years :: "timestamp \<Rightarrow> uint_t \<Rightarrow> timestamp" where
  "timestamp_add_years self years =
     timestamp_from_date (fst (date_add_year (timestamp_get_date self) years)) + timestamp_get_seconds_of_day self"

definition timestamp_sub_years :: "timestamp \<Rightarrow> uint_t \<Rightarrow> timestamp" where
  "timestamp_sub_years self years =
     timestamp_from_date (fst (date_sub_year (timestamp_get_date self) years)) + timestamp_get_seconds_of_day self"

definition timestamp_diff :: "timestamp \<Rightarrow> timestamp \<Rightarrow> timestamp" where
  "timestamp_diff self other = self - other"

definition timestamp_equals :: "timestamp \<Rightarrow> timestamp \<Rightarrow> bool" where
  "timestamp_equals self other \<longleftrightarrow> self = other"

definition timestamp_is_at_least :: "timestamp \<Rightarrow> timestamp \<Rightarrow> bool" where
  "timestamp_is_at_least self minimum \<longleftrightarrow> minimum \<le> self"

definition timestamp_is_less :: "timestamp \<Rightarrow> timestamp \<Rightarrow> bool" where
  "timestamp_is_less self other \<longleftrightarrow> \<not> timestamp_is_at_least self other"

definition timestamp_is_greater :: "timestamp \<Rightarrow> timestamp \<Rightarrow> bool" where
  "timestamp_is_greater self other \<longleftrightarrow> timestamp_is_less other self"

section \<open>Splitting a timestamp\<close>

definition datetime_valid :: "datetime \<Rightarrow> bool" where
  "datetime_valid d \<longleftrightarrow> date_valid (dt_date d) \<and> time_valid (dt_time d)"

lemma from_time_int: "timestamp_from_time t = int (sod t)"
  unfolding timestamp_from_time_def by (simp only: uint_nat seconds_of_day_nat)

lemma from_time_range: "time_valid t \<Longrightarrow> 0 \<le> timestamp_from_time t \<and> timestamp_from_time t < 86400"
  using sod_less [of t] by (simp add: from_time_int)

lemma split_from_datetime:
  assumes "datetime_valid d"
  shows "timestamp_get_days (timestamp_from_datetime d) = date_days_since_epoch (dt_date d)"
    "timestamp_get_seconds_of_day (timestamp_from_datetime d) = timestamp_from_time (dt_time d)"
proof -
  have t: "0 \<le> timestamp_from_time (dt_time d)" "timestamp_from_time (dt_time d) < 86400"
    using assms from_time_range by (simp_all add: datetime_valid_def)
  then show "timestamp_get_days (timestamp_from_datetime d) = date_days_since_epoch (dt_date d)"
    "timestamp_get_seconds_of_day (timestamp_from_datetime d) = timestamp_from_time (dt_time d)"
    by (simp_all add: timestamp_get_days_def timestamp_get_seconds_of_day_def timestamp_from_datetime_def
        timestamp_from_date_def)
qed

lemma seconds_of_day_word:
  "unat (word_of_int (timestamp_get_seconds_of_day n) :: uint_t) = nat (n mod 86400)"
proof -
  have "0 \<le> n mod 86400" "n mod 86400 < 86400" by simp_all
  then have "uint (word_of_int (timestamp_get_seconds_of_day n) :: uint_t) = n mod 86400"
    unfolding timestamp_get_seconds_of_day_def by (subst uint_word_of_int_id) simp_all
  then show ?thesis by (metis nat_uint_eq)
qed

lemma get_time_spec: "time_valid (timestamp_get_time n)" "timestamp_from_time (timestamp_get_time n) = n mod 86400"
proof -
  have r: "0 \<le> n mod 86400" "n mod 86400 < 86400" by simp_all
  then have l: "unat (word_of_int (timestamp_get_seconds_of_day n) :: uint_t) < 86400"
    by (simp add: seconds_of_day_word nat_less_iff)
  show "time_valid (timestamp_get_time n)" unfolding timestamp_get_time_def by (rule sod_from_seconds [OF l])
  show "timestamp_from_time (timestamp_get_time n) = n mod 86400"
    using sod_from_seconds(2) [OF l] r by (simp add: from_time_int timestamp_get_time_def seconds_of_day_word)
qed

lemma to_datetime_from:
  assumes "datetime_valid d"
  shows "timestamp_to_datetime (timestamp_from_datetime d) = d"
proof -
  have "timestamp_get_date (timestamp_from_datetime d) = dt_date d"
    using assms by (simp add: timestamp_get_date_def split_from_datetime from_days_since_epoch datetime_valid_def)
  moreover have "timestamp_get_time (timestamp_from_datetime d) = dt_time d"
    using assms
    by (simp add: timestamp_get_time_def split_from_datetime timestamp_from_time_def from_seconds_of_sod
        datetime_valid_def)
  ultimately show ?thesis by (simp add: timestamp_to_datetime_def datetime_set_def)
qed

lemma from_datetime_to:
  assumes "epoch_days_min * 86400 \<le> n" "n < (epoch_days_max + 1) * 86400"
  shows "datetime_valid (timestamp_to_datetime n)" "timestamp_from_datetime (timestamp_to_datetime n) = n"
proof -
  have "epoch_days_min \<le> n div 86400" "n div 86400 \<le> epoch_days_max"
    using assms by (simp_all add: epoch_days_min_def epoch_days_max_def)
  from from_epoch_days_spec [OF this]
  have d: "date_valid (timestamp_get_date n)" "date_days_since_epoch (timestamp_get_date n) = n div 86400"
    by (simp_all add: timestamp_get_date_def timestamp_get_days_def)
  then show "datetime_valid (timestamp_to_datetime n)"
    by (simp add: datetime_valid_def timestamp_to_datetime_def datetime_set_def get_time_spec)
  show "timestamp_from_datetime (timestamp_to_datetime n) = n"
    using d by (simp add: timestamp_from_datetime_def timestamp_to_datetime_def datetime_set_def timestamp_from_date_def
        get_time_spec)
qed

lemma datetime_less_iff:
  assumes "datetime_valid a" "datetime_valid b"
  shows "datetime_is_less a b \<longleftrightarrow> timestamp_from_datetime a < timestamp_from_datetime b"
proof -
  have v: "date_valid (dt_date a)" "date_valid (dt_date b)" "time_valid (dt_time a)" "time_valid (dt_time b)"
    using assms by (simp_all add: datetime_valid_def)
  note t = from_time_range [OF v(3)] from_time_range [OF v(4)]
  show ?thesis
  proof (cases "dt_date a = dt_date b")
    case True
    then show ?thesis
      using sod_less_iff [OF v(3, 4)]
      by (simp add: datetime_is_less_def datetime_is_at_least_def date_equals_def timestamp_from_datetime_def
          from_time_int time_is_less_def)
  next
    case False
    then have "date_days_since_epoch (dt_date a) \<noteq> date_days_since_epoch (dt_date b)" using days_inj v by blast
    moreover have "\<not> date_equals (dt_date a) (dt_date b)" using False by (auto simp: date_equals_def intro: date.equality)
    ultimately show ?thesis
      using is_less_days [OF v(1, 2)] t
      by (auto simp: datetime_is_less_def datetime_is_at_least_def timestamp_from_datetime_def
          timestamp_from_date_def date_is_less_def)
  qed
qed

section \<open>Adding a time span\<close>

lemma month_count_less: "date_valid d \<Longrightarrow> month_count d < 786432"
proof -
  assume "date_valid d"
  then have "1 \<le> unat (d_month d)" "unat (d_month d) \<le> 12" by (simp_all add: date_valid_iff word_le_nat_alt)
  then show ?thesis using u16_less [of "d_year d"] unfolding month_count_def by linarith
qed

lemma month_count_fields:
  assumes "date_valid d" "date_valid e" "month_count e = month_count d"
  shows "d_year e = d_year d" "d_month e = d_month d"
proof -
  have m: "1 \<le> unat (d_month d)" "unat (d_month d) - 1 < 12" "1 \<le> unat (d_month e)" "unat (d_month e) - 1 < 12"
    using assms(1, 2) by (auto simp: date_valid_iff word_le_nat_alt)
  have "unat (d_month e) - 1 + 12 * unat (d_year e) = unat (d_month d) - 1 + 12 * unat (d_year d)"
    using assms(3) by (simp add: month_count_def)
  from radix_digits_unique [OF m(4, 2) this] m
  have "unat (d_year e) = unat (d_year d)" "unat (d_month e) = unat (d_month d)" by linarith+
  then show "d_year e = d_year d" "d_month e = d_month d" by (simp_all add: word_unat_eq_iff)
qed

lemma same_month_same_date:
  assumes "date_valid d" "date_valid e" "month_count e = month_count d" "d_day e = min (d_day d) (date_max_days e)"
  shows "e = d"
proof -
  note f = month_count_fields [OF assms(1-3)]
  have "d_day d \<le> date_max_days e" using assms(1) f by (simp add: date_valid_iff date_max_days_def)
  then show ?thesis using f assms(4) by (simp add: min_def)
qed

lemma add_month_zero: "date_valid d \<Longrightarrow> date_add_month d 0 = (d, 0)"
proof -
  assume d: "date_valid d"
  obtain e c where e: "date_add_month d 0 = (e, c)" by fastforce
  note s = date_add_month_spec [OF d e]
  from radix_digits_unique [OF month_count_less [OF s(1)] month_count_less [OF d], of "unat c" 0] s(2)
  have "month_count e = month_count d" "unat c = 0" by simp_all
  then show ?thesis using same_month_same_date [OF d s(1) _ s(3)] e by (simp add: unat_eq_zero)
qed

lemma sub_month_zero: "date_valid d \<Longrightarrow> date_sub_month d 0 = (d, 0)"
proof -
  assume d: "date_valid d"
  obtain e c where e: "date_sub_month d 0 = (e, c)" by fastforce
  note s = date_sub_month_spec [OF d e]
  from radix_digits_unique [OF month_count_less [OF s(1)] month_count_less [OF d], of 0 "unat c"] s(2)
  have "month_count e = month_count d" "unat c = 0" by simp_all
  then show ?thesis using same_month_same_date [OF d s(1) _ s(3)] e by (simp add: unat_eq_zero)
qed

definition no_days :: date where
  "no_days = \<lparr>d_year = 0, d_month = 0, d_day = 0\<rparr>"

lemma date_add_no_days: "date_valid d \<Longrightarrow> date_add d no_days = (d, 0)"
  by (simp add: date_add_def no_days_def date_add_custom_def date_add_day_def date_add_year_def add_month_zero
      from_days_since_epoch Let_def)

lemma date_sub_no_days: "date_valid d \<Longrightarrow> date_sub d no_days = (d, 0)"
  by (simp add: date_sub_def no_days_def date_sub_custom_def date_sub_day_def date_sub_year_def sub_month_zero
      from_days_since_epoch Let_def)

lemma datetime_add_span:
  assumes "datetime_valid d" and span: "dt_date s = no_days"
    and range: "timestamp_from_datetime d + timestamp_from_time (dt_time s) < (epoch_days_max + 1) * 86400"
  shows "datetime_valid (fst (datetime_add d s))" "snd (datetime_add d s) = 0"
    "timestamp_from_datetime (fst (datetime_add d s)) = timestamp_from_datetime d + timestamp_from_time (dt_time s)"
proof -
  have v: "date_valid (dt_date d)" "time_valid (dt_time d)" using assms(1) by (simp_all add: datetime_valid_def)
  obtain t c where t: "time_add (dt_time d) (dt_time s) = (t, c)" by fastforce
  note ts = time_add_spec [OF v(2) t]
  have sum: "timestamp_from_time t + 86400 * uint c = timestamp_from_time (dt_time d) + timestamp_from_time (dt_time s)"
    using arg_cong [OF ts(2), of int] by (simp add: from_time_int)
  have "date_days_since_epoch (dt_date d) + uint c \<le> epoch_days_max"
    using range sum from_time_range [OF ts(1)]
    by (simp add: timestamp_from_datetime_def timestamp_from_date_def)
  note ds = date_add_day_spec [OF v(1) this]
  have r: "datetime_add d s = (datetime_set (fst (date_add_day (dt_date d) c)) t, 0)"
    using ds span by (simp add: datetime_add_def t date_add_no_days Let_def case_prod_beta)
  show "datetime_valid (fst (datetime_add d s))" "snd (datetime_add d s) = 0"
    using ds ts by (simp_all add: r datetime_valid_def datetime_set_def)
  show "timestamp_from_datetime (fst (datetime_add d s)) = timestamp_from_datetime d + timestamp_from_time (dt_time s)"
    using ds sum by (simp add: r timestamp_from_datetime_def datetime_set_def timestamp_from_date_def)
qed

lemma datetime_sub_span:
  assumes "datetime_valid d" and span: "dt_date s = no_days"
    and range: "epoch_days_min * 86400 \<le> timestamp_from_datetime d - timestamp_from_time (dt_time s)"
  shows "datetime_valid (fst (datetime_sub d s))" "snd (datetime_sub d s) = 0"
    "timestamp_from_datetime (fst (datetime_sub d s)) = timestamp_from_datetime d - timestamp_from_time (dt_time s)"
proof -
  have v: "date_valid (dt_date d)" "time_valid (dt_time d)" using assms(1) by (simp_all add: datetime_valid_def)
  obtain t c where t: "time_sub (dt_time d) (dt_time s) = (t, c)" by fastforce
  note ts = time_sub_spec [OF v(2) t]
  have sum: "timestamp_from_time t + timestamp_from_time (dt_time s) = timestamp_from_time (dt_time d) + 86400 * uint c"
    using arg_cong [OF ts(2), of int] by (simp add: from_time_int)
  have "epoch_days_min \<le> date_days_since_epoch (dt_date d) - uint c"
    using range sum from_time_range [OF ts(1)]
    by (simp add: timestamp_from_datetime_def timestamp_from_date_def)
  note ds = date_sub_day_spec [OF v(1) this]
  have r: "datetime_sub d s = (datetime_set (fst (date_sub_day (dt_date d) c)) t, 0)"
    using ds span v by (simp add: datetime_sub_def t date_sub_no_days Let_def case_prod_beta)
  show "datetime_valid (fst (datetime_sub d s))" "snd (datetime_sub d s) = 0"
    using ds ts by (simp_all add: r datetime_valid_def datetime_set_def)
  show "timestamp_from_datetime (fst (datetime_sub d s)) = timestamp_from_datetime d - timestamp_from_time (dt_time s)"
    using ds sum by (simp add: r timestamp_from_datetime_def datetime_set_def timestamp_from_date_def)
qed

section \<open>Properties\<close>

definition datetime_sample :: datetime where
  "datetime_sample = \<lparr>dt_date = date_sample, dt_time = time_sample\<rparr>"

definition span_sample :: datetime where
  "span_sample = \<lparr>dt_date = no_days, dt_time = \<lparr>t_hour = 0, t_minute = 0, t_second = 3\<rparr>\<rparr>"

lemma datetime_sample_valid: "datetime_valid datetime_sample"
  by (simp add: datetime_valid_def datetime_sample_def date_sample_valid time_sample_valid)

text \<open>
  Converting a valid date-time to a timestamp and back gives the date-time, and converting a
  timestamp of the years 0 to 65535 to a date-time gives a valid one whose timestamp it is.
\<close>

theorem timestamp_roundtrip:
  assumes "datetime_valid d" "epoch_days_min * 86400 \<le> n" "n < (epoch_days_max + 1) * 86400"
  shows "timestamp_to_datetime (timestamp_from_datetime d) = d \<and>
     datetime_valid (timestamp_to_datetime n) \<and> timestamp_from_datetime (timestamp_to_datetime n) = n"
  using to_datetime_from [OF assms(1)] from_datetime_to [OF assms(2, 3)] by simp

theorem timestamp_roundtrip_witness:
  "timestamp_to_datetime (timestamp_from_datetime datetime_sample) = datetime_sample \<and>
   timestamp_from_datetime (timestamp_to_datetime (- 1)) = - 1"
  using timestamp_roundtrip [of datetime_sample "- 1"] datetime_sample_valid
  by (simp add: epoch_days_min_def epoch_days_max_def)

text \<open>
  On valid date-times the field-by-field comparisons are the order of the timestamps, and on valid
  dates those of the day counts.
\<close>

theorem datetime_order:
  assumes "datetime_valid a" "datetime_valid b"
  shows "(datetime_is_less a b \<longleftrightarrow> timestamp_is_less (timestamp_from_datetime a) (timestamp_from_datetime b)) \<and>
     (datetime_equals a b \<longleftrightarrow> timestamp_equals (timestamp_from_datetime a) (timestamp_from_datetime b)) \<and>
     (date_is_less (dt_date a) (dt_date b) \<longleftrightarrow>
        date_days_since_epoch (dt_date a) < date_days_since_epoch (dt_date b))"
proof -
  have "datetime_equals a b \<longleftrightarrow> a = b"
    by (auto simp: datetime_equals_def date_equals_def time_equals_def)
  moreover have "timestamp_from_datetime a = timestamp_from_datetime b \<longleftrightarrow> a = b"
    using to_datetime_from [OF assms(1)] to_datetime_from [OF assms(2)] by metis
  ultimately show ?thesis
    using datetime_less_iff [OF assms] is_less_days [of "dt_date a" "dt_date b"] assms
    by (simp add: timestamp_is_less_def timestamp_is_at_least_def timestamp_equals_def datetime_valid_def not_le)
qed

theorem datetime_order_witness:
  "\<not> datetime_is_less datetime_sample datetime_sample"
  using datetime_order [of datetime_sample datetime_sample] datetime_sample_valid
  by (simp add: timestamp_is_less_def timestamp_is_at_least_def)

text \<open>
  Adding or subtracting a span with no years, months and days moves the timestamp by the seconds of
  the span, carrying into the date as far as needed, while the result stays in the years a date can
  hold; the result is valid and no wrap is reported.
\<close>

theorem datetime_span_arith:
  assumes "datetime_valid d" "dt_date s = no_days"
    and "timestamp_from_datetime d + timestamp_from_time (dt_time s) < (epoch_days_max + 1) * 86400"
    and "epoch_days_min * 86400 \<le> timestamp_from_datetime d - timestamp_from_time (dt_time s)"
  shows "datetime_valid (fst (datetime_add d s)) \<and> snd (datetime_add d s) = 0 \<and>
     timestamp_from_datetime (fst (datetime_add d s)) = timestamp_from_datetime d + timestamp_from_time (dt_time s) \<and>
     datetime_valid (fst (datetime_sub d s)) \<and> snd (datetime_sub d s) = 0 \<and>
     timestamp_from_datetime (fst (datetime_sub d s)) = timestamp_from_datetime d - timestamp_from_time (dt_time s)"
  using datetime_add_span [OF assms(1-3)] datetime_sub_span [OF assms(1, 2, 4)] by simp

theorem datetime_span_arith_witness:
  "timestamp_from_datetime (fst (datetime_add datetime_sample span_sample)) =
     timestamp_from_datetime datetime_sample + 3"
proof -
  have "timestamp_from_datetime datetime_sample = 1709251198" "timestamp_from_time (dt_time span_sample) = 3"
    by code_simp+
  then show ?thesis
    using datetime_span_arith [of datetime_sample span_sample] datetime_sample_valid
    by (simp add: epoch_days_min_def epoch_days_max_def span_sample_def)
qed

end
