(* ===== verification/Text_Digits.thy ===== *)
theory Text_Digits
  imports Prelude
begin

text \<open>
  Numbers as text: digits (\<^verbatim>\<open>include/lh/core/char/digit.h\<close>, \<^verbatim>\<open>char/xdigit.h\<close>), the parsers of unsigned
  numbers (\<^verbatim>\<open>src/lh/core/str/parse/uint.c\<close>, \<^verbatim>\<open>ullong.c\<close>, \<^verbatim>\<open>radix.c\<close>, \<^verbatim>\<open>hex.c\<close>), the splitter into
  fields (\<^verbatim>\<open>str/split/next.c\<close>) and the printers (\<^verbatim>\<open>str/format/uint.c\<close>, \<^verbatim>\<open>sint.c\<close>, \<^verbatim>\<open>hex.c\<close>).
  Text is a list of characters whose length is the size the C functions are given. A parser returns
  \<open>None\<close> for \<^verbatim>\<open>lh_bool_false\<close>, in which case the C code leaves its output alone; a printer returns the
  characters it wrote, none at all when they do not fit.
\<close>

section \<open>Digits\<close>

abbreviation ord :: "char \<Rightarrow> nat" where
  "ord c \<equiv> of_char c"

definition char_is_digit :: "char \<Rightarrow> bool" where
  "char_is_digit ch \<longleftrightarrow> ord CHR ''0'' \<le> ord ch \<and> ord ch \<le> ord CHR ''9''"

definition char_to_digit :: "char \<Rightarrow> u8" where
  "char_to_digit ch = of_nat (ord ch - ord CHR ''0'')"

definition char_from_digit :: "u8 \<Rightarrow> char" where
  "char_from_digit digit = char_of (ord CHR ''0'' + unat digit)"

text \<open>
  The two widths of \<^verbatim>\<open>lh_char_digit_accumulate_radix\<close> share their text; the result is \<open>None\<close> when the
  value would leave the type.
\<close>

definition digit_accumulate_radix :: "'w::len word \<Rightarrow> u8 \<Rightarrow> 'w word \<Rightarrow> 'w word option" where
  "digit_accumulate_radix value digit radix =
     (if (- 1 - ucast digit) div radix < value then None else Some (value * radix + ucast digit))"

definition digit_accumulate :: "'w::len word \<Rightarrow> u8 \<Rightarrow> 'w word option" where
  "digit_accumulate value digit = digit_accumulate_radix value digit 10"

definition digit_extract :: "uint_t \<Rightarrow> uint_t \<Rightarrow> u8 \<times> uint_t" where
  "digit_extract value radix = (ucast (value mod radix), value div radix)"

definition char_is_xdigit :: "char \<Rightarrow> bool" where
  "char_is_xdigit ch \<longleftrightarrow> char_is_digit ch \<or>
     (ord CHR ''a'' \<le> ord ch \<and> ord ch \<le> ord CHR ''f'') \<or> (ord CHR ''A'' \<le> ord ch \<and> ord ch \<le> ord CHR ''F'')"

definition char_to_xdigit :: "char \<Rightarrow> u8" where
  "char_to_xdigit ch =
     (if char_is_digit ch then char_to_digit ch
      else if ord CHR ''a'' \<le> ord ch \<and> ord ch \<le> ord CHR ''z'' then of_nat (ord ch - ord CHR ''a'' + 10)
      else of_nat (ord ch - ord CHR ''A'' + 10))"

definition char_is_radix_digit :: "char \<Rightarrow> uint_t \<Rightarrow> bool" where
  "char_is_radix_digit ch radix \<longleftrightarrow> char_is_xdigit ch \<and> ucast (char_to_xdigit ch) < radix"

section \<open>Parsing\<close>

text \<open>
  The digit loop shared by all parsers: it stops at the first character that is no digit, and fails
  when the value leaves the type or passes the limit.
\<close>

fun digits_loop :: "(char \<Rightarrow> bool) \<Rightarrow> (char \<Rightarrow> u8) \<Rightarrow> 'w::len word \<Rightarrow> 'w word \<Rightarrow> 'w word \<Rightarrow> string
    \<Rightarrow> ('w word \<times> string) option" where
  "digits_loop is_digit to_digit radix limit value [] = Some (value, [])"
| "digits_loop is_digit to_digit radix limit value (c # cs) =
     (if is_digit c then
        (case digit_accumulate_radix value (to_digit c) radix of
           None \<Rightarrow> None
         | Some v \<Rightarrow> if limit < v then None else digits_loop is_digit to_digit radix limit v cs)
      else Some (value, c # cs))"

definition parse_all :: "(char \<Rightarrow> bool) \<Rightarrow> (char \<Rightarrow> u8) \<Rightarrow> 'w::len word \<Rightarrow> 'w word \<Rightarrow> string \<Rightarrow> 'w word option" where
  "parse_all is_digit to_digit radix limit str =
     (if str = [] then None
      else case digits_loop is_digit to_digit radix limit 0 str of
             None \<Rightarrow> None
           | Some (value, rest) \<Rightarrow> if rest \<noteq> [] then None else Some value)"

definition parse_uint_digits :: "uint_t \<Rightarrow> string \<Rightarrow> uint_t option" where
  "parse_uint_digits limit str = parse_all char_is_digit char_to_digit 10 limit str"

definition parse_uint :: "uint_t \<Rightarrow> string \<Rightarrow> uint_t option" where
  "parse_uint limit str =
     (if 1 < length str \<and> str ! 0 = CHR ''0'' then None else parse_uint_digits limit str)"

definition parse_uint_prefix :: "uint_t \<Rightarrow> string \<Rightarrow> (nat \<times> uint_t) option" where
  "parse_uint_prefix limit str =
     (let n = length (takeWhile char_is_digit str)
      in if n = 0 then None
         else case parse_uint limit (take n str) of None \<Rightarrow> None | Some value \<Rightarrow> Some (n, value))"

definition parse_ullong_digits :: "ullong_t \<Rightarrow> string \<Rightarrow> ullong_t option" where
  "parse_ullong_digits limit str = parse_all char_is_digit char_to_digit 10 limit str"

definition parse_ullong :: "ullong_t \<Rightarrow> string \<Rightarrow> ullong_t option" where
  "parse_ullong limit str =
     (if 1 < length str \<and> str ! 0 = CHR ''0'' then None else parse_ullong_digits limit str)"

definition parse_radix :: "uint_t \<Rightarrow> uint_t \<Rightarrow> string \<Rightarrow> uint_t option" where
  "parse_radix radix limit str =
     parse_all (\<lambda>c. char_is_radix_digit c radix) char_to_xdigit radix limit str"

definition parse_radix_ullong :: "uint_t \<Rightarrow> ullong_t \<Rightarrow> string \<Rightarrow> ullong_t option" where
  "parse_radix_ullong radix limit str =
     parse_all (\<lambda>c. char_is_radix_digit c radix) char_to_xdigit (ucast radix) limit str"

definition count_radix_digits :: "uint_t \<Rightarrow> string \<Rightarrow> nat" where
  "count_radix_digits radix str = length (takeWhile (\<lambda>c. char_is_radix_digit c radix) str)"

definition parse_hex :: "uint_t \<Rightarrow> string \<Rightarrow> uint_t option" where
  "parse_hex limit str = parse_all char_is_xdigit char_to_xdigit 16 limit str"

definition parse_hex_prefix :: "uint_t \<Rightarrow> string \<Rightarrow> (nat \<times> uint_t) option" where
  "parse_hex_prefix limit str =
     (let n = length (takeWhile char_is_xdigit str)
      in if n = 0 then None
         else case parse_hex limit (take n str) of None \<Rightarrow> None | Some value \<Rightarrow> Some (n, value))"

section \<open>Splitting into fields\<close>

text \<open>
  The position of the first character of \<open>str\<close> that is one of \<open>chars\<close>: the contract of
  \<^verbatim>\<open>lh_str_ptr_find_of_chars\<close>, whose vectorised searches are not modelled.
\<close>

definition find_of_chars :: "string \<Rightarrow> string \<Rightarrow> nat option" where
  "find_of_chars str chars =
     (let n = length (takeWhile (\<lambda>c. c \<notin> set chars) str) in if n < length str then Some n else None)"

text \<open>A field, whether a delimiter ended it, and the new cursor.\<close>

definition split_next_of :: "string \<Rightarrow> string \<Rightarrow> nat \<Rightarrow> (string \<times> bool \<times> nat) option" where
  "split_next_of str delims pos =
     (let start = pos
      in if length str \<le> start then None
         else let from = drop start str
              in case find_of_chars from delims of
                   Some n \<Rightarrow> Some (take n from, True, start + n + 1)
                 | None \<Rightarrow> Some (from, False, length str))"

definition split_next :: "string \<Rightarrow> char \<Rightarrow> nat \<Rightarrow> (string \<times> bool \<times> nat) option" where
  "split_next str delim pos = split_next_of str [delim] pos"

definition split_next_uint_digits :: "string \<Rightarrow> char \<Rightarrow> nat \<Rightarrow> uint_t \<Rightarrow> bool \<Rightarrow> (uint_t \<times> nat) option" where
  "split_next_uint_digits str delim pos limit want_delim =
     (case split_next str delim pos of
        None \<Rightarrow> None
      | Some (field, had_delim, pos') \<Rightarrow>
          (case parse_uint_digits limit field of
             None \<Rightarrow> None
           | Some value \<Rightarrow> if had_delim = want_delim then Some (value, pos') else None))"

section \<open>Printing\<close>

text \<open>The do-while loop of \<^verbatim>\<open>lh_str_ptr_format_uint\<close>: digits from the lowest up.\<close>

function digits_up :: "uint_t \<Rightarrow> u8 list" where
  "digits_up value =
     (let (digit, rest) = digit_extract value 10
      in if 0 < rest then digit # digits_up rest else [digit])"
  by auto

termination digits_up
proof (relation "measure unat", goal_cases)
  case (2 v p digit rest)
  then have r: "rest = v div 10" "0 < rest" by (simp_all add: digit_extract_def)
  then have "unat rest = unat v div 10" by (simp add: unat_div)
  moreover have "0 < unat rest" using r(2) by (simp add: word_less_nat_alt)
  ultimately show ?case by simp
qed simp

declare digits_up.simps [simp del]

definition format_uint :: "uint_t \<Rightarrow> nat \<Rightarrow> string" where
  "format_uint value str_size =
     (let digits = map char_from_digit (digits_up value)
      in if str_size < length digits then [] else rev digits)"

section \<open>What the parsers accept\<close>

definition digits_value :: "nat \<Rightarrow> (char \<Rightarrow> u8) \<Rightarrow> nat \<Rightarrow> string \<Rightarrow> nat" where
  "digits_value radix to_digit = foldl (\<lambda>n c. n * radix + unat (to_digit c))"

lemma digits_value_simps [simp]:
  "digits_value r f n [] = n"
  "digits_value r f n (c # cs) = digits_value r f (n * r + unat (f c)) cs"
  by (simp_all add: digits_value_def)

lemma digits_value_append: "digits_value r f n (xs @ ys) = digits_value r f (digits_value r f n xs) ys"
  by (simp add: digits_value_def)

lemma xdigit_value: "char_is_xdigit c \<Longrightarrow> unat (char_to_xdigit c) < 16"
  by (auto simp: char_is_xdigit_def char_to_xdigit_def char_is_digit_def char_to_digit_def unat_of_nat
      simp del: of_nat_diff of_nat_add of_nat_Suc)

lemma digits_value_ge: "0 < r \<Longrightarrow> n \<le> digits_value r f n cs"
proof (induction cs arbitrary: n)
  case (Cons c cs)
  have "n \<le> n * r + unat (f c)" using Cons.prems by (simp add: trans_le_add1)
  also have "\<dots> \<le> digits_value r f n (c # cs)" using Cons by simp
  finally show ?case .
qed simp

lemma accumulate_exact:
  fixes v r :: "'w::len word"
  assumes "8 \<le> LENGTH('w)" "0 < unat r"
  shows "digit_accumulate_radix v d r =
     (if unat v * unat r + unat d < 2 ^ LENGTH('w) then Some (of_nat (unat v * unat r + unat d)) else None)"
proof -
  have d: "unat (ucast d :: 'w word) = unat d" using assms(1) by (simp add: unat_ucast_up)
  have dl': "unat d < 2 ^ LENGTH('w)" using unsigned_less [of "ucast d :: 'w word", where ?'a = nat] d by simp
  then have dl: "unat d \<le> 2 ^ LENGTH('w) - 1" by simp
  have m: "unat (- 1 :: 'w word) = 2 ^ LENGTH('w) - 1"
    by (simp add: unsigned_minus_1_eq_mask mask_eq_exp_minus_1)
  have "unat (- 1 - ucast d :: 'w word) = 2 ^ LENGTH('w) - 1 - unat d"
    using dl by (subst unat_sub) (simp_all add: word_le_nat_alt m d)
  then have "(- 1 - ucast d) div r < v \<longleftrightarrow> (2 ^ LENGTH('w) - 1 - unat d) div unat r < unat v"
    by (simp add: word_less_nat_alt unat_div)
  also have "\<dots> \<longleftrightarrow> 2 ^ LENGTH('w) - 1 - unat d < unat v * unat r"
    by (rule div_less_iff_less_mult [OF assms(2)])
  also have "\<dots> \<longleftrightarrow> \<not> unat v * unat r + unat d < 2 ^ LENGTH('w)" using dl' by (intro iffI) linarith+
  finally have c: "(- 1 - ucast d) div r < v \<longleftrightarrow> \<not> unat v * unat r + unat d < 2 ^ LENGTH('w)" .
  have "v * r + ucast d = of_nat (unat v * unat r + unat d)" by simp
  then show ?thesis by (simp add: digit_accumulate_radix_def c)
qed

lemma digits_loop_all:
  fixes val :: "'w::len word"
  assumes "8 \<le> LENGTH('w)" "0 < unat radix" "val \<le> limit" "list_all is_digit cs"
  shows "digits_loop is_digit to_digit radix limit val cs =
     (if digits_value (unat radix) to_digit (unat val) cs \<le> unat limit
      then Some (of_nat (digits_value (unat radix) to_digit (unat val) cs), []) else None)"
  using assms(3, 4)
proof (induction cs arbitrary: val)
  case Nil
  then show ?case by (simp add: word_le_nat_alt)
next
  case (Cons c cs)
  let ?n = "unat val * unat radix + unat (to_digit c)"
  let ?D = "digits_value (unat radix) to_digit"
  have ge: "?n \<le> ?D ?n cs" by (rule digits_value_ge [OF assms(2)])
  have lim: "unat limit < 2 ^ LENGTH('w)" by (rule unsigned_less)
  show ?case
  proof (cases "?n \<le> unat limit")
    case True
    then have u: "unat (of_nat ?n :: 'w word) = ?n" using lim by (intro unat_of_nat_small) linarith
    have acc: "digit_accumulate_radix val (to_digit c) radix = Some (of_nat ?n)"
      unfolding accumulate_exact [OF assms(1, 2)] using True lim by (intro if_P) linarith
    have le: "of_nat ?n \<le> limit" unfolding word_le_nat_alt u by (rule True)
    have "digits_loop is_digit to_digit radix limit val (c # cs) =
        digits_loop is_digit to_digit radix limit (of_nat ?n) cs"
      using Cons.prems leD [OF le] acc by (simp del: of_nat_add of_nat_mult)
    also have "\<dots> = (if ?D (unat (of_nat ?n :: 'w word)) cs \<le> unat limit
        then Some (of_nat (?D (unat (of_nat ?n :: 'w word)) cs), []) else None)"
      by (rule Cons.IH [OF le]) (use Cons.prems in simp)
    finally show ?thesis unfolding u by simp
  next
    case False
    then have "limit < of_nat ?n" if "?n < 2 ^ LENGTH('w)"
      unfolding word_less_nat_alt unat_of_nat_small [OF that] using that by simp
    with False ge Cons.prems show ?thesis by (simp add: accumulate_exact [OF assms(1, 2)])
  qed
qed

lemma digits_loop_rest:
  "digits_loop is_digit to_digit radix limit val cs = Some (v, []) \<Longrightarrow> list_all is_digit cs"
  by (induction is_digit to_digit radix limit val cs rule: digits_loop.induct)
    (auto split: if_splits option.splits)

lemma parse_all_exact:
  fixes radix limit :: "'w::len word"
  assumes "8 \<le> LENGTH('w)" "0 < unat radix"
  shows "parse_all is_digit to_digit radix limit str =
     (if str \<noteq> [] \<and> list_all is_digit str \<and> digits_value (unat radix) to_digit 0 str \<le> unat limit
      then Some (of_nat (digits_value (unat radix) to_digit 0 str)) else None)"
proof (cases "list_all is_digit str")
  case True
  then show ?thesis using digits_loop_all [OF assms, of 0 limit is_digit str to_digit] by (simp add: parse_all_def)
next
  case False
  then show ?thesis
    using digits_loop_rest [of is_digit to_digit radix limit 0 str]
    by (auto simp: parse_all_def split: option.splits prod.splits)
qed

abbreviation dec_value :: "string \<Rightarrow> nat" where
  "dec_value \<equiv> digits_value 10 char_to_digit 0"

lemma parse_uint_digits_exact:
  "parse_uint_digits limit str =
     (if str \<noteq> [] \<and> list_all char_is_digit str \<and> dec_value str \<le> unat limit
      then Some (of_nat (dec_value str)) else None)"
  using parse_all_exact [of "10 :: uint_t" char_is_digit char_to_digit limit str] by (simp add: parse_uint_digits_def)

lemma parse_ullong_digits_exact:
  "parse_ullong_digits limit str =
     (if str \<noteq> [] \<and> list_all char_is_digit str \<and> dec_value str \<le> unat limit
      then Some (of_nat (dec_value str)) else None)"
  using parse_all_exact [of "10 :: ullong_t" char_is_digit char_to_digit limit str]
  by (simp add: parse_ullong_digits_def)

lemma parse_hex_exact:
  "parse_hex limit str =
     (if str \<noteq> [] \<and> list_all char_is_xdigit str \<and> digits_value 16 char_to_xdigit 0 str \<le> unat limit
      then Some (of_nat (digits_value 16 char_to_xdigit 0 str)) else None)"
  using parse_all_exact [of "16 :: uint_t" char_is_xdigit char_to_xdigit limit str] by (simp add: parse_hex_def)

section \<open>What the printer writes\<close>

lemma from_digit_facts:
  assumes "unat d < 10"
  shows "char_is_digit (char_from_digit d)" "char_to_digit (char_from_digit d) = d"
    "char_from_digit d = CHR ''0'' \<longleftrightarrow> d = 0"
proof -
  have o: "ord (char_from_digit d) = 48 + unat d" using assms by (simp add: char_from_digit_def)
  then show "char_is_digit (char_from_digit d)" "char_to_digit (char_from_digit d) = d"
    using assms by (simp_all add: char_is_digit_def char_to_digit_def)
  show "char_from_digit d = CHR ''0'' \<longleftrightarrow> d = 0"
  proof
    assume "char_from_digit d = CHR ''0''"
    then have "ord (char_from_digit d) = ord CHR ''0''" by (rule arg_cong)
    with o show "d = 0" by (simp add: unat_eq_zero)
  next
    have "char_from_digit 0 = CHR ''0''" by code_simp
    then show "d = 0 \<Longrightarrow> char_from_digit d = CHR ''0''" by simp
  qed
qed

lemma digit_extract_nat:
  "unat (fst (digit_extract v 10)) = unat v mod 10" "unat (snd (digit_extract v 10)) = unat v div 10"
proof -
  have "unat v mod 10 < 256" using mod_less_divisor [of 10 "unat v"] by linarith
  then show "unat (fst (digit_extract v 10)) = unat v mod 10"
    by (simp add: digit_extract_def unat_ucast_mod unat_mod)
  show "unat (snd (digit_extract v 10)) = unat v div 10" by (simp add: digit_extract_def unat_div)
qed

lemma digits_up_step:
  "digits_up v = (if 10 \<le> unat v then fst (digit_extract v 10) # digits_up (snd (digit_extract v 10))
     else [fst (digit_extract v 10)])"
proof -
  have "0 < snd (digit_extract v 10) \<longleftrightarrow> 10 \<le> unat v"
    using digit_extract_nat(2) [of v] by (simp add: word_less_nat_alt div_greater_zero_iff)
  then show ?thesis by (subst digits_up.simps) (simp add: case_prod_beta)
qed

lemma digits_up_facts:
  "list_all (\<lambda>d. unat d < 10) (digits_up v) \<and> digits_up v \<noteq> [] \<and>
   dec_value (rev (map char_from_digit (digits_up v))) = unat v \<and>
   (last (digits_up v) = 0 \<longrightarrow> v = 0)"
proof (induction "unat v" arbitrary: v rule: less_induct)
  case less
  let ?d = "fst (digit_extract v 10)" and ?r = "snd (digit_extract v 10)"
  note n = digit_extract_nat [of v]
  have d: "unat ?d < 10" using n(1) by simp
  show ?case
  proof (cases "10 \<le> unat v")
    case True
    then have "unat ?r < unat v" using n(2) by simp
    from less [OF this] have IH: "list_all (\<lambda>d. unat d < 10) (digits_up ?r)" "digits_up ?r \<noteq> []"
      "dec_value (rev (map char_from_digit (digits_up ?r))) = unat ?r" "last (digits_up ?r) = 0 \<longrightarrow> ?r = 0"
      by blast+
    have e: "digits_up v = ?d # digits_up ?r" using True by (subst digits_up_step) simp
    have "unat ?r \<noteq> 0" using True n(2) by (simp add: div_eq_0_iff)
    then have r0: "?r \<noteq> 0" by auto
    have "dec_value (rev (map char_from_digit (digits_up v))) = unat ?r * 10 + unat ?d"
      by (simp add: e digits_value_append IH(3) from_digit_facts(2) [OF d])
    also have "\<dots> = unat v" using n by simp
    finally show ?thesis using IH d r0 by (simp add: e)
  next
    case False
    have e: "digits_up v = [?d]" using False by (subst digits_up_step) simp
    have u: "unat ?d = unat v" using False n(1) by simp
    then have "?d = 0 \<longrightarrow> v = 0" by (metis unat_eq_zero)
    with u show ?thesis using d by (simp add: e from_digit_facts(2) [OF d])
  qed
qed

lemma digits_up_length: "unat v < 10 ^ Suc n \<Longrightarrow> length (digits_up v) \<le> Suc n"
proof (induction n arbitrary: v)
  case 0
  then show ?case by (subst digits_up_step) simp
next
  case (Suc n)
  have "unat (snd (digit_extract v 10)) < 10 ^ Suc n"
    using Suc.prems by (simp add: digit_extract_nat less_mult_imp_div_less)
  then show ?case using Suc.IH by (subst digits_up_step) simp
qed

lemma digits_up_10: "length (digits_up v) \<le> 10"
proof -
  have "unat v < 10 ^ Suc 9" using unsigned_less [of v, where ?'a = nat] by simp
  then show ?thesis using digits_up_length by fastforce
qed

definition uint_text :: "uint_t \<Rightarrow> string" where
  "uint_text v = rev (map char_from_digit (digits_up v))"

lemma uint_text_facts:
  shows "uint_text v \<noteq> []" "list_all char_is_digit (uint_text v)" "dec_value (uint_text v) = unat v"
    "length (uint_text v) \<le> 10"
proof -
  note f = digits_up_facts [of v]
  then show "uint_text v \<noteq> []" "dec_value (uint_text v) = unat v" by (simp_all add: uint_text_def)
  show "list_all char_is_digit (uint_text v)" using f by (auto simp: uint_text_def list_all_iff from_digit_facts)
  show "length (uint_text v) \<le> 10" by (simp add: uint_text_def digits_up_10)
qed

lemma uint_text_no_zero: "1 < length (uint_text v) \<Longrightarrow> uint_text v ! 0 \<noteq> CHR ''0''"
proof -
  assume l: "1 < length (uint_text v)"
  then have "10 \<le> unat v" by (rule contrapos_pp) (simp add: uint_text_def digits_up_step [of v])
  then have "v \<noteq> 0" by auto
  with digits_up_facts [of v] have "last (digits_up v) \<noteq> 0" "unat (last (digits_up v)) < 10" "digits_up v \<noteq> []"
    by (auto simp: list_all_iff)
  moreover have "uint_text v ! 0 = char_from_digit (last (digits_up v))"
    using \<open>digits_up v \<noteq> []\<close> by (simp add: uint_text_def rev_nth last_conv_nth)
  ultimately show ?thesis using from_digit_facts(3) by metis
qed

lemma format_uint_text: "format_uint v n = (if n < length (uint_text v) then [] else uint_text v)"
  by (simp add: format_uint_def uint_text_def Let_def)

lemma parse_uint_text: "v \<le> limit \<Longrightarrow> parse_uint limit (uint_text v) = Some v"
  using uint_text_no_zero [of v] uint_text_facts [of v]
  by (auto simp: parse_uint_def parse_uint_digits_exact word_le_nat_alt)

end
