(* ===== verification/Text_Mask.thy ===== *)
theory Text_Mask
  imports Text_Digits
begin

text \<open>
  Printing through a mask: the reader of conversion specifications
  (\<^verbatim>\<open>src/lh/core/str/scanf/next.c\<close>, \<^verbatim>\<open>scanf/spec.c\<close>), the printers of signed and hexadecimal numbers
  (\<^verbatim>\<open>str/format/sint.c\<close>, \<^verbatim>\<open>hex.c\<close>) and the walk that writes a mask with its arguments
  (\<^verbatim>\<open>str/format/text.c\<close>), in its writing and its counting form. A mask is the text before its
  terminator and the cursor into it is what is left of it. The variable arguments are a list of
  typed values; a mask that asks for another argument than it gets is undefined in C and has the
  value \<open>None\<close> here. Shown: the writing form never passes the end of its buffer, is all or
  nothing, and agrees with the counting form on the length.
\<close>

section \<open>Conversion specifications\<close>

datatype spec_kind =
    Kind_invalid
  | Kind_literal
  | Kind_percent
  | Kind_char
  | Kind_str
  | Kind_uint
  | Kind_sint
  | Kind_hex

record scanf_spec =
  kind :: spec_kind
  zero_pad :: bool
  left_justify :: bool
  uppercase :: bool
  width :: uint_t
  have_precision :: bool
  precision :: uint_t
  literal :: string

definition spec_clear :: scanf_spec where
  "spec_clear = \<lparr>kind = Kind_invalid, zero_pad = False, left_justify = False, uppercase = False,
     width = 0, have_precision = False, precision = 0, literal = []\<rparr>"

definition spec_set_conversion :: "char \<Rightarrow> scanf_spec \<Rightarrow> scanf_spec" where
  "spec_set_conversion conversion self =
     (if conversion = CHR ''%'' then self\<lparr>kind := Kind_percent\<rparr>
      else if conversion = CHR ''c'' then self\<lparr>kind := Kind_char\<rparr>
      else if conversion = CHR ''s'' then self\<lparr>kind := Kind_str\<rparr>
      else if conversion = CHR ''u'' then self\<lparr>kind := Kind_uint\<rparr>
      else if conversion = CHR ''d'' \<or> conversion = CHR ''i'' then self\<lparr>kind := Kind_sint\<rparr>
      else if conversion = CHR ''x'' then self\<lparr>kind := Kind_hex\<rparr>
      else if conversion = CHR ''X'' then self\<lparr>kind := Kind_hex, uppercase := True\<rparr>
      else self)"

definition spec_get_limit :: "scanf_spec \<Rightarrow> nat \<Rightarrow> nat" where
  "spec_get_limit self remaining =
     (if 0 < unat (width self) \<and> unat (width self) < remaining then unat (width self) else remaining)"

definition spec_get_pad :: "scanf_spec \<Rightarrow> nat \<Rightarrow> nat" where
  "spec_get_pad self n = (if n < unat (width self) then unat (width self) - n else 0)"

abbreviation nul :: char where
  "nul \<equiv> CHR 0x00"

text \<open>The character under the cursor; the terminator once the mask is used up.\<close>

fun fmt_at :: "string \<Rightarrow> char" where
  "fmt_at [] = nul"
| "fmt_at (c # cs) = c"

definition scanf_next_literal :: "string \<Rightarrow> scanf_spec \<Rightarrow> scanf_spec \<times> string" where
  "scanf_next_literal fmt out =
     (out\<lparr>kind := Kind_literal, literal := takeWhile (\<lambda>c. c \<noteq> nul \<and> c \<noteq> CHR ''%'') fmt\<rparr>,
      dropWhile (\<lambda>c. c \<noteq> nul \<and> c \<noteq> CHR ''%'') fmt)"

fun scanf_next_flags :: "string \<Rightarrow> scanf_spec \<Rightarrow> scanf_spec \<times> string" where
  "scanf_next_flags [] out = (out, [])"
| "scanf_next_flags (c # cs) out =
     (if c = CHR ''0'' then scanf_next_flags cs (out\<lparr>zero_pad := True\<rparr>)
      else if c = CHR ''-'' then scanf_next_flags cs (out\<lparr>left_justify := True\<rparr>)
      else (out, c # cs))"

text \<open>Whether the number fits, the number so far, and the cursor.\<close>

fun scanf_next_number :: "string \<Rightarrow> uint_t \<Rightarrow> bool \<times> uint_t \<times> string" where
  "scanf_next_number [] number = (True, number, [])"
| "scanf_next_number (c # cs) number =
     (if char_is_digit c then
        (case digit_accumulate number (char_to_digit c) of
           None \<Rightarrow> (False, number, c # cs)
         | Some n \<Rightarrow> scanf_next_number cs n)
      else (True, number, c # cs))"

definition scanf_next :: "string \<Rightarrow> (scanf_spec \<times> string) option" where
  "scanf_next fmt =
     (let out = spec_clear\<lparr>literal := fmt\<rparr>
      in if fmt_at fmt = nul then None
         else if fmt_at fmt \<noteq> CHR ''%'' then Some (scanf_next_literal fmt out)
         else
           let fmt1 = tl fmt; ch = fmt_at fmt1
           in if ch \<noteq> CHR ''0'' \<and> ch \<noteq> CHR ''-'' \<and> ch \<noteq> CHR ''.'' \<and> ch \<noteq> nul \<and> \<not> char_is_digit ch
              then Some (spec_set_conversion ch out, tl fmt1)
              else
                let (out1, fmt2) = scanf_next_flags fmt1 out;
                    (fits, number, fmt3) = scanf_next_number fmt2 0
                in if \<not> fits then Some (out1, fmt3)
                   else
                     let out2 = out1\<lparr>width := number\<rparr>;
                         (fits', out3, fmt4) =
                           (if fmt_at fmt3 = CHR ''.'' then
                              let (fits', number', fmt4) = scanf_next_number (tl fmt3) 0
                              in (fits',
                                  if fits' then out2\<lparr>have_precision := True, precision := number'\<rparr>
                                  else out2\<lparr>have_precision := True\<rparr>, fmt4)
                            else (True, out2, fmt3))
                     in if \<not> fits' then Some (out3, fmt4)
                        else if fmt_at fmt4 = nul then Some (out3, fmt4)
                        else Some (spec_set_conversion (fmt_at fmt4) out3, tl fmt4))"

section \<open>Values\<close>

definition format_sint :: "32 word \<Rightarrow> nat \<Rightarrow> string" where
  "format_sint value str_size =
     (if \<not> sint value < 0 then format_uint value str_size
      else if str_size = 0 then []
      else let written = format_uint (0 - value) (str_size - 1)
           in if written = [] then [] else CHR ''-'' # written)"

text \<open>The position of the highest set bit: the contract of \<^verbatim>\<open>lh_bit_scan_reverse_u32\<close>.\<close>

fun scan_reverse :: "nat \<Rightarrow> nat" where
  "scan_reverse n = (if n div 2 = 0 then 0 else Suc (scan_reverse (n div 2)))"

declare scan_reverse.simps [simp del]

definition hex_alphabet :: "bool \<Rightarrow> string" where
  "hex_alphabet upper = (if upper then ''0123456789ABCDEF'' else ''0123456789abcdef'')"

primrec hex_digits :: "bool \<Rightarrow> nat \<Rightarrow> uint_t \<Rightarrow> string" where
  "hex_digits upper 0 value = []"
| "hex_digits upper (Suc i) value =
     (let (digit, rest) = digit_extract value 16
      in hex_digits upper i rest @ [hex_alphabet upper ! unat digit])"

definition format_hex :: "uint_t \<Rightarrow> bool \<Rightarrow> nat \<Rightarrow> string" where
  "format_hex value upper str_size =
     (let digit_count = (if value = 0 then 1 else scan_reverse (unat value) div 4 + 1)
      in if str_size < digit_count then [] else hex_digits upper digit_count value)"

section \<open>The walk over a mask\<close>

datatype arg =
    Arg_int "32 word"
  | Arg_uint uint_t
  | Arg_str string

definition value_buf_max :: nat where
  "value_buf_max = 4 * 3 + 1"

definition format_text_get_value :: "scanf_spec \<Rightarrow> arg list \<Rightarrow> (bool \<times> string \<times> arg list) option" where
  "format_text_get_value spec args =
     (case kind spec of
        Kind_percent \<Rightarrow> Some (True, ''%'', args)
      | Kind_char \<Rightarrow>
          (case args of Arg_int w # rest \<Rightarrow> Some (True, [char_of (unat w)], rest) | _ \<Rightarrow> None)
      | Kind_uint \<Rightarrow>
          (case args of Arg_uint v # rest \<Rightarrow>
             let text = format_uint v value_buf_max in Some (text \<noteq> [], text, rest)
           | _ \<Rightarrow> None)
      | Kind_sint \<Rightarrow>
          (case args of Arg_int v # rest \<Rightarrow>
             let text = format_sint v value_buf_max in Some (text \<noteq> [], text, rest)
           | _ \<Rightarrow> None)
      | Kind_hex \<Rightarrow>
          (case args of Arg_uint v # rest \<Rightarrow>
             let text = format_hex v (uppercase spec) value_buf_max in Some (text \<noteq> [], text, rest)
           | _ \<Rightarrow> None)
      | Kind_str \<Rightarrow>
          (case args of Arg_str s # rest \<Rightarrow>
             let text = takeWhile (\<lambda>c. c \<noteq> nul) s
             in Some (True, if have_precision spec then take (unat (precision spec)) text else text, rest)
           | _ \<Rightarrow> None)
      | _ \<Rightarrow> Some (False, [], args))"

text \<open>
  Output: \<open>None\<close> as room counts, \<open>Some size\<close> writes into a buffer of that size; the characters put so
  far give the position.
\<close>

definition format_text_put_text :: "nat option \<Rightarrow> string \<Rightarrow> string \<Rightarrow> string option" where
  "format_text_put_text room out text =
     (case room of
        None \<Rightarrow> Some (out @ text)
      | Some str_size \<Rightarrow> if str_size - length out < length text then None else Some (out @ text))"

definition format_text_put_run :: "nat option \<Rightarrow> string \<Rightarrow> char \<Rightarrow> nat \<Rightarrow> string option" where
  "format_text_put_run room out ch n =
     (case room of
        None \<Rightarrow> Some (out @ replicate n ch)
      | Some str_size \<Rightarrow> if str_size - length out < n then None else Some (out @ replicate n ch))"

text \<open>The pieces of a field are put without looking at the result: a failed put moves nothing.\<close>

definition kept :: "string \<Rightarrow> string option \<Rightarrow> string" where
  "kept out r = (case r of None \<Rightarrow> out | Some out' \<Rightarrow> out')"

definition format_text_put_field :: "nat option \<Rightarrow> string \<Rightarrow> scanf_spec \<Rightarrow> string \<Rightarrow> string option" where
  "format_text_put_field room out spec content =
     (let pad = spec_get_pad spec (length content);
          text = (\<lambda>o' t. kept o' (format_text_put_text room o' t));
          run = (\<lambda>o' c n. kept o' (format_text_put_run room o' c n))
      in if (case room of None \<Rightarrow> False | Some str_size \<Rightarrow> str_size - length out < pad + length content)
         then None
         else if pad = 0 then Some (text out content)
         else
           let has_sign = (0 < length content \<and> content ! 0 = CHR ''-'')
           in Some (if left_justify spec then run (text out content) CHR '' '' pad
                    else if zero_pad spec \<and> has_sign
                    then text (run (text out (take 1 content)) CHR ''0'' pad) (drop 1 content)
                    else text (run out (if zero_pad spec then CHR ''0'' else CHR '' '') pad) content))"

definition str_ptr_invalid :: nat where
  "str_ptr_invalid = 2 ^ 64 - 1"

lemma dropWhile_length_less: "xs \<noteq> [] \<Longrightarrow> P (hd xs) \<Longrightarrow> length (dropWhile P xs) < length xs"
  by (cases xs) (auto simp: length_dropWhile_le le_imp_less_Suc)

lemma flags_length: "length (snd (scanf_next_flags fmt out)) \<le> length fmt"
  by (induction fmt out rule: scanf_next_flags.induct) (auto simp: le_SucI)

lemma number_length: "length (snd (snd (scanf_next_number fmt n))) \<le> length fmt"
  by (induction fmt n rule: scanf_next_number.induct) (auto simp: le_SucI split: option.splits)

lemma scanf_next_length:
  assumes "scanf_next fmt = Some (spec, fmt')"
  shows "length fmt' < length fmt"
proof -
  from assms have f: "fmt \<noteq> []" "fmt_at fmt \<noteq> nul" by (cases fmt; auto simp: scanf_next_def)+
  show ?thesis
  proof (cases "fmt_at fmt = CHR ''%''")
    case False
    then have "P (hd fmt) \<Longrightarrow> length (dropWhile P fmt) < length fmt" for P
      using dropWhile_length_less f(1) by blast
    moreover have "hd fmt = fmt_at fmt" using f(1) by (cases fmt) auto
    ultimately show ?thesis using False f assms by (auto simp: scanf_next_def scanf_next_literal_def)
  next
    case True
    then obtain cs where cs: "fmt = CHR ''%'' # cs" using f(1) by (cases fmt) auto
    obtain o1 f2 where fl: "scanf_next_flags cs (spec_clear\<lparr>literal := fmt\<rparr>) = (o1, f2)" by fastforce
    obtain ok n f3 where nu: "scanf_next_number f2 0 = (ok, n, f3)" by (metis prod_cases3)
    obtain ok' n' f4 where nu': "scanf_next_number (tl f3) 0 = (ok', n', f4)" by (metis prod_cases3)
    have "length f2 \<le> length cs" using flags_length [of cs "spec_clear\<lparr>literal := fmt\<rparr>"] fl by simp
    moreover have "length f3 \<le> length f2" using number_length [of f2 0] nu by simp
    moreover have "length f4 \<le> length (tl f3)" using number_length [of "tl f3" 0] nu' by simp
    ultimately show ?thesis
      using assms by (auto simp: scanf_next_def cs Let_def fl [unfolded cs] nu nu' split: if_splits)
  qed
qed

definition walk_failed :: "nat option \<Rightarrow> nat" where
  "walk_failed room = (if room = None then str_ptr_invalid else 0)"

function format_text_walk :: "nat option \<Rightarrow> string \<Rightarrow> string \<Rightarrow> arg list \<Rightarrow> (nat \<times> string) option" where
  "format_text_walk room out fmt args =
     (case scanf_next fmt of
        None \<Rightarrow> Some (length out, out)
      | Some (spec, fmt') \<Rightarrow>
          if kind spec = Kind_literal then
            (case format_text_put_text room out (literal spec) of
               None \<Rightarrow> Some (0, out)
             | Some out' \<Rightarrow> format_text_walk room out' fmt' args)
          else if kind spec = Kind_invalid then Some (walk_failed room, out)
          else (case format_text_get_value spec args of
                  None \<Rightarrow> None
                | Some (ok, content, args') \<Rightarrow>
                    if \<not> ok then Some (walk_failed room, out)
                    else (case format_text_put_field room out spec content of
                            None \<Rightarrow> Some (0, out)
                          | Some out' \<Rightarrow> format_text_walk room out' fmt' args')))"
  by pat_completeness auto
termination
  by (relation "measure (\<lambda>(room, out, fmt, args). length fmt)") (auto simp: scanf_next_length)

declare format_text_walk.simps [simp del]

definition format_text :: "nat \<Rightarrow> string \<Rightarrow> arg list \<Rightarrow> (nat \<times> string) option" where
  "format_text str_size fmt args = format_text_walk (Some str_size) [] fmt args"

definition format_text_size :: "string \<Rightarrow> arg list \<Rightarrow> nat option" where
  "format_text_size fmt args = map_option fst (format_text_walk None [] fmt args)"

text \<open>The terminated form keeps one place for the terminator, which ends the text at the result.\<close>

definition format_cstr :: "nat \<Rightarrow> string \<Rightarrow> arg list \<Rightarrow> error_code + (nat \<times> string) option" where
  "format_cstr str_size fmt args =
     (if str_size = 0 then Inl Invalid_argument
      else Inr (case format_text (str_size - 1) fmt args of
                  None \<Rightarrow> None
                | Some (n, out) \<Rightarrow> Some (n, take n out @ [nul])))"

section \<open>Writing and counting agree\<close>

definition field_text :: "scanf_spec \<Rightarrow> string \<Rightarrow> string" where
  "field_text spec content =
     (let pad = spec_get_pad spec (length content)
      in if left_justify spec then content @ replicate pad CHR '' ''
         else if zero_pad spec \<and> 0 < length content \<and> content ! 0 = CHR ''-''
         then take 1 content @ replicate pad CHR ''0'' @ drop 1 content
         else replicate pad (if zero_pad spec then CHR ''0'' else CHR '' '') @ content)"

lemma field_text_length: "length (field_text spec content) = spec_get_pad spec (length content) + length content"
  by (cases content) (simp_all add: field_text_def Let_def)

definition room_for :: "nat option \<Rightarrow> string \<Rightarrow> nat \<Rightarrow> bool" where
  "room_for room out n \<longleftrightarrow> (case room of None \<Rightarrow> True | Some sz \<Rightarrow> n \<le> sz - length out)"

lemma put_text_room: "format_text_put_text room out t = (if room_for room out (length t) then Some (out @ t) else None)"
  by (simp add: format_text_put_text_def room_for_def split: option.splits)

lemma put_run_room:
  "format_text_put_run room out c n = (if room_for room out n then Some (out @ replicate n c) else None)"
  by (simp add: format_text_put_run_def room_for_def split: option.splits)

lemma room_for_mono: "room_for room out n \<Longrightarrow> m \<le> n \<Longrightarrow> room_for room out m"
  by (auto simp: room_for_def split: option.splits)

lemma room_for_shift: "room_for room out (length t + n) \<Longrightarrow> room_for room (out @ t) n"
  by (auto simp: room_for_def split: option.splits)

lemma put_field_room:
  "format_text_put_field room out spec content =
     (if room_for room out (length (field_text spec content)) then Some (out @ field_text spec content) else None)"
proof (cases "room_for room out (length (field_text spec content))")
  case True
  define pad where "pad = spec_get_pad spec (length content)"
  have r: "room_for room out (pad + length content)" using True by (simp add: field_text_length pad_def)
  note rs = room_for_mono [OF r] room_for_shift [of room out]
  have g: "\<not> (case room of None \<Rightarrow> False | Some sz \<Rightarrow> sz - length out < pad + length content)"
    using r by (auto simp: room_for_def split: option.splits)
  have s3: "room_for room (out @ take 1 content @ replicate pad CHR ''0'') (length (drop 1 content))"
    using room_for_shift [of room out "take 1 content @ replicate pad CHR ''0''" "length (drop 1 content)"] r
    by (cases content) (simp_all add: add.commute)
  have s2: "room_for room (out @ take 1 content) pad" if "content \<noteq> []"
    using rs(2) [of "take 1 content" pad] rs(1) [of "length (take 1 content) + pad"] that by (cases content) simp_all
  have s1: "room_for room (out @ content) pad" "room_for room (out @ replicate pad c) (length content)" for c
    using rs(2) [of content pad] rs(2) [of "replicate pad c" "length content"] r by (simp_all add: add.commute)
  have s0: "room_for room out pad" "room_for room out (length content)" "content \<noteq> [] \<Longrightarrow> room_for room out (length (take 1 content))"
    using rs(1) by (cases content; simp)+
  have "format_text_put_field room out spec content = Some (out @ field_text spec content)"
    using g s0 s1 s2 s3
    by (auto simp: format_text_put_field_def Let_def put_text_room put_run_room kept_def field_text_def
        simp flip: pad_def)
  then show ?thesis using True by simp
next
  case False
  then show ?thesis
    by (auto simp: format_text_put_field_def Let_def field_text_length room_for_def split: option.splits)
qed

text \<open>
  What a mask with its arguments says, without any buffer: the pieces of text it puts, and how it
  ends. The walk puts the pieces one after the other.
\<close>

datatype mask_end = Mask_done | Mask_bad | Mask_undefined

function mask_pieces :: "string \<Rightarrow> arg list \<Rightarrow> string list \<times> mask_end" where
  "mask_pieces fmt args =
     (case scanf_next fmt of
        None \<Rightarrow> ([], Mask_done)
      | Some (spec, fmt') \<Rightarrow>
          if kind spec = Kind_literal then
            (let (ps, e) = mask_pieces fmt' args in (literal spec # ps, e))
          else if kind spec = Kind_invalid then ([], Mask_bad)
          else (case format_text_get_value spec args of
                  None \<Rightarrow> ([], Mask_undefined)
                | Some (ok, content, args') \<Rightarrow>
                    if \<not> ok then ([], Mask_bad)
                    else (let (ps, e) = mask_pieces fmt' args' in (field_text spec content # ps, e))))"
  by pat_completeness auto
termination
  by (relation "measure (\<lambda>(fmt, args). length fmt)") (auto simp: scanf_next_length)

declare mask_pieces.simps [simp del]

fun put_pieces :: "nat option \<Rightarrow> string \<Rightarrow> string list \<Rightarrow> mask_end \<Rightarrow> (nat \<times> string) option" where
  "put_pieces room out [] e =
     (case e of Mask_done \<Rightarrow> Some (length out, out)
      | Mask_bad \<Rightarrow> Some (walk_failed room, out)
      | Mask_undefined \<Rightarrow> None)"
| "put_pieces room out (p # ps) e =
     (if room_for room out (length p) then put_pieces room (out @ p) ps e else Some (0, out))"

lemma walk_pieces:
  "format_text_walk room out fmt args = (let (ps, e) = mask_pieces fmt args in put_pieces room out ps e)"
proof (induction fmt arbitrary: out args rule: length_induct)
  case (1 fmt)
  show ?case
  proof (cases "scanf_next fmt")
    case None
    then show ?thesis by (simp add: format_text_walk.simps [of room out fmt] mask_pieces.simps [of fmt])
  next
    case (Some p)
    obtain spec fmt' where p: "p = (spec, fmt')" by fastforce
    have IH: "format_text_walk room o' fmt' as = (let (ps, e) = mask_pieces fmt' as in put_pieces room o' ps e)"
      for o' as using 1 scanf_next_length Some p by blast
    note unfold = format_text_walk.simps [of room out fmt] mask_pieces.simps [of fmt] Some p IH Let_def
      put_text_room put_field_room case_prod_beta
    show ?thesis
    proof (cases "format_text_get_value spec args")
      case None
      then show ?thesis by (simp add: unfold)
    next
      case (Some v)
      then show ?thesis by (cases v) (simp add: unfold)
    qed
  qed
qed

lemma put_pieces_counting:
  "put_pieces None out ps e =
     (case e of Mask_done \<Rightarrow> Some (length (out @ concat ps), out @ concat ps)
      | Mask_bad \<Rightarrow> Some (str_ptr_invalid, out @ concat ps) | Mask_undefined \<Rightarrow> None)"
  by (induction ps arbitrary: out) (simp_all add: room_for_def walk_failed_def split: mask_end.splits)

lemma put_pieces_fits:
  "length out + length (concat ps) \<le> sz \<Longrightarrow>
   put_pieces (Some sz) out ps Mask_done = Some (length (out @ concat ps), out @ concat ps)"
  by (induction ps arbitrary: out) (auto simp: room_for_def)

lemma put_pieces_full:
  "length out \<le> sz \<Longrightarrow> sz < length out + length (concat ps) \<Longrightarrow>
   \<exists>o'. put_pieces (Some sz) out ps e = Some (0, o') \<and> length o' \<le> sz"
  by (induction ps arbitrary: out) (auto simp: room_for_def)



section \<open>Masks that print numbers and characters\<close>

lemma scanf_percent_u:
  "\<exists>l. scanf_next (CHR ''%'' # CHR ''u'' # rest) = Some (spec_clear\<lparr>literal := l, kind := Kind_uint\<rparr>, rest)"
  by (simp add: scanf_next_def spec_set_conversion_def char_is_digit_def Let_def) blast

lemma scanf_percent_c:
  "\<exists>l. scanf_next (CHR ''%'' # CHR ''c'' # rest) = Some (spec_clear\<lparr>literal := l, kind := Kind_char\<rparr>, rest)"
  by (simp add: scanf_next_def spec_set_conversion_def char_is_digit_def Let_def) blast

lemma scanf_percent_02u:
  "\<exists>l. scanf_next (CHR ''%'' # CHR ''0'' # CHR ''2'' # CHR ''u'' # rest) =
     Some (spec_clear\<lparr>literal := l, zero_pad := True, width := 2, kind := Kind_uint\<rparr>, rest)"
proof -
  have "digit_accumulate (0 :: uint_t) (char_to_digit CHR ''2'') = Some 2" by code_simp
  then show ?thesis by (simp add: scanf_next_def spec_set_conversion_def char_is_digit_def Let_def) blast
qed

lemma scanf_literal_char:
  "c \<noteq> nul \<Longrightarrow> c \<noteq> CHR ''%'' \<Longrightarrow> rest = [] \<or> fmt_at rest = CHR ''%'' \<Longrightarrow>
   \<exists>s. scanf_next (c # rest) = Some (s, rest) \<and> kind s = Kind_literal \<and> literal s = [c]"
  by (cases rest) (auto simp: scanf_next_def scanf_next_literal_def Let_def)

lemma value_uint:
  "kind spec = Kind_uint \<Longrightarrow> format_text_get_value spec (Arg_uint v # args) = Some (True, uint_text v, args)"
  using uint_text_facts [of v]
  by (simp add: format_text_get_value_def format_uint_text value_buf_max_def)

definition pad2 :: "uint_t \<Rightarrow> string" where
  "pad2 v = replicate (2 - length (uint_text v)) CHR ''0'' @ uint_text v"

lemma digit_not_minus: "char_is_digit c \<Longrightarrow> c \<noteq> CHR ''-''"
  by (auto simp: char_is_digit_def)

lemma field_text_pad2:
  "field_text (spec_clear\<lparr>literal := l, zero_pad := True, width := 2, kind := Kind_uint\<rparr>) (uint_text v) = pad2 v"
proof -
  have "uint_text v ! 0 \<noteq> CHR ''-''"
    using uint_text_facts(1, 2) [of v] digit_not_minus by (cases "uint_text v") auto
  then show ?thesis by (auto simp: field_text_def pad2_def spec_get_pad_def spec_clear_def Let_def)
qed

lemma field_text_plain: "field_text (spec_clear\<lparr>literal := l, kind := k\<rparr>) t = t"
  by (auto simp: field_text_def spec_get_pad_def spec_clear_def Let_def)

lemma char_through_int: "char_of (unat (of_nat (ord c) :: 32 word)) = c"
proof -
  have "ord c < 2 ^ 32" by (rule less_trans [OF nat_of_char_less_256]) simp
  then have "unat (of_nat (ord c) :: 32 word) = ord c" by (intro unat_of_nat_small) simp
  then show ?thesis by simp
qed

lemma pieces_u: "mask_pieces (CHR ''%'' # CHR ''u'' # rest) (Arg_uint v # args) =
    (uint_text v # fst (mask_pieces rest args), snd (mask_pieces rest args))"
  using scanf_percent_u [of rest]
  by (subst mask_pieces.simps) (auto simp: value_uint field_text_plain case_prod_beta)

lemma pieces_02u: "mask_pieces (CHR ''%'' # CHR ''0'' # CHR ''2'' # CHR ''u'' # rest) (Arg_uint v # args) =
    (pad2 v # fst (mask_pieces rest args), snd (mask_pieces rest args))"
  using scanf_percent_02u [of rest]
  by (subst mask_pieces.simps) (auto simp: value_uint field_text_pad2 case_prod_beta)

lemma pieces_c: "mask_pieces (CHR ''%'' # CHR ''c'' # rest) (Arg_int (of_nat (ord c)) # args) =
    ([c] # fst (mask_pieces rest args), snd (mask_pieces rest args))"
  using scanf_percent_c [of rest]
  by (subst mask_pieces.simps)
    (auto simp: format_text_get_value_def field_text_plain case_prod_beta char_through_int)

lemma pieces_literal:
  "c \<noteq> nul \<Longrightarrow> c \<noteq> CHR ''%'' \<Longrightarrow> rest = [] \<or> fmt_at rest = CHR ''%'' \<Longrightarrow>
   mask_pieces (c # rest) args = ([c] # fst (mask_pieces rest args), snd (mask_pieces rest args))"
  using scanf_literal_char [of c rest] by (subst mask_pieces.simps) (auto simp: case_prod_beta)

lemma pieces_end: "mask_pieces [] args = ([], Mask_done)"
  by (subst mask_pieces.simps) (simp add: scanf_next_def)

lemmas pieces_simps = pieces_u pieces_02u pieces_c pieces_literal pieces_end

lemma format_text_pieces:
  assumes "mask_pieces fmt args = (ps, Mask_done)"
  shows "length (concat ps) \<le> sz \<Longrightarrow> format_text sz fmt args = Some (length (concat ps), concat ps)"
    and "sz < length (concat ps) \<Longrightarrow> \<exists>o'. format_text sz fmt args = Some (0, o') \<and> length o' \<le> sz"
  using put_pieces_fits [of "[]" ps sz] put_pieces_full [of "[]" sz ps Mask_done] assms
  by (simp_all add: format_text_def walk_pieces)

end
