(* ===== verification/Calendar_Text.thy ===== *)
theory Calendar_Text
  imports Datetime Text_Mask
begin

text \<open>
  Dates, times and date-times as text: \<^verbatim>\<open>lh_date_parse_by\<close> and \<^verbatim>\<open>lh_date_format_by\<close>
  (\<^verbatim>\<open>src/lh/core/date.c\<close>), \<^verbatim>\<open>lh_time_parse\<close> and \<^verbatim>\<open>lh_time_format\<close> (\<^verbatim>\<open>time.c\<close>),
  \<^verbatim>\<open>lh_datetime_parse\<close> and \<^verbatim>\<open>lh_datetime_format\<close> (\<^verbatim>\<open>datetime.c\<close>). The printers go through a mask, the
  parsers through the field splitter; printing and parsing again gives the value back, and what a
  parser accepts is always valid.
\<close>

section \<open>The operations\<close>

definition date_parse_by :: "char \<Rightarrow> string \<Rightarrow> date option" where
  "date_parse_by separator str =
     (case split_next_uint_digits str separator 0 65535 True of
        None \<Rightarrow> None
      | Some (year, pos1) \<Rightarrow>
          (case split_next_uint_digits str separator pos1 12 True of
             None \<Rightarrow> None
           | Some (month, pos2) \<Rightarrow>
               (case split_next_uint_digits str separator pos2 31 False of
                  None \<Rightarrow> None
                | Some (day, pos3) \<Rightarrow>
                    if \<not> ymd_is_valid year month day then None
                    else Some (date_set (ucast year) (ucast month) (ucast day)))))"

definition date_parse :: "string \<Rightarrow> date option" where
  "date_parse str = date_parse_by CHR ''/'' str"

definition date_format_by :: "date \<Rightarrow> nat \<Rightarrow> char \<Rightarrow> (nat \<times> string) option" where
  "date_format_by self str_size separator =
     format_text str_size ''%u%c%02u%c%02u''
       [Arg_uint (ucast (d_year self)), Arg_int (of_nat (ord separator)),
        Arg_uint (ucast (d_month self)), Arg_int (of_nat (ord separator)),
        Arg_uint (ucast (d_day self))]"

definition date_format :: "date \<Rightarrow> nat \<Rightarrow> (nat \<times> string) option" where
  "date_format self str_size = date_format_by self str_size CHR ''/''"

definition time_parse :: "string \<Rightarrow> time_of_day option" where
  "time_parse str =
     (case split_next_uint_digits str CHR '':'' 0 23 True of
        None \<Rightarrow> None
      | Some (hour, pos1) \<Rightarrow>
          (case split_next_uint_digits str CHR '':'' pos1 59 True of
             None \<Rightarrow> None
           | Some (minute, pos2) \<Rightarrow>
               (case split_next_uint_digits str CHR '':'' pos2 59 False of
                  None \<Rightarrow> None
                | Some (second, pos3) \<Rightarrow> Some (time_set (ucast hour) (ucast minute) (ucast second)))))"

definition time_format :: "time_of_day \<Rightarrow> nat \<Rightarrow> (nat \<times> string) option" where
  "time_format self str_size =
     format_text str_size ''%02u:%02u:%02u''
       [Arg_uint (ucast (t_hour self)), Arg_uint (ucast (t_minute self)), Arg_uint (ucast (t_second self))]"

definition datetime_parse :: "string \<Rightarrow> datetime option" where
  "datetime_parse str =
     (case split_next str CHR '' '' 0 of
        None \<Rightarrow> None
      | Some (date_field, had_delim, pos) \<Rightarrow>
          if \<not> had_delim then None
          else (case split_next str CHR '' '' pos of
                  None \<Rightarrow> None
                | Some (time_field, had_delim', pos') \<Rightarrow>
                    if had_delim' then None
                    else (case date_parse date_field of
                            None \<Rightarrow> None
                          | Some date \<Rightarrow>
                              (case time_parse time_field of
                                 None \<Rightarrow> None
                               | Some time \<Rightarrow> Some (datetime_set date time)))))"

text \<open>The date and the time are printed into a scratch buffer that is copied out when it fits.\<close>

definition datetime_format :: "datetime \<Rightarrow> nat \<Rightarrow> (nat \<times> string) option" where
  "datetime_format self str_size =
     (case date_format (dt_date self) 11 of
        None \<Rightarrow> None
      | Some (date_len, date_out) \<Rightarrow>
          if date_len = 0 then Some (0, [])
          else (case time_format (dt_time self) 8 of
                  None \<Rightarrow> None
                | Some (time_len, time_out) \<Rightarrow>
                    if time_len = 0 then Some (0, [])
                    else let total = date_len + 1 + time_len
                         in if str_size < total then Some (0, [])
                            else Some (total, take date_len date_out @ [CHR '' ''] @ take time_len time_out)))"

section \<open>Fields\<close>

lemma split_field:
  assumes "sep \<notin> set f" "pos = length pre"
  shows "split_next (pre @ f @ sep # rest) sep pos = Some (f, True, pos + length f + 1)"
proof -
  have "takeWhile (\<lambda>c. c \<noteq> sep) (f @ sep # rest) = f" using assms(1) by (induction f) auto
  then show ?thesis using assms(2) by (simp add: split_next_def split_next_of_def find_of_chars_def Let_def)
qed

lemma split_last:
  assumes "sep \<notin> set f" "f \<noteq> []" "pos = length pre"
  shows "split_next (pre @ f) sep pos = Some (f, False, length (pre @ f))"
proof -
  have "length (takeWhile (\<lambda>c. c \<noteq> sep) f) = length f" using assms(1) by (induction f) auto
  then show ?thesis using assms(2, 3)
    by (simp add: split_next_def split_next_of_def find_of_chars_def Let_def)
qed

text \<open>A field of digits that spells \<open>v\<close>.\<close>

definition spells :: "string \<Rightarrow> uint_t \<Rightarrow> bool" where
  "spells f v \<longleftrightarrow> f \<noteq> [] \<and> list_all char_is_digit f \<and> dec_value f = unat v"

lemma spells_parse: "spells f v \<Longrightarrow> v \<le> limit \<Longrightarrow> parse_uint_digits limit f = Some v"
  by (simp add: spells_def parse_uint_digits_exact word_le_nat_alt)

lemma spells_no_sep: "spells f v \<Longrightarrow> \<not> char_is_digit sep \<Longrightarrow> sep \<notin> set f"
  by (auto simp: spells_def list_all_iff)

lemma split_uint_field:
  "spells f v \<Longrightarrow> v \<le> limit \<Longrightarrow> \<not> char_is_digit sep \<Longrightarrow> pos = length pre \<Longrightarrow>
   split_next_uint_digits (pre @ f @ sep # rest) sep pos limit True = Some (v, pos + length f + 1)"
  using split_field [OF spells_no_sep] by (simp add: split_next_uint_digits_def spells_parse)

lemma split_uint_last:
  "spells f v \<Longrightarrow> v \<le> limit \<Longrightarrow> \<not> char_is_digit sep \<Longrightarrow> pos = length pre \<Longrightarrow>
   split_next_uint_digits (pre @ f) sep pos limit False = Some (v, length (pre @ f))"
  using split_last [OF spells_no_sep] by (simp add: split_next_uint_digits_def spells_parse spells_def)

lemma spells_text: "spells (uint_text v) v"
  by (simp add: spells_def uint_text_facts)

lemma spells_pad2: "spells (pad2 v) v"
proof -
  have z: "char_is_digit CHR ''0''" "char_to_digit CHR ''0'' = 0" by code_simp+
  have "dec_value (replicate n CHR ''0'' @ s) = dec_value s" for n s
    by (induction n) (simp_all add: z)
  then show ?thesis using uint_text_facts [of v] z(1) by (auto simp: spells_def pad2_def list_all_iff)
qed

lemma text_length_bound: "unat v < 10 ^ Suc n \<Longrightarrow> length (uint_text v) \<le> Suc n"
  by (simp add: uint_text_def digits_up_length)

lemma pad2_length: "unat v < 100 \<Longrightarrow> length (pad2 v) = 2"
  using text_length_bound [of v 1] by (simp add: pad2_def)

lemma three_fields:
  assumes "spells a x" "spells b y" "spells c z" "\<not> char_is_digit sep" "x \<le> lx" "y \<le> ly" "z \<le> lz"
  defines "str \<equiv> a @ sep # b @ sep # c"
  shows "split_next_uint_digits str sep 0 lx True = Some (x, Suc (length a))"
    and "split_next_uint_digits str sep (Suc (length a)) ly True = Some (y, Suc (Suc (length a + length b)))"
    and "split_next_uint_digits str sep (Suc (Suc (length a + length b))) lz False = Some (z, length str)"
proof -
  show "split_next_uint_digits str sep 0 lx True = Some (x, Suc (length a))"
    using split_uint_field [OF assms(1, 5, 4), of 0 "[]"] by (simp add: str_def)
  show "split_next_uint_digits str sep (Suc (length a)) ly True = Some (y, Suc (Suc (length a + length b)))"
    using split_uint_field [OF assms(2, 6, 4), of "Suc (length a)" "a @ [sep]"] by (simp add: str_def)
  show "split_next_uint_digits str sep (Suc (Suc (length a + length b))) lz False = Some (z, length str)"
    using split_uint_last [OF assms(3, 7, 4), of "Suc (Suc (length a + length b))" "a @ sep # b @ [sep]"]
    by (simp add: str_def)
qed

section \<open>Dates\<close>

definition date_text :: "char \<Rightarrow> date \<Rightarrow> string" where
  "date_text sep d = uint_text (ucast (d_year d)) @ sep # pad2 (ucast (d_month d)) @ sep # pad2 (ucast (d_day d))"

lemma date_format_text:
  "length (date_text sep d) \<le> sz \<Longrightarrow> date_format_by d sz sep = Some (length (date_text sep d), date_text sep d)"
  "sz < length (date_text sep d) \<Longrightarrow> \<exists>o'. date_format_by d sz sep = Some (0, o') \<and> length o' \<le> sz"
  using format_text_pieces [of "''%u%c%02u%c%02u''" _ "[uint_text (ucast (d_year d)), [sep],
      pad2 (ucast (d_month d)), [sep], pad2 (ucast (d_day d))]" sz]
  by (simp_all add: date_format_by_def date_text_def pieces_simps)

lemma ucast_back8: "ucast (ucast (x :: u8) :: uint_t) = x"
  using unsigned_less [of x, where ?'a = nat]
  by (simp add: word_unat_eq_iff unat_ucast_mod mod_mod_cancel [of 256 "4294967296 :: nat"])

lemma ucast_back16: "ucast (ucast (y :: u16) :: uint_t) = y"
  by (simp add: word_unat_eq_iff unat_ucast_mod mod_mod_cancel [of 65536 "4294967296 :: nat"])

lemmas ucast_back = ucast_back8 ucast_back16

lemma year_small: "unat (ucast (y :: u16) :: uint_t) \<le> 65535"
  using u16_less [of y] by (simp del: u16_less add: unat_ucast_up)

lemma days_in_month_31: "unat (days_in_month y m) \<le> 31"
proof (cases "1 \<le> m \<and> m \<le> 12")
  case True
  then show ?thesis using month_bounds [of m] by (auto simp: month_tables)
next
  case False
  then show ?thesis by (auto simp: days_in_month_def word_le_nat_alt word_less_nat_alt)
qed

lemma date_valid_limits:
  assumes "date_valid d"
  shows "unat (d_month d) \<le> 12" "unat (d_day d) \<le> 31"
  using assms days_in_month_31 [of "d_year d" "d_month d"] by (auto simp: date_valid_iff word_le_nat_alt)

lemma date_text_length:
  assumes "date_valid d"
  shows "length (date_text sep d) \<le> 11"
proof -
  have "unat (ucast (d_year d) :: uint_t) < 10 ^ Suc 4"
    by (rule le_less_trans [OF year_small]) simp
  from text_length_bound [OF this] have "length (uint_text (ucast (d_year d))) \<le> 5" by simp
  moreover have "length (pad2 (ucast (d_month d))) = 2" "length (pad2 (ucast (d_day d))) = 2"
    using date_valid_limits [OF assms] by (simp_all add: pad2_length unat_ucast_up)
  ultimately show ?thesis by (simp add: date_text_def)
qed

lemma date_parse_text:
  assumes "date_valid d" "\<not> char_is_digit sep"
  shows "date_parse_by sep (date_text sep d) = Some d"
proof -
  have l: "(ucast (d_year d) :: uint_t) \<le> 65535" "(ucast (d_month d) :: uint_t) \<le> 12" "(ucast (d_day d) :: uint_t) \<le> 31"
    using date_valid_limits [OF assms(1)] year_small [of "d_year d"] by (simp_all add: word_le_nat_alt unat_ucast_up)
  note f = three_fields [OF spells_text spells_pad2 spells_pad2 assms(2) l]
  show ?thesis
    using assms(1) by (simp add: date_parse_by_def date_text_def f ucast_back date_valid_def date_set_def)
qed

lemma split_uint_le: "split_next_uint_digits str sep pos limit want = Some (v, pos') \<Longrightarrow> v \<le> limit"
proof -
  assume "split_next_uint_digits str sep pos limit want = Some (v, pos')"
  then obtain f where "parse_uint_digits limit f = Some v"
    by (auto simp: split_next_uint_digits_def split: option.splits if_splits)
  then have "v = of_nat (dec_value f)" "dec_value f \<le> unat limit"
    by (auto simp: parse_uint_digits_exact split: if_splits)
  then show "v \<le> limit" using unsigned_less [of limit, where ?'a = nat]
    by (simp add: word_le_nat_alt unat_of_nat)
qed

lemma ucast_fit8: "v \<le> 255 \<Longrightarrow> ucast (ucast (v :: uint_t) :: u8) = v"
  by (simp add: word_unat_eq_iff unat_ucast_mod unat_ucast_up word_le_nat_alt)

lemma ucast_fit16: "v \<le> 65535 \<Longrightarrow> ucast (ucast (v :: uint_t) :: u16) = v"
  by (simp add: word_unat_eq_iff unat_ucast_mod unat_ucast_up word_le_nat_alt)

lemma date_parse_valid: "date_parse_by sep str = Some d \<Longrightarrow> date_valid d"
proof -
  assume "date_parse_by sep str = Some d"
  then obtain y m dd p1 p2 p3 where
    p: "split_next_uint_digits str sep 0 65535 True = Some (y, p1)"
      "split_next_uint_digits str sep p1 12 True = Some (m, p2)"
      "split_next_uint_digits str sep p2 31 False = Some (dd, p3)"
    and v: "ymd_is_valid y m dd" "d = date_set (ucast y) (ucast m) (ucast dd)"
    by (auto simp: date_parse_by_def split: option.splits if_splits)
  note l = split_uint_le [OF p(1)] split_uint_le [OF p(2)] split_uint_le [OF p(3)]
  have "m \<le> 255" "dd \<le> 255" using l(2, 3) by (auto simp: word_le_nat_alt)
  then show "date_valid d" using v l(1) by (simp add: date_valid_def date_set_def ucast_fit8 ucast_fit16)
qed

section \<open>Times and date-times\<close>

definition time_text :: "time_of_day \<Rightarrow> string" where
  "time_text t = pad2 (ucast (t_hour t)) @ CHR '':'' # pad2 (ucast (t_minute t)) @ CHR '':'' # pad2 (ucast (t_second t))"

lemma time_format_text:
  "length (time_text t) \<le> sz \<Longrightarrow> time_format t sz = Some (length (time_text t), time_text t)"
  using format_text_pieces [of "''%02u:%02u:%02u''" _ "[pad2 (ucast (t_hour t)), '':'',
      pad2 (ucast (t_minute t)), '':'', pad2 (ucast (t_second t))]" sz]
  by (simp add: time_format_def time_text_def pieces_simps)

lemma time_text_length: "time_valid t \<Longrightarrow> length (time_text t) = 8"
  by (simp add: time_text_def pad2_length time_valid_nat unat_ucast_up)

lemma separators: "\<not> char_is_digit CHR '':''" "\<not> char_is_digit CHR ''/''" "\<not> char_is_digit CHR '' ''"
  by code_simp+

lemma time_parse_text:
  assumes "time_valid t"
  shows "time_parse (time_text t) = Some t"
proof -
  have l: "(ucast (t_hour t) :: uint_t) \<le> 23" "(ucast (t_minute t) :: uint_t) \<le> 59" "(ucast (t_second t) :: uint_t) \<le> 59"
    using assms by (simp_all add: word_le_nat_alt unat_ucast_up time_valid_nat)
  note f = three_fields [OF spells_pad2 spells_pad2 spells_pad2 separators(1) l]
  show ?thesis by (simp add: time_parse_def time_text_def f ucast_back time_set_def)
qed

lemma time_parse_valid: "time_parse str = Some t \<Longrightarrow> time_valid t"
proof -
  assume "time_parse str = Some t"
  then obtain h m s p1 p2 p3 where
    p: "split_next_uint_digits str CHR '':'' 0 23 True = Some (h, p1)"
      "split_next_uint_digits str CHR '':'' p1 59 True = Some (m, p2)"
      "split_next_uint_digits str CHR '':'' p2 59 False = Some (s, p3)"
    and t: "t = time_set (ucast h) (ucast m) (ucast s)"
    by (auto simp: time_parse_def split: option.splits)
  note l = split_uint_le [OF p(1)] split_uint_le [OF p(2)] split_uint_le [OF p(3)]
  then show "time_valid t" by (simp add: t time_valid_nat time_set_def unat_ucast_mod word_le_nat_alt)
qed

definition datetime_text :: "datetime \<Rightarrow> string" where
  "datetime_text x = date_text CHR ''/'' (dt_date x) @ CHR '' '' # time_text (dt_time x)"

lemma datetime_format_text:
  assumes "datetime_valid x"
  shows "datetime_format x sz = (if sz < length (datetime_text x) then Some (0, [])
     else Some (length (datetime_text x), datetime_text x))"
proof -
  have v: "date_valid (dt_date x)" "time_valid (dt_time x)" using assms by (simp_all add: datetime_valid_def)
  have d: "date_format (dt_date x) 11 = Some (length (date_text CHR ''/'' (dt_date x)), date_text CHR ''/'' (dt_date x))"
    using date_format_text(1) [OF date_text_length [OF v(1)]] by (simp add: date_format_def)
  have t: "time_format (dt_time x) 8 = Some (8, time_text (dt_time x))"
    using time_format_text [of "dt_time x" 8] time_text_length [OF v(2)] by simp
  have ne: "date_text CHR ''/'' (dt_date x) \<noteq> []" by (simp add: date_text_def)
  show ?thesis
    using ne by (simp add: datetime_format_def d t datetime_text_def time_text_length [OF v(2)] Let_def)
qed

lemma no_space: "spells f v \<Longrightarrow> CHR '' '' \<notin> set f"
  using spells_no_sep separators(3) by blast

lemma datetime_parse_text:
  assumes "datetime_valid x"
  shows "datetime_parse (datetime_text x) = Some x"
proof -
  let ?d = "date_text CHR ''/'' (dt_date x)" and ?t = "time_text (dt_time x)"
  have v: "date_valid (dt_date x)" "time_valid (dt_time x)" using assms by (simp_all add: datetime_valid_def)
  have n: "CHR '' '' \<notin> set ?d" "CHR '' '' \<notin> set ?t" "?t \<noteq> []"
    using no_space [OF spells_text] no_space [OF spells_pad2] by (simp_all add: date_text_def time_text_def)
  have s1: "split_next (datetime_text x) CHR '' '' 0 = Some (?d, True, Suc (length ?d))"
    using split_field [OF n(1), of 0 "[]" ?t] by (simp add: datetime_text_def)
  have s2: "split_next (datetime_text x) CHR '' '' (Suc (length ?d)) = Some (?t, False, length (datetime_text x))"
    using split_last [OF n(2, 3), of "Suc (length ?d)" "?d @ '' ''"] by (simp add: datetime_text_def)
  have "date_parse ?d = Some (dt_date x)" "time_parse ?t = Some (dt_time x)"
    using date_parse_text [OF v(1) separators(2)] time_parse_text [OF v(2)] by (simp_all add: date_parse_def)
  then show ?thesis by (simp add: datetime_parse_def s1 s2 datetime_set_def)
qed

text \<open>
  C33: printing a valid date-time into a buffer of \<^verbatim>\<open>LH_DATETIME_TEXT_MAX\<close> places always succeeds, the printer
  writes the same text into every buffer that can hold it and nothing into a smaller one, and the parser
  reads the text back as the same date-time.
\<close>

theorem datetime_text_roundtrip:
  assumes "datetime_valid x"
  shows "\<exists>t. 0 < length t \<and> length t \<le> 20 \<and> datetime_parse t = Some x \<and>
     (\<forall>sz. datetime_format x sz = (if sz < length t then Some (0, []) else Some (length t, t)))"
proof (intro exI conjI allI)
  show "0 < length (datetime_text x)" by (simp add: datetime_text_def)
  show "length (datetime_text x) \<le> 20"
    using assms date_text_length [of "dt_date x" "CHR ''/''"]
    by (simp add: datetime_text_def time_text_length datetime_valid_def)
qed (rule datetime_parse_text [OF assms], rule datetime_format_text [OF assms])

theorem datetime_text_roundtrip_witness:
  "\<exists>t. length t \<le> 20 \<and> datetime_parse t = Some (datetime_set (date_set 2024 2 29) (time_set 23 59 59)) \<and>
     datetime_format (datetime_set (date_set 2024 2 29) (time_set 23 59 59)) 20 = Some (length t, t)"
proof -
  have "datetime_valid (datetime_set (date_set 2024 2 29) (time_set 23 59 59))" by code_simp
  from datetime_text_roundtrip [OF this] show ?thesis by (metis linorder_not_less)
qed

text \<open>
  C34: a parser accepts valid values only: whatever text \<^verbatim>\<open>lh_datetime_parse\<close> is given, a date-time it returns has a
  month, a day of that month and a time of day in range.
\<close>

theorem datetime_parse_valid:
  assumes "datetime_parse str = Some x"
  shows "datetime_valid x"
  using assms date_parse_valid [of "CHR ''/''"] time_parse_valid
  by (auto simp: datetime_parse_def datetime_set_def datetime_valid_def date_parse_def split: option.splits if_splits)

theorem datetime_parse_valid_witness:
  "datetime_valid (datetime_set (date_set 1999 12 31) (time_set 7 5 0))"
proof (rule datetime_parse_valid)
  show "datetime_parse ''1999/12/31 7:05:0'' = Some (datetime_set (date_set 1999 12 31) (time_set 7 5 0))"
    by code_simp
qed

end
