(* ===== verification/Net_Addr.thy ===== *)
theory Net_Addr
  imports Text_Digits
begin

text \<open>
  Network addresses: ports (\<^verbatim>\<open>src/lh/core/net/port.c\<close>), IPv4 addresses (\<^verbatim>\<open>net/ip.c\<close>), IPv4 socket addresses
  (\<^verbatim>\<open>net/socket/addr/ip4.c\<close>) and the tagged socket address (\<^verbatim>\<open>net/socket/addr.c\<close>). Shown: printing and parsing are
  inverse to each other in both directions, so that an address has exactly one accepted
  spelling; the scratch buffers of the printers are large enough; the comparisons are the numeric
  order of the addresses.
\<close>

section \<open>Ports\<close>

definition port_parse :: "string \<Rightarrow> u16 option" where
  "port_parse str = (case parse_uint 65535 str of None \<Rightarrow> None | Some value \<Rightarrow> Some (ucast value))"

definition port_equals :: "u16 \<Rightarrow> u16 \<Rightarrow> bool" where
  "port_equals self other \<longleftrightarrow> self = other"

definition port_is_at_least :: "u16 \<Rightarrow> u16 \<Rightarrow> bool" where
  "port_is_at_least self minimum \<longleftrightarrow> self \<ge> minimum"

definition port_is_less :: "u16 \<Rightarrow> u16 \<Rightarrow> bool" where
  "port_is_less self other \<longleftrightarrow> self < other"

definition port_is_greater :: "u16 \<Rightarrow> u16 \<Rightarrow> bool" where
  "port_is_greater self other \<longleftrightarrow> port_is_less other self"

section \<open>IPv4 addresses\<close>

record ip4 =
  octets :: "u8 list"

abbreviation octet_count :: nat where
  "octet_count \<equiv> 4"

definition ip4_ok :: "ip4 \<Rightarrow> bool" where
  "ip4_ok ip \<longleftrightarrow> length (octets ip) = octet_count"

definition ip4_get_octet :: "ip4 \<Rightarrow> nat \<Rightarrow> error_code + u8" where
  "ip4_get_octet self index = (if octet_count \<le> index then Inl Out_of_range else Inr (octets self ! index))"

definition ip4_set_octet :: "ip4 \<Rightarrow> nat \<Rightarrow> u8 \<Rightarrow> error_code + ip4" where
  "ip4_set_octet self index value =
     (if octet_count \<le> index then Inl Out_of_range else Inr (self\<lparr>octets := (octets self)[index := value]\<rparr>))"

definition ip4_set :: "u8 \<Rightarrow> u8 \<Rightarrow> u8 \<Rightarrow> u8 \<Rightarrow> ip4" where
  "ip4_set octet0 octet1 octet2 octet3 = \<lparr>octets = [octet0, octet1, octet2, octet3]\<rparr>"

definition ip4_assign :: "ip4 \<Rightarrow> ip4" where
  "ip4_assign other = ip4_set (octets other ! 0) (octets other ! 1) (octets other ! 2) (octets other ! 3)"

definition ip4_is_loopback :: "ip4 \<Rightarrow> bool" where
  "ip4_is_loopback self \<longleftrightarrow> octets self ! 0 = 127"

definition ip4_is_private :: "ip4 \<Rightarrow> bool" where
  "ip4_is_private self =
     (let octet0 = octets self ! 0; octet1 = octets self ! 1
      in if octet0 = 10 then True
         else if octet0 = 192 \<and> octet1 = 168 then True
         else if octet0 = 172 \<and> 16 \<le> octet1 \<and> octet1 \<le> 31 then True
         else False)"

text \<open>The loop over the octets: how many are left, the cursor, and the octets stored so far.\<close>

fun ip4_parse_loop :: "string \<Rightarrow> nat \<Rightarrow> nat \<Rightarrow> u8 list \<Rightarrow> u8 list option" where
  "ip4_parse_loop str 0 pos result = Some result"
| "ip4_parse_loop str (Suc left) pos result =
     (case split_next str CHR ''.'' pos of
        None \<Rightarrow> None
      | Some (field, had_delim, pos') \<Rightarrow>
          if had_delim = (left = 0) then None
          else (case parse_uint 255 field of
                  None \<Rightarrow> None
                | Some octet_value \<Rightarrow> ip4_parse_loop str left pos' (result @ [ucast octet_value])))"

definition ip4_parse :: "string \<Rightarrow> ip4 option" where
  "ip4_parse str =
     (case ip4_parse_loop str octet_count 0 [] of None \<Rightarrow> None | Some result \<Rightarrow> Some \<lparr>octets = result\<rparr>)"

text \<open>
  Writing into a scratch buffer of a fixed size: a store behind its end is undefined in C and has the
  value \<open>Overrun\<close>.
\<close>

datatype scratch = Overrun | Stopped | Scratch string

definition put_char :: "nat \<Rightarrow> char \<Rightarrow> string \<Rightarrow> scratch" where
  "put_char text_max c out = (if length out < text_max then Scratch (out @ [c]) else Overrun)"

definition put_uint :: "nat \<Rightarrow> uint_t \<Rightarrow> string \<Rightarrow> scratch" where
  "put_uint text_max value out =
     (let written = format_uint value (text_max - length out)
      in if written = [] then Stopped else Scratch (out @ written))"

fun scratch_bind :: "scratch \<Rightarrow> (string \<Rightarrow> scratch) \<Rightarrow> scratch" where
  "scratch_bind Overrun f = Overrun"
| "scratch_bind Stopped f = Stopped"
| "scratch_bind (Scratch out) f = f out"

fun format_octets :: "nat \<Rightarrow> nat \<Rightarrow> u8 list \<Rightarrow> string \<Rightarrow> scratch" where
  "format_octets text_max octet_index [] out = Scratch out"
| "format_octets text_max octet_index (octet # rest) out =
     scratch_bind (if 0 < octet_index then put_char text_max CHR ''.'' out else Scratch out)
       (\<lambda>out1. scratch_bind (put_uint text_max (ucast octet) out1)
          (\<lambda>out2. format_octets text_max (Suc octet_index) rest out2))"

text \<open>The scratch text is copied out when it fits; \<open>None\<close> when the scratch was overrun.\<close>

definition copy_out :: "scratch \<Rightarrow> nat \<Rightarrow> (nat \<times> string) option" where
  "copy_out s str_size =
     (case s of
        Overrun \<Rightarrow> None
      | Stopped \<Rightarrow> Some (0, [])
      | Scratch out \<Rightarrow> if str_size < length out then Some (0, []) else Some (length out, out))"

definition ip4_format :: "ip4 \<Rightarrow> nat \<Rightarrow> (nat \<times> string) option" where
  "ip4_format self str_size = copy_out (format_octets 15 0 (octets self) []) str_size"

definition ip4_equals :: "ip4 \<Rightarrow> ip4 \<Rightarrow> bool" where
  "ip4_equals self other \<longleftrightarrow> octets self = octets other"

fun octets_at_least :: "u8 list \<Rightarrow> u8 list \<Rightarrow> bool" where
  "octets_at_least (s # ss) (m # ms) = (if s \<noteq> m then s > m else octets_at_least ss ms)"
| "octets_at_least _ _ = True"

definition ip4_is_at_least :: "ip4 \<Rightarrow> ip4 \<Rightarrow> bool" where
  "ip4_is_at_least self minimum \<longleftrightarrow> octets_at_least (octets self) (octets minimum)"

definition ip4_is_less :: "ip4 \<Rightarrow> ip4 \<Rightarrow> bool" where
  "ip4_is_less self other \<longleftrightarrow> \<not> ip4_is_at_least self other"

definition ip4_is_greater :: "ip4 \<Rightarrow> ip4 \<Rightarrow> bool" where
  "ip4_is_greater self other \<longleftrightarrow> ip4_is_less other self"

section \<open>Socket addresses\<close>

record ip4_socket_addr =
  sa_ip :: ip4
  sa_port :: u16

definition ip4_socket_addr_set :: "ip4 \<Rightarrow> u16 \<Rightarrow> ip4_socket_addr" where
  "ip4_socket_addr_set ip port = \<lparr>sa_ip = ip, sa_port = port\<rparr>"

definition ip4_socket_addr_assign :: "ip4_socket_addr \<Rightarrow> ip4_socket_addr" where
  "ip4_socket_addr_assign other = ip4_socket_addr_set (sa_ip other) (sa_port other)"

definition ip4_socket_addr_parse :: "string \<Rightarrow> ip4_socket_addr option" where
  "ip4_socket_addr_parse str =
     (case split_next str CHR '':'' 0 of
        None \<Rightarrow> None
      | Some (field, had_delim, pos) \<Rightarrow>
          if \<not> had_delim then None
          else (case ip4_parse field of
                  None \<Rightarrow> None
                | Some ip \<Rightarrow>
                    (case port_parse (drop pos str) of
                       None \<Rightarrow> None
                     | Some port \<Rightarrow> Some (ip4_socket_addr_set ip port))))"

definition ip4_socket_addr_format :: "ip4_socket_addr \<Rightarrow> nat \<Rightarrow> (nat \<times> string) option" where
  "ip4_socket_addr_format self str_size =
     copy_out
       (scratch_bind (format_octets 21 0 (octets (sa_ip self)) [])
          (\<lambda>out. scratch_bind (put_char 21 CHR '':'' out)
             (\<lambda>out1. put_uint 21 (ucast (sa_port self)) out1)))
       str_size"

definition ip4_socket_addr_equals :: "ip4_socket_addr \<Rightarrow> ip4_socket_addr \<Rightarrow> bool" where
  "ip4_socket_addr_equals self other =
     (if \<not> ip4_equals (sa_ip self) (sa_ip other) then False
      else port_equals (sa_port self) (sa_port other))"

definition ip4_socket_addr_is_at_least :: "ip4_socket_addr \<Rightarrow> ip4_socket_addr \<Rightarrow> bool" where
  "ip4_socket_addr_is_at_least self minimum =
     (if \<not> ip4_is_at_least (sa_ip self) (sa_ip minimum) then False
      else if ip4_is_greater (sa_ip self) (sa_ip minimum) then True
      else port_is_at_least (sa_port self) (sa_port minimum))"

definition ip4_socket_addr_is_less :: "ip4_socket_addr \<Rightarrow> ip4_socket_addr \<Rightarrow> bool" where
  "ip4_socket_addr_is_less self other \<longleftrightarrow> \<not> ip4_socket_addr_is_at_least self other"

definition ip4_socket_addr_is_greater :: "ip4_socket_addr \<Rightarrow> ip4_socket_addr \<Rightarrow> bool" where
  "ip4_socket_addr_is_greater self other \<longleftrightarrow> ip4_socket_addr_is_less other self"

text \<open>The tagged address: family 0 is IPv4; no other family exists.\<close>

record socket_addr =
  family :: u8
  as_ip4 :: ip4_socket_addr

definition socket_addr_init_ip4 :: "ip4_socket_addr \<Rightarrow> socket_addr" where
  "socket_addr_init_ip4 addr = \<lparr>family = 0, as_ip4 = addr\<rparr>"

definition socket_addr_get_ip4 :: "socket_addr \<Rightarrow> error_code + ip4_socket_addr" where
  "socket_addr_get_ip4 self = (if family self \<noteq> 0 then Inl Invalid_argument else Inr (as_ip4 self))"

definition socket_addr_format :: "socket_addr \<Rightarrow> nat \<Rightarrow> (nat \<times> string) option" where
  "socket_addr_format self str_size =
     (if family self = 0 then ip4_socket_addr_format (as_ip4 self) str_size else Some (0, []))"

definition socket_addr_equals :: "socket_addr \<Rightarrow> socket_addr \<Rightarrow> bool" where
  "socket_addr_equals self other =
     (if family self \<noteq> family other then False
      else if family self = 0 then ip4_socket_addr_equals (as_ip4 self) (as_ip4 other)
      else False)"

section \<open>The only spelling of a number\<close>

text \<open>Shown in two steps: the printed text grows by one digit at its end, and so does what is parsed.\<close>

lemma uint_text_step:
  "10 \<le> unat v \<Longrightarrow> uint_text v = uint_text (v div 10) @ [char_from_digit (ucast (v mod 10))]"
  "unat v < 10 \<Longrightarrow> uint_text v = [char_from_digit (ucast v)]"
proof -
  assume "10 \<le> unat v"
  then show "uint_text v = uint_text (v div 10) @ [char_from_digit (ucast (v mod 10))]"
    by (simp add: uint_text_def digits_up_step [of v] digit_extract_def)
next
  assume v: "unat v < 10"
  then have "v mod 10 = v" by (simp add: word_unat_eq_iff unat_mod)
  with v show "uint_text v = [char_from_digit (ucast v)]"
    by (simp add: uint_text_def digits_up_step [of v] digit_extract_def)
qed

lemma digit_char:
  assumes "char_is_digit c"
  shows "char_from_digit (char_to_digit c) = c" "unat (char_to_digit c) < 10"
proof -
  have r: "48 \<le> ord c" "ord c \<le> 57" using assms by (simp_all add: char_is_digit_def)
  then have u: "unat (char_to_digit c) = ord c - 48" by (simp add: char_to_digit_def unat_of_nat del: of_nat_diff)
  then show "unat (char_to_digit c) < 10" using r by simp
  have "char_of (ord c) = c" by simp
  then show "char_from_digit (char_to_digit c) = c" using r u by (simp add: char_from_digit_def)
qed

lemma dec_value_ge1:
  assumes "list_all char_is_digit f" "f \<noteq> []" "f ! 0 \<noteq> CHR ''0''"
  shows "1 \<le> dec_value f"
proof -
  obtain c cs where f: "f = c # cs" using assms(2) by (cases f) auto
  then have "char_to_digit c \<noteq> 0"
    using assms(1, 3) digit_char(1) [of c] from_digit_facts(3) [of "char_to_digit c"] digit_char(2) [of c] by auto
  then have "1 \<le> unat (char_to_digit c)" using unat_eq_zero [of "char_to_digit c"] by linarith
  also have "\<dots> \<le> dec_value f" using digits_value_ge [of 10 "unat (char_to_digit c)" char_to_digit cs] by (simp add: f)
  finally show ?thesis .
qed

definition spelled :: "string \<Rightarrow> bool" where
  "spelled f \<longleftrightarrow> f \<noteq> [] \<and> list_all char_is_digit f \<and> (1 < length f \<longrightarrow> f ! 0 \<noteq> CHR ''0'')"

lemma spelling_unique: "spelled f \<Longrightarrow> dec_value f = unat v \<Longrightarrow> f = uint_text v"
proof (induction f arbitrary: v rule: rev_induct)
  case (snoc c g)
  note d = digit_char [of c]
  have c: "char_is_digit c" using snoc.prems by (simp add: spelled_def)
  have e: "unat v = dec_value g * 10 + unat (char_to_digit c)"
    using snoc.prems(2) by (simp add: digits_value_append)
  show ?case
  proof (cases "g = []")
    case True
    then have "unat v = unat (char_to_digit c)" using e by simp
    moreover from this have "ucast v = char_to_digit c"
      using d(2) [OF c] by (simp add: word_unat_eq_iff unat_ucast_mod)
    ultimately show ?thesis using d c True by (simp add: uint_text_step(2))
  next
    case False
    have g: "spelled g" "1 \<le> dec_value g"
      using snoc.prems False dec_value_ge1 [of g] by (auto simp: spelled_def nth_append)
    have "unat (v div 10) = dec_value g" "unat (v mod 10) = unat (char_to_digit c)"
      using e d(2) [OF c] by (simp_all add: unat_div unat_mod)
    moreover from this(2) have "ucast (v mod 10) = char_to_digit c"
      using d(2) [OF c] by (simp add: word_unat_eq_iff unat_ucast_mod)
    ultimately show ?thesis using snoc.IH [OF g(1), of "v div 10"] e g(2) d(1) [OF c]
      by (simp add: uint_text_step(1))
  qed
qed (simp add: spelled_def)

lemma parse_uint_iff: "parse_uint limit f = Some v \<longleftrightarrow> v \<le> limit \<and> f = uint_text v"
proof
  assume a: "parse_uint limit f = Some v"
  then have "spelled f" "v = of_nat (dec_value f)" and l: "dec_value f \<le> unat limit"
    by (auto simp: parse_uint_def parse_uint_digits_exact spelled_def split: if_splits)
  moreover from l have "unat (of_nat (dec_value f) :: uint_t) = dec_value f"
    using unsigned_less [of limit, where ?'a = nat] by (intro unat_of_nat_small) (rule le_less_trans)
  ultimately show "v \<le> limit \<and> f = uint_text v" using spelling_unique [of f v] by (simp add: word_le_nat_alt)
qed (auto simp: parse_uint_text)

lemma split_next_iff:
  "split_next str sep pos = Some (f, d, pos') \<longleftrightarrow> pos < length str \<and> sep \<notin> set f \<and>
     (if d then drop pos str = f @ sep # drop pos' str \<and> pos' = Suc (pos + length f)
      else drop pos str = f \<and> pos' = length str)" (is "?l = ?r")
proof (cases "pos < length str")
  case True
  let ?s = "drop pos str" let ?t = "takeWhile (\<lambda>c. c \<noteq> sep) ?s"
  show ?thesis
  proof (cases "sep \<in> set ?s")
    case in_s: True
    then have lt: "length ?t < length ?s" by (metis (mono_tags, lifting) length_takeWhile_le less_le set_takeWhileD takeWhile_eq_take take_all_iff le_refl)
    have eq: "?s = ?t @ sep # drop (Suc (length ?t)) ?s"
      using id_take_nth_drop [OF lt] nth_length_takeWhile [OF lt] by (simp add: takeWhile_eq_take [symmetric])
    have nin: "sep \<notin> set ?t" by (auto dest: set_takeWhileD)
    have "split_next str sep pos = Some (?t, True, Suc (pos + length ?t))"
      using True lt by (simp add: split_next_def split_next_of_def find_of_chars_def Let_def takeWhile_eq_take [symmetric])
    moreover have "?r \<longleftrightarrow> f = ?t \<and> d \<and> pos' = Suc (pos + length ?t)"
    proof
      assume r: ?r
      with in_s have d: d by (cases d) auto
      with r have "f = ?t" by (auto simp: takeWhile_append takeWhile_append2)
      with r d show "f = ?t \<and> d \<and> pos' = Suc (pos + length ?t)" by simp
    next
      assume "f = ?t \<and> d \<and> pos' = Suc (pos + length ?t)"
      then show ?r using eq nin True by (simp add: add.commute)
    qed
    ultimately show ?thesis by auto
  next
    case False
    then have "?t = ?s" by (auto simp: takeWhile_eq_all_conv)
    then have "length ?t = length str - pos" by (simp only: length_drop)
    then have "split_next str sep pos = Some (?s, False, length str)"
      using True by (simp add: split_next_def split_next_of_def find_of_chars_def Let_def)
    with False True show ?thesis by auto
  qed
qed (simp add: split_next_def split_next_of_def)

section \<open>Parsing and printing addresses\<close>

fun dotted :: "u8 list \<Rightarrow> string" where
  "dotted [] = []"
| "dotted [octet] = uint_text (ucast octet)"
| "dotted (octet # rest) = uint_text (ucast octet) @ CHR ''.'' # dotted rest"

lemma dotted_Cons: "os \<noteq> [] \<Longrightarrow> dotted (octet # os) = uint_text (ucast octet) @ CHR ''.'' # dotted os"
  by (cases os) auto

lemma dotted_nonempty: "os \<noteq> [] \<Longrightarrow> dotted os \<noteq> []"
  by (induction os rule: dotted.induct) (auto simp: uint_text_facts)

lemma octet_limit: "v \<le> 255 \<Longrightarrow> ucast (ucast v :: u8) = (v :: uint_t)" "(ucast (o' :: u8) :: uint_t) \<le> 255"
    "ucast (ucast o' :: uint_t) = o'"
  using unsigned_less [of o', where ?'a = nat]
  by (simp_all add: word_unat_eq_iff unat_ucast_mod unat_ucast_up word_le_nat_alt)

lemma port_limit: "v \<le> 65535 \<Longrightarrow> ucast (ucast v :: u16) = (v :: uint_t)" "(ucast (q :: u16) :: uint_t) \<le> 65535"
    "ucast (ucast q :: uint_t) = q"
  using unsigned_less [of q, where ?'a = nat]
  by (simp_all add: word_unat_eq_iff unat_ucast_mod unat_ucast_up word_le_nat_alt)

lemma separators_not_in_numbers: "CHR ''.'' \<notin> set (uint_text v)" "CHR '':'' \<notin> set (uint_text v)"
proof -
  have "\<not> char_is_digit CHR ''.''" "\<not> char_is_digit CHR '':''" by code_simp+
  then show "CHR ''.'' \<notin> set (uint_text v)" "CHR '':'' \<notin> set (uint_text v)"
    using uint_text_facts(2) [of v] by (auto simp: list_all_iff)
qed

lemma parse_octet_iff: "parse_uint 255 f = Some v \<longleftrightarrow> (\<exists>octet. v = ucast (octet :: u8) \<and> f = uint_text v)"
  using octet_limit by (metis parse_uint_iff)

lemma ip4_parse_loop_step:
  "ip4_parse_loop str (Suc n) pos result = Some r \<longleftrightarrow>
     (\<exists>octet pos'. split_next str CHR ''.'' pos = Some (uint_text (ucast octet), n \<noteq> 0, pos') \<and>
        ip4_parse_loop str n pos' (result @ [octet]) = Some r)" (is "?l \<longleftrightarrow> ?r")
proof
  assume ?l
  then obtain f d pos' v where "split_next str CHR ''.'' pos = Some (f, d, pos')" "d = (n \<noteq> 0)"
    "parse_uint 255 f = Some v" "ip4_parse_loop str n pos' (result @ [ucast v]) = Some r"
    by (auto split: option.splits if_splits)
  then show ?r by (auto simp: parse_octet_iff octet_limit)
next
  assume ?r
  then show ?l using octet_limit(2, 3) by (auto simp: parse_uint_text)
qed

lemma ip4_parse_loop_iff:
  "ip4_parse_loop str (Suc n) pos result = Some r \<longleftrightarrow>
     (\<exists>os. length os = Suc n \<and> r = result @ os \<and> pos < length str \<and> drop pos str = dotted os)"
proof (induction n arbitrary: pos result)
  case 0
  have "ip4_parse_loop str (Suc 0) pos result = Some r \<longleftrightarrow>
      (\<exists>octet pos'. split_next str CHR ''.'' pos = Some (uint_text (ucast octet), False, pos') \<and> r = result @ [octet])"
    unfolding ip4_parse_loop_step by auto
  also have "\<dots> \<longleftrightarrow> (\<exists>octet. pos < length str \<and> drop pos str = uint_text (ucast octet) \<and> r = result @ [octet])"
    by (auto simp: split_next_iff separators_not_in_numbers)
  also have "\<dots> \<longleftrightarrow> (\<exists>os. length os = Suc 0 \<and> r = result @ os \<and> pos < length str \<and> drop pos str = dotted os)"
    by (auto simp: length_Suc_conv)
  finally show ?case .
next
  case (Suc n)
  have "ip4_parse_loop str (Suc (Suc n)) pos result = Some r \<longleftrightarrow>
      (\<exists>octet pos'. split_next str CHR ''.'' pos = Some (uint_text (ucast octet), True, pos') \<and>
         ip4_parse_loop str (Suc n) pos' (result @ [octet]) = Some r)"
    unfolding ip4_parse_loop_step [of str "Suc n"] by simp
  also have "\<dots> \<longleftrightarrow> (\<exists>octet os pos'. pos < length str \<and> pos' = Suc (pos + length (uint_text (ucast octet))) \<and>
      drop pos str = uint_text (ucast octet) @ CHR ''.'' # drop pos' str \<and>
      length os = Suc n \<and> r = result @ octet # os \<and> pos' < length str \<and> drop pos' str = dotted os)"
    by (auto simp: split_next_iff separators_not_in_numbers Suc.IH simp del: ip4_parse_loop.simps)
  also have "\<dots> \<longleftrightarrow> (\<exists>os. length os = Suc (Suc n) \<and> r = result @ os \<and> pos < length str \<and> drop pos str = dotted os)"
    (is "?l \<longleftrightarrow> ?r")
  proof
    assume ?l
    then obtain octet os pos' where "pos < length str" "length os = Suc n" "r = result @ octet # os"
      "drop pos str = uint_text (ucast octet) @ CHR ''.'' # drop pos' str" "drop pos' str = dotted os" by auto
    moreover from this have "os \<noteq> []" by auto
    ultimately show ?r by (intro exI [of _ "octet # os"]) (simp add: dotted_Cons)
  next
    assume ?r
    then obtain octet os where o: "length os = Suc n" "r = result @ octet # os" "pos < length str"
      "drop pos str = dotted (octet # os)" by (auto simp: length_Suc_conv)
    let ?p = "Suc (pos + length (uint_text (ucast octet)))"
    have ne: "os \<noteq> []" using o(1) by auto
    have d: "drop pos str = uint_text (ucast octet) @ CHR ''.'' # dotted os" "os \<noteq> []"
      using o(4) ne by (simp_all add: dotted_Cons)
    have "drop ?p str = drop (Suc (length (uint_text (ucast octet)))) (drop pos str)" by (simp add: add.commute)
    then have "drop ?p str = dotted os" by (simp add: d)
    moreover from this have "?p < length str" using dotted_nonempty [OF d(2)] by (metis drop_all not_le)
    ultimately show ?l using o d by auto
  qed
  finally show ?case .
qed

lemma ip4_parse_iff: "ip4_parse str = Some ip \<longleftrightarrow> ip4_ok ip \<and> str = dotted (octets ip)"
proof -
  have n: "(4 :: nat) = Suc 3" by simp
  have "ip4_parse_loop str 4 0 [] = Some r \<longleftrightarrow> length r = 4 \<and> str = dotted r" for r
    unfolding n ip4_parse_loop_iff using dotted_nonempty [of r] by (cases r) auto
  moreover have "ip4_parse str = Some ip \<longleftrightarrow> ip4_parse_loop str 4 0 [] = Some (octets ip)"
    by (cases ip) (auto simp: ip4_parse_def split: option.splits)
  ultimately show ?thesis by (simp add: ip4_ok_def)
qed

lemma put_uint_text: "length (out @ uint_text v) \<le> n \<Longrightarrow> put_uint n v out = Scratch (out @ uint_text v)"
  by (simp add: put_uint_def format_uint_text uint_text_facts Let_def)

lemma format_octets_text:
  "os \<noteq> [] \<Longrightarrow> length (out @ (if 0 < i then ''.'' else []) @ dotted os) \<le> n \<Longrightarrow>
   format_octets n i os out = Scratch (out @ (if 0 < i then ''.'' else []) @ dotted os)"
proof (induction n i os out rule: format_octets.induct)
  case (2 n i octet rest out)
  let ?out1 = "out @ (if 0 < i then ''.'' else [])"
  have len: "length (?out1 @ uint_text (ucast octet)) \<le> n"
    using 2(3) by (cases rest) (auto simp: dotted_Cons split: if_splits)
  have p: "(if 0 < i then put_char n CHR ''.'' out else Scratch out) = Scratch ?out1"
    using len uint_text_facts(1) [of "ucast octet"]
    by (cases "uint_text (ucast octet)") (auto simp: put_char_def split: if_splits)
  show ?case
  proof (cases "rest = []")
    case True
    then show ?thesis using p put_uint_text [OF len] by simp
  next
    case False
    then show ?thesis
      using 2(1) [of "?out1 @ uint_text (ucast octet)"] 2(3) p put_uint_text [OF len] by (simp add: dotted_Cons)
  qed
qed simp

lemma octet_text_length: "length (uint_text (ucast (octet :: u8))) \<le> 3"
proof -
  have "unat (ucast octet :: uint_t) < 10 ^ Suc 2"
    using unsigned_less [of octet, where ?'a = nat] by (simp add: unat_ucast_up)
  then show ?thesis using digits_up_length [of "ucast octet" 2] by (simp add: uint_text_def)
qed

lemma port_text_length: "length (uint_text (ucast (q :: u16))) \<le> 5"
proof -
  have "unat (ucast q :: uint_t) < 10 ^ Suc 4"
    using unsigned_less [of q, where ?'a = nat] by (simp add: unat_ucast_up)
  then show ?thesis using digits_up_length [of "ucast q" 4] by (simp add: uint_text_def)
qed

lemma dotted_length: "ip4_ok ip \<Longrightarrow> length (dotted (octets ip)) \<le> 15"
proof -
  assume "ip4_ok ip"
  then obtain a b c d where "octets ip = [a, b, c, d]" by (auto simp: ip4_ok_def length_Suc_conv numeral_eq_Suc)
  then show ?thesis
    using octet_text_length [of a] octet_text_length [of b] octet_text_length [of c] octet_text_length [of d] by simp
qed

lemma ok_nonempty: "ip4_ok ip \<Longrightarrow> octets ip \<noteq> []"
  by (auto simp: ip4_ok_def)

lemma ip4_format_text:
  "ip4_ok ip \<Longrightarrow> ip4_format ip sz = (if sz < length (dotted (octets ip)) then Some (0, [])
     else Some (length (dotted (octets ip)), dotted (octets ip)))"
  using format_octets_text [OF ok_nonempty, of ip "[]" 0 15] dotted_length [of ip]
  by (simp add: ip4_format_def copy_out_def)

definition addr_text :: "ip4_socket_addr \<Rightarrow> string" where
  "addr_text a = dotted (octets (sa_ip a)) @ CHR '':'' # uint_text (ucast (sa_port a))"

lemma addr_text_length: "ip4_ok (sa_ip a) \<Longrightarrow> length (addr_text a) \<le> 21"
  using dotted_length [of "sa_ip a"] port_text_length [of "sa_port a"] by (simp add: addr_text_def)

lemma colon_not_dotted: "CHR '':'' \<notin> set (dotted os)"
  by (induction os rule: dotted.induct) (auto simp: separators_not_in_numbers)

lemma port_parse_iff: "port_parse str = Some port \<longleftrightarrow> str = uint_text (ucast port)"
proof
  assume "port_parse str = Some port"
  then show "str = uint_text (ucast port)"
    by (auto simp: port_parse_def parse_uint_iff port_limit split: option.splits)
next
  assume "str = uint_text (ucast port)"
  then show "port_parse str = Some port" by (simp add: port_parse_def parse_uint_text port_limit)
qed

lemma addr_parse_iff: "ip4_socket_addr_parse str = Some a \<longleftrightarrow> ip4_ok (sa_ip a) \<and> str = addr_text a"
proof -
  have "ip4_socket_addr_parse str = Some a \<longleftrightarrow>
      (\<exists>pos. split_next str CHR '':'' 0 = Some (dotted (octets (sa_ip a)), True, pos) \<and> ip4_ok (sa_ip a) \<and>
         drop pos str = uint_text (ucast (sa_port a)))" (is "?l \<longleftrightarrow> ?r")
  proof
    assume ?l
    then obtain f pos ip port where "split_next str CHR '':'' 0 = Some (f, True, pos)" "ip4_parse f = Some ip"
      "port_parse (drop pos str) = Some port" "a = ip4_socket_addr_set ip port"
      by (auto simp: ip4_socket_addr_parse_def split: option.splits if_splits)
    then show ?r by (simp add: ip4_parse_iff port_parse_iff ip4_socket_addr_set_def)
  next
    assume ?r
    then obtain pos where "split_next str CHR '':'' 0 = Some (dotted (octets (sa_ip a)), True, pos)"
      "ip4_parse (dotted (octets (sa_ip a))) = Some (sa_ip a)" "port_parse (drop pos str) = Some (sa_port a)"
      by (auto simp: ip4_parse_iff port_parse_iff)
    then show ?l by (simp add: ip4_socket_addr_parse_def ip4_socket_addr_set_def)
  qed
  also have "\<dots> \<longleftrightarrow> ip4_ok (sa_ip a) \<and> str = addr_text a"
    by (auto simp: split_next_iff addr_text_def colon_not_dotted)
  finally show ?thesis .
qed

lemma addr_format_text:
  assumes "ip4_ok (sa_ip a)"
  shows "ip4_socket_addr_format a sz = (if sz < length (addr_text a) then Some (0, [])
     else Some (length (addr_text a), addr_text a))"
proof -
  have l: "length (addr_text a) \<le> 21" by (rule addr_text_length [OF assms])
  let ?d = "dotted (octets (sa_ip a))"
  have "format_octets 21 0 (octets (sa_ip a)) [] = Scratch ?d"
    using format_octets_text [OF ok_nonempty [OF assms], of "[]" 0 21] l by (simp add: addr_text_def)
  moreover have "put_char 21 CHR '':'' ?d = Scratch (?d @ '':'')" using l by (simp add: put_char_def addr_text_def)
  moreover have "put_uint 21 (ucast (sa_port a)) (?d @ '':'') = Scratch (addr_text a)"
    using put_uint_text [of "?d @ '':''" "ucast (sa_port a)" 21] l by (simp add: addr_text_def)
  ultimately show ?thesis by (simp add: ip4_socket_addr_format_def copy_out_def)
qed

text \<open>
  C35: text and socket addresses correspond one to one: the parser accepts a text exactly when it is what the
  printer writes for the address it returns, that text fits \<^verbatim>\<open>LH_NET_IP4_SOCKET_ADDR_TEXT_MAX\<close> places,
  a buffer too small for it receives nothing, and the scratch buffer of the printer is never
  overrun.
\<close>

theorem addr_text_bijection:
  assumes "ip4_ok (sa_ip a)"
  shows "\<exists>t. length t \<le> 21 \<and> (\<forall>str. ip4_socket_addr_parse str = Some a \<longleftrightarrow> str = t) \<and>
     (\<forall>sz. ip4_socket_addr_format a sz = (if sz < length t then Some (0, []) else Some (length t, t)))"
  using assms addr_parse_iff addr_format_text addr_text_length by (intro exI [of _ "addr_text a"]) simp

definition sample_addr :: ip4_socket_addr where
  "sample_addr = ip4_socket_addr_set (ip4_set 192 168 0 1) 8080"

theorem addr_text_bijection_witness:
  "\<exists>t. (\<forall>str. ip4_socket_addr_parse str = Some sample_addr \<longleftrightarrow> str = t) \<and>
     ip4_socket_addr_format sample_addr 21 = Some (length t, t)"
proof -
  have "ip4_ok (sa_ip sample_addr)" by code_simp
  from addr_text_bijection [OF this] show ?thesis by (metis linorder_not_less)
qed

section \<open>The order of addresses\<close>

definition octets_number :: "u8 list \<Rightarrow> nat" where
  "octets_number = foldl (\<lambda>n octet. n * 256 + unat octet) 0"

definition addr_number :: "ip4_socket_addr \<Rightarrow> nat" where
  "addr_number a = octets_number (octets (sa_ip a)) * 65536 + unat (sa_port a)"

lemma octets_foldl: "foldl (\<lambda>n octet. n * 256 + unat octet) k os = k * 256 ^ length os + octets_number os"
  unfolding octets_number_def
  by (induction os rule: rev_induct) (simp_all add: algebra_simps)

lemma octets_number_Cons: "octets_number (x # xs) = unat (x :: u8) * 256 ^ length xs + octets_number xs"
  using octets_foldl [of "unat x" xs] by (simp add: octets_number_def)

lemma octets_number_less: "octets_number os < 256 ^ length os"
proof (induction os)
  case (Cons x xs)
  have "unat x + 1 \<le> 256" using unsigned_less [of x, where ?'a = nat] by simp
  then have "(unat x + 1) * 256 ^ length xs \<le> 256 * 256 ^ length xs" by (rule mult_le_mono1)
  then have "unat x * 256 ^ length xs + octets_number xs < 256 * 256 ^ length xs"
    using Cons by (simp only: add_mult_distrib mult_1)
  then show ?case by (simp add: octets_number_Cons)
qed (simp add: octets_number_def)

lemma radix_less:
  fixes a b m n k :: nat
  assumes "m < k" "a < b"
  shows "a * k + m < b * k + n"
proof -
  have "a * k + m < (a + 1) * k" using assms(1) by simp
  also have "\<dots> \<le> b * k" using assms(2) by (intro mult_le_mono1) simp
  finally show ?thesis by simp
qed

lemma octets_order:
  "length xs = length ys \<Longrightarrow> octets_at_least xs ys \<longleftrightarrow> octets_number ys \<le> octets_number xs"
proof (induction xs ys rule: list_induct2)
  case (Cons x xs y ys)
  note l = octets_number_less [of xs] octets_number_less [of ys]
  consider "unat x < unat y" | "unat y < unat x" | "x = y" by (metis linorder_neqE_nat word_unat_eq_iff)
  then show ?case
  proof cases
    case 1
    from radix_less [OF l(1) 1, of "octets_number ys"] show ?thesis using 1 Cons(1)
      by (auto simp: octets_number_Cons word_less_nat_alt)
  next
    case 2
    from radix_less [OF l(2) 2, of "octets_number xs"] show ?thesis using 2 Cons(1)
      by (auto simp: octets_number_Cons word_less_nat_alt)
  next
    case 3
    then show ?thesis using Cons by (simp add: octets_number_Cons)
  qed
qed simp

lemma octets_number_inj: "length xs = length ys \<Longrightarrow> octets_number xs = octets_number ys \<Longrightarrow> xs = ys"
proof (induction xs ys rule: list_induct2)
  case (Cons x xs y ys)
  note l = octets_number_less [of xs] octets_number_less [of ys]
  have "unat x = unat y"
    using radix_less [OF l(1), of "unat x" "unat y"] radix_less [OF l(2), of "unat y" "unat x"] Cons(1, 3)
    by (metis less_irrefl linorder_neqE_nat octets_number_Cons)
  then show ?case using Cons by (simp add: octets_number_Cons word_unat_eq_iff)
qed simp

lemma addr_at_least:
  assumes "ip4_ok (sa_ip a)" "ip4_ok (sa_ip b)"
  shows "ip4_socket_addr_is_at_least a b \<longleftrightarrow> addr_number b \<le> addr_number a"
proof -
  let ?x = "octets (sa_ip a)" and ?y = "octets (sa_ip b)"
  have len: "length ?x = length ?y" using assms by (simp add: ip4_ok_def)
  have p: "unat (sa_port a) < 65536" "unat (sa_port b) < 65536"
    using unsigned_less [of "sa_port a", where ?'a = nat] unsigned_less [of "sa_port b", where ?'a = nat] by simp_all
  have o: "ip4_is_at_least (sa_ip a) (sa_ip b) \<longleftrightarrow> octets_number ?y \<le> octets_number ?x"
    "ip4_is_at_least (sa_ip b) (sa_ip a) \<longleftrightarrow> octets_number ?x \<le> octets_number ?y"
    using octets_order [OF len] octets_order [OF len [symmetric]] by (simp_all add: ip4_is_at_least_def)
  show ?thesis
    using o radix_less [OF p(1), of "octets_number ?x" "octets_number ?y" "unat (sa_port b)"]
      radix_less [OF p(2), of "octets_number ?y" "octets_number ?x" "unat (sa_port a)"]
    by (auto simp: ip4_socket_addr_is_at_least_def addr_number_def ip4_is_greater_def ip4_is_less_def
        port_is_at_least_def word_le_nat_alt)
qed

lemma addr_number_inj:
  assumes "ip4_ok (sa_ip a)" "ip4_ok (sa_ip b)" "addr_number a = addr_number b"
  shows "a = b"
proof -
  have p: "unat (sa_port a) < 65536" "unat (sa_port b) < 65536"
    using unsigned_less [of "sa_port a", where ?'a = nat] unsigned_less [of "sa_port b", where ?'a = nat] by simp_all
  have n: "octets_number (octets (sa_ip a)) = octets_number (octets (sa_ip b))"
    using radix_less [OF p(1)] radix_less [OF p(2)] assms(3) by (metis addr_number_def less_irrefl linorder_neqE_nat)
  then have "octets (sa_ip a) = octets (sa_ip b)" using assms by (intro octets_number_inj) (simp_all add: ip4_ok_def)
  moreover have "sa_port a = sa_port b" using assms(3) n by (simp add: addr_number_def word_unat_eq_iff)
  ultimately show ?thesis by (cases a; cases b; cases "sa_ip a"; cases "sa_ip b") simp
qed

lemma addr_equals_eq: "ip4_socket_addr_equals a b \<longleftrightarrow> a = b"
  by (cases a; cases b; cases "sa_ip a"; cases "sa_ip b")
    (auto simp: ip4_socket_addr_equals_def ip4_equals_def port_equals_def)

text \<open>
  The comparisons of socket addresses are the order of one number, the octets of the address read as a
  big-endian number followed by the port; they are total and agree with equality.
\<close>

theorem addr_order:
  assumes "ip4_ok (sa_ip a)" "ip4_ok (sa_ip b)"
  shows "(ip4_socket_addr_is_at_least a b \<longleftrightarrow> addr_number b \<le> addr_number a) \<and>
    (ip4_socket_addr_is_less a b \<longleftrightarrow> addr_number a < addr_number b) \<and>
    (ip4_socket_addr_is_greater a b \<longleftrightarrow> addr_number b < addr_number a) \<and>
    (ip4_socket_addr_equals a b \<longleftrightarrow> addr_number a = addr_number b)"
  using addr_at_least [OF assms] addr_at_least [OF assms(2, 1)] addr_number_inj [OF assms]
  by (auto simp: ip4_socket_addr_is_less_def ip4_socket_addr_is_greater_def addr_equals_eq)

theorem addr_order_witness:
  "ip4_socket_addr_is_less (ip4_socket_addr_set (ip4_set 10 0 0 9) 99) sample_addr \<longleftrightarrow>
   addr_number (ip4_socket_addr_set (ip4_set 10 0 0 9) 99) < addr_number sample_addr"
proof -
  have "ip4_ok (sa_ip sample_addr)" "ip4_ok (sa_ip (ip4_socket_addr_set (ip4_set 10 0 0 9) 99))" by code_simp+
  then show ?thesis using addr_order by blast
qed

end
