(* ===== verification/Text_View.thy ===== *)
theory Text_View
  imports Text_Digits
begin

text \<open>
  Text views and cursors: case folding (\<^verbatim>\<open>include/lh/core/util/char.h\<close>,
  \<^verbatim>\<open>src/lh/core/util/char/case/fold.c\<close>), comparison, search and trimming (\<^verbatim>\<open>src/lh/core/util/str/ptr.c\<close>,
  \<^verbatim>\<open>src/lh/core/str/view.c\<close>), the split at a character (\<^verbatim>\<open>str/split/once.c\<close>) and the scanning cursor
  (\<^verbatim>\<open>src/lh/core/str/cursor.c\<close>). A view is the text it shows; an absent view and an empty one are the
  empty list. The word-at-a-time searches are taken by what they find.
\<close>

section \<open>Characters\<close>

definition char_is_upper :: "char \<Rightarrow> bool" where
  "char_is_upper ch \<longleftrightarrow> ord CHR ''A'' \<le> ord ch \<and> ord ch \<le> ord CHR ''Z''"

definition char_is_lower :: "char \<Rightarrow> bool" where
  "char_is_lower ch \<longleftrightarrow> ord CHR ''a'' \<le> ord ch \<and> ord ch \<le> ord CHR ''z''"

definition char_is_letter :: "char \<Rightarrow> bool" where
  "char_is_letter ch \<longleftrightarrow> char_is_upper ch \<or> char_is_lower ch"

abbreviation ht :: char where "ht \<equiv> CHR 0x09"
abbreviation lf :: char where "lf \<equiv> CHR 0x0A"
abbreviation cr :: char where "cr \<equiv> CHR 0x0D"
abbreviation sp :: char where "sp \<equiv> CHR 0x20"
abbreviation crlf :: string where "crlf \<equiv> [cr, lf]"

text \<open>The rows of the fold table above 127 are \<^verbatim>\<open>C0\<close> to \<^verbatim>\<open>DE\<close> without \<^verbatim>\<open>D7\<close>, each to itself plus 32.\<close>

definition fold_case_nonascii :: "char \<Rightarrow> char" where
  "fold_case_nonascii c =
     (if 0xC0 \<le> ord c \<and> ord c \<le> 0xDE \<and> ord c \<noteq> 0xD7 then char_of (ord c + 32) else c)"

definition fold_case :: "char \<Rightarrow> char" where
  "fold_case c =
     (if ord c < 128 then if 65 \<le> ord c \<and> ord c \<le> 90 then char_of (ord c + 32) else c
      else fold_case_nonascii c)"

definition char_is_whitespace :: "char \<Rightarrow> bool" where
  "char_is_whitespace ch \<longleftrightarrow> ch = sp \<or> ord ht \<le> ord ch \<and> ord ch \<le> ord cr"

definition whitespace :: string where
  "whitespace = [sp, lf, cr, ht, CHR 0x0B, CHR 0x0C]"

section \<open>Views\<close>

definition contains_char :: "string \<Rightarrow> char \<Rightarrow> bool" where
  "contains_char chars ch \<longleftrightarrow> ch \<in> set chars"

definition compare_by_ignore_case :: "string \<Rightarrow> string \<Rightarrow> nat option" where
  "compare_by_ignore_case str src =
     (let n = length (takeWhile (\<lambda>(a, b). fold_case a = fold_case b) (zip str src))
      in if n < min (length str) (length src) then Some n else None)"

definition str_compare :: "string \<Rightarrow> string \<Rightarrow> bool \<Rightarrow> nat option" where
  "str_compare str src ignore_case =
     (if ignore_case then compare_by_ignore_case str src
      else let n = length (takeWhile (\<lambda>(a, b). a = b) (zip str src))
           in if n < min (length str) (length src) then Some n else None)"

definition view_equals :: "string \<Rightarrow> string \<Rightarrow> bool \<Rightarrow> bool" where
  "view_equals self other ignore_case \<longleftrightarrow>
     length self = length other \<and> str_compare self other ignore_case = None"

definition view_starts_with :: "string \<Rightarrow> string \<Rightarrow> bool \<Rightarrow> bool" where
  "view_starts_with self other ignore_case \<longleftrightarrow>
     \<not> length self < length other \<and> str_compare (take (length other) self) other ignore_case = None"

definition view_find_char :: "string \<Rightarrow> char \<Rightarrow> nat option" where
  "view_find_char self ch = find_of_chars self [ch]"

definition find_not_of :: "string \<Rightarrow> string \<Rightarrow> nat option" where
  "find_not_of self chars =
     (let n = length (takeWhile (\<lambda>c. c \<in> set chars) self) in if n < length self then Some n else None)"

definition rfind_not_of :: "string \<Rightarrow> string \<Rightarrow> nat option" where
  "rfind_not_of self chars =
     (let n = length (takeWhile (\<lambda>c. c \<in> set chars) (rev self))
      in if n < length self then Some (length self - 1 - n) else None)"

definition view_ltrim :: "string \<Rightarrow> string" where
  "view_ltrim self =
     (if self = [] then self
      else case find_not_of self whitespace of None \<Rightarrow> [] | Some first \<Rightarrow> drop first self)"

definition view_rtrim :: "string \<Rightarrow> string" where
  "view_rtrim self =
     (if self = [] then self
      else case rfind_not_of self whitespace of None \<Rightarrow> [] | Some at \<Rightarrow> take (at + 1) self)"

definition view_trim :: "string \<Rightarrow> string" where
  "view_trim self = view_rtrim (view_ltrim self)"

definition split_once :: "string \<Rightarrow> char \<Rightarrow> (string \<times> string) option" where
  "split_once self delim =
     (if self = [] then None
      else case view_find_char self delim of
             None \<Rightarrow> None
           | Some at \<Rightarrow> Some (take at self, drop (at + 1) self))"

section \<open>Cursors\<close>

record str_cursor =
  cur_text :: string
  cur_pos :: nat

definition cursor_init :: "string \<Rightarrow> str_cursor" where
  "cursor_init text = \<lparr>cur_text = text, cur_pos = 0\<rparr>"

definition cursor_is_end :: "str_cursor \<Rightarrow> bool" where
  "cursor_is_end self \<longleftrightarrow> length (cur_text self) \<le> cur_pos self"

definition cursor_get_left :: "str_cursor \<Rightarrow> nat" where
  "cursor_get_left self = length (cur_text self) - cur_pos self"

definition cursor_peek :: "nat \<Rightarrow> str_cursor \<Rightarrow> char" where
  "cursor_peek ahead self =
     (let at = cur_pos self + ahead
      in if length (cur_text self) \<le> at then CHR 0x00 else cur_text self ! at)"

definition cursor_get_char :: "str_cursor \<Rightarrow> char" where
  "cursor_get_char self = cursor_peek 0 self"

definition cursor_advance :: "nat \<Rightarrow> str_cursor \<Rightarrow> str_cursor" where
  "cursor_advance count self = self\<lparr>cur_pos := cur_pos self + min count (cursor_get_left self)\<rparr>"

definition cursor_skip_char :: "char \<Rightarrow> str_cursor \<Rightarrow> bool \<times> str_cursor" where
  "cursor_skip_char ch self =
     (if cursor_is_end self \<or> cursor_get_char self \<noteq> ch then (False, self)
      else (True, cursor_advance 1 self))"

text \<open>The loop that skips while a test holds; it returns the number of characters skipped.\<close>

function cursor_skip_while :: "(char \<Rightarrow> bool) \<Rightarrow> str_cursor \<Rightarrow> str_cursor" where
  "cursor_skip_while test self =
     (if \<not> cursor_is_end self \<and> test (cursor_get_char self)
      then cursor_skip_while test (cursor_advance 1 self) else self)"
  by pat_completeness auto

termination cursor_skip_while
  by (relation "measure (\<lambda>(test, self). cursor_get_left self)")
    (auto simp: cursor_is_end_def cursor_advance_def cursor_get_left_def)

declare cursor_skip_while.simps [simp del]

definition cursor_skip_whitespace :: "str_cursor \<Rightarrow> nat \<times> str_cursor" where
  "cursor_skip_whitespace self =
     (let after = cursor_skip_while char_is_whitespace self in (cur_pos after - cur_pos self, after))"

section \<open>What the operations do\<close>

lemma zip_none_iff:
  "length xs = length ys \<Longrightarrow>
   \<not> length (takeWhile (\<lambda>(a, b). f a = f b) (zip xs ys)) < min (length xs) (length ys) \<longleftrightarrow> map f xs = map f ys"
  by (induction xs ys rule: list_induct2) auto

lemma view_equals_iff:
  "view_equals self other ignore_case \<longleftrightarrow>
     (if ignore_case then map fold_case self = map fold_case other else self = other)"
proof (cases "length self = length other")
  case True
  then show ?thesis
    using zip_none_iff [of self other fold_case] zip_none_iff [of self other id]
    by (auto simp: view_equals_def str_compare_def compare_by_ignore_case_def Let_def split: if_splits)
next
  case False
  then show ?thesis by (auto simp: view_equals_def dest: map_eq_imp_length_eq)
qed

lemma view_starts_with_iff: "view_starts_with self other False \<longleftrightarrow> (\<exists>rest. self = other @ rest)"
proof -
  have "view_starts_with self other False \<longleftrightarrow> length other \<le> length self \<and> take (length other) self = other"
    using view_equals_iff [of "take (length other) self" other False]
    by (auto simp: view_starts_with_def view_equals_def)
  then show ?thesis by (metis append_eq_conv_conj append_take_drop_id length_append le_add1)
qed

lemma ltrim_dropWhile: "view_ltrim s = dropWhile (\<lambda>c. c \<in> set whitespace) s"
proof (cases "length (takeWhile (\<lambda>c. c \<in> set whitespace) s) < length s")
  case True
  then show ?thesis by (auto simp: view_ltrim_def find_not_of_def Let_def dropWhile_eq_drop)
next
  case False
  then show ?thesis by (auto simp: view_ltrim_def find_not_of_def Let_def dropWhile_eq_drop)
qed

lemma rtrim_dropWhile: "view_rtrim s = rev (dropWhile (\<lambda>c. c \<in> set whitespace) (rev s))"
proof -
  let ?n = "length (takeWhile (\<lambda>c. c \<in> set whitespace) (rev s))"
  have d: "rev (dropWhile (\<lambda>c. c \<in> set whitespace) (rev s)) = take (length s - ?n) s"
    by (simp add: dropWhile_eq_drop rev_drop)
  show ?thesis
  proof (cases "?n < length s")
    case True
    then have "length s - 1 - ?n + 1 = length s - ?n" "s \<noteq> []" by auto
    then show ?thesis using True by (simp add: view_rtrim_def rfind_not_of_def Let_def d)
  next
    case False
    then show ?thesis by (simp add: view_rtrim_def rfind_not_of_def Let_def d)
  qed
qed

text \<open>A text that neither begins nor ends with whitespace.\<close>

definition trimmed :: "string \<Rightarrow> bool" where
  "trimmed s \<longleftrightarrow> s = [] \<or> hd s \<notin> set whitespace \<and> last s \<notin> set whitespace"

lemma trim_pads:
  assumes "set l \<subseteq> set whitespace" "set r \<subseteq> set whitespace" "trimmed s"
  shows "view_trim (l @ s @ r) = s"
proof (cases s rule: rev_cases)
  case Nil
  have "view_ltrim (l @ r) = []" using assms(1, 2) by (auto simp: ltrim_dropWhile)
  then show ?thesis using Nil by (simp add: view_trim_def rtrim_dropWhile)
next
  case (snoc t z)
  have "view_ltrim (l @ s @ r) = s @ r"
    using assms(1, 3) snoc by (auto simp: ltrim_dropWhile dropWhile_append2 trimmed_def subset_iff split: if_splits)
      (cases t; simp)+
  moreover have "view_rtrim (s @ r) = s"
  proof -
    have "dropWhile (\<lambda>c. c \<in> set whitespace) (rev r @ rev s) = dropWhile (\<lambda>c. c \<in> set whitespace) (rev s)"
      by (rule dropWhile_append2) (use assms(2) in auto)
    then show ?thesis using assms(3) snoc by (simp add: rtrim_dropWhile trimmed_def)
  qed
  ultimately show ?thesis by (simp add: view_trim_def)
qed

lemma trim_parts:
  obtains l r where "s = l @ view_trim s @ r" "set l \<subseteq> set whitespace" "set r \<subseteq> set whitespace" "trimmed (view_trim s)"
proof -
  let ?w = "\<lambda>c. c \<in> set whitespace"
  let ?t = "dropWhile ?w s"
  let ?r = "rev (takeWhile ?w (rev ?t))"
  have v: "view_trim s = rev (dropWhile ?w (rev ?t))" by (simp add: view_trim_def ltrim_dropWhile rtrim_dropWhile)
  have "s = takeWhile ?w s @ ?t" by simp
  moreover have t: "?t = view_trim s @ ?r" by (metis v rev_append rev_rev_ident takeWhile_dropWhile_id)
  ultimately have "s = takeWhile ?w s @ view_trim s @ ?r" by metis
  moreover have "trimmed (view_trim s)"
  proof (cases "view_trim s = []")
    case False
    then have "hd (view_trim s) = hd ?t" "?t \<noteq> []" by (metis t hd_append2, metis t False append_is_Nil_conv)
    moreover have "last (view_trim s) = hd (dropWhile ?w (rev ?t))" using False by (simp add: v last_rev)
    ultimately show ?thesis using False v hd_dropWhile [of ?w s] hd_dropWhile [of ?w "rev ?t"] by (auto simp: trimmed_def)
  qed (simp add: trimmed_def)
  ultimately show ?thesis using that [of "takeWhile ?w s" ?r] by (auto dest: set_takeWhileD)
qed

end
