(* ===== verification/Http_Parse.thy ===== *)
theory Http_Parse
  imports Http_Head
begin

text \<open>
  What the parser of message heads does: it never looks past the line it is given, more input changes
  no verdict, and the heads it accepts are exactly those of the grammar.
\<close>

section \<open>Lines do not depend on what follows\<close>

lemma from_offset_more: "i + n \<le> length input \<Longrightarrow> from_offset (input @ zs) i n = from_offset input i n"
  by (simp add: from_offset_def)

lemma from_offset_nth: "k < n \<Longrightarrow> i + n \<le> length input \<Longrightarrow> from_offset input i n ! k = input ! (i + k)"
  by (simp add: from_offset_def)

lemma from_offset_length [simp]: "length (from_offset input i n) = min n (length input - i)"
  by (simp add: from_offset_def)

lemma from_offset_drop: "from_offset input (i + k) (n - k) = drop k (from_offset input i n)"
  by (simp add: from_offset_def drop_take add.commute)

lemma from_offset_take: "k \<le> n \<Longrightarrow> from_offset input i k = take k (from_offset input i n)"
  by (simp add: from_offset_def min_absorb1)

lemma scan_while_more: "limit \<le> length input \<Longrightarrow> i \<le> limit \<Longrightarrow> scan_while test (input @ zs) i limit = scan_while test input i limit"
  by (simp add: scan_while_def from_offset_more)

lemma scan_while_bounds: "i \<le> limit \<Longrightarrow> i \<le> scan_while test text i limit \<and> scan_while test text i limit \<le> limit"
  using length_takeWhile_le [of test "from_offset text i (limit - i)"] by (auto simp: scan_while_def)

lemma takeWhile_length_append:
  "length (takeWhile P (ys @ ws)) =
     (if length (takeWhile P ys) < length ys then length (takeWhile P ys) else length ys + length (takeWhile P ws))"
  by (induction ys) auto

lemma line_stop_append:
  assumes "i \<le> length xs" "length xs \<le> l"
  shows "line_stop (xs @ zs) l i = (if line_stop xs (length xs) i < length xs then line_stop xs (length xs) i
     else length xs + length (takeWhile plain (take (l - length xs) zs)))"
proof -
  have "take (l - i) (drop i (xs @ zs)) = drop i xs @ take (l - length xs) zs" using assms by simp
  then have "line_stop (xs @ zs) l i = i + length (takeWhile plain (drop i xs @ take (l - length xs) zs))"
    unfolding line_stop_def by metis
  also have "\<dots> = (if length (takeWhile plain (drop i xs)) < length xs - i then i + length (takeWhile plain (drop i xs))
      else length xs + length (takeWhile plain (take (l - length xs) zs)))"
    using assms(1) unfolding takeWhile_length_append by simp
  finally show ?thesis by (auto simp: line_stop_def)
qed

lemma line_verdict_more:
  assumes "line_verdict self input start e = (p, r)" "r \<noteq> Incomplete" "length input < head_size_max self"
    "e' = e \<or> e = length input \<and> e \<le> e'"
  shows "line_verdict self (input @ zs) start e' = (p, r)"
proof -
  consider (size) "line_size_max self < e - start" | (lf) "\<not> line_size_max self < e - start" "e < length input" "input ! e = lf"
    | (cr) "\<not> line_size_max self < e - start" "input ! e \<noteq> lf" "e + 1 < length input"
    using assms(1-3) by (auto simp: line_verdict_def Let_def split: if_splits)
  then show ?thesis
  proof cases
    case size
    then have "line_size_max self < e' - start" using assms(4) by auto
    then show ?thesis using size assms(1) by (simp add: line_verdict_def Let_def)
  next
    case lf
    then show ?thesis using assms by (simp add: line_verdict_def Let_def nth_append)
  next
    case cr
    then show ?thesis using assms by (simp add: line_verdict_def Let_def nth_append)
  qed
qed

lemma find_line_more:
  assumes "find_line self input start = (p, r)" "r \<noteq> Incomplete"
  shows "find_line self (input @ zs) start = (p, r)"
proof (cases "head_size_max self \<le> length input")
  case True
  then have same: "min (length (input @ zs)) (head_size_max self) = min (length input) (head_size_max self)" by simp
  have stop: "line_stop (input @ zs) (head_size_max self) i = line_stop input (head_size_max self) i" for i
  proof -
    have "take (head_size_max self - i) (drop i (input @ zs)) = take (head_size_max self - i) (drop i input)"
      using True by (cases "i \<le> length input") auto
    then show ?thesis unfolding line_stop_def by metis
  qed
  show ?thesis
  proof (cases "start \<le> head_size_max self")
    case le: True
    have "line_verdict self (input @ zs) start e = line_verdict self input start e" for e
      using True by (simp add: line_verdict_def Let_def nth_append cong: conj_cong if_cong)
    then show ?thesis using assms(1) True le stop by (simp add: find_line_exact min_absorb2)
  next
    case False
    then show ?thesis using assms True unfolding find_line_def
      by (subst find_line_from.simps, subst (asm) find_line_from.simps) (auto simp: Let_def)
  qed
next
  case False
  let ?H = "head_size_max self" let ?L = "min (length (input @ zs)) ?H"
  let ?e = "line_stop input (length input) start"
  show ?thesis
  proof (cases "start \<le> length input")
    case True
    have L: "length input \<le> ?L" using False by simp
    note e = line_stop_append [OF True L, of zs]
    have "?e \<le> length input" using line_stop_le [of start "length input" input] True by simp
    then have "line_stop (input @ zs) ?L start = ?e \<or> ?e = length input \<and> ?e \<le> line_stop (input @ zs) ?L start"
      using e by auto
    then show ?thesis using line_verdict_more [of self input start ?e p r] assms False True
      by (simp add: find_line_exact min_absorb1)
  next
    case beyond: False
    then have "r = Incomplete" using assms(1) False unfolding find_line_def
      by (subst (asm) find_line_from.simps) (auto simp: Let_def)
    with assms(2) show ?thesis by simp
  qed
qed

lemma parse_field_more:
  "b < e \<Longrightarrow> e \<le> length input \<Longrightarrow> parse_field self (input @ zs) b e = parse_field self input b e"
  using scan_while_bounds [of b e is_token_char input]
  by (auto simp: parse_field_def Let_def scan_while_more from_offset_more nth_append)

lemma parse_request_line_more:
  "e \<le> length input \<Longrightarrow> parse_request_line self (input @ zs) e q = parse_request_line self input e q"
  using scan_while_bounds [of 0 e is_token_char input]
    scan_while_bounds [of "scan_while is_token_char input 0 e + 1" e "\<lambda>c. c \<noteq> sp \<and> is_target_char c" input]
  by (cases "scan_while is_token_char input 0 e < e")
    (auto simp: parse_request_line_def Let_def scan_while_more from_offset_more nth_append split: option.splits)

lemma parse_status_line_more:
  "e \<le> length input \<Longrightarrow> parse_status_line self (input @ zs) e q = parse_status_line self input e q"
  by (cases "e < 13") (auto simp: parse_status_line_def Let_def scan_while_more from_offset_more nth_append
      split: option.splits)

lemma parse_fields_more:
  "parse_fields_from self input offset headers capacity number = (p, hs, r) \<Longrightarrow> r \<noteq> Incomplete \<Longrightarrow>
   parse_fields_from self (input @ zs) offset headers capacity number = (p, hs, r)"
proof (induction self input offset headers capacity number rule: parse_fields_from.induct)
  case (1 self input offset headers capacity number)
  obtain p1 r1 where f: "find_line self input offset = (p1, r1)" by (cases "find_line self input offset")
  have inc: "r1 \<noteq> Incomplete" using 1(2, 3) f by (subst (asm) parse_fields_from.simps) auto
  note f' = find_line_more [OF f inc, of zs]
  show ?case
  proof (cases r1)
    case Incomplete
    then show ?thesis using inc by simp
  next
    case Error
    then show ?thesis using 1(2) f f' by (subst (asm) parse_fields_from.simps, subst parse_fields_from.simps) auto
  next
    case (Complete e)
    have b: "offset \<le> e" "e + 2 \<le> length input" using find_line_bounds [of p1 e self input offset] f Complete by auto
    show ?thesis
    proof (cases "e = offset")
      case True
      then show ?thesis using 1(2) f f' Complete by (subst (asm) parse_fields_from.simps, subst parse_fields_from.simps) auto
    next
      case False
      have pf: "parse_field p1 (input @ zs) offset e = parse_field p1 input offset e"
        using b False by (intro parse_field_more) auto
      have IH: "parse_fields_from p2 input (e + 2) (headers[number := field]) capacity (number + 1) = (p, hs, r) \<Longrightarrow>
          parse_fields_from p2 (input @ zs) (e + 2) (headers[number := field]) capacity (number + 1) = (p, hs, r)"
        if "parse_field p1 input offset e = (p2, Complete field)" "number \<noteq> capacity" for p2 field
        using 1(1) [OF f [symmetric, unfolded Complete] refl False that(1) [symmetric] refl that(2)] 1(3) by simp
      show ?thesis using 1(2) f f' Complete False pf
        by (subst (asm) parse_fields_from.simps, subst parse_fields_from.simps)
          (auto split: parse.splits prod.splits if_splits simp: parser_fail_def dest: IH)
    qed
  qed
qed

lemma parser_request_more:
  assumes "parser_request self input q hs cap = (p, q', hs', r)" "r \<noteq> Incomplete"
  shows "parser_request self (input @ zs) q hs cap = (p, q', hs', r)"
proof (cases "parser_begin self")
  case (Pair self1 ok)
  obtain p1 r1 where f: "find_line self1 input 0 = (p1, r1)" by (cases "find_line self1 input 0")
  show ?thesis
  proof (cases "ok \<and> r1 \<noteq> Incomplete")
    case False
    then show ?thesis using assms f Pair by (auto simp: parser_request_def split: bool.splits)
  next
    case True
    then have f': "find_line self1 (input @ zs) 0 = (p1, r1)" using find_line_more [OF f] by simp
    have line: "parse_request_line p1 (input @ zs) e q = parse_request_line p1 input e q" if "r1 = Complete e" for e
      using find_line_bounds [of p1 e self1 input 0] f that by (intro parse_request_line_more) simp
    show ?thesis using assms f f' line True Pair
      by (auto simp: parser_request_def parse_fields_def split: parse.splits prod.splits dest: parse_fields_more [where zs = zs])
  qed
qed

lemma parser_response_more:
  assumes "parser_response self input q hs cap = (p, q', hs', r)" "r \<noteq> Incomplete"
  shows "parser_response self (input @ zs) q hs cap = (p, q', hs', r)"
proof (cases "parser_begin self")
  case (Pair self1 ok)
  obtain p1 r1 where f: "find_line self1 input 0 = (p1, r1)" by (cases "find_line self1 input 0")
  show ?thesis
  proof (cases "ok \<and> r1 \<noteq> Incomplete")
    case False
    then show ?thesis using assms f Pair by (auto simp: parser_response_def split: bool.splits)
  next
    case True
    then have f': "find_line self1 (input @ zs) 0 = (p1, r1)" using find_line_more [OF f] by simp
    have line: "parse_status_line p1 (input @ zs) e q = parse_status_line p1 input e q" if "r1 = Complete e" for e
      using find_line_bounds [of p1 e self1 input 0] f that by (intro parse_status_line_more) simp
    show ?thesis using assms f f' line True Pair
      by (auto simp: parser_response_def parse_fields_def split: parse.splits prod.splits dest: parse_fields_more [where zs = zs])
  qed
qed

section \<open>The grammar of a head\<close>

definition blank :: "string \<Rightarrow> bool" where
  "blank s \<longleftrightarrow> set s \<subseteq> {sp, ht}"

definition valid_header :: "http_header \<Rightarrow> bool" where
  "valid_header h \<longleftrightarrow> name h \<noteq> [] \<and> list_all is_token_char (name h) \<and> list_all is_field_char (val h) \<and> trimmed (val h)"

text \<open>A field line is a field with the blanks before and after its value.\<close>

type_synonym field = "string \<times> http_header \<times> string"

definition field_line :: "field \<Rightarrow> string" where
  "field_line = (\<lambda>(l, h, r). name h @ CHR '':'' # l @ val h @ r)"

definition good_field :: "field \<Rightarrow> bool" where
  "good_field = (\<lambda>(l, h, r). valid_header h \<and> blank l \<and> blank r)"

definition fields_text :: "field list \<Rightarrow> string" where
  "fields_text fs = concat (map (\<lambda>f. field_line f @ crlf) fs) @ crlf"

definition request_line :: "http_request \<Rightarrow> string" where
  "request_line q = rq_method q @ sp # rq_target q @ sp # ''HTTP/1.'' @ [char_from_digit (rq_minor q)]"

definition good_request :: "http_request \<Rightarrow> bool" where
  "good_request q \<longleftrightarrow> rq_method q \<noteq> [] \<and> list_all is_token_char (rq_method q) \<and>
     rq_target q \<noteq> [] \<and> list_all is_target_char (rq_target q) \<and> rq_minor q \<le> 9"

lemma token_plain: "is_token_char c \<Longrightarrow> c \<noteq> cr \<and> c \<noteq> lf \<and> c \<noteq> sp \<and> c \<noteq> CHR '':''"
proof -
  have "\<not> is_token_char cr" "\<not> is_token_char lf" "\<not> is_token_char sp" "\<not> is_token_char CHR '':''" by code_simp+
  then show "is_token_char c \<Longrightarrow> ?thesis" by auto
qed

lemma field_plain: "is_field_char c \<Longrightarrow> plain c"
  by (auto simp: is_field_char_def)

lemma target_plain: "is_target_char c \<Longrightarrow> plain c \<and> c \<noteq> sp"
  by (auto simp: is_target_char_def)

lemma blank_field: "blank s \<Longrightarrow> list_all is_field_char s"
  by (auto simp: blank_def list_all_iff is_field_char_def)

lemma field_whitespace: "is_field_char c \<Longrightarrow> c \<in> set whitespace \<longleftrightarrow> c \<in> {sp, ht}"
  by (auto simp: whitespace_def is_field_char_def)

lemma blank_whitespace: "blank s \<Longrightarrow> set s \<subseteq> set whitespace"
  by (auto simp: blank_def whitespace_def)

lemma takeWhile_cut: "list_all P xs \<Longrightarrow> \<not> P y \<Longrightarrow> takeWhile P (xs @ y # ys) = xs"
  by (induction xs) auto

lemma takeWhile_cut_eq:
  assumes "takeWhile P zs = xs" "length xs < length zs"
  shows "list_all P xs \<and> \<not> P (zs ! length xs) \<and> zs = xs @ zs ! length xs # drop (length xs + 1) zs"
proof -
  have "list_all P xs" using assms(1) by (auto simp: list_all_iff dest: set_takeWhileD)
  moreover have "\<not> P (zs ! length xs)" using assms nth_length_takeWhile by metis
  moreover have "zs = xs @ dropWhile P zs" using assms(1) by auto
  then have "zs = xs @ drop (length xs) zs" by (metis append_eq_conv_conj)
  then have "zs = xs @ zs ! length xs # drop (length xs + 1) zs" using assms(2) by (metis Cons_nth_drop_Suc Suc_eq_plus1)
  ultimately show ?thesis by blast
qed

lemma takeWhile_cutE:
  assumes "length (takeWhile P zs) < length zs"
  obtains xs y r where "zs = xs @ y # r" "list_all P xs" "\<not> P y" "takeWhile P zs = xs"
  using takeWhile_cut_eq [OF refl assms] that by blast

lemma takeWhile_full: "length (takeWhile P xs) < length xs \<longleftrightarrow> \<not> list_all P xs"
  by (induction xs) auto

text \<open>The parser of a field, read on its line alone.\<close>

definition field_of_line :: "string \<Rightarrow> http_header option" where
  "field_of_line ln =
    (let c = length (takeWhile is_token_char ln); d = drop (c + 1) ln
     in if c = 0 \<or> c = length ln \<or> ln ! c \<noteq> CHR '':'' \<or> \<not> list_all is_field_char d then None
        else Some \<lparr>name = take c ln, val = view_trim d\<rparr>)"

lemma parse_field_on_line:
  assumes "b \<le> e" "e \<le> length inp"
  defines "ln \<equiv> from_offset inp b (e - b)"
  shows "parse_field self inp b e = (p, Complete h) \<longleftrightarrow> p = self \<and> field_of_line ln = Some h"
proof -
  let ?c = "length (takeWhile is_token_char ln)"
  have l: "length ln = e - b" using assms by simp
  have colon: "scan_while is_token_char inp b e = b + ?c" by (simp add: scan_while_def ln_def)
  have nth: "inp ! (b + k) = ln ! k" if "k < length ln" for k
    using that assms l from_offset_nth [of k "e - b" b inp] by simp
  have rest: "from_offset inp (b + k) (e - (b + k)) = drop k ln" for k
    using from_offset_drop [of inp b k "e - b"] by (simp add: ln_def)
  have le: "?c \<le> length ln" by (rule length_takeWhile_le)
  have k: "scan_while is_field_char inp (b + ?c + 1) e = b + ?c + 1 + length (takeWhile is_field_char (drop (?c + 1) ln))"
    using rest [of "?c + 1"] by (simp add: scan_while_def)
  have n: "from_offset inp b (b + ?c - b) = take ?c ln" using from_offset_take [of ?c "e - b" inp b] le l by (simp add: ln_def)
  have v: "from_offset inp (b + ?c + 1) (e - (b + ?c) - 1) = drop (?c + 1) ln" using rest [of "?c + 1"] by simp
  have i: "b + ?c + 1 + length (takeWhile is_field_char (drop (?c + 1) ln)) < e \<longleftrightarrow> \<not> list_all is_field_char (drop (?c + 1) ln)"
    if "?c < length ln" using that l by (subst takeWhile_full [symmetric]) (auto simp: less_diff_conv)
  have at: "b + ?c = b \<longleftrightarrow> ?c = 0" "b + ?c = e \<longleftrightarrow> ?c = length ln" using l assms(1) by auto
  show ?thesis
  proof (cases "?c = 0 \<or> ?c = length ln \<or> ln ! ?c \<noteq> CHR '':''")
    case True
    then have "b + ?c = b \<or> b + ?c = e \<or> inp ! (b + ?c) \<noteq> CHR '':''" using at le nth [of ?c] by auto
    then show ?thesis unfolding parse_field_def colon Let_def using True by (auto simp: parser_fail_def field_of_line_def)
  next
    case False
    then have "\<not> (b + ?c = b \<or> b + ?c = e \<or> inp ! (b + ?c) \<noteq> CHR '':'')" "?c < length ln" using at le nth [of ?c] by auto
    then show ?thesis unfolding parse_field_def colon Let_def k n v using False i
      by (auto simp: parser_fail_def field_of_line_def Let_def)
  qed
qed

lemma field_of_line_iff:
  "field_of_line ln = Some h \<longleftrightarrow> (\<exists>l r. good_field (l, h, r) \<and> ln = field_line (l, h, r))"
proof
  let ?c = "length (takeWhile is_token_char ln)" let ?d = "drop (?c + 1) ln"
  assume "field_of_line ln = Some h"
  then have c: "?c \<noteq> 0" "?c < length ln" "ln ! ?c = CHR '':''" "list_all is_field_char ?d"
      "h = \<lparr>name = take ?c ln, val = view_trim ?d\<rparr>"
    using length_takeWhile_le [of is_token_char ln] by (auto simp: field_of_line_def Let_def split: if_splits)
  obtain l r where lr: "?d = l @ view_trim ?d @ r" "set l \<subseteq> set whitespace" "set r \<subseteq> set whitespace" "trimmed (view_trim ?d)"
    using trim_parts by metis
  then have all: "list_all is_field_char l" "list_all is_field_char (view_trim ?d)" "list_all is_field_char r"
    using c(4) by (metis list_all_append)+
  then have b: "blank l" "blank r" using lr(2, 3) field_whitespace by (auto simp: blank_def list_all_iff subset_iff)
  have tok: "take ?c ln = takeWhile is_token_char ln" by (metis takeWhile_eq_take)
  have cut: "list_all is_token_char (takeWhile is_token_char ln)" "ln = takeWhile is_token_char ln @ CHR '':'' # ?d"
    using takeWhile_cut_eq [OF refl c(2)] c(3) by simp_all
  have "good_field (l, h, r)" using c(1, 5) tok cut(1) lr(4) all(2) b by (simp add: good_field_def valid_header_def)
  moreover have "ln = field_line (l, h, r)" using cut(2) lr(1) c(5) tok by (simp add: field_line_def)
  ultimately show "\<exists>l r. good_field (l, h, r) \<and> ln = field_line (l, h, r)" by blast
next
  assume "\<exists>l r. good_field (l, h, r) \<and> ln = field_line (l, h, r)"
  then obtain l r where g: "valid_header h" "blank l" "blank r" "ln = name h @ CHR '':'' # l @ val h @ r"
    by (auto simp: good_field_def field_line_def)
  have t: "takeWhile is_token_char ln = name h" unfolding g(4)
    by (rule takeWhile_cut) (use g(1) token_plain in \<open>auto simp: valid_header_def\<close>)
  have "list_all is_field_char (l @ val h @ r)" using g(1-3) blank_field by (simp add: valid_header_def)
  moreover have "view_trim (l @ val h @ r) = val h"
    using trim_pads [OF blank_whitespace blank_whitespace] g(1-3) by (simp add: valid_header_def)
  ultimately show "field_of_line ln = Some h" using g(1, 4) t by (simp add: field_of_line_def Let_def valid_header_def)
qed

lemmas parse_field_iff = parse_field_on_line [unfolded field_of_line_iff]

lemma digit_back: "char_is_digit c \<Longrightarrow> char_from_digit (char_to_digit c) = c \<and> char_to_digit c \<le> 9"
proof -
  assume "char_is_digit c"
  then have o: "48 \<le> ord c" "ord c \<le> 57" by (simp_all add: char_is_digit_def)
  then have u: "unat (char_to_digit c) = ord c - 48" by (simp add: char_to_digit_def unat_of_nat_small del: of_nat_diff)
  then have "char_from_digit (char_to_digit c) = char_of (ord c)" using o by (simp add: char_from_digit_def)
  moreover have "char_to_digit c \<le> 9" using u o by (simp add: word_le_nat_alt)
  ultimately show ?thesis by simp
qed

lemma parse_version_iff: "parse_version t = Some m \<longleftrightarrow> m \<le> 9 \<and> t = ''HTTP/1.'' @ [char_from_digit m]"
proof
  assume a: "parse_version t = Some m"
  then have p: "length t = 8" "view_starts_with t ''HTTP/1.'' False" "char_is_digit (t ! 7)" "m = char_to_digit (t ! 7)"
    by (auto simp: parse_version_def split: if_splits)
  then obtain r where r: "t = ''HTTP/1.'' @ r" using view_starts_with_iff by blast
  with p(1) obtain c where "r = [c]" by (cases r) auto
  then show "m \<le> 9 \<and> t = ''HTTP/1.'' @ [char_from_digit m]" using r p(3, 4) digit_back [of c] by simp
next
  assume a: "m \<le> 9 \<and> t = ''HTTP/1.'' @ [char_from_digit m]"
  then have "view_starts_with t ''HTTP/1.'' False" using view_starts_with_iff by blast
  moreover have "unat m < 10" using a by (simp add: word_le_nat_alt)
  ultimately show "parse_version t = Some m" using a from_digit_facts [of m] by (simp add: parse_version_def)
qed

text \<open>The start line of a request, read on its line alone.\<close>

definition request_of_line :: "string \<Rightarrow> http_request \<Rightarrow> http_request option" where
  "request_of_line ln q =
     (let m = length (takeWhile is_token_char ln); d = drop (m + 1) ln; v = length (takeWhile is_target_char d)
      in if m = 0 \<or> m = length ln \<or> ln ! m \<noteq> sp \<or> v = length d \<or> d ! v \<noteq> sp \<or> v = 0 then None
         else case parse_version (drop (v + 1) d) of
                None \<Rightarrow> None
              | Some minor \<Rightarrow> Some (q\<lparr>rq_minor := minor, rq_method := take m ln, rq_target := take v d\<rparr>))"

lemma parse_request_on_line:
  assumes "e \<le> length inp"
  shows "parse_request_line self inp e q = (p, Complete q') \<longleftrightarrow> p = self \<and> request_of_line (take e inp) q = Some q'"
proof -
  define ln where "ln = take e inp"
  let ?m = "length (takeWhile is_token_char ln)" let ?d = "drop (?m + 1) ln"
  let ?v = "length (takeWhile is_target_char ?d)"
  have l: "length ln = e" using assms by (simp add: ln_def)
  have m: "scan_while is_token_char inp 0 e = ?m" by (simp add: scan_while_def from_offset_def ln_def)
  have tgt: "(\<lambda>c. c \<noteq> sp \<and> is_target_char c) = is_target_char" using target_plain by auto
  have rest: "from_offset inp k (e - k) = drop k ln" for k by (simp add: from_offset_def ln_def drop_take)
  have v: "scan_while (\<lambda>c. c \<noteq> sp \<and> is_target_char c) inp (?m + 1) e = ?m + 1 + ?v"
    using rest [of "?m + 1"] by (simp add: scan_while_def tgt)
  have nth: "inp ! k = ln ! k" if "k < e" for k using that by (simp add: ln_def)
  have le: "?m \<le> e" "?v \<le> length ?d" using length_takeWhile_le [of is_token_char ln] length_takeWhile_le [of is_target_char ?d] l by auto
  have views: "from_offset inp 0 ?m = take ?m ln" "from_offset inp (?m + 1) (?m + 1 + ?v - (?m + 1)) = take ?v ?d"
      "from_offset inp (?m + 1 + ?v + 1) (e - (?m + 1 + ?v) - 1) = drop (?v + 1) ?d"
  proof -
    show "from_offset inp 0 ?m = take ?m ln" using le(1) by (simp add: from_offset_def ln_def min_absorb1)
    have "take ?v ?d = take ?v (take (e - (?m + 1)) (drop (?m + 1) inp))" by (simp add: ln_def drop_take)
    also have "\<dots> = take ?v (drop (?m + 1) inp)" using le(2) l by (simp add: min_absorb1)
    finally show "from_offset inp (?m + 1) (?m + 1 + ?v - (?m + 1)) = take ?v ?d" by (simp add: from_offset_def)
    show "from_offset inp (?m + 1 + ?v + 1) (e - (?m + 1 + ?v) - 1) = drop (?v + 1) ?d"
      using rest [of "?m + 1 + ?v + 1"] by (simp add: add.commute add.left_commute)
  qed
  have "?thesis \<longleftrightarrow> (parse_request_line self inp e q = (p, Complete q') \<longleftrightarrow> p = self \<and> request_of_line ln q = Some q')"
    by (simp add: ln_def)
  moreover have "parse_request_line self inp e q = (p, Complete q') \<longleftrightarrow> p = self \<and> request_of_line ln q = Some q'"
  proof (cases "?m = 0 \<or> ?m = e \<or> ln ! ?m \<noteq> sp")
    case True
    then have "?m = 0 \<or> ?m = e \<or> inp ! ?m \<noteq> sp" using nth [of ?m] le by (metis le_neq_implies_less)
    then show ?thesis unfolding parse_request_line_def m Let_def using True l by (auto simp: parser_fail_def request_of_line_def)
  next
    case False
    then have a: "\<not> (?m = 0 \<or> ?m = e \<or> inp ! ?m \<noteq> sp)" "?m < e" using nth [of ?m] le by auto
    have d: "length ?d = e - (?m + 1)" using l by simp
    have dv: "inp ! (?m + 1 + ?v) = ?d ! ?v" if "?v < length ?d" using that a(2) nth [of "?m + 1 + ?v"] d l by simp
    have at: "?m + 1 + ?v = ?m + 1 \<longleftrightarrow> ?v = 0" "?m + 1 + ?v = e \<longleftrightarrow> ?v = length ?d" "?m + 1 + ?v < e \<longleftrightarrow> ?v < length ?d"
      using d a(2) by auto
    show ?thesis
      unfolding parse_request_line_def m Let_def v views request_of_line_def at
      using False a(1) l le(2) dv
      by (cases "?v < length ?d") (auto simp: parser_fail_def split: option.splits)
  qed
  ultimately show ?thesis by blast
qed

lemma request_of_line_iff:
  "request_of_line ln q = Some q' \<longleftrightarrow> good_request q' \<and> rq_count q' = rq_count q \<and> ln = request_line q'"
proof
  let ?m = "length (takeWhile is_token_char ln)" let ?d = "drop (?m + 1) ln"
  let ?v = "length (takeWhile is_target_char ?d)"
  assume "request_of_line ln q = Some q'"
  then obtain minor where c: "?m \<noteq> 0" "?m < length ln" "ln ! ?m = sp" "?v < length ?d" "?d ! ?v = sp" "?v \<noteq> 0"
      "parse_version (drop (?v + 1) ?d) = Some minor"
      "q' = q\<lparr>rq_minor := minor, rq_method := take ?m ln, rq_target := take ?v ?d\<rparr>"
    using length_takeWhile_le [of is_token_char ln] length_takeWhile_le [of is_target_char ?d]
    by (auto simp: request_of_line_def Let_def split: if_splits option.splits)
  obtain xs y r where x: "ln = xs @ y # r" "list_all is_token_char xs" "takeWhile is_token_char ln = xs"
    using takeWhile_cutE [OF c(2)] by metis
  have d: "?d = r" using x(1, 3) by simp
  obtain ts z w where w: "r = ts @ z # w" "list_all is_target_char ts" "takeWhile is_target_char r = ts"
    using takeWhile_cutE [OF c(4)] unfolding d by metis
  have "y = sp" "z = sp" "xs \<noteq> []" "ts \<noteq> []" using c(1, 3, 5, 6) x w by auto
  then show "good_request q' \<and> rq_count q' = rq_count q \<and> ln = request_line q'"
    using c(7, 8) x w parse_version_iff by (simp add: good_request_def request_line_def)
next
  assume g: "good_request q' \<and> rq_count q' = rq_count q \<and> ln = request_line q'"
  obtain ver where ver: "ver = ''HTTP/1.'' @ [char_from_digit (rq_minor q')]" by blast
  then have ln: "ln = rq_method q' @ sp # rq_target q' @ sp # ver" using g by (simp add: request_line_def)
  have m: "takeWhile is_token_char ln = rq_method q'" unfolding ln
    by (rule takeWhile_cut) (use g token_plain in \<open>auto simp: good_request_def\<close>)
  have v: "takeWhile is_target_char (rq_target q' @ sp # ver) = rq_target q'"
    by (rule takeWhile_cut) (use g target_plain in \<open>auto simp: good_request_def\<close>)
  have d: "drop (length (rq_method q') + 1) ln = rq_target q' @ sp # ver" by (simp add: ln)
  have ne: "rq_method q' \<noteq> []" "rq_target q' \<noteq> []" "rq_count q' = rq_count q" "rq_minor q' \<le> 9"
    using g by (simp_all add: good_request_def)
  have "parse_version ver = Some (rq_minor q')" using parse_version_iff ne(4) ver by blast
  then show "request_of_line ln q = Some q'"
    unfolding request_of_line_def Let_def m d v using ne(1-3) by (simp add: ln)
qed

lemmas parse_request_iff = parse_request_on_line [unfolded request_of_line_iff]

text \<open>A line the parser finds, in terms of the text that begins there.\<close>

lemma find_line_iff:
  assumes "off \<le> length inp"
  shows "find_line self inp off = (p, Complete e) \<longleftrightarrow> p = self \<and>
    (\<exists>ln rest. drop off inp = ln @ crlf @ rest \<and> list_all plain ln \<and> e = off + length ln \<and>
       length ln \<le> line_size_max self \<and> e + 2 \<le> head_size_max self)"
proof (cases "off \<le> head_size_max self")
  case False
  then show ?thesis using find_line_beyond [of off inp self] by auto
next
  case True
  let ?l = "min (length inp) (head_size_max self)"
  let ?w = "take (?l - off) (drop off inp)"
  have wl: "length ?w = ?l - off" by simp
  have exact: "find_line self inp off = line_verdict self inp off (off + length (takeWhile plain ?w))"
    using find_line_exact [OF assms True] by (simp add: line_stop_def)
  show ?thesis
  proof
    assume "find_line self inp off = (p, Complete e)"
    then have v: "p = self" "e = off + length (takeWhile plain ?w)" "e - off \<le> line_size_max self" "e + 1 < ?l"
        "inp ! e \<noteq> lf" "inp ! (e + 1) = lf"
      unfolding exact by (auto simp: line_verdict_def Let_def parser_fail_def split: if_splits)
    then have "length (takeWhile plain ?w) < length ?w" using wl by linarith
    then obtain ln y r where c: "?w = ln @ y # r" "list_all plain ln" "\<not> plain y" "takeWhile plain ?w = ln"
      by (rule takeWhile_cutE)
    obtain us where inp: "drop off inp = (ln @ y # r) @ us" by (metis c(1) append_take_drop_id)
    have e: "e = off + length ln" using v(2) c(4) by simp
    have n: "inp ! (off + k) = (drop off inp) ! k" for k using assms by simp
    have "inp ! e = y" using n [of "length ln"] e inp by simp
    then have y: "y = cr" using v(5) c(3) by auto
    have "length ln + 1 < length (ln @ y # r)" using v(4) e unfolding c(1) [symmetric] wl by linarith
    then obtain z r' where r: "r = z # r'" by (cases r) auto
    have "inp ! (e + 1) = z" using n [of "length ln + 1"] e inp r by (simp add: nth_append)
    then have "drop off inp = ln @ crlf @ r' @ us" using inp y r v(6) by simp
    then show "p = self \<and> (\<exists>ln rest. drop off inp = ln @ crlf @ rest \<and> list_all plain ln \<and> e = off + length ln \<and>
        length ln \<le> line_size_max self \<and> e + 2 \<le> head_size_max self)"
      using v(1, 3, 4) e c(2) by auto
  next
    assume "p = self \<and> (\<exists>ln rest. drop off inp = ln @ crlf @ rest \<and> list_all plain ln \<and> e = off + length ln \<and>
        length ln \<le> line_size_max self \<and> e + 2 \<le> head_size_max self)"
    then obtain ln rest where g: "p = self" "drop off inp = ln @ crlf @ rest" "list_all plain ln" "e = off + length ln"
        "length ln \<le> line_size_max self" "e + 2 \<le> head_size_max self" by blast
    have len: "length inp = off + length ln + 2 + length rest" using arg_cong [OF g(2), of length] assms by simp
    then have "length ln + 2 \<le> ?l - off" using g(4, 6) by simp
    then have "?w = ln @ cr # lf # take (?l - off - length ln - 2) rest" unfolding g(2)
      by (simp add: take_Cons' take_append)
    then have "takeWhile plain ?w = ln" using takeWhile_cut [OF g(3), of cr] by simp
    moreover have n: "inp ! (off + k) = (drop off inp) ! k" for k using assms by simp
    have "inp ! e = cr" "inp ! (e + 1) = lf"
      using n [of "length ln"] n [of "length ln + 1"] by (simp_all add: g(2, 4) nth_append)
    ultimately show "find_line self inp off = (p, Complete e)"
      unfolding exact using g len by (simp add: line_verdict_def Let_def)
  qed
qed

lemma find_line_parts:
  assumes "off \<le> length inp" "drop off inp = ln @ crlf @ rest"
  shows "from_offset inp off (length ln) = ln" "drop (off + length ln + 2) inp = rest" "off + length ln + 2 \<le> length inp"
proof -
  show "from_offset inp off (length ln) = ln" by (simp add: from_offset_def assms(2))
  have "drop (off + length ln + 2) inp = drop (length ln + 2) (drop off inp)" by (simp add: add.commute add.left_commute)
  then show "drop (off + length ln + 2) inp = rest" by (simp add: assms(2))
  show "off + length ln + 2 \<le> length inp" using arg_cong [OF assms(2), of length] assms(1) by simp
qed

lemma field_line_plain: "good_field f \<Longrightarrow> list_all plain (field_line f) \<and> field_line f \<noteq> []"
proof -
  assume g: "good_field f"
  obtain l h r where f: "f = (l, h, r)" by (cases f)
  have field: "list_all plain s" if "list_all is_field_char s" for s using that field_plain by (rule list.pred_mono_strong)
  have "list_all plain (name h)"
    by (rule list.pred_mono_strong [of is_token_char]) (use g f token_plain in \<open>auto simp: good_field_def valid_header_def\<close>)
  moreover have "list_all plain l" "list_all plain (val h)" "list_all plain r"
    using g f field blank_field by (simp_all add: good_field_def valid_header_def)
  ultimately show ?thesis using f by (simp add: field_line_def)
qed

abbreviation headers_of :: "field list \<Rightarrow> http_header list" where
  "headers_of fs \<equiv> map (fst \<circ> snd) fs"

text \<open>The text at an offset is a field section within the limits of the parser.\<close>

definition fields_at :: "http_parser \<Rightarrow> string \<Rightarrow> nat \<Rightarrow> field list \<Rightarrow> string \<Rightarrow> bool" where
  "fields_at self inp off fs rest \<longleftrightarrow> drop off inp = fields_text fs @ rest \<and> list_all good_field fs \<and>
     list_all (\<lambda>f. length (field_line f) \<le> line_size_max self) fs \<and> off + length (fields_text fs) \<le> head_size_max self"

lemma fields_text_Cons [simp]: "fields_text (f # fs) = field_line f @ crlf @ fields_text fs"
  by (simp add: fields_text_def)

lemma fields_text_Nil [simp]: "fields_text [] = crlf"
  by (simp add: fields_text_def)

lemma parse_fields_sound:
  "parse_fields_from self inp off hs cap n = (p, hs', Complete m) \<Longrightarrow> off \<le> length inp \<Longrightarrow> cap \<le> length hs \<Longrightarrow> n \<le> cap \<Longrightarrow>
   \<exists>fs rest. fields_at self inp off fs rest \<and> m = n + length fs \<and> m \<le> cap \<and>
     hs' = take n hs @ headers_of fs @ drop m hs \<and> p = self\<lparr>consumed := off + length (fields_text fs)\<rparr>"
proof (induction self inp off hs cap n rule: parse_fields_from.induct)
  case (1 self inp off hs cap n)
  obtain p1 e where f: "find_line self inp off = (p1, Complete e)"
    using 1(2) by (subst (asm) parse_fields_from.simps) (auto split: parse.splits prod.splits)
  then obtain ln rest where l: "p1 = self" "drop off inp = ln @ crlf @ rest" "e = off + length ln"
      "length ln \<le> line_size_max self" "e + 2 \<le> head_size_max self"
    using find_line_iff [OF 1(3)] by blast
  note parts = find_line_parts [OF 1(3) l(2)]
  show ?case
  proof (cases "ln = []")
    case True
    then have "fields_at self inp off [] rest" using l by (simp add: fields_at_def)
    moreover have "m = n" "hs' = hs" "p = self\<lparr>consumed := off + 2\<rparr>"
      using 1(2) f l True by (subst (asm) parse_fields_from.simps, simp)+
    ultimately show ?thesis using 1(5) by (intro exI [of _ "[]"] exI [of _ rest]) simp
  next
    case False
    then have ne: "e \<noteq> off" using l(3) by simp
    obtain p2 h where h: "parse_field self inp off e = (p2, Complete h)" "n \<noteq> cap"
        "parse_fields_from p2 inp (e + 2) (hs[n := h]) cap (n + 1) = (p, hs', Complete m)"
      using 1(2) f l(1) ne by (subst (asm) parse_fields_from.simps) (auto simp: parser_fail_def split: parse.splits prod.splits if_splits)
    then obtain a b where g: "p2 = self" "good_field (a, h, b)" "ln = field_line (a, h, b)"
      using parse_field_iff [of off e inp self p2 h] parts(1, 3) l(3) by auto
    obtain fs rest' where IH: "fields_at self inp (e + 2) fs rest'" "m = n + 1 + length fs" "m \<le> cap"
        "hs' = take (n + 1) (hs[n := h]) @ headers_of fs @ drop m (hs[n := h])"
        "p = self\<lparr>consumed := e + 2 + length (fields_text fs)\<rparr>"
      using 1(1) [OF f [symmetric, unfolded l(1)] refl ne h(1) [symmetric] refl h(2) h(3)] h(2) 1(4, 5) parts(3) l(3) g(1)
      by auto
    have "drop off inp = fields_text ((a, h, b) # fs) @ rest'"
      using l(2, 3) parts(2) IH(1) g(3) by (simp add: fields_at_def add.commute add.left_commute)
    then have "fields_at self inp off ((a, h, b) # fs) rest'" using IH(1) g l(3, 4) by (simp add: fields_at_def)
    moreover have "take (n + 1) (hs[n := h]) = take n hs @ [h]" using 1(4, 5) h(2) by (simp add: take_Suc_conv_app_nth)
    moreover have "drop m (hs[n := h]) = drop m hs" using IH(2) by simp
    ultimately show ?thesis using IH g l(3) by (intro exI [of _ "(a, h, b) # fs"] exI [of _ rest']) simp
  qed
qed

lemma parse_fields_complete:
  "fields_at self inp off fs rest \<Longrightarrow> off \<le> length inp \<Longrightarrow> cap \<le> length hs \<Longrightarrow> n + length fs \<le> cap \<Longrightarrow>
   parse_fields_from self inp off hs cap n =
     (self\<lparr>consumed := off + length (fields_text fs)\<rparr>, take n hs @ headers_of fs @ drop (n + length fs) hs, Complete (n + length fs))"
proof (induction fs arbitrary: off hs n)
  case Nil
  then have "find_line self inp off = (self, Complete off)"
    using find_line_iff [of off inp self self off] by (auto simp: fields_at_def)
  then show ?case by (subst parse_fields_from.simps) simp
next
  case (Cons f fs)
  obtain a h b where f: "f = (a, h, b)" by (cases f)
  let ?ln = "field_line f" let ?e = "off + length ?ln"
  have d: "drop off inp = ?ln @ crlf @ fields_text fs @ rest" and good: "good_field f" "length ?ln \<le> line_size_max self"
    using Cons.prems(1) by (simp_all add: fields_at_def)
  note parts = find_line_parts [OF Cons.prems(2) d]
  have "find_line self inp off = (self, Complete ?e)"
    using find_line_iff [OF Cons.prems(2)] d good field_line_plain [OF good(1)] Cons.prems(1) by (auto simp: fields_at_def)
  moreover have "parse_field self inp off ?e = (self, Complete h)"
    using parse_field_iff [of off ?e inp self self h] parts(1, 3) good(1) f by auto
  moreover have "parse_fields_from self inp (?e + 2) (hs[n := h]) cap (n + 1) =
      (self\<lparr>consumed := ?e + 2 + length (fields_text fs)\<rparr>,
       take (n + 1) (hs[n := h]) @ headers_of fs @ drop (n + 1 + length fs) (hs[n := h]), Complete (n + 1 + length fs))"
    by (rule Cons.IH) (use Cons.prems parts in \<open>simp_all add: fields_at_def add.commute add.left_commute\<close>)
  moreover have "take (n + 1) (hs[n := h]) = take n hs @ [h]" using Cons.prems(3, 4) by (simp add: take_Suc_conv_app_nth)
  ultimately show ?case using field_line_plain [OF good(1)] Cons.prems(4) f
    by (subst parse_fields_from.simps) simp
qed

lemma request_count_irrelevant [simp]:
  "request_line (q\<lparr>rq_count := n\<rparr>) = request_line q" "good_request (q\<lparr>rq_count := n\<rparr>) = good_request q"
  by (simp_all add: request_line_def good_request_def)

lemma request_line_plain: "good_request q \<Longrightarrow> list_all plain (request_line q)"
proof -
  assume g: "good_request q"
  have "list_all plain (rq_method q)"
    by (rule list.pred_mono_strong [of is_token_char]) (use g token_plain in \<open>auto simp: good_request_def\<close>)
  moreover have "list_all plain (rq_target q)"
    by (rule list.pred_mono_strong [of is_target_char]) (use g target_plain in \<open>auto simp: good_request_def\<close>)
  moreover have "char_is_digit (char_from_digit (rq_minor q))"
    using from_digit_facts [of "rq_minor q"] g by (simp add: good_request_def word_le_nat_alt)
  then have "plain (char_from_digit (rq_minor q))" by (auto simp: char_is_digit_def)
  ultimately show ?thesis by (simp add: request_line_def)
qed

section \<open>Heads that arrive in pieces\<close>

text \<open>
  A parser that is called again on the grown input: a verdict stands whatever follows, and a complete
  parse used no more than was there. Then nothing is accepted or refused before its last byte.
\<close>

locale incremental =
  fixes parse :: "string \<Rightarrow> 'r" and verdict :: "'r \<Rightarrow> 'v parse" and used :: "'r \<Rightarrow> nat"
  assumes more: "verdict (parse inp) \<noteq> Incomplete \<Longrightarrow> parse (inp @ zs) = parse inp"
    and bound: "verdict (parse inp) = Complete v \<Longrightarrow> used (parse inp) \<le> length inp"
begin

lemma not_before:
  assumes "verdict (parse inp) = Complete v" "k < used (parse inp)"
  shows "verdict (parse (take k inp)) = Incomplete"
proof (rule ccontr)
  assume a: "verdict (parse (take k inp)) \<noteq> Incomplete"
  have "parse inp = parse (take k inp)" using more [OF a, of "drop k inp"] by simp
  then show False using bound [of "take k inp" v] assms by simp
qed

end

lemma parse_fields_used:
  "parse_fields_from self inp off hs cap n = (p, hs', Complete m) \<Longrightarrow> consumed p \<le> length inp"
proof (induction self inp off hs cap n rule: parse_fields_from.induct)
  case (1 self inp off hs cap n)
  obtain p1 e where f: "find_line self inp off = (p1, Complete e)"
    using 1(2) by (subst (asm) parse_fields_from.simps) (auto split: parse.splits prod.splits)
  have b: "e + 2 \<le> length inp" using find_line_bounds [of p1 e self inp off] f by simp
  show ?case
  proof (cases "e = off")
    case True
    then show ?thesis using 1(2) f b by (subst (asm) parse_fields_from.simps) auto
  next
    case False
    then obtain p2 h where h: "parse_field p1 inp off e = (p2, Complete h)" "n \<noteq> cap"
        "parse_fields_from p2 inp (e + 2) (hs[n := h]) cap (n + 1) = (p, hs', Complete m)"
      using 1(2) f by (subst (asm) parse_fields_from.simps) (auto simp: parser_fail_def split: parse.splits prod.splits if_splits)
    then show ?thesis using 1(1) [OF f [symmetric] refl False h(1) [symmetric] refl h(2) h(3)] by simp
  qed
qed

interpretation request_head: incremental "\<lambda>inp. parser_request self inp q hs cap" "\<lambda>r. snd (snd (snd r))" "\<lambda>r. consumed (fst r)"
  for self q hs cap
proof unfold_locales
  show "parser_request self (inp @ zs) q hs cap = parser_request self inp q hs cap"
    if "snd (snd (snd (parser_request self inp q hs cap))) \<noteq> Incomplete" for inp zs
    using parser_request_more that by (metis prod.collapse)
  show "consumed (fst (parser_request self inp q hs cap)) \<le> length inp"
    if "snd (snd (snd (parser_request self inp q hs cap))) = Complete v" for inp v
    using that by (auto simp: parser_request_def parse_fields_def split: prod.splits bool.splits parse.splits dest: parse_fields_used)
qed

interpretation response_head: incremental "\<lambda>inp. parser_response self inp q hs cap" "\<lambda>r. snd (snd (snd r))" "\<lambda>r. consumed (fst r)"
  for self q hs cap
proof unfold_locales
  show "parser_response self (inp @ zs) q hs cap = parser_response self inp q hs cap"
    if "snd (snd (snd (parser_response self inp q hs cap))) \<noteq> Incomplete" for inp zs
    using parser_response_more that by (metis prod.collapse)
  show "consumed (fst (parser_response self inp q hs cap)) \<le> length inp"
    if "snd (snd (snd (parser_response self inp q hs cap))) = Complete v" for inp v
    using that by (auto simp: parser_response_def parse_fields_def split: prod.splits bool.splits parse.splits dest: parse_fields_used)
qed


section \<open>What is accepted\<close>

definition fresh :: "http_parser \<Rightarrow> nat \<Rightarrow> http_parser" where
  "fresh self n = self\<lparr>consumed := n, error_offset := 0, error := Error_none\<rparr>"

text \<open>
  C18: the request heads the parser accepts are exactly those of the grammar within its limits: a method
  token, a target of visible characters, the version, then the fields, each on its line with blanks around its
  value, and the empty line. The method, target and version handed out are the ones of the line, the
  array holds the fields in order and nothing else of it is touched, and the bytes consumed are the
  head.
\<close>

theorem request_accepted:
  assumes "0 < head_size_max self" "0 < line_size_max self" "cap \<le> length hs"
  shows "parser_request self inp q hs cap = (p, q', hs', Complete ()) \<longleftrightarrow>
    (\<exists>fs rest. inp = request_line q' @ crlf @ fields_text fs @ rest \<and> good_request q' \<and> list_all good_field fs \<and>
       rq_count q' = length fs \<and> length fs \<le> cap \<and> hs' = headers_of fs @ drop (length fs) hs \<and>
       length (request_line q') \<le> line_size_max self \<and> list_all (\<lambda>f. length (field_line f) \<le> line_size_max self) fs \<and>
       length (request_line q' @ crlf @ fields_text fs) \<le> head_size_max self \<and>
       p = fresh self (length (request_line q' @ crlf @ fields_text fs)))" (is "?L \<longleftrightarrow> ?R")
proof -
  let ?s = "fresh self 0"
  have s [simp]: "head_size_max ?s = head_size_max self" "line_size_max ?s = line_size_max self" "?s\<lparr>consumed := n\<rparr> = fresh self n" for n
    by (simp_all add: fresh_def)
  have b: "parser_begin self = (?s, True)" using assms by (simp add: parser_begin_def fresh_def Let_def)
  show ?thesis
  proof
    assume ?L
    then obtain p1 e p2 q1 n where c: "find_line ?s inp 0 = (p1, Complete e)" "parse_request_line p1 inp e q = (p2, Complete q1)"
        "parse_fields_from p2 inp (e + 2) hs cap 0 = (p, hs', Complete n)" "q' = q1\<lparr>rq_count := n\<rparr>"
      unfolding parser_request_def b by (auto simp: parse_fields_def split: parse.splits prod.splits)
    obtain ln rest where l: "p1 = ?s" "inp = ln @ crlf @ rest" "e = length ln" "length ln \<le> line_size_max self" "e + 2 \<le> head_size_max self"
      using find_line_iff [of 0 inp ?s p1 e] c(1) by auto
    have q: "p2 = ?s" "good_request q1" "ln = request_line q1"
      using parse_request_iff [of e inp p1 q p2 q1] c(2) l by auto
    obtain fs rest' where f: "fields_at ?s inp (e + 2) fs rest'" "n = length fs" "n \<le> cap" "hs' = headers_of fs @ drop n hs"
        "p = ?s\<lparr>consumed := e + 2 + length (fields_text fs)\<rparr>"
      using parse_fields_sound [OF c(3)] l assms(3) q(1) by auto
    have "drop (e + 2) inp = rest" using l by simp
    then have "inp = request_line q' @ crlf @ fields_text fs @ rest'" using f(1) l(2) q(3) c(4) by (simp add: fields_at_def)
    moreover have "request_line q' = ln" "good_request q'" using q c(4) by simp_all
    ultimately show ?R using f l(3, 4) c(4) by (intro exI [of _ fs] exI [of _ rest']) (simp add: fields_at_def)
  next
    assume ?R
    then obtain fs rest where r: "inp = request_line q' @ crlf @ fields_text fs @ rest" "good_request q'" "list_all good_field fs"
        "rq_count q' = length fs" "length fs \<le> cap" "hs' = headers_of fs @ drop (length fs) hs"
        "length (request_line q') \<le> line_size_max self" "list_all (\<lambda>f. length (field_line f) \<le> line_size_max self) fs"
        "length (request_line q' @ crlf @ fields_text fs) \<le> head_size_max self"
        "p = fresh self (length (request_line q' @ crlf @ fields_text fs))" by blast
    let ?e = "length (request_line q')" and ?q1 = "q'\<lparr>rq_count := rq_count q\<rparr>"
    have "list_all plain (request_line q')" using r(2) request_line_plain by blast
    then have "find_line ?s inp 0 = (?s, Complete ?e)" using find_line_iff [of 0 inp ?s ?s ?e] r(1, 7, 9) by auto
    moreover have "parse_request_line ?s inp ?e q = (?s, Complete ?q1)"
      using parse_request_iff [of ?e inp ?s q ?s ?q1] r(1, 2) by simp
    moreover have "fields_at ?s inp (?e + 2) fs rest" using r(1, 3, 8, 9) by (simp add: fields_at_def)
    then have "parse_fields_from ?s inp (?e + 2) hs cap 0 =
        (fresh self (?e + 2 + length (fields_text fs)), headers_of fs @ drop (length fs) hs, Complete (length fs))"
      using parse_fields_complete [of ?s inp "?e + 2" fs rest cap hs 0] r(1, 5) assms(3) by simp
    ultimately show ?L unfolding parser_request_def b using r(4, 6, 10) by (simp add: parse_fields_def)
  qed
qed

section \<open>Printed responses\<close>

definition response_line :: "http_response \<Rightarrow> string" where
  "response_line r =
     ''HTTP/1.'' @ char_from_digit (rs_minor r) # sp # uint_text (ucast (rs_status r)) @ sp # rs_reason r"

definition good_response :: "http_response \<Rightarrow> bool" where
  "good_response r \<longleftrightarrow> status_is_valid (ucast (rs_status r)) \<and> rs_minor r \<le> 9 \<and> list_all is_field_char (rs_reason r)"

definition response_text :: "http_response \<Rightarrow> http_header list \<Rightarrow> string" where
  "response_text r hs = response_line r @ crlf @ fields_text (map (\<lambda>h. ([sp], h, [])) hs)"

abbreviation put :: "nat \<Rightarrow> string \<Rightarrow> string \<Rightarrow> string option" where
  "put room t \<equiv> \<lambda>out. format_text_put_text (Some room) out t"

lemma put_run_one: "format_text_put_run (Some room) out c 1 = put room [c] out"
  by (simp add: format_text_put_run_def format_text_put_text_def)

lemma put_nonempty_put: "put_nonempty room t = put room t"
  by (auto simp: put_nonempty_def format_text_put_text_def)

lemma put_chain_exact:
  "length out \<le> room \<Longrightarrow>
   (if length out + length (concat ts) \<le> room then put_chain (map (put room) ts) out = (True, out @ concat ts)
    else fst (put_chain (map (put room) ts) out) = False)"
proof (induction ts arbitrary: out)
  case (Cons t ts)
  show ?case
  proof (cases "length out + length t \<le> room")
    case True
    then have "put room t out = Some (out @ t)" by (simp add: format_text_put_text_def)
    then show ?thesis using Cons.IH [of "out @ t"] True by (simp add: add.assoc)
  next
    case False
    then have "put room t out = None" using Cons.prems by (simp add: format_text_put_text_def)
    then show ?thesis using False by simp
  qed
qed simp

lemma status_line_chain:
  "good_response r \<Longrightarrow> format_try_status_line r room out =
     put_chain (map (put room) [''HTTP/1.'', [char_from_digit (rs_minor r)], [sp], uint_text (ucast (rs_status r)), [sp], rs_reason r, crlf]) out"
  using uint_text_facts(4) [of "ucast (rs_status r)"]
  by (simp only: format_try_status_line_def good_response_def Let_def put_run_one put_nonempty_put format_uint_text list.map) auto

lemma header_chain:
  "format_try_header h room out = put_chain (map (put room) [name h, '':'', [sp], val h, crlf]) out"
  by (simp only: format_try_header_def put_run_one put_nonempty_put list.map)

lemma put_line_exact:
  assumes "f out = put_chain (map (put room) ts) out" "length out \<le> room"
  shows "if length out + length (concat ts) \<le> room then f out = (True, out @ concat ts) else fst (f out) = False"
  using put_chain_exact [OF assms(2), of ts] assms(1) by simp

lemma format_headers_exact:
  "length out \<le> room \<Longrightarrow>
   (if length out + length (concat (map (\<lambda>h. field_line ([sp], h, []) @ crlf) hs)) \<le> room
    then format_headers hs room out = (True, out @ concat (map (\<lambda>h. field_line ([sp], h, []) @ crlf) hs))
    else fst (format_headers hs room out) = False)"
proof (induction hs arbitrary: out)
  case (Cons h hs)
  let ?l = "field_line ([sp], h, []) @ crlf"
  have l: "concat [name h, '':'', [sp], val h, crlf] = ?l" by (simp add: field_line_def)
  note line = put_line_exact [where f = "format_try_header h room", OF header_chain Cons.prems, unfolded l]
  show ?case
  proof (cases "length out + length ?l \<le> room")
    case True
    then have "format_try_header h room out = (True, out @ ?l)" using line by simp
    then show ?thesis using Cons.IH [of "out @ ?l"] True by (simp add: add.assoc)
  next
    case False
    then obtain out' where "format_try_header h room out = (False, out')" using line by (cases "format_try_header h room out") simp
    then show ?thesis using False by simp
  qed
qed simp

lemma response_head_exact:
  assumes "good_response r" "rs_count r = length hs"
  shows "format_try_response_head r hs room [] = (True, t) \<longleftrightarrow> t = response_text r hs \<and> length t \<le> room"
proof -
  let ?l = "response_line r @ crlf" and ?f = "concat (map (\<lambda>h. field_line ([sp], h, []) @ crlf) hs)"
  have l: "concat [''HTTP/1.'', [char_from_digit (rs_minor r)], [sp], uint_text (ucast (rs_status r)), [sp], rs_reason r, crlf] = ?l"
    by (simp add: response_line_def)
  have rt: "response_text r hs = ?l @ ?f @ crlf" by (simp add: response_text_def fields_text_def o_def)
  note line = put_line_exact [where f = "format_try_status_line r room", OF status_line_chain [OF assms(1)], of "[]", unfolded l]
  show ?thesis
  proof (cases "length ?l \<le> room")
    case True
    then have a: "format_try_status_line r room [] = (True, ?l)" using line by simp
    show ?thesis
    proof (cases "length ?l + length ?f \<le> room")
      case True
      then have "format_headers hs room ?l = (True, ?l @ ?f)" using format_headers_exact [of ?l room hs] by simp
      then show ?thesis unfolding format_try_response_head_def a rt using assms(2) True
        by (auto simp: format_text_put_text_def)
    next
      case False
      then obtain u where "format_headers hs room ?l = (False, u)"
        using format_headers_exact [of ?l room hs] \<open>length ?l \<le> room\<close> by (cases "format_headers hs room ?l") simp
      then show ?thesis unfolding format_try_response_head_def a rt using assms(2) False by auto
    qed
  next
    case False
    then obtain u where "format_try_status_line r room [] = (False, u)" using line by (cases "format_try_status_line r room []") simp
    then show ?thesis unfolding format_try_response_head_def rt using False by auto
  qed
qed

lemma status_digits:
  assumes "status_is_valid v"
  obtains d2 d1 d0 where "uint_text v = map char_from_digit [d2, d1, d0]" "unat d2 < 6" "0 < unat d2" "unat d1 < 10" "unat d0 < 10"
    "unat v = 100 * unat d2 + 10 * unat d1 + unat d0"
proof -
  let ?x = "\<lambda>w. digit_extract w 10"
  let ?v1 = "snd (?x v)" let ?v2 = "snd (?x ?v1)"
  have v: "100 \<le> unat v" "unat v \<le> 599" using assms by (simp_all add: status_is_valid_def word_le_nat_alt)
  have u1: "unat ?v1 = unat v div 10" and u2: "unat ?v2 = unat v div 100"
    using digit_extract_nat(2) [of v] digit_extract_nat(2) [of ?v1] by (simp_all add: div_mult2_eq [symmetric])
  have n: "10 \<le> unat v div 10" "\<not> 10 \<le> unat v div 100" using v by (simp_all add: less_eq_div_iff_mult_less_eq)
  have "digits_up v = [fst (?x v), fst (?x ?v1), fst (?x ?v2)]"
    using v(1) u1 u2 n by (simp add: digits_up_step [of v] digits_up_step [of ?v1] digits_up_step [of ?v2])
  then have "uint_text v = map char_from_digit [fst (?x ?v2), fst (?x ?v1), fst (?x v)]" by (simp add: uint_text_def)
  moreover have d: "unat (fst (?x v)) = unat v mod 10" "unat (fst (?x ?v1)) = unat v div 10 mod 10" "unat (fst (?x ?v2)) = unat v div 100 mod 10"
    using digit_extract_nat(1) u1 u2 by simp_all
  moreover have "unat v div 100 mod 10 = unat v div 100" "0 < unat v div 100" "unat v div 100 < 6" using v by auto
  moreover have "unat v = 100 * (unat v div 100) + 10 * (unat v div 10 mod 10) + unat v mod 10"
  proof -
    have "unat v div 100 = unat v div 10 div 10" using div_mult2_eq [of "unat v" 10 10] by simp
    then show ?thesis using div_mult_mod_eq [of "unat v" 10] div_mult_mod_eq [of "unat v div 10" 10] by linarith
  qed
  ultimately show ?thesis using that by simp
qed

lemma status_word:
  assumes "unat d2 < 6" "unat d1 < 10" "unat d0 < 10" "unat (ucast w :: uint_t) = 100 * unat d2 + 10 * unat d1 + unat d0"
  shows "ucast d2 * 100 + ucast d1 * 10 + ucast d0 = (w :: u16)"
proof -
  have u: "unat (ucast d :: u16) = unat d" for d :: u8 by (simp add: unat_ucast_up)
  have "ucast d2 * 100 + ucast d1 * 10 + ucast d0 = (of_nat (unat d2 * 100 + unat d1 * 10 + unat d0) :: u16)"
    by (simp add: u [symmetric])
  also have "unat d2 * 100 + unat d1 * 10 + unat d0 = unat w"
    using assms(4) by (simp add: unat_ucast_up mult.commute)
  finally show ?thesis by simp
qed

lemma digit_plain: "unat d < 10 \<Longrightarrow> is_field_char (char_from_digit d)"
  using from_digit_facts(1) [of d] by (auto simp: char_is_digit_def is_field_char_def)

lemma parse_response_line:
  assumes "good_response r" "take e inp = response_line r" "e = length (response_line r)" "e \<le> length inp"
  shows "parse_status_line self inp e q = (self, Complete (r\<lparr>rs_count := rs_count q\<rparr>))"
    and "list_all plain (response_line r)"
proof -
  let ?m = "char_from_digit (rs_minor r)"
  obtain d2 d1 d0 where d: "uint_text (ucast (rs_status r)) = map char_from_digit [d2, d1, d0]" "unat d2 < 6" "0 < unat d2"
      "unat d1 < 10" "unat d0 < 10" "unat (ucast (rs_status r) :: uint_t) = 100 * unat d2 + 10 * unat d1 + unat d0"
    using status_digits assms(1) unfolding good_response_def by metis
  have m: "unat (rs_minor r) < 10" using assms(1) by (simp add: good_response_def word_le_nat_alt)
  have ln: "response_line r = ''HTTP/1.'' @ [?m, sp, char_from_digit d2, char_from_digit d1, char_from_digit d0, sp] @ rs_reason r"
    by (simp add: response_line_def d(1))
  then have e: "e = 13 + length (rs_reason r)" using assms(3) by simp
  obtain zs where inp: "inp = response_line r @ zs" by (metis assms(2) append_take_drop_id)
  have nth: "inp ! 8 = sp" "inp ! 9 = char_from_digit d2" "inp ! 10 = char_from_digit d1" "inp ! 11 = char_from_digit d0" "inp ! 12 = sp"
    by (simp_all add: inp ln)
  have v: "from_offset inp 0 8 = ''HTTP/1.'' @ [?m]" "from_offset inp 13 (e - 13) = rs_reason r"
    by (simp_all add: from_offset_def inp ln e numeral_eq_Suc)
  have reason: "list_all is_field_char (rs_reason r)" using assms(1) by (simp add: good_response_def)
  have "scan_while is_field_char inp 13 e = e" unfolding scan_while_def v(2) using reason e
    by (metis takeWhile_full length_takeWhile_le add_diff_cancel_left' le_antisym not_less)
  moreover have "parse_version (''HTTP/1.'' @ [?m]) = Some (rs_minor r)" using parse_version_iff assms(1) by (simp add: good_response_def)
  moreover have "ord (char_from_digit d2) = 48 + unat d2" using d(2) by (simp add: char_from_digit_def)
  moreover have "ucast d2 * 100 + ucast d1 * 10 + ucast d0 = rs_status r" by (rule status_word [OF d(2, 4, 5, 6)])
  moreover note from_digit_facts [OF d(4)] from_digit_facts [OF d(5)] from_digit_facts [of d2]
  ultimately show "parse_status_line self inp e q = (self, Complete (r\<lparr>rs_count := rs_count q\<rparr>))"
    unfolding parse_status_line_def v nth Let_def using e d(2, 3) by simp
  have "list_all plain (rs_reason r)" using reason field_plain by (rule list.pred_mono_strong)
  then show "list_all plain (response_line r)"
    using field_plain [OF digit_plain [OF m]] field_plain [OF digit_plain [OF d(4)]] field_plain [OF digit_plain [OF d(5)]]
      field_plain [OF digit_plain, of d2] d(2) by (simp add: ln)
qed

text \<open>
  C20: the printer of response heads writes the whole head or reports that it does not fit, and the parser,
  given the head and whatever follows it, hands back the status, version, reason and fields that were
  printed and consumes exactly the head.
\<close>

theorem response_roundtrip:
  assumes "good_response r" "list_all valid_header hs" "rs_count r = length hs"
    and "head_size_max self \<ge> length (response_text r hs)" "line_size_max self \<ge> length (response_text r hs)"
    and "length hs \<le> cap" "cap \<le> length array"
  shows "(format_try_response_head r hs room [] = (True, t) \<longleftrightarrow> t = response_text r hs \<and> length t \<le> room) \<and>
    parser_response self (response_text r hs @ rest) q array cap =
      (fresh self (length (response_text r hs)), r, hs @ drop (length hs) array, Complete ())"
proof (rule conjI [OF response_head_exact [OF assms(1, 3)]])
  let ?s = "fresh self 0" and ?e = "length (response_line r)" and ?fs = "map (\<lambda>h. ([sp], h, [])) hs"
  let ?inp = "response_text r hs @ rest"
  have s [simp]: "head_size_max ?s = head_size_max self" "line_size_max ?s = line_size_max self" "?s\<lparr>consumed := n\<rparr> = fresh self n" for n
    by (simp_all add: fresh_def)
  have rt: "response_text r hs = response_line r @ crlf @ fields_text ?fs" by (simp add: response_text_def)
  have b: "parser_begin self = (?s, True)" using assms(4, 5) by (simp add: parser_begin_def fresh_def Let_def rt)
  have p: "parse_status_line ?s ?inp ?e q = (?s, Complete (r\<lparr>rs_count := rs_count q\<rparr>))" "list_all plain (response_line r)"
    using parse_response_line [OF assms(1), of ?e ?inp] by (simp_all add: rt)
  have "find_line ?s ?inp 0 = (?s, Complete ?e)" using find_line_iff [of 0 ?inp ?s ?s ?e] p(2) assms(4, 5) by (auto simp: rt)
  moreover have "list_all good_field ?fs" using assms(2) by (auto simp: good_field_def list_all_iff blank_def)
  moreover have "list_all (\<lambda>f. length (field_line f) \<le> line_size_max self) ?fs"
  proof -
    have le: "length (field_line f) \<le> length (fields_text fs)" if "f \<in> set fs" for f and fs :: "field list"
      using that by (induction fs) auto
    have "length (field_line f) \<le> line_size_max self" if "f \<in> set ?fs" for f
      using le [OF that] assms(5) by (simp add: rt)
    then show ?thesis by (simp add: list_all_iff)
  qed
  ultimately have "fields_at ?s ?inp (?e + 2) ?fs rest" using assms(4) by (simp add: fields_at_def rt)
  then have "parse_fields_from ?s ?inp (?e + 2) array cap 0 =
      (fresh self (?e + 2 + length (fields_text ?fs)), hs @ drop (length hs) array, Complete (length hs))"
    using parse_fields_complete [of ?s ?inp "?e + 2" ?fs rest cap array 0] assms(6, 7) by (simp add: rt o_def)
  then show "parser_response self ?inp q array cap = (fresh self (length (response_text r hs)), r, hs @ drop (length hs) array, Complete ())"
    unfolding parser_response_def b using \<open>find_line ?s ?inp 0 = _\<close> p(1) assms(3) by (simp add: parse_fields_def rt)
qed

text \<open>Concrete heads.\<close>

definition small_parser :: http_parser where
  "small_parser = \<lparr>head_size_max = 40, line_size_max = 40, consumed = 0, error_offset = 0, error = Error_none\<rparr>"

definition sample_request :: string where
  "sample_request = ''GET / HTTP/1.1'' @ crlf @ ''A:  b'' @ crlf @ crlf"

abbreviation no_request :: http_request where
  "no_request \<equiv> \<lparr>rq_method = [], rq_target = [], rq_minor = 0, rq_count = 0\<rparr>"

lemma sample_parsed:
  "parser_request small_parser sample_request no_request [\<lparr>name = [], val = []\<rparr>] 1 =
     (fresh small_parser 25, \<lparr>rq_method = ''GET'', rq_target = ''/'', rq_minor = 1, rq_count = 1\<rparr>,
      [\<lparr>name = ''A'', val = ''b''\<rparr>], Complete ())"
  by code_simp


theorem request_accepted_witness:
  "\<exists>fs rest. sample_request = request_line \<lparr>rq_method = ''GET'', rq_target = ''/'', rq_minor = 1, rq_count = 1\<rparr> @ crlf @ fields_text fs @ rest \<and>
     list_all good_field fs \<and> headers_of fs = [\<lparr>name = ''A'', val = ''b''\<rparr>]"
proof -
  let ?q = "\<lparr>rq_method = ''GET'', rq_target = ''/'', rq_minor = 1, rq_count = 1\<rparr> :: http_request"
  have "0 < head_size_max small_parser" "0 < line_size_max small_parser" by (simp_all add: small_parser_def)
  then obtain fs rest where "sample_request = request_line ?q @ crlf @ fields_text fs @ rest" "list_all good_field fs"
      "rq_count ?q = length fs" "[\<lparr>name = ''A'', val = ''b''\<rparr>] = headers_of fs @ drop (length fs) [\<lparr>name = [], val = []\<rparr>]"
    using request_accepted [of small_parser 1 "[\<lparr>name = [], val = []\<rparr>]"] sample_parsed by auto
  then show ?thesis by (intro exI [of _ fs] exI [of _ rest]) simp
qed

theorem response_roundtrip_witness:
  "\<exists>t. format_try_response_head \<lparr>rs_reason = ''OK'', rs_status = 200, rs_minor = 1, rs_count = 1\<rparr> [\<lparr>name = ''A'', val = ''b''\<rparr>] 100 [] = (True, t) \<and>
     parser_response small_parser (t @ ''body'') \<lparr>rs_reason = [], rs_status = 0, rs_minor = 0, rs_count = 0\<rparr> [\<lparr>name = [], val = []\<rparr>] 1 =
     (fresh small_parser (length t), \<lparr>rs_reason = ''OK'', rs_status = 200, rs_minor = 1, rs_count = 1\<rparr>, [\<lparr>name = ''A'', val = ''b''\<rparr>], Complete ())"
proof -
  let ?r = "\<lparr>rs_reason = ''OK'', rs_status = 200, rs_minor = 1, rs_count = 1\<rparr> :: http_response"
  let ?hs = "[\<lparr>name = ''A'', val = ''b''\<rparr>]"
  have "good_response ?r" "list_all valid_header ?hs" "length (response_text ?r ?hs) = 25" by code_simp+
  then show ?thesis
    using response_roundtrip [of ?r ?hs small_parser 1 "[\<lparr>name = [], val = []\<rparr>]" 100 "response_text ?r ?hs" "''body''"]
    by (auto simp: small_parser_def)
qed

end
