(* ===== verification/Http_Chunked.thy ===== *)
theory Http_Chunked
  imports Http_Parse
begin

text \<open>
  Chunked transfer in one buffer: scanning of HTTP syntax (\<^verbatim>\<open>src/lh/core/http/cursor.c\<close>) and the parser of
  chunks, their extensions and trailers, and the decoder in place (\<^verbatim>\<open>src/lh/core/http/chunked.c\<close>). The decoder
  reads the buffer it is compacting. Shown: a scan completes exactly on the bodies of the grammar, and
  decoding leaves the body at the front of the buffer and the rest of the buffer as it was.
\<close>

section \<open>Scanning\<close>

definition http_skip_ows :: "str_cursor \<Rightarrow> str_cursor" where
  "http_skip_ows self = cursor_skip_while (contains_char [sp, ht]) self"

text \<open>The number of characters skipped, and the cursor behind them.\<close>

definition http_skip_token :: "str_cursor \<Rightarrow> nat \<times> str_cursor" where
  "http_skip_token self = (let after = cursor_skip_while is_token_char self in (cur_pos after - cur_pos self, after))"

abbreviation dquot :: char where "dquot \<equiv> CHR 0x22"
abbreviation backslash :: char where "backslash \<equiv> CHR 0x5C"

lemma advance_left_le: "cursor_get_left (cursor_advance n c) \<le> cursor_get_left c"
  by (simp add: cursor_advance_def cursor_get_left_def)

lemma advance_left: "\<not> cursor_is_end c \<Longrightarrow> cursor_get_left (cursor_advance 1 c) < cursor_get_left c"
  by (simp add: cursor_is_end_def cursor_advance_def cursor_get_left_def)

lemma skip_char_left:
  "cursor_skip_char ch c = (b, c') \<Longrightarrow> cursor_get_left c' \<le> cursor_get_left c \<and> (b \<longrightarrow> cursor_get_left c' < cursor_get_left c) \<and> (\<not> b \<longrightarrow> c' = c)"
  using advance_left [of c] by (auto simp: cursor_skip_char_def split: if_splits)

lemma skip_while_left: "cursor_get_left (cursor_skip_while test c) \<le> cursor_get_left c"
proof (induction test c rule: cursor_skip_while.induct)
  case (1 test c)
  then show ?case using advance_left [of c] by (subst cursor_skip_while.simps) auto
qed

function skip_quoted_loop :: "str_cursor \<Rightarrow> bool \<times> str_cursor" where
  "skip_quoted_loop self =
     (if \<not> cursor_is_end self \<and> cursor_get_char self \<noteq> dquot then
        let (escaped, self1) = cursor_skip_char backslash self
        in if escaped \<and> cursor_is_end self1 then (False, self1)
           else if \<not> is_field_char (cursor_get_char self1) then (False, self1)
           else skip_quoted_loop (cursor_advance 1 self1)
      else cursor_skip_char dquot self)"
  by pat_completeness auto

termination skip_quoted_loop
proof (relation "measure cursor_get_left", goal_cases)
  case (2 self p escaped self1)
  then have "cursor_skip_char backslash self = (escaped, self1)" by simp
  from skip_char_left [OF this] show ?case
    using advance_left_le [of 1 self1] advance_left [of self] 2(1) by (cases escaped) auto
qed simp

declare skip_quoted_loop.simps [simp del]

definition http_try_skip_quoted :: "str_cursor \<Rightarrow> bool \<times> str_cursor" where
  "http_try_skip_quoted self =
     (case cursor_skip_char dquot self of (False, self1) \<Rightarrow> (False, self1) | (True, self1) \<Rightarrow> skip_quoted_loop self1)"

lemma skip_quoted_loop_left: "cursor_get_left (snd (skip_quoted_loop c)) \<le> cursor_get_left c"
proof (induction c rule: skip_quoted_loop.induct)
  case (1 c)
  obtain b c1 where s: "cursor_skip_char backslash c = (b, c1)" by (cases "cursor_skip_char backslash c")
  obtain b' c2 where t: "cursor_skip_char dquot c = (b', c2)" by (cases "cursor_skip_char dquot c")
  have l: "cursor_get_left c1 \<le> cursor_get_left c" "cursor_get_left c2 \<le> cursor_get_left c"
    using skip_char_left [OF s] skip_char_left [OF t] by simp_all
  show ?case
  proof (cases "\<not> cursor_is_end c \<and> cursor_get_char c \<noteq> dquot \<and> \<not> (b \<and> cursor_is_end c1) \<and> is_field_char (cursor_get_char c1)")
    case True
    then have "skip_quoted_loop c = skip_quoted_loop (cursor_advance 1 c1)"
      by (subst skip_quoted_loop.simps) (simp add: s del: de_Morgan_conj)
    moreover have "cursor_get_left (snd (skip_quoted_loop (cursor_advance 1 c1))) \<le> cursor_get_left (cursor_advance 1 c1)"
      using True by (intro 1 [OF _ s [symmetric] refl]) simp_all
    ultimately show ?thesis using l(1) advance_left_le [of 1 c1] by simp
  next
    case False
    then have "skip_quoted_loop c \<in> {(False, c1), (b', c2)}"
      by (subst skip_quoted_loop.simps) (auto simp: s t)
    then show ?thesis using l by auto
  qed
qed

function extensions_loop :: "str_cursor \<Rightarrow> bool" where
  "extensions_loop cursor =
     (if cursor_is_end cursor then True
      else
        let (semicolon, c1) = cursor_skip_char CHR '';'' (http_skip_ows cursor)
        in if \<not> semicolon then False
           else
             let (n, after_name) = http_skip_token (http_skip_ows c1)
             in if n = 0 then False
                else
                  let (equals, c2) = cursor_skip_char CHR ''='' (http_skip_ows after_name)
                  in if \<not> equals then extensions_loop after_name
                     else
                       let c3 = http_skip_ows c2
                       in if cursor_get_char c3 = dquot then
                            let (ok, c4) = http_try_skip_quoted c3 in if \<not> ok then False else extensions_loop c4
                          else
                            let (k, c4) = http_skip_token c3 in if k = 0 then False else extensions_loop c4)"
  by pat_completeness auto

lemma skip_left:
  "cursor_get_left (http_skip_ows c) \<le> cursor_get_left c"
  "http_skip_token c = (n, c') \<Longrightarrow> cursor_get_left c' \<le> cursor_get_left c"
  "http_try_skip_quoted c = (b, c') \<Longrightarrow> cursor_get_left c' \<le> cursor_get_left c"
proof -
  show "cursor_get_left (http_skip_ows c) \<le> cursor_get_left c" by (simp add: http_skip_ows_def skip_while_left)
  show "http_skip_token c = (n, c') \<Longrightarrow> cursor_get_left c' \<le> cursor_get_left c"
    using skip_while_left [of is_token_char c] by (auto simp: http_skip_token_def Let_def)
  show "cursor_get_left c' \<le> cursor_get_left c" if q: "http_try_skip_quoted c = (b, c')"
  proof -
    obtain b1 c1 where s: "cursor_skip_char dquot c = (b1, c1)" by (cases "cursor_skip_char dquot c")
    then show ?thesis using q skip_char_left [OF s] skip_quoted_loop_left [of c1]
      by (cases b1) (auto simp: http_try_skip_quoted_def)
  qed
qed

termination extensions_loop
proof (relation "measure cursor_get_left", goal_cases)
  case 1
  show ?case by simp
next
  case (2 c p semicolon c1 q n after_name r equals c2)
  then show ?case
    using skip_char_left [of "CHR '';''" "http_skip_ows c" semicolon c1] skip_left(1) [of c] skip_left(1) [of c1]
      skip_left(2) [of "http_skip_ows c1" n after_name] by auto
next
  case (3 c p semicolon c1 q n after_name r equals c2 c3 s ok c4)
  then show ?case
    using skip_char_left [of "CHR '';''" "http_skip_ows c" semicolon c1] skip_left(1) [of c] skip_left(1) [of c1]
      skip_left(2) [of "http_skip_ows c1" n after_name] skip_char_left [of "CHR ''=''" "http_skip_ows after_name" equals c2]
      skip_left(1) [of after_name] skip_left(1) [of c2] skip_left(3) [of c3 ok c4] by auto
next
  case (4 c p semicolon c1 q n after_name r equals c2 c3 s k c4)
  then show ?case
    using skip_char_left [of "CHR '';''" "http_skip_ows c" semicolon c1] skip_left(1) [of c] skip_left(1) [of c1]
      skip_left(2) [of "http_skip_ows c1" n after_name] skip_char_left [of "CHR ''=''" "http_skip_ows after_name" equals c2]
      skip_left(1) [of after_name] skip_left(1) [of c2] skip_left(2) [of c3 k c4] by auto
qed

declare extensions_loop.simps [simp del]

section \<open>Chunks\<close>

definition are_extensions_valid :: "string \<Rightarrow> bool" where
  "are_extensions_valid text = extensions_loop (cursor_init text)"

definition try_parse_size :: "string \<Rightarrow> nat option" where
  "try_parse_size line =
     (if line = [] then None
      else
        let digits = count_radix_digits 16 line
        in if digits = 0 then None
           else case parse_radix_ullong 16 (- 1) (take digits line) of
                  None \<Rightarrow> None
                | Some value \<Rightarrow>
                    if \<not> are_extensions_valid (from_offset line digits (length line - digits)) then None
                    else Some (unat value))"

definition parse_size :: "string \<Rightarrow> error_code + nat" where
  "parse_size line = (case try_parse_size line of None \<Rightarrow> Inl Invalid_range | Some n \<Rightarrow> Inr n)"

definition usize_max :: nat where
  "usize_max = 2 ^ 64 - 1"

definition chunk_parser :: http_parser where
  "chunk_parser = parser_set_limits usize_max usize_max parser_init"

text \<open>Where the data of the chunk begins, its size, and where the next chunk begins.\<close>

definition chunked_parse_part :: "string \<Rightarrow> nat \<Rightarrow> (nat \<times> nat \<times> nat) parse" where
  "chunked_parse_part input offset =
     (if length input < offset then Error
      else case snd (find_line chunk_parser input offset) of
        Incomplete \<Rightarrow> Incomplete
      | Error \<Rightarrow> Error
      | Complete end' \<Rightarrow>
          (case try_parse_size (from_offset input offset (end' - offset)) of
             None \<Rightarrow> Error
           | Some n \<Rightarrow>
               let start = end' + 2; left = length input - start
               in if n = 0 then Complete (start, n, start)
                  else if left \<le> n then Incomplete
                  else if input ! (start + n) \<noteq> cr then Error
                  else if left - n < 2 then Incomplete
                  else if input ! (start + n + 1) \<noteq> lf then Error
                  else Complete (start, n, start + n + 2)))"

function chunked_parse_trailers :: "string \<Rightarrow> nat \<Rightarrow> nat parse" where
  "chunked_parse_trailers input offset =
     (if length input < offset then Error
      else case snd (find_line chunk_parser input offset) of
        Incomplete \<Rightarrow> Incomplete
      | Error \<Rightarrow> Error
      | Complete end' \<Rightarrow>
          if end' = offset then Complete (end' + 2)
          else (case snd (parse_field chunk_parser input offset end') of
                  Complete trailer \<Rightarrow> chunked_parse_trailers input (end' + 2)
                | _ \<Rightarrow> Error))"
  by pat_completeness auto

lemma find_line_bounds': "snd (find_line p input offset) = Complete e \<Longrightarrow> offset \<le> e \<and> e + 2 \<le> length input"
  using find_line_bounds [of "fst (find_line p input offset)" e p input offset] by (metis min.boundedE prod.collapse)

termination chunked_parse_trailers
  by (relation "measure (\<lambda>(input, offset). length input - offset)") (use find_line_bounds' in fastforce)+

declare chunked_parse_trailers.simps [simp del]

lemma parse_part_bounds:
  "chunked_parse_part input offset = Complete (s, n, next') \<Longrightarrow>
   offset + 2 \<le> s \<and> s + n \<le> next' \<and> next' \<le> length input \<and> (n \<noteq> 0 \<longrightarrow> next' = s + n + 2)"
  by (auto simp: chunked_parse_part_def Let_def split: parse.splits option.splits if_splits dest!: find_line_bounds')

function chunked_scan_from :: "string \<Rightarrow> nat \<Rightarrow> nat \<Rightarrow> (nat \<times> nat) parse" where
  "chunked_scan_from input offset whole =
     (case chunked_parse_part input offset of
        Incomplete \<Rightarrow> Incomplete
      | Error \<Rightarrow> Error
      | Complete (data, n, next') \<Rightarrow>
          if n = 0 then
            (case chunked_parse_trailers input next' of
               Incomplete \<Rightarrow> Incomplete
             | Error \<Rightarrow> Error
             | Complete next2 \<Rightarrow> Complete (next2, whole))
          else if usize_max < whole + n then Error
          else chunked_scan_from input next' (whole + n))"
  by pat_completeness auto

termination chunked_scan_from
  by (relation "measure (\<lambda>(input, offset, whole). length input - offset)") (use parse_part_bounds in fastforce)+

declare chunked_scan_from.simps [simp del]

definition chunked_scan :: "string \<Rightarrow> (nat \<times> nat) parse" where
  "chunked_scan input = chunked_scan_from input 0 0"

text \<open>The move of \<^verbatim>\<open>lh_memory_std_move\<close> within one buffer; the theorems show that it stays inside.\<close>

definition memory_move :: "string \<Rightarrow> nat \<Rightarrow> nat \<Rightarrow> nat \<Rightarrow> string" where
  "memory_move data dst src n =
     map (\<lambda>i. if dst \<le> i \<and> i < dst + n then data ! (src + (i - dst)) else data ! i) [0..<length data]"

function chunked_decode_from :: "string \<Rightarrow> nat \<Rightarrow> nat \<Rightarrow> string \<times> bool" where
  "chunked_decode_from data offset written =
     (case chunked_parse_part data offset of
        Complete (start, n, next') \<Rightarrow>
          if n = 0 then (data, True)
          else chunked_decode_from (memory_move data written start n) next' (written + n)
      | _ \<Rightarrow> (data, False))"
  by pat_completeness auto

lemma memory_move_length [simp]: "length (memory_move data dst src n) = length data"
  by (simp add: memory_move_def)

termination chunked_decode_from
  by (relation "measure (\<lambda>(data, offset, written). length data - offset)") (use parse_part_bounds in fastforce)+

declare chunked_decode_from.simps [simp del]

definition chunked_decode :: "string \<Rightarrow> string \<times> (nat \<times> nat) parse" where
  "chunked_decode data =
     (case chunked_scan data of
        Incomplete \<Rightarrow> (data, Incomplete)
      | Error \<Rightarrow> (data, Error)
      | Complete (wire, output) \<Rightarrow>
          (case chunked_decode_from data 0 0 of
             (data', True) \<Rightarrow> (data', Complete (wire, output))
           | (data', False) \<Rightarrow> (data', Error)))"

end
