(* ===== verification/Chunk_Grammar.thy ===== *)
theory Chunk_Grammar
  imports Http_Chunked
begin

text \<open>
  The grammar of chunked transfer, and that the parsers of \<^verbatim>\<open>src/lh/core/http/chunked.c\<close> accept exactly its
  words: quoted strings, the extensions and the size line of a chunk, chunks, trailers, whole bodies.
\<close>

section \<open>Cursors as the text that is left\<close>

definition cursor_rest :: "str_cursor \<Rightarrow> string" where
  "cursor_rest c = drop (cur_pos c) (cur_text c)"

lemma rest_end: "cursor_is_end c \<longleftrightarrow> cursor_rest c = []"
  by (simp add: cursor_is_end_def cursor_rest_def)

lemma rest_char: "cursor_get_char c = (case cursor_rest c of [] \<Rightarrow> CHR 0x00 | x # xs \<Rightarrow> x)"
  by (auto simp: cursor_get_char_def cursor_peek_def cursor_rest_def Let_def hd_drop_conv_nth [symmetric] split: list.split)

lemma rest_advance: "cursor_rest (cursor_advance (Suc 0) c) = tl (cursor_rest c)"
  by (cases "cur_pos c < length (cur_text c)") (simp_all add: cursor_advance_def cursor_rest_def cursor_get_left_def tl_drop drop_Suc)

lemma rest_skip_char:
  "cursor_skip_char ch c = (case cursor_rest c of [] \<Rightarrow> (False, c) | x # xs \<Rightarrow> if x = ch then (True, cursor_advance 1 c) else (False, c))"
  by (auto simp: cursor_skip_char_def rest_end rest_char split: list.split)

lemma rest_skip_while: "cursor_rest (cursor_skip_while test c) = dropWhile test (cursor_rest c)"
proof (induction test c rule: cursor_skip_while.induct)
  case (1 test c)
  show ?case
  proof (cases "cursor_rest c")
    case Nil
    then show ?thesis by (subst cursor_skip_while.simps) (simp add: rest_end)
  next
    case (Cons x xs)
    then show ?thesis using 1 by (subst cursor_skip_while.simps) (auto simp: rest_end rest_char rest_advance)
  qed
qed

lemma skip_char_true: "cursor_skip_char ch c = (True, c') \<Longrightarrow> cursor_rest c = ch # cursor_rest c'"
  by (auto simp: rest_skip_char rest_advance split: list.splits if_splits)

lemma skip_char_false: "cursor_skip_char ch c = (False, c') \<Longrightarrow> c' = c \<and> (\<forall>w. cursor_rest c \<noteq> ch # w)"
  by (auto simp: rest_skip_char split: list.splits if_splits)

lemma skip_char_hit: "cursor_rest c = ch # w \<Longrightarrow> \<exists>c'. cursor_skip_char ch c = (True, c') \<and> cursor_rest c' = w"
  by (simp add: rest_skip_char rest_advance)

lemma skip_char_miss: "\<forall>w. cursor_rest c \<noteq> ch # w \<Longrightarrow> cursor_skip_char ch c = (False, c)"
  by (auto simp: rest_skip_char split: list.split)

abbreviation token :: "string \<Rightarrow> bool" where
  "token t \<equiv> t \<noteq> [] \<and> list_all is_token_char t"

lemma skip_pos: "cur_pos c \<le> cur_pos (cursor_skip_while test c) \<and>
  cur_pos (cursor_skip_while test c) - cur_pos c = length (takeWhile test (cursor_rest c))"
proof (induction test c rule: cursor_skip_while.induct)
  case (1 test c)
  show ?case
  proof (cases "cursor_rest c")
    case (Cons x xs)
    then have "cur_pos (cursor_advance 1 c) = Suc (cur_pos c)"
      using rest_end [of c] by (simp add: cursor_is_end_def cursor_advance_def cursor_get_left_def)
    then show ?thesis using 1 Cons
      by (subst (1 2) cursor_skip_while.simps) (auto simp: rest_end rest_char rest_advance)
  qed (subst (1 2) cursor_skip_while.simps, simp add: rest_end)
qed

lemma skip_token_rest:
  "http_skip_token c = (n, c') \<Longrightarrow> n = length (takeWhile is_token_char (cursor_rest c)) \<and> cursor_rest c' = dropWhile is_token_char (cursor_rest c)"
  using skip_pos [of c is_token_char] by (auto simp: http_skip_token_def Let_def rest_skip_while)

lemma ows_blank: "takeWhile (contains_char [sp, ht]) w = a \<Longrightarrow> blank a"
  using set_takeWhileD [of _ "contains_char [sp, ht]" w] by (fastforce simp: blank_def contains_char_def)

lemma ows_rest: "cursor_rest (http_skip_ows c) = dropWhile (contains_char [sp, ht]) (cursor_rest c)"
  by (simp add: http_skip_ows_def rest_skip_while)

lemma ows_parts: "\<exists>a. blank a \<and> cursor_rest c = a @ cursor_rest (http_skip_ows c)"
  by (metis ows_blank ows_rest takeWhile_dropWhile_id)

lemma ows_skips:
  assumes "blank a" "w = [] \<or> hd w \<notin> {sp, ht}" "cursor_rest c = a @ w"
  shows "cursor_rest (http_skip_ows c) = w"
proof -
  have "dropWhile (contains_char [sp, ht]) w = w" using assms(2) by (cases w) (auto simp: contains_char_def)
  then show ?thesis using assms(1, 3) by (subst ows_rest) (auto simp: blank_def contains_char_def dropWhile_append2 subset_eq)
qed

lemma token_parts:
  assumes "http_skip_token c = (n, c')" "n \<noteq> 0"
  shows "\<exists>t. token t \<and> cursor_rest c = t @ cursor_rest c'"
  using skip_token_rest [OF assms(1)] assms(2) set_takeWhileD [of _ is_token_char "cursor_rest c"]
  by (intro exI [of _ "takeWhile is_token_char (cursor_rest c)"]) (auto simp: list_all_iff)

lemma token_skips:
  assumes "token t" "w = [] \<or> \<not> is_token_char (hd w)" "cursor_rest c = t @ w"
  shows "\<exists>n c'. http_skip_token c = (n, c') \<and> n \<noteq> 0 \<and> cursor_rest c' = w"
proof -
  obtain n c' where s: "http_skip_token c = (n, c')" by fastforce
  have "takeWhile is_token_char w = []" "dropWhile is_token_char w = w" using assms(2) by (cases w; simp)+
  then have "n = length t" "cursor_rest c' = w"
    using skip_token_rest [OF s] assms by (auto simp: list_all_iff takeWhile_append2 dropWhile_append2)
  then show ?thesis using s assms(1) by simp
qed

section \<open>Quoted strings\<close>

text \<open>What follows an opening quotation mark: characters and escaped characters up to the closing mark.\<close>

inductive quoted_rest :: "string \<Rightarrow> bool" where
  quoted_close: "quoted_rest [dquot]"
| quoted_char: "is_field_char c \<Longrightarrow> c \<noteq> dquot \<Longrightarrow> c \<noteq> backslash \<Longrightarrow> quoted_rest w \<Longrightarrow> quoted_rest (c # w)"
| quoted_pair: "is_field_char c \<Longrightarrow> quoted_rest w \<Longrightarrow> quoted_rest (backslash # c # w)"

lemma quoted_loop_sound:
  "skip_quoted_loop c = (True, c') \<Longrightarrow> \<exists>w. quoted_rest w \<and> cursor_rest c = w @ cursor_rest c'"
proof (induction c rule: skip_quoted_loop.induct)
  case (1 c)
  obtain b c1 where s: "cursor_skip_char backslash c = (b, c1)" by (cases "cursor_skip_char backslash c")
  show ?case
  proof (cases "\<not> cursor_is_end c \<and> cursor_get_char c \<noteq> dquot")
    case False
    then have "cursor_skip_char dquot c = (True, c')" using 1(2) by (subst (asm) skip_quoted_loop.simps) (simp add: if_not_P)
    from skip_char_true [OF this] show ?thesis by (intro exI [of _ "[dquot]"]) (simp add: quoted_close)
  next
    case True
    then have e: "\<not> (b \<and> cursor_is_end c1)" "is_field_char (cursor_get_char c1)" "skip_quoted_loop (cursor_advance 1 c1) = (True, c')"
      using 1(2) s by (subst (asm) skip_quoted_loop.simps, simp split: if_splits)+
    obtain w where w: "quoted_rest w" "tl (cursor_rest c1) = w @ cursor_rest c'"
      using 1(1) [OF True s [symmetric] refl e(1) _ e(3)] e(2) rest_advance [of c1] by auto
    obtain x xs where x: "cursor_rest c1 = x # xs"
    proof (cases "cursor_rest c1")
      case Nil
      then show ?thesis using e(1) skip_char_false [of backslash c c1] True s by (cases b) (auto simp: rest_end)
    qed
    have f: "is_field_char x" using e(2) x by (simp add: rest_char)
    show ?thesis
    proof (cases b)
      case True
      then have "cursor_rest c = backslash # x # xs" using skip_char_true [of backslash c c1] s x by simp
      then show ?thesis using quoted_pair [OF f w(1)] w(2) x by (intro exI [of _ "backslash # x # w"]) simp
    next
      case False
      then have "c1 = c" "x \<noteq> backslash" using skip_char_false [of backslash c c1] s x by auto
      then show ?thesis using quoted_char [OF f _ _ w(1)] w(2) x \<open>\<not> cursor_is_end c \<and> _\<close>
        by (intro exI [of _ "x # w"]) (auto simp: rest_char)
    qed
  qed
qed

lemma quoted_loop_complete:
  "quoted_rest w \<Longrightarrow> cursor_rest c = w @ r \<Longrightarrow> \<exists>c'. skip_quoted_loop c = (True, c') \<and> cursor_rest c' = r"
proof (induction w arbitrary: c rule: quoted_rest.induct)
  case quoted_close
  then show ?case using skip_char_hit [of c dquot r] by (subst skip_quoted_loop.simps) (simp add: rest_end rest_char)
next
  case (quoted_char x w)
  have "skip_quoted_loop c = skip_quoted_loop (cursor_advance 1 c)"
    using quoted_char skip_char_miss [of c backslash] by (subst skip_quoted_loop.simps) (simp add: rest_end rest_char)
  then show ?case using quoted_char.IH [of "cursor_advance 1 c"] quoted_char.prems by (simp add: rest_advance)
next
  case (quoted_pair x w)
  obtain c1 where c1: "cursor_skip_char backslash c = (True, c1)" "cursor_rest c1 = x # w @ r"
    using skip_char_hit [of c backslash "x # w @ r"] quoted_pair.prems by auto
  then have "skip_quoted_loop c = skip_quoted_loop (cursor_advance 1 c1)"
    using quoted_pair by (subst skip_quoted_loop.simps) (simp add: rest_end rest_char)
  then show ?case using quoted_pair.IH [of "cursor_advance 1 c1"] c1(2) by (simp add: rest_advance)
qed

lemma quoted_parts:
  assumes "http_try_skip_quoted c = (True, c')"
  shows "\<exists>q. quoted_rest q \<and> cursor_rest c = (dquot # q) @ cursor_rest c'"
proof -
  obtain c1 where "cursor_skip_char dquot c = (True, c1)" "skip_quoted_loop c1 = (True, c')"
    using assms by (auto simp: http_try_skip_quoted_def split: prod.splits bool.splits)
  then show ?thesis using skip_char_true [of dquot c c1] quoted_loop_sound [of c1 c'] by auto
qed

lemma quoted_skips:
  assumes "quoted_rest q" "cursor_rest c = dquot # q @ w"
  shows "\<exists>c'. http_try_skip_quoted c = (True, c') \<and> cursor_rest c' = w"
proof -
  obtain c1 where "cursor_skip_char dquot c = (True, c1)" "cursor_rest c1 = q @ w" using skip_char_hit [OF assms(2)] by auto
  then show ?thesis using quoted_loop_complete [OF assms(1), of c1 w] by (auto simp: http_try_skip_quoted_def)
qed


section \<open>Extensions and size lines\<close>

text \<open>
  \<open>*( BWS ";" BWS name [ BWS "=" BWS ( token / quoted ) ] )\<close>, and a size line: hexadecimal digits, whose
  value fits the type of sizes, with extensions behind them.
\<close>

definition ext_value :: "string \<Rightarrow> bool" where
  "ext_value v \<longleftrightarrow> token v \<or> (\<exists>q. v = dquot # q \<and> quoted_rest q)"

inductive chunk_ext :: "string \<Rightarrow> bool" where
  ext_none: "chunk_ext []"
| ext_flag: "blank a \<Longrightarrow> blank b \<Longrightarrow> token n \<Longrightarrow> chunk_ext w \<Longrightarrow> chunk_ext (a @ CHR '';'' # b @ n @ w)"
| ext_valued: "blank a \<Longrightarrow> blank b \<Longrightarrow> token n \<Longrightarrow> blank c \<Longrightarrow> blank d \<Longrightarrow> ext_value v \<Longrightarrow> chunk_ext w \<Longrightarrow>
     chunk_ext (a @ CHR '';'' # b @ n @ c @ CHR ''='' # d @ v @ w)"

lemma not_token: "\<not> is_token_char CHR '';''" "\<not> is_token_char CHR ''=''" "\<not> is_token_char sp" "\<not> is_token_char ht" "\<not> is_token_char dquot"
  by code_simp+

lemma blank_hd: "blank a \<Longrightarrow> a \<noteq> [] \<Longrightarrow> hd a \<in> {sp, ht}"
  by (cases a) (auto simp: blank_def)

lemma blank_then:
  assumes "blank a" "\<not> is_token_char x" "x \<notin> {sp, ht}"
  shows "\<not> is_token_char (hd (a @ x # w))"
  using blank_hd [OF assms(1)] not_token assms(2) by (cases "a = []") auto

lemma token_hd: "token t \<Longrightarrow> is_token_char (hd (t @ w)) \<and> hd (t @ w) \<notin> {sp, ht, dquot}"
  using not_token by (cases t) auto

lemma chunk_ext_starts: "chunk_ext w \<Longrightarrow> w = [] \<or> (\<exists>a w'. blank a \<and> w = a @ CHR '';'' # w')"
  by (induction rule: chunk_ext.induct) auto

lemma chunk_ext_hd: "chunk_ext w \<Longrightarrow> w = [] \<or> \<not> is_token_char (hd w)"
  using chunk_ext_starts [of w] blank_then [of _ "CHR '';''"] not_token(1) by auto

lemma extensions_loop_sound: "extensions_loop c \<Longrightarrow> chunk_ext (cursor_rest c)"
proof (induction c rule: extensions_loop.induct)
  case (1 c)
  show ?case
  proof (cases "cursor_is_end c")
    case True
    then show ?thesis by (simp add: rest_end ext_none)
  next
    case False
    obtain s c1 where s: "cursor_skip_char CHR '';'' (http_skip_ows c) = (s, c1)" by fastforce
    obtain n c2 where n: "http_skip_token (http_skip_ows c1) = (n, c2)" by fastforce
    obtain q c3 where q: "cursor_skip_char CHR ''='' (http_skip_ows c2) = (q, c3)" by fastforce
    have ok: "s" "n \<noteq> 0" using 1(4) False s n q by (subst (asm) extensions_loop.simps, simp split: if_splits)+
    obtain a where a: "blank a" "cursor_rest c = a @ CHR '';'' # cursor_rest c1"
      using ows_parts [of c] skip_char_true s ok(1) by (metis (full_types))
    obtain b t where t: "blank b" "token t" "cursor_rest c1 = b @ t @ cursor_rest c2"
      using ows_parts [of c1] token_parts [OF n ok(2)] by metis
    show ?thesis
    proof (cases q)
      case False
      then have "extensions_loop c2" using 1(4) \<open>\<not> cursor_is_end c\<close> s n q ok by (subst (asm) extensions_loop.simps) simp
      then have "chunk_ext (cursor_rest c2)"
        using 1(1) [OF \<open>\<not> cursor_is_end c\<close> s [symmetric] refl _ n [symmetric] refl ok(2) q [symmetric] refl] ok(1) False by simp
      then show ?thesis using ext_flag [OF a(1) t(1, 2)] a(2) t(3) by simp
    next
      case True
      then obtain d where d: "blank d" "cursor_rest c2 = d @ CHR ''='' # cursor_rest c3"
        using ows_parts [of c2] skip_char_true q by (metis (full_types))
      obtain e where e: "blank e" "cursor_rest c3 = e @ cursor_rest (http_skip_ows c3)" using ows_parts [of c3] by blast
      have "\<exists>v c4. ext_value v \<and> cursor_rest (http_skip_ows c3) = v @ cursor_rest c4 \<and> chunk_ext (cursor_rest c4)"
      proof (cases "cursor_get_char (http_skip_ows c3) = dquot")
        case dq: True
        obtain g c4 where g: "http_try_skip_quoted (http_skip_ows c3) = (g, c4)" by fastforce
        then have ok2: "g" "extensions_loop c4"
          using 1(4) \<open>\<not> cursor_is_end c\<close> s n q ok True dq by (subst (asm) extensions_loop.simps, simp split: if_splits)+
        have "chunk_ext (cursor_rest c4)"
          using 1(2) [OF \<open>\<not> cursor_is_end c\<close> s [symmetric] refl _ n [symmetric] refl ok(2) q [symmetric] refl _ refl dq g [symmetric] refl]
            ok(1) ok2 True by simp
        moreover obtain q where "quoted_rest q" "cursor_rest (http_skip_ows c3) = (dquot # q) @ cursor_rest c4"
          using quoted_parts [of "http_skip_ows c3" c4] g ok2(1) by auto
        moreover from this(1) have "ext_value (dquot # q)" unfolding ext_value_def by blast
        ultimately show ?thesis by blast
      next
        case dq: False
        obtain k c4 where g: "http_skip_token (http_skip_ows c3) = (k, c4)" by fastforce
        then have ok2: "k \<noteq> 0" "extensions_loop c4"
          using 1(4) \<open>\<not> cursor_is_end c\<close> s n q ok True dq by (subst (asm) extensions_loop.simps, simp split: if_splits)+
        have "chunk_ext (cursor_rest c4)"
          using 1(3) [OF \<open>\<not> cursor_is_end c\<close> s [symmetric] refl _ n [symmetric] refl ok(2) q [symmetric] refl _ refl dq g [symmetric] refl]
            ok(1) ok2 True by simp
        then show ?thesis using token_parts [OF g ok2(1)] unfolding ext_value_def by blast
      qed
      then obtain v c4 where v: "ext_value v" "cursor_rest (http_skip_ows c3) = v @ cursor_rest c4" "chunk_ext (cursor_rest c4)"
        by blast
      have "cursor_rest c = a @ CHR '';'' # b @ t @ d @ CHR ''='' # e @ v @ cursor_rest c4"
        unfolding a(2) t(3) d(2) by (subst e(2)) (simp add: v(2))
      then show ?thesis using ext_valued [OF a(1) t(1, 2) d(1) e(1) v(1, 3)] by simp
    qed
  qed
qed

lemma extensions_loop_complete: "chunk_ext w \<Longrightarrow> cursor_rest c = w \<Longrightarrow> extensions_loop c"
proof (induction w arbitrary: c rule: chunk_ext.induct)
  case ext_none
  then show ?case by (subst extensions_loop.simps) (simp add: rest_end)
next
  case (ext_flag a b n w)
  have ne: "\<not> cursor_is_end c" using ext_flag.prems by (simp add: rest_end)
  obtain c1 where s: "cursor_skip_char CHR '';'' (http_skip_ows c) = (True, c1)" "cursor_rest c1 = b @ n @ w"
    using skip_char_hit [of "http_skip_ows c"] ows_skips [OF ext_flag(1) _ ext_flag.prems] by fastforce
  obtain k c2 where t: "http_skip_token (http_skip_ows c1) = (k, c2)" "k \<noteq> 0" "cursor_rest c2 = w"
    using token_skips [OF ext_flag(3) chunk_ext_hd [OF ext_flag(4)]] ows_skips [OF ext_flag(2) _ s(2)] token_hd [OF ext_flag(3), of w] by blast
  have "cursor_skip_char CHR ''='' (http_skip_ows c2) = (False, http_skip_ows c2)"
    using chunk_ext_starts [OF ext_flag(4)] ows_skips [of "[]" "[]" c2] ows_skips [of _ "CHR '';'' # _" c2] t(3)
    by (intro skip_char_miss) (fastforce simp: blank_def)
  then show ?case using ne s(1) t(1, 2) ext_flag.IH [OF t(3)] by (subst extensions_loop.simps) simp
next
  case (ext_valued a b n d e v w)
  have ne: "\<not> cursor_is_end c" using ext_valued.prems by (simp add: rest_end)
  obtain c1 where s: "cursor_skip_char CHR '';'' (http_skip_ows c) = (True, c1)" "cursor_rest c1 = b @ n @ d @ CHR ''='' # e @ v @ w"
    using skip_char_hit [of "http_skip_ows c"] ows_skips [OF ext_valued(1) _ ext_valued.prems] by fastforce
  have "\<not> is_token_char (hd (d @ CHR ''='' # e @ v @ w))" using blank_then [OF ext_valued(4), of "CHR ''=''"] not_token(2) by simp
  then obtain k c2 where t: "http_skip_token (http_skip_ows c1) = (k, c2)" "k \<noteq> 0" "cursor_rest c2 = d @ CHR ''='' # e @ v @ w"
    using token_skips [OF ext_valued(3)] ows_skips [OF ext_valued(2) _ s(2)] token_hd [OF ext_valued(3)] by blast
  obtain c3 where q: "cursor_skip_char CHR ''='' (http_skip_ows c2) = (True, c3)" "cursor_rest c3 = e @ v @ w"
    using skip_char_hit [of "http_skip_ows c2"] ows_skips [OF ext_valued(4) _ t(3)] by fastforce
  have v: "hd (v @ w) \<notin> {sp, ht}" "v \<noteq> []" using ext_valued(6) token_hd [of v w] unfolding ext_value_def by auto
  then have r: "cursor_rest (http_skip_ows c3) = v @ w" using ows_skips [OF ext_valued(5) _ q(2)] by simp
  show ?case
  proof (cases "cursor_get_char (http_skip_ows c3) = dquot")
    case True
    then have "hd (v @ w) = dquot" using r v(2) by (cases v) (auto simp: rest_char)
    then obtain x where "v = dquot # x" "quoted_rest x" using ext_valued(6) token_hd [of v w] unfolding ext_value_def by auto
    then obtain c4 where "http_try_skip_quoted (http_skip_ows c3) = (True, c4)" "cursor_rest c4 = w"
      using quoted_skips [of x "http_skip_ows c3" w] r by auto
    then show ?thesis using ne s(1) t(1, 2) q(1) True ext_valued.IH [of c4] by (subst extensions_loop.simps) simp
  next
    case False
    then have "hd (v @ w) \<noteq> dquot" using r v(2) by (cases v) (auto simp: rest_char)
    then have "token v" using ext_valued(6) unfolding ext_value_def by auto
    then obtain m c4 where "http_skip_token (http_skip_ows c3) = (m, c4)" "m \<noteq> 0" "cursor_rest c4 = w"
      using token_skips [OF _ chunk_ext_hd [OF ext_valued(7)] r] by blast
    then show ?thesis using ne s(1) t(1, 2) q(1) False ext_valued.IH [of c4] by (subst extensions_loop.simps) simp
  qed
qed

lemma extensions_exact: "are_extensions_valid t \<longleftrightarrow> chunk_ext t"
  using extensions_loop_sound [of "cursor_init t"] extensions_loop_complete [of t "cursor_init t"]
  by (auto simp: are_extensions_valid_def cursor_init_def cursor_rest_def)


definition size_line :: "string \<Rightarrow> nat \<Rightarrow> bool" where
  "size_line ln n \<longleftrightarrow> (\<exists>ds x. ln = ds @ x \<and> ds \<noteq> [] \<and> list_all char_is_xdigit ds \<and> chunk_ext x \<and>
     n = digits_value 16 char_to_xdigit 0 ds \<and> n \<le> usize_max)"

lemma xdigit_radix: "char_is_radix_digit c 16 \<longleftrightarrow> char_is_xdigit c"
proof (cases "char_is_xdigit c")
  case True
  then have "unat (char_to_xdigit c) < 16" by (rule xdigit_value)
  then show ?thesis using True by (simp add: char_is_radix_digit_def word_less_nat_alt unat_ucast_up)
qed (simp add: char_is_radix_digit_def)

lemma xdigit_token: "char_is_xdigit c \<Longrightarrow> is_token_char c"
  by (auto simp: char_is_xdigit_def is_token_char_def char_is_letter_def char_is_upper_def char_is_lower_def)

lemma usize_max_word: "unat (- 1 :: ullong_t) = usize_max"
  by (simp add: usize_max_def unsigned_minus_1_eq_mask mask_eq_exp_minus_1)

lemma try_parse_size_iff: "try_parse_size ln = Some n \<longleftrightarrow> size_line ln n"
proof -
  let ?t = "takeWhile char_is_xdigit ln" let ?d = "dropWhile char_is_xdigit ln"
  have parts: "take (length ?t) ln = ?t" "from_offset ln (length ?t) (length ln - length ?t) = ?d"
    by (simp_all add: takeWhile_eq_take [symmetric] from_offset_def dropWhile_eq_drop)
  have v: "parse_radix_ullong 16 (- 1) ?t =
      (if ?t \<noteq> [] \<and> digits_value 16 char_to_xdigit 0 ?t \<le> usize_max then Some (of_nat (digits_value 16 char_to_xdigit 0 ?t)) else None)"
  proof -
    have "list_all char_is_xdigit ?t" using set_takeWhileD [of _ char_is_xdigit ln] by (auto simp: list_all_iff)
    then show ?thesis using parse_all_exact [of "16 :: ullong_t" char_is_xdigit char_to_xdigit "- 1" ?t]
      by (simp add: parse_radix_ullong_def xdigit_radix usize_max_word)
  qed
  have u: "unat (of_nat m :: ullong_t) = m" if "m \<le> usize_max" for m
    using that by (intro unat_of_nat_small) (simp add: usize_max_def)
  have "try_parse_size ln = Some n \<longleftrightarrow> ?t \<noteq> [] \<and> digits_value 16 char_to_xdigit 0 ?t \<le> usize_max \<and>
      n = digits_value 16 char_to_xdigit 0 ?t \<and> chunk_ext ?d"
    unfolding try_parse_size_def Let_def count_radix_digits_def xdigit_radix extensions_exact [symmetric]
    using u by (auto simp: parts v)
  also have "\<dots> \<longleftrightarrow> size_line ln n"
  proof
    assume "?t \<noteq> [] \<and> digits_value 16 char_to_xdigit 0 ?t \<le> usize_max \<and> n = digits_value 16 char_to_xdigit 0 ?t \<and> chunk_ext ?d"
    then show "size_line ln n" unfolding size_line_def
      by (intro exI [of _ ?t] exI [of _ ?d]) (auto simp: list_all_iff dest: set_takeWhileD)
  next
    assume "size_line ln n"
    then obtain ds x where g: "ln = ds @ x" "ds \<noteq> []" "list_all char_is_xdigit ds" "chunk_ext x"
        "n = digits_value 16 char_to_xdigit 0 ds" "n \<le> usize_max" unfolding size_line_def by blast
    have "takeWhile char_is_xdigit x = []" "dropWhile char_is_xdigit x = x"
      using chunk_ext_hd [OF g(4)] xdigit_token by (cases x; auto)+
    then have "?t = ds" "?d = x" using g(1, 3) by (auto simp: list_all_iff takeWhile_append2 dropWhile_append2)
    then show "?t \<noteq> [] \<and> digits_value 16 char_to_xdigit 0 ?t \<le> usize_max \<and> n = digits_value 16 char_to_xdigit 0 ?t \<and> chunk_ext ?d"
      using g by simp
  qed
  finally show ?thesis .
qed

lemma quoted_plain: "quoted_rest q \<Longrightarrow> list_all plain q"
  by (induction rule: quoted_rest.induct) (auto dest: field_plain)

lemma token_all_plain: "list_all is_token_char t \<Longrightarrow> list_all plain t"
  using token_plain by (auto simp: list_all_iff)

lemma blank_plain: "blank a \<Longrightarrow> list_all plain a"
  by (auto simp: blank_def list_all_iff)

lemma chunk_ext_plain: "chunk_ext w \<Longrightarrow> list_all plain w"
proof (induction rule: chunk_ext.induct)
  case (ext_valued a b n c d v w)
  then have "list_all plain v" using quoted_plain token_all_plain by (auto simp: ext_value_def)
  then show ?case using ext_valued by (simp add: blank_plain token_all_plain)
qed (simp_all add: blank_plain token_all_plain)

lemma size_line_plain: "size_line ln n \<Longrightarrow> list_all plain ln"
proof -
  assume "size_line ln n"
  then obtain ds x where g: "ln = ds @ x" "list_all char_is_xdigit ds" "chunk_ext x" unfolding size_line_def by blast
  have "list_all is_token_char ds" using g(2) xdigit_token by (rule list.pred_mono_strong)
  then show ?thesis using g(1) token_all_plain chunk_ext_plain [OF g(3)] by simp
qed


section \<open>Chunks, trailers and whole bodies\<close>

text \<open>A chunk is its size line and its data; a body ends with an empty chunk and trailer fields.\<close>

type_synonym chunk = "string \<times> string"

definition chunk_text :: "chunk \<Rightarrow> string" where
  "chunk_text = (\<lambda>(ln, d). ln @ crlf @ d @ crlf)"

definition good_chunk :: "chunk \<Rightarrow> bool" where
  "good_chunk = (\<lambda>(ln, d). d \<noteq> [] \<and> size_line ln (length d))"

definition chunked_text :: "chunk list \<Rightarrow> string \<Rightarrow> field list \<Rightarrow> string" where
  "chunked_text cs ln fs = concat (map chunk_text cs) @ ln @ crlf @ fields_text fs"

definition good_chunked :: "chunk list \<Rightarrow> string \<Rightarrow> field list \<Rightarrow> bool" where
  "good_chunked cs ln fs \<longleftrightarrow> list_all good_chunk cs \<and> size_line ln 0 \<and> list_all good_field fs"

abbreviation chunked_body :: "chunk list \<Rightarrow> string" where
  "chunked_body cs \<equiv> concat (map snd cs)"

lemma chunked_text_simps [simp]:
  "chunked_text [] ln fs = ln @ crlf @ fields_text fs"
  "chunked_text ((l, d) # cs) ln fs = l @ crlf @ d @ crlf @ chunked_text cs ln fs"
  by (simp_all add: chunked_text_def chunk_text_def)

lemma good_chunked_simps [simp]:
  "good_chunked [] ln fs \<longleftrightarrow> size_line ln 0 \<and> list_all good_field fs"
  "good_chunked ((l, d) # cs) ln fs \<longleftrightarrow> d \<noteq> [] \<and> size_line l (length d) \<and> good_chunked cs ln fs"
  by (auto simp: good_chunked_def good_chunk_def)

lemma chunk_parser_limits [simp]: "head_size_max chunk_parser = usize_max" "line_size_max chunk_parser = usize_max"
  by (simp_all add: chunk_parser_def parser_set_limits_def)

lemma chunk_line_iff:
  assumes "off \<le> length inp" "length inp \<le> usize_max"
  shows "snd (find_line chunk_parser inp off) = Complete e \<longleftrightarrow>
    (\<exists>ln rest. drop off inp = ln @ crlf @ rest \<and> list_all plain ln \<and> e = off + length ln)"
proof -
  have "snd (find_line chunk_parser inp off) = Complete e \<longleftrightarrow> (\<exists>p. find_line chunk_parser inp off = (p, Complete e))"
    by (cases "find_line chunk_parser inp off") simp
  also have "\<dots> \<longleftrightarrow> (\<exists>ln rest. drop off inp = ln @ crlf @ rest \<and> list_all plain ln \<and> e = off + length ln)"
    using find_line_iff [OF assms(1)] find_line_parts(3) [OF assms(1)] assms(2) by (fastforce intro: order_trans)
  finally show ?thesis .
qed

lemma plain_split_unique:
  "list_all plain a \<Longrightarrow> list_all plain b \<Longrightarrow> a @ crlf @ x = b @ crlf @ y \<Longrightarrow> a = b \<and> x = y"
  using takeWhile_cut [of plain a cr "lf # x"] takeWhile_cut [of plain b cr "lf # y"] by simp

lemma part_sound:
  assumes "chunked_parse_part inp off = Complete (s, n, nx)" "off \<le> length inp" "length inp \<le> usize_max"
  shows "\<exists>ln rest. size_line ln n \<and> s = off + length ln + 2 \<and>
    (n = 0 \<and> nx = s \<and> drop off inp = ln @ crlf @ rest \<or>
     n \<noteq> 0 \<and> nx = s + n + 2 \<and> (\<exists>d. length d = n \<and> drop off inp = ln @ crlf @ d @ crlf @ rest))"
proof -
  obtain e where e: "snd (find_line chunk_parser inp off) = Complete e"
    using assms(1) by (auto simp: chunked_parse_part_def split: if_splits parse.splits)
  then obtain ln rest where l: "drop off inp = ln @ crlf @ rest" "list_all plain ln" "e = off + length ln"
    using chunk_line_iff [OF assms(2, 3)] by blast
  note parts = find_line_parts [OF assms(2) l(1)]
  have sz: "size_line ln n" "s = e + 2"
    using assms e parts(1) l(3) by (auto simp: chunked_parse_part_def Let_def try_parse_size_iff [symmetric] split: option.splits if_splits)
  show ?thesis
  proof (cases "n = 0")
    case True
    then have "nx = s" using assms(1, 2) e by (auto simp: chunked_parse_part_def Let_def split: option.splits if_splits)
    then show ?thesis using True sz l by auto
  next
    case False
    then have g: "n + 2 \<le> length inp - s" "inp ! (s + n) = cr" "inp ! (s + n + 1) = lf" "nx = s + n + 2"
      using assms(1, 2) e sz(2) by (auto simp: chunked_parse_part_def Let_def split: option.splits if_splits)
    have r: "drop s inp = rest" using parts(2) sz(2) l(3) by simp
    have "rest ! n = cr" "rest ! Suc n = lf" "n + 2 \<le> length rest" using g(1-3) r by auto
    then have "rest = take n rest @ crlf @ drop (n + 2) rest"
      by (metis Cons_nth_drop_Suc Suc_le_lessD add_2_eq_Suc' append_Cons append_Nil append_take_drop_id less_Suc_eq_le less_imp_le_nat)
    then show ?thesis using False sz l g(4) \<open>n + 2 \<le> length rest\<close>
      by (intro exI [of _ ln] exI [of _ "drop (n + 2) rest"]) (auto intro!: exI [of _ "take n rest"])
  qed
qed

lemma part_last:
  assumes "drop off inp = ln @ crlf @ rest" "size_line ln 0" "off \<le> length inp" "length inp \<le> usize_max"
  shows "chunked_parse_part inp off = Complete (off + length ln + 2, 0, off + length ln + 2)"
proof -
  have "snd (find_line chunk_parser inp off) = Complete (off + length ln)"
    using chunk_line_iff [OF assms(3, 4)] assms(1) size_line_plain [OF assms(2)] by blast
  then show ?thesis
    using assms(2, 3) find_line_parts(1) [OF assms(3, 1)] by (simp add: chunked_parse_part_def try_parse_size_iff [symmetric])
qed

lemma part_chunk:
  assumes "drop off inp = ln @ crlf @ d @ crlf @ rest" "d \<noteq> []" "size_line ln (length d)" "off \<le> length inp" "length inp \<le> usize_max"
  shows "chunked_parse_part inp off = Complete (off + length ln + 2, length d, off + length ln + 2 + length d + 2)"
proof -
  have "snd (find_line chunk_parser inp off) = Complete (off + length ln)"
    using chunk_line_iff [OF assms(4, 5)] assms(1) size_line_plain [OF assms(3)] by blast
  moreover note parts = find_line_parts [OF assms(4, 1)]
  have "inp ! (off + length ln + 2 + k) = (d @ crlf @ rest) ! k" "length inp = off + length ln + 2 + length (d @ crlf @ rest)" for k
    using parts(2, 3) by (metis nth_drop, metis length_drop le_add_diff_inverse)
  then have "inp ! (off + length ln + 2 + length d) = cr" "inp ! (off + length ln + 2 + length d + 1) = lf"
      "length inp - (off + length ln + 2) = length d + 2 + length rest"
    by (metis nth_append_length append_Cons, metis add.assoc nth_append_length_plus append_Cons append_Nil nth_Cons_Suc nth_Cons_0 One_nat_def, simp)
  ultimately show ?thesis
    using assms(2-4) parts(1) by (simp add: chunked_parse_part_def try_parse_size_iff [symmetric] Let_def)
qed

end
