(* ===== verification/Chunk_Decode.thy ===== *)
theory Chunk_Decode
  imports Chunk_Grammar
begin

text \<open>
  The scanner and the decoder of chunked transfer against the grammar: a scan completes exactly on a
  body of the grammar, when its last byte has arrived, and decoding in place leaves the body at the
  front of the buffer and every other byte as it was.
\<close>

section \<open>Exactness\<close>

lemma trailers_sound:
  "chunked_parse_trailers inp off = Complete nx \<Longrightarrow> off \<le> length inp \<Longrightarrow> length inp \<le> usize_max \<Longrightarrow>
   \<exists>fs rest. drop off inp = fields_text fs @ rest \<and> list_all good_field fs \<and> nx = off + length (fields_text fs)"
proof (induction inp off rule: chunked_parse_trailers.induct)
  case (1 inp off)
  obtain e where e: "snd (find_line chunk_parser inp off) = Complete e"
    using 1(2) by (subst (asm) chunked_parse_trailers.simps) (auto split: if_splits parse.splits)
  then obtain ln rest where l: "drop off inp = ln @ crlf @ rest" "e = off + length ln"
    using chunk_line_iff [OF 1(3, 4)] by blast
  note parts = find_line_parts [OF 1(3) l(1)]
  show ?case
  proof (cases "e = off")
    case True
    then show ?thesis using 1(2, 3) e l
      by (subst (asm) chunked_parse_trailers.simps) (auto intro!: exI [of _ "[] :: field list"])
  next
    case False
    obtain h where h: "snd (parse_field chunk_parser inp off e) = Complete h" "chunked_parse_trailers inp (e + 2) = Complete nx"
      using 1(2, 3) e False by (subst (asm) chunked_parse_trailers.simps) (auto split: parse.splits)
    obtain p where "parse_field chunk_parser inp off e = (p, Complete h)"
      using h(1) by (cases "parse_field chunk_parser inp off e") simp
    then obtain a b where g: "good_field (a, h, b)" "ln = field_line (a, h, b)"
      using parse_field_iff [of off e inp chunk_parser p h] parts(1, 3) l(2) by auto
    have "\<not> length inp < off" using 1(3) by simp
    then obtain fs rest' where "drop (e + 2) inp = fields_text fs @ rest'" "list_all good_field fs" "nx = e + 2 + length (fields_text fs)"
      using 1(1) [OF _ e False h] parts(3) l(2) 1(4) by auto
    then show ?thesis using g l parts(2) by (intro exI [of _ "(a, h, b) # fs"] exI [of _ rest']) simp
  qed
qed

lemma trailers_complete:
  "drop off inp = fields_text fs @ rest \<Longrightarrow> list_all good_field fs \<Longrightarrow> off \<le> length inp \<Longrightarrow> length inp \<le> usize_max \<Longrightarrow>
   chunked_parse_trailers inp off = Complete (off + length (fields_text fs))"
proof (induction fs arbitrary: off)
  case Nil
  then have "snd (find_line chunk_parser inp off) = Complete off" using chunk_line_iff [of off inp off] by auto
  then show ?case using Nil.prems(3) by (subst chunked_parse_trailers.simps) simp
next
  case (Cons f fs)
  obtain a h b where f: "f = (a, h, b)" by (cases f)
  let ?ln = "field_line f" let ?e = "off + length ?ln"
  have d: "drop off inp = ?ln @ crlf @ fields_text fs @ rest" and good: "good_field f" using Cons.prems(1, 2) by simp_all
  note parts = find_line_parts [OF Cons.prems(3) d]
  have "snd (find_line chunk_parser inp off) = Complete ?e"
    using chunk_line_iff [OF Cons.prems(3, 4)] d field_line_plain [OF good] by auto
  moreover have "snd (parse_field chunk_parser inp off ?e) = Complete h"
    using parse_field_iff [of off ?e inp chunk_parser chunk_parser h] parts(1, 3) good f by auto
  moreover have "chunked_parse_trailers inp (?e + 2) = Complete (?e + 2 + length (fields_text fs))"
    using Cons.IH [of "?e + 2"] parts Cons.prems by simp
  ultimately show ?case using field_line_plain [OF good] Cons.prems(3) by (subst chunked_parse_trailers.simps) simp
qed

lemma chunk_wire_drop:
  assumes "drop off inp = ln @ crlf @ d @ crlf @ rest"
  shows "drop (off + length ln + 2 + length d + 2) inp = rest" "drop (off + length ln + 2) inp = d @ crlf @ rest"
proof -
  have k: "drop (off + k) inp = drop k (drop off inp)" for k by (simp add: add.commute)
  have "drop off inp = (ln @ crlf @ d @ crlf) @ rest" using assms by simp
  then have "drop (off + length (ln @ crlf @ d @ crlf)) inp = rest" using k by (metis append_eq_conv_conj)
  moreover have "off + length (ln @ crlf @ d @ crlf) = off + length ln + 2 + length d + 2" by simp
  ultimately show "drop (off + length ln + 2 + length d + 2) inp = rest" by (simp only:)
  show "drop (off + length ln + 2) inp = d @ crlf @ rest" using k [of "length ln + 2"] assms by simp
qed

lemma scan_sound:
  "chunked_scan_from inp off k = Complete (c, m) \<Longrightarrow> off \<le> length inp \<Longrightarrow> length inp \<le> usize_max \<Longrightarrow>
   \<exists>cs ln fs rest. drop off inp = chunked_text cs ln fs @ rest \<and> good_chunked cs ln fs \<and>
     c = off + length (chunked_text cs ln fs) \<and> m = k + length (chunked_body cs)"
proof (induction inp off k rule: chunked_scan_from.induct)
  case (1 inp off k)
  obtain s n nx where p: "chunked_parse_part inp off = Complete (s, n, nx)"
    using 1(2) by (subst (asm) chunked_scan_from.simps) (auto split: parse.splits)
  note bounds = parse_part_bounds [OF p]
  show ?case
  proof (cases "n = 0")
    case True
    obtain ln rest where l: "size_line ln 0" "nx = off + length ln + 2" "drop off inp = ln @ crlf @ rest"
      using part_sound [OF p 1(3, 4)] True by auto
    have t: "chunked_parse_trailers inp nx = Complete c" "m = k"
      using 1(2) p True by (subst (asm) chunked_scan_from.simps, simp split: parse.splits)+
    obtain fs rest' where "drop nx inp = fields_text fs @ rest'" "list_all good_field fs" "c = nx + length (fields_text fs)"
      using trailers_sound [OF t(1) _ 1(4)] bounds by auto
    then show ?thesis using l t(2) find_line_parts(2) [OF 1(3) l(3)]
      by (intro exI [of _ "[]"] exI [of _ ln] exI [of _ fs] exI [of _ rest']) simp
  next
    case False
    obtain ln d rest where l': "size_line ln n" "s = off + length ln + 2" "nx = s + n + 2" "length d = n" "drop off inp = ln @ crlf @ d @ crlf @ rest"
      using part_sound [OF p 1(3, 4)] False by blast
    note l = l'(1) l'(3) [unfolded l'(2)] l'(4, 5)
    have t: "\<not> usize_max < k + n" "chunked_scan_from inp nx (k + n) = Complete (c, m)"
      using 1(2) p False by (subst (asm) chunked_scan_from.simps, simp split: if_splits)+
    obtain cs ln2 fs rest' where g: "drop nx inp = chunked_text cs ln2 fs @ rest'" "good_chunked cs ln2 fs"
        "c = nx + length (chunked_text cs ln2 fs)" "m = k + n + length (chunked_body cs)"
      using 1(1) [OF p refl refl False t] bounds 1(4) by auto
    have "rest = chunked_text cs ln2 fs @ rest'" using chunk_wire_drop(1) [OF l(4)] g(1) l(2, 3) by simp
    then show ?thesis using g l False
      by (intro exI [of _ "(ln, d) # cs"] exI [of _ ln2] exI [of _ fs] exI [of _ rest']) auto
  qed
qed

lemma scan_complete:
  "drop off inp = chunked_text cs ln fs @ rest \<Longrightarrow> good_chunked cs ln fs \<Longrightarrow> k \<le> off \<Longrightarrow> off \<le> length inp \<Longrightarrow> length inp \<le> usize_max \<Longrightarrow>
   chunked_scan_from inp off k = Complete (off + length (chunked_text cs ln fs), k + length (chunked_body cs))"
proof (induction cs arbitrary: off k)
  case Nil
  have d: "drop off inp = ln @ crlf @ fields_text fs @ rest" using Nil.prems(1) by simp
  have "chunked_parse_part inp off = Complete (off + length ln + 2, 0, off + length ln + 2)"
    using part_last [OF d] Nil.prems by simp
  moreover have "chunked_parse_trailers inp (off + length ln + 2) = Complete (off + length ln + 2 + length (fields_text fs))"
    using trailers_complete [of "off + length ln + 2" inp fs rest] find_line_parts [OF Nil.prems(4) d] Nil.prems by simp
  ultimately show ?case by (subst chunked_scan_from.simps) simp
next
  case (Cons c cs)
  obtain l d where c: "c = (l, d)" by (cases c)
  have dr: "drop off inp = l @ crlf @ d @ crlf @ chunked_text cs ln fs @ rest" using Cons.prems(1) c by simp
  let ?nx = "off + length l + 2 + length d + 2"
  have p: "chunked_parse_part inp off = Complete (off + length l + 2, length d, ?nx)"
    using part_chunk [OF dr] Cons.prems c by simp
  have le: "?nx \<le> length inp" using parse_part_bounds [OF p] by simp
  have "chunked_scan_from inp ?nx (k + length d) = Complete (?nx + length (chunked_text cs ln fs), k + length d + length (chunked_body cs))"
    using Cons.IH [of ?nx "k + length d"] chunk_wire_drop(1) [OF dr] Cons.prems c le by simp
  then show ?case using p le Cons.prems c by (subst chunked_scan_from.simps) simp
qed

lemma chunked_scan_exact:
  assumes "length inp \<le> usize_max"
  shows "chunked_scan inp = Complete (c, m) \<longleftrightarrow>
    (\<exists>cs ln fs rest. inp = chunked_text cs ln fs @ rest \<and> good_chunked cs ln fs \<and>
       c = length (chunked_text cs ln fs) \<and> m = length (chunked_body cs))"
  using scan_sound [of inp 0 0 c m] scan_complete [of 0 inp _ _ _ _ 0] assms by (fastforce simp: chunked_scan_def)

section \<open>Decoding in place\<close>

lemma memory_move_back:
  assumes "dst \<le> src" "src + n \<le> length data"
  shows "memory_move data dst src n = take dst data @ take n (drop src data) @ drop (dst + n) data"
proof (rule nth_equalityI)
  show "length (memory_move data dst src n) = length (take dst data @ take n (drop src data) @ drop (dst + n) data)"
    using assms by simp
  fix i assume "i < length (memory_move data dst src n)"
  then show "memory_move data dst src n ! i = (take dst data @ take n (drop src data) @ drop (dst + n) data) ! i"
    using assms by (auto simp: memory_move_def nth_append)
qed

lemma decode_from:
  "drop off data = chunked_text cs ln fs @ rest \<Longrightarrow> good_chunked cs ln fs \<Longrightarrow> w \<le> off \<Longrightarrow> off \<le> length data \<Longrightarrow> length data \<le> usize_max \<Longrightarrow>
   chunked_decode_from data off w = (take w data @ chunked_body cs @ drop (w + length (chunked_body cs)) data, True)"
proof (induction cs arbitrary: data off w)
  case Nil
  then have "chunked_parse_part data off = Complete (off + length ln + 2, 0, off + length ln + 2)"
    using part_last [of off data ln "fields_text fs @ rest"] by simp
  then show ?case by (subst chunked_decode_from.simps) simp
next
  case (Cons c cs)
  obtain l d where c: "c = (l, d)" by (cases c)
  let ?s = "off + length l + 2" let ?nx = "?s + length d + 2"
  have dr: "drop off data = l @ crlf @ d @ crlf @ chunked_text cs ln fs @ rest" using Cons.prems(1) c by simp
  have p: "chunked_parse_part data off = Complete (?s, length d, ?nx)" using part_chunk [OF dr] Cons.prems c by simp
  have le: "?nx \<le> length data" using parse_part_bounds [OF p] by simp
  define data1 where "data1 = memory_move data w ?s (length d)"
  have m: "data1 = take w data @ d @ drop (w + length d) data"
    using memory_move_back [of w ?s "length d" data] le Cons.prems(3) chunk_wire_drop(2) [OF dr] by (simp add: data1_def)
  have tl: "drop k data1 = drop k data" if "w + length d \<le> k" for k
    using that le Cons.prems(3) by (simp add: m)
  have "chunked_decode_from data1 ?nx (w + length d) =
      (take (w + length d) data1 @ chunked_body cs @ drop (w + length d + length (chunked_body cs)) data1, True)"
    using Cons.IH [of ?nx data1 "w + length d"] tl [of ?nx] chunk_wire_drop(1) [OF dr] Cons.prems c le by (simp add: data1_def)
  moreover have "take (w + length d) data1 = take w data @ d" using le Cons.prems(3) by (simp add: m)
  moreover have "chunked_decode_from data off w = chunked_decode_from data1 ?nx (w + length d)"
    unfolding data1_def by (subst chunked_decode_from.simps) (use p c Cons.prems(2) in simp)
  ultimately show ?case using c tl [of "w + length d + length (chunked_body cs)"] by (simp add: add.assoc)
qed

section \<open>Bodies that arrive in pieces\<close>

lemma find_line_more_snd:
  "snd (find_line self inp off) \<noteq> Incomplete \<Longrightarrow> snd (find_line self (inp @ zs) off) = snd (find_line self inp off)"
  using find_line_more [of self inp off "fst (find_line self inp off)" "snd (find_line self inp off)" zs] by simp

lemma part_more:
  assumes "chunked_parse_part inp off \<noteq> Incomplete" "off \<le> length inp"
  shows "chunked_parse_part (inp @ zs) off = chunked_parse_part inp off"
proof (cases "snd (find_line chunk_parser inp off)")
  case (Complete e)
  have b: "e + 2 \<le> length inp" "off \<le> e" using find_line_bounds' [OF Complete] by simp_all
  have m: "snd (find_line chunk_parser (inp @ zs) off) = Complete e" using find_line_more_snd [of chunk_parser inp off zs] Complete by simp
  have l: "from_offset (inp @ zs) off (e - off) = from_offset inp off (e - off)" using b by (simp add: from_offset_more)
  show ?thesis
  proof (cases "try_parse_size (from_offset inp off (e - off))")
    case None
    then show ?thesis using assms(2) Complete m l by (simp add: chunked_parse_part_def)
  next
    case (Some n)
    note eq = chunked_parse_part_def [of inp off] chunked_parse_part_def [of "inp @ zs" off]
    show ?thesis
    proof (cases "n = 0")
      case True
      then show ?thesis using assms(2) Complete m l Some by (simp add: eq)
    next
      case False
      then have "\<not> length inp - (e + 2) \<le> n" using assms Complete Some by (auto simp: eq Let_def)
      then have "(inp @ zs) ! (e + 2 + n) = inp ! (e + 2 + n)" "\<not> length (inp @ zs) - (e + 2) \<le> n"
          "length inp - (e + 2) - n < 2 \<or> (inp @ zs) ! (e + 2 + n + 1) = inp ! (e + 2 + n + 1) \<and> \<not> length (inp @ zs) - (e + 2) - n < 2"
        using b by (auto simp: nth_append)
      then show ?thesis using assms Complete m l Some False by (auto simp: eq Let_def split: if_splits)
    qed
  qed
qed (use assms find_line_more_snd [of chunk_parser inp off zs] in \<open>auto simp: chunked_parse_part_def\<close>)

lemma trailers_more:
  "chunked_parse_trailers inp off \<noteq> Incomplete \<Longrightarrow> off \<le> length inp \<Longrightarrow> chunked_parse_trailers (inp @ zs) off = chunked_parse_trailers inp off"
proof (induction inp off rule: chunked_parse_trailers.induct)
  case (1 inp off)
  have off: "\<not> length inp < off" "\<not> length (inp @ zs) < off" using 1(3) by simp_all
  show ?case
  proof (cases "snd (find_line chunk_parser inp off)")
    case Incomplete
    then show ?thesis using 1(2) off by (subst (asm) chunked_parse_trailers.simps) simp
  next
    case Error
    then show ?thesis using off find_line_more_snd [of chunk_parser inp off zs] by (subst (1 2) chunked_parse_trailers.simps) simp
  next
    case (Complete e)
    note b = find_line_bounds' [OF Complete]
    have m: "snd (find_line chunk_parser (inp @ zs) off) = Complete e" using find_line_more_snd [of chunk_parser inp off zs] Complete by simp
    show ?thesis
    proof (cases "e = off")
      case True
      then show ?thesis using off Complete m by (subst (1 2) chunked_parse_trailers.simps) simp
    next
      case False
      then have f: "parse_field chunk_parser (inp @ zs) off e = parse_field chunk_parser inp off e"
        using parse_field_more [of off e inp chunk_parser zs] b by simp
      show ?thesis
      proof (cases "snd (parse_field chunk_parser inp off e)")
        case (Complete h)
        note step = 1(1) [OF off(1) \<open>snd (find_line chunk_parser inp off) = Complete e\<close> False Complete]
        have e: "chunked_parse_trailers inp off = chunked_parse_trailers inp (e + 2)"
          "chunked_parse_trailers (inp @ zs) off = chunked_parse_trailers (inp @ zs) (e + 2)"
          using off m False f Complete \<open>snd (find_line chunk_parser inp off) = Complete e\<close>
          by (subst chunked_parse_trailers.simps, simp)+
        then show ?thesis using step 1(2) b by simp
      qed (use off m False f \<open>snd (find_line chunk_parser inp off) = Complete e\<close> in
        \<open>subst (1 2) chunked_parse_trailers.simps, simp\<close>)+
    qed
  qed
qed

lemma scan_more:
  "chunked_scan_from inp off k \<noteq> Incomplete \<Longrightarrow> off \<le> length inp \<Longrightarrow> chunked_scan_from (inp @ zs) off k = chunked_scan_from inp off k"
proof (induction inp off k rule: chunked_scan_from.induct)
  case (1 inp off k)
  show ?case
  proof (cases "chunked_parse_part inp off")
    case Incomplete
    then show ?thesis using 1(2) by (subst (asm) chunked_scan_from.simps) simp
  next
    case Error
    then show ?thesis using part_more [OF _ 1(3)] by (subst (1 2) chunked_scan_from.simps) simp
  next
    case (Complete r)
    obtain s n nx where r: "r = (s, n, nx)" by (cases r)
    have m: "chunked_parse_part (inp @ zs) off = Complete (s, n, nx)" using part_more [OF _ 1(3)] Complete r by simp
    have b: "nx \<le> length inp" using parse_part_bounds Complete r by blast
    show ?thesis
    proof (cases "n = 0")
      case True
      then have "chunked_parse_trailers inp nx \<noteq> Incomplete"
        using 1(2) Complete r by (subst (asm) chunked_scan_from.simps) auto
      then show ?thesis using trailers_more [OF _ b] Complete r m True by (subst (1 2) chunked_scan_from.simps) simp
    next
      case False
      show ?thesis
      proof (cases "usize_max < k + n")
        case True
        then show ?thesis using Complete r m False by (subst (1 2) chunked_scan_from.simps) simp
      next
        case fits: False
        have e: "chunked_scan_from inp off k = chunked_scan_from inp nx (k + n)"
          "chunked_scan_from (inp @ zs) off k = chunked_scan_from (inp @ zs) nx (k + n)"
          using Complete r m False fits by (subst chunked_scan_from.simps, simp)+
        then show ?thesis using 1(1) [OF Complete r [symmetric] refl False fits] 1(2) b by simp
      qed
    qed
  qed
qed

lemma trailers_bound: "chunked_parse_trailers inp off = Complete nx \<Longrightarrow> nx \<le> length inp"
proof (induction inp off rule: chunked_parse_trailers.induct)
  case (1 inp off)
  then show ?case by (subst (asm) (2) chunked_parse_trailers.simps) (auto split: if_splits parse.splits dest: find_line_bounds')
qed

lemma scan_bound: "chunked_scan_from inp off k = Complete (c, m) \<Longrightarrow> c \<le> length inp"
proof (induction inp off k rule: chunked_scan_from.induct)
  case (1 inp off k)
  then show ?case by (subst (asm) (2) chunked_scan_from.simps) (auto split: if_splits parse.splits dest: trailers_bound)
qed

interpretation chunked_wire: incremental chunked_scan id "\<lambda>r. case r of Complete (c, m) \<Rightarrow> c | _ \<Rightarrow> 0"
proof unfold_locales
  show "chunked_scan (inp @ zs) = chunked_scan inp" if "id (chunked_scan inp) \<noteq> Incomplete" for inp zs
    using scan_more [of inp 0 0 zs] that by (simp add: chunked_scan_def)
  show "(case chunked_scan inp of Complete (c, m) \<Rightarrow> c | _ \<Rightarrow> 0) \<le> length inp" if "id (chunked_scan inp) = Complete v" for inp v
    using scan_bound [of inp 0 0] that by (cases v) (simp add: chunked_scan_def)
qed

text \<open>
  C23: a scan of a chunked body completes exactly when the buffer begins with a body of the grammar (hexadecimal
  sizes with well-formed extensions, data, the empty chunk, trailer fields), and gives its length and that of its
  data; on every shorter part of it the scan asks for more. Decoding in place puts the data at the front of the
  buffer, changes no byte behind it and none at all when the scan does not complete.
\<close>

theorem chunked_decode_exact:
  assumes "length data \<le> usize_max"
  shows "(chunked_scan data = Complete (c, m) \<longleftrightarrow>
      (\<exists>cs ln fs rest. data = chunked_text cs ln fs @ rest \<and> good_chunked cs ln fs \<and>
         c = length (chunked_text cs ln fs) \<and> m = length (chunked_body cs))) \<and>
    (chunked_scan data = Complete (c, m) \<longrightarrow> (\<forall>k < c. chunked_scan (take k data) = Incomplete)) \<and>
    (data = chunked_text cs ln fs @ rest \<and> good_chunked cs ln fs \<longrightarrow>
       chunked_decode data = (chunked_body cs @ drop (length (chunked_body cs)) data,
         Complete (length (chunked_text cs ln fs), length (chunked_body cs)))) \<and>
    ((\<forall>c m. chunked_scan data \<noteq> Complete (c, m)) \<longrightarrow> chunked_decode data = (data, chunked_scan data))"
proof (intro conjI impI allI)
  show "chunked_scan data = Complete (c, m) \<longleftrightarrow>
      (\<exists>cs ln fs rest. data = chunked_text cs ln fs @ rest \<and> good_chunked cs ln fs \<and>
         c = length (chunked_text cs ln fs) \<and> m = length (chunked_body cs))"
    by (rule chunked_scan_exact [OF assms])
  show "chunked_scan (take k data) = Incomplete" if "chunked_scan data = Complete (c, m)" "k < c" for k
    using chunked_wire.not_before [of data "(c, m)" k] that by simp
  assume a: "data = chunked_text cs ln fs @ rest \<and> good_chunked cs ln fs"
  then have "chunked_scan data = Complete (length (chunked_text cs ln fs), length (chunked_body cs))"
    using chunked_scan_exact [OF assms] by blast
  then show "chunked_decode data = (chunked_body cs @ drop (length (chunked_body cs)) data,
      Complete (length (chunked_text cs ln fs), length (chunked_body cs)))"
    using decode_from [of 0 data cs ln fs rest 0] a assms by (simp add: chunked_decode_def)
next
  assume "\<forall>c m. chunked_scan data \<noteq> Complete (c, m)"
  then show "chunked_decode data = (data, chunked_scan data)" by (cases "chunked_scan data") (auto simp: chunked_decode_def)
qed

text \<open>A body of one chunk with an extension and a trailer.\<close>

definition sample_chunked :: string where
  "sample_chunked = ''2;a=b'' @ crlf @ ''hi'' @ crlf @ ''0'' @ crlf @ ''A:c'' @ crlf @ crlf"

theorem chunked_decode_exact_witness:
  "chunked_scan (take 20 sample_chunked) = Incomplete \<and>
   chunked_decode sample_chunked = (''hi'' @ drop 2 sample_chunked, Complete (21, 2))"
proof -
  let ?cs = "[(''2;a=b'', ''hi'')]" and ?fs = "[([], \<lparr>name = ''A'', val = ''c''\<rparr>, [])]"
  have l: "length sample_chunked \<le> usize_max" by (simp add: sample_chunked_def usize_max_def)
  have "size_line ''2;a=b'' 2" "size_line ''0'' 0" unfolding try_parse_size_iff [symmetric] by code_simp+
  moreover have "good_field ([], \<lparr>name = ''A'', val = ''c''\<rparr>, [])" by code_simp
  ultimately have g: "good_chunked ?cs ''0'' ?fs" by (simp add: numeral_2_eq_2)
  moreover have t: "sample_chunked = chunked_text ?cs ''0'' ?fs @ []" "length (chunked_text ?cs ''0'' ?fs) = 21"
    by (simp_all add: sample_chunked_def field_line_def)
  moreover from g t have "\<exists>cs ln fs rest. sample_chunked = chunked_text cs ln fs @ rest \<and> good_chunked cs ln fs \<and>
      21 = length (chunked_text cs ln fs) \<and> 2 = length (chunked_body cs)"
    by (intro exI [of _ ?cs] exI [of _ "''0''"] exI [of _ ?fs] exI [of _ "[]"]) simp
  ultimately show ?thesis using chunked_decode_exact [OF l, of 21 2 ?cs "''0''" ?fs "[]"] by (simp add: numeral_2_eq_2)
qed

end
