(* ===== verification/Http_Decoder.thy ===== *)
theory Http_Decoder
  imports Chunk_Grammar
begin

text \<open>
  The incremental decoder of chunked transfer (\<^verbatim>\<open>src/lh/core/http/chunked/decoder.c\<close>), fed with whatever has
  arrived and with room for whatever the caller can take. The scratch line is the list of the bytes
  stored in it, the output the list of the bytes written. Shown: feeding in pieces gives what feeding at
  once gives, the decoder accepts exactly the bodies of the grammar within its limits, and no limit is
  ever passed.
\<close>

section \<open>State\<close>

datatype decoder_phase =
    Phase_size | Phase_size_lf | Phase_data | Phase_data_cr | Phase_data_lf
  | Phase_trailer | Phase_trailer_lf | Phase_done | Phase_error

record chunked_decoder =
  dec_line :: string
  line_capacity :: nat
  dec_remaining :: nat
  decoded :: nat
  decoded_limit :: nat
  metadata :: nat
  metadata_limit :: nat
  dec_phase :: decoder_phase

definition decoder_init :: "nat \<Rightarrow> nat \<Rightarrow> nat \<Rightarrow> chunked_decoder" where
  "decoder_init capacity limit metadata_max =
     \<lparr>dec_line = [], line_capacity = capacity, dec_remaining = 0, decoded = 0, decoded_limit = limit,
      metadata = 0, metadata_limit = metadata_max, dec_phase = Phase_size\<rparr>"

section \<open>Operations\<close>

definition decoder_try_finish_line :: "chunked_decoder \<Rightarrow> chunked_decoder \<times> bool" where
  "decoder_try_finish_line self =
     (let ln = dec_line self
      in if dec_phase self = Phase_size_lf then
           (case try_parse_size ln of
              None \<Rightarrow> (self, False)
            | Some n \<Rightarrow>
                if decoded_limit self - decoded self < n then (self, False)
                else (self\<lparr>dec_remaining := n, dec_phase := (if n = 0 then Phase_trailer else Phase_data), dec_line := []\<rparr>, True))
         else if dec_phase self = Phase_trailer_lf then
           if ln = [] then (self\<lparr>dec_phase := Phase_done, dec_line := []\<rparr>, True)
           else (case snd (parse_field parser_init ln 0 (length ln)) of
                   Complete field \<Rightarrow> (self\<lparr>dec_phase := Phase_trailer, dec_line := []\<rparr>, True)
                 | _ \<Rightarrow> (self, False))
         else (self, False))"

definition decoder_finish_line :: "chunked_decoder \<Rightarrow> error_code + chunked_decoder" where
  "decoder_finish_line self =
     (case decoder_try_finish_line self of (self', True) \<Rightarrow> Inr self' | (self', False) \<Rightarrow> Inl Invalid_range)"

text \<open>One character outside the data, already counted.\<close>

definition feed_char :: "char \<Rightarrow> chunked_decoder \<Rightarrow> chunked_decoder" where
  "feed_char ch self =
     (let phase = dec_phase self
      in if phase = Phase_size \<or> phase = Phase_trailer then
           if ch = cr then self\<lparr>dec_phase := (if phase = Phase_size then Phase_size_lf else Phase_trailer_lf)\<rparr>
           else if ch = lf \<or> line_capacity self \<le> length (dec_line self) then self\<lparr>dec_phase := Phase_error\<rparr>
           else self\<lparr>dec_line := dec_line self @ [ch]\<rparr>
         else if phase = Phase_size_lf \<or> phase = Phase_trailer_lf then
           if ch \<noteq> lf then self\<lparr>dec_phase := Phase_error\<rparr>
           else (case decoder_try_finish_line self of
                   (self', True) \<Rightarrow> self'
                 | (self', False) \<Rightarrow> self'\<lparr>dec_phase := Phase_error\<rparr>)
         else if phase = Phase_data_cr then self\<lparr>dec_phase := (if ch = cr then Phase_data_lf else Phase_error)\<rparr>
         else if phase = Phase_data_lf then self\<lparr>dec_phase := (if ch = lf then Phase_size else Phase_error)\<rparr>
         else self\<lparr>dec_phase := Phase_error\<rparr>)"

definition feed_data :: "nat \<Rightarrow> chunked_decoder \<Rightarrow> chunked_decoder" where
  "feed_data amount self =
     (let self1 = self\<lparr>decoded := decoded self + amount, dec_remaining := dec_remaining self - amount\<rparr>
      in if dec_remaining self1 = 0 then self1\<lparr>dec_phase := Phase_data_cr\<rparr> else self1)"

function feed_loop :: "string \<Rightarrow> nat \<Rightarrow> chunked_decoder \<Rightarrow> nat \<Rightarrow> string \<Rightarrow> chunked_decoder \<times> nat \<times> string" where
  "feed_loop input capacity self i out =
     (if i < length input then
        if dec_phase self = Phase_done \<or> dec_phase self = Phase_error then (self, i, out)
        else if dec_phase self = Phase_data then
          let amount = min (dec_remaining self) (min (length input - i) (capacity - length out))
          in if amount = 0 then (self, i, out)
             else feed_loop input capacity (feed_data amount self) (i + amount) (out @ from_offset input i amount)
        else if metadata_limit self \<le> metadata self then (self\<lparr>dec_phase := Phase_error\<rparr>, i, out)
        else feed_loop input capacity (feed_char (input ! i) (self\<lparr>metadata := metadata self + 1\<rparr>)) (i + 1) out
      else (self, i, out))"
  by pat_completeness auto

termination feed_loop
  by (relation "measure (\<lambda>(input, capacity, self, i, out). length input - i)") auto

declare feed_loop.simps [simp del]

definition decoder_status :: "chunked_decoder \<Rightarrow> unit parse" where
  "decoder_status self =
     (if dec_phase self = Phase_done then Complete () else if dec_phase self = Phase_error then Error else Incomplete)"

definition decoder_feed :: "chunked_decoder \<Rightarrow> string \<Rightarrow> nat \<Rightarrow> chunked_decoder \<times> nat \<times> string \<times> unit parse" where
  "decoder_feed self input capacity =
     (case feed_loop input capacity self 0 [] of (self', i, out) \<Rightarrow> (self', i, out, decoder_status self'))"

section \<open>One byte at a time\<close>

definition stopped :: "chunked_decoder \<Rightarrow> bool" where
  "stopped d \<longleftrightarrow> dec_phase d = Phase_done \<or> dec_phase d = Phase_error"

text \<open>What the decoder does on a text when there is always room: the state, the bytes taken, the data.\<close>

fun decoder_run :: "chunked_decoder \<Rightarrow> string \<Rightarrow> chunked_decoder \<times> nat \<times> string" where
  "decoder_run d [] = (d, 0, [])"
| "decoder_run d (c # w) =
     (if stopped d then (d, 0, [])
      else if dec_phase d = Phase_data then
        (case decoder_run (feed_data 1 d) w of (d', n, out) \<Rightarrow> (d', n + 1, c # out))
      else if metadata_limit d \<le> metadata d then (d\<lparr>dec_phase := Phase_error\<rparr>, 0, [])
      else (case decoder_run (feed_char c (d\<lparr>metadata := metadata d + 1\<rparr>)) w of (d', n, out) \<Rightarrow> (d', n + 1, out)))"

text \<open>The state invariant: no limit is passed, and there is data to come in the data phase.\<close>

definition decoder_ok :: "chunked_decoder \<Rightarrow> bool" where
  "decoder_ok d \<longleftrightarrow> length (dec_line d) \<le> line_capacity d \<and> decoded d + dec_remaining d \<le> decoded_limit d \<and>
     metadata d \<le> metadata_limit d \<and> (dec_phase d = Phase_data \<longrightarrow> 0 < dec_remaining d) \<and>
     (dec_phase d \<noteq> Phase_data \<longrightarrow> dec_phase d \<noteq> Phase_error \<longrightarrow> dec_remaining d = 0) \<and>
     (dec_phase d \<in> {Phase_data, Phase_data_cr, Phase_data_lf, Phase_done} \<longrightarrow> dec_line d = [])"

lemma decoder_init_ok: "decoder_ok (decoder_init c l m)"
  by (simp add: decoder_ok_def decoder_init_def)

lemma feed_data_ok: "decoder_ok d \<Longrightarrow> dec_phase d = Phase_data \<Longrightarrow> 0 < k \<Longrightarrow> k \<le> dec_remaining d \<Longrightarrow> decoder_ok (feed_data k d)"
  by (auto simp: decoder_ok_def feed_data_def Let_def)

lemma finish_line_ok:
  "decoder_ok d \<Longrightarrow> decoder_try_finish_line d = (d', ok) \<Longrightarrow> decoder_ok d' \<and> (\<not> ok \<longrightarrow> d' = d)"
  by (auto simp: decoder_ok_def decoder_try_finish_line_def Let_def split: if_splits option.splits parse.splits)

lemma feed_char_ok:
  assumes "decoder_ok d" "metadata d < metadata_limit d"
  shows "decoder_ok (feed_char c (d\<lparr>metadata := metadata d + 1\<rparr>))"
proof -
  let ?d = "d\<lparr>metadata := metadata d + 1\<rparr>"
  have d: "decoder_ok ?d" using assms by (simp add: decoder_ok_def)
  obtain d' ok where f: "decoder_try_finish_line ?d = (d', ok)" by fastforce
  then have "decoder_ok d'" using finish_line_ok [OF d] by simp
  then have e: "decoder_ok (d'\<lparr>dec_phase := Phase_error\<rparr>)" by (simp add: decoder_ok_def)
  show ?thesis
  proof (cases "dec_phase d \<in> {Phase_size_lf, Phase_trailer_lf}")
    case True
    then show ?thesis using f e d \<open>decoder_ok d'\<close> by (cases ok) (auto simp: feed_char_def Let_def decoder_ok_def)
  next
    case False
    then show ?thesis using d by (cases "dec_phase d") (auto simp: feed_char_def decoder_ok_def Let_def)
  qed
qed

lemma run_stopped: "stopped d \<Longrightarrow> decoder_run d w = (d, 0, [])"
  by (cases w) simp_all

lemma run_append:
  "decoder_run d (u @ v) =
     (case decoder_run d u of (d1, n1, o1) \<Rightarrow> case decoder_run d1 v of (d2, n2, o2) \<Rightarrow> (d2, n1 + n2, o1 @ o2))"
  by (induction d u rule: decoder_run.induct) (auto simp: run_stopped stopped_def split: prod.split)

lemma run_data:
  "dec_phase d = Phase_data \<Longrightarrow> 0 < length x \<Longrightarrow> length x \<le> dec_remaining d \<Longrightarrow> decoder_run d x = (feed_data (length x) d, length x, x)"
proof (induction x arbitrary: d)
  case (Cons c x)
  have ns: "\<not> stopped d" using Cons.prems(1) by (simp add: stopped_def)
  show ?case
  proof (cases "x = []")
    case True
    then show ?thesis using Cons.prems ns by simp
  next
    case False
    then have l: "1 < dec_remaining d" using Cons.prems(3) by (cases x) simp_all
    then have p: "dec_phase (feed_data 1 d) = Phase_data" "dec_remaining (feed_data 1 d) = dec_remaining d - 1"
      using Cons.prems l by (simp_all add: feed_data_def Let_def)
    moreover have "feed_data (length x) (feed_data 1 d) = feed_data (Suc (length x)) d"
      using Cons.prems l by (simp add: feed_data_def Let_def)
    ultimately show ?thesis using Cons.IH [of "feed_data 1 d"] Cons.prems ns False by simp
  qed
qed simp

section \<open>Feeding in pieces\<close>

lemma from_offset_split: "drop i input = from_offset input i k @ drop (i + k) input"
  by (simp add: from_offset_def add.commute [of i] drop_drop [symmetric] del: drop_drop)

lemma feed_loop_run:
  "feed_loop input capacity d i out = (d1, j, out1) \<Longrightarrow> decoder_ok d \<Longrightarrow> i \<le> length input \<Longrightarrow> length out \<le> capacity \<Longrightarrow>
   decoder_run d (drop i input @ v) = (d2, n2, o2) \<Longrightarrow>
   decoder_ok d1 \<and> i \<le> j \<and> j \<le> length input \<and> length out1 \<le> capacity \<and>
   (\<exists>n o'. decoder_run d1 (drop j input @ v) = (d2, n, o') \<and> n2 = (j - i) + n \<and> out @ o2 = out1 @ o') \<and>
   (j < length input \<longrightarrow> stopped d1 \<or> dec_phase d1 = Phase_data \<and> length out1 = capacity)"
proof (induction input capacity d i out arbitrary: n2 o2 rule: feed_loop.induct)
  case (1 input capacity d i out)
  show ?case
  proof (cases "i < length input")
    case False
    then show ?thesis using 1 by (subst (asm) (3) feed_loop.simps) auto
  next
    case True
    then have dr: "drop i input = input ! i # drop (Suc i) input" by (simp add: Cons_nth_drop_Suc)
    consider (stop) "stopped d" | (data) "dec_phase d = Phase_data" | (limit) "\<not> stopped d" "dec_phase d \<noteq> Phase_data" "metadata_limit d \<le> metadata d"
      | (char) "\<not> stopped d" "dec_phase d \<noteq> Phase_data" "\<not> metadata_limit d \<le> metadata d" by blast
    then show ?thesis
    proof cases
      case stop
      then have "feed_loop input capacity d i out = (d, i, out)" by (subst feed_loop.simps) (auto simp: stopped_def)
      then show ?thesis using 1(3-) stop by auto
    next
      case data
      define k where "k = min (dec_remaining d) (min (length input - i) (capacity - length out))"
      have ns: "\<not> (dec_phase d = Phase_done \<or> dec_phase d = Phase_error)" using data by simp
      show ?thesis
      proof (cases "k = 0")
        case k: True
        then have "feed_loop input capacity d i out = (d, i, out)"
          using data by (subst feed_loop.simps) (simp add: Let_def k_def [symmetric])
        moreover have "length out = capacity" using k 1(4, 6) True data by (auto simp: decoder_ok_def k_def)
        ultimately show ?thesis using 1(3-) data by auto
      next
        case k: False
        define x where "x = from_offset input i k"
        have x: "length x = k" by (simp add: x_def k_def)
        have kr: "k \<le> dec_remaining d" "i + k \<le> length input" "length (out @ x) \<le> capacity"
          using 1(6) True x by (auto simp: k_def)
        have eq: "drop i input @ v = x @ (drop (i + k) input @ v)" unfolding x_def by (subst from_offset_split) simp
        have f: "feed_loop input capacity (feed_data k d) (i + k) (out @ x) = (d1, j, out1)"
          using 1(3) True data k by (subst (asm) feed_loop.simps) (simp add: Let_def k_def [symmetric] x_def)
        have rd: "decoder_run d x = (feed_data k d, k, x)" using run_data [OF data, of x] k x kr(1) by simp
        obtain d3 n o' where r': "decoder_run (feed_data k d) (drop (i + k) input @ v) = (d3, n, o')" by (rule prod_cases3)
        have "decoder_run d (drop i input @ v) = (d3, k + n, x @ o')"
          using run_append [of d x "drop (i + k) input @ v"] rd r' by (simp add: eq)
        then have r: "d3 = d2" "n2 = k + n" "o2 = x @ o'" using 1(7) by simp_all
        have "decoder_ok (feed_data k d)" using feed_data_ok [OF 1(4) data, of k] k kr(1) by simp
        then show ?thesis
          using 1(1) [OF True ns data k_def k, folded x_def, OF f _ kr(2, 3) r' [unfolded r(1)]] r(2, 3) by auto
      qed
    next
      case limit
      then have "feed_loop input capacity d i out = (d\<lparr>dec_phase := Phase_error\<rparr>, i, out)"
        using True by (subst feed_loop.simps) (auto simp: stopped_def)
      moreover have "decoder_run d (drop i input @ v) = (d\<lparr>dec_phase := Phase_error\<rparr>, 0, [])" using limit dr by simp
      moreover have "stopped (d\<lparr>dec_phase := Phase_error\<rparr>)" by (simp add: stopped_def)
      ultimately show ?thesis using 1(3-) run_stopped by (auto simp: decoder_ok_def)
    next
      case char
      let ?d = "feed_char (input ! i) (d\<lparr>metadata := metadata d + 1\<rparr>)"
      have ns: "\<not> (dec_phase d = Phase_done \<or> dec_phase d = Phase_error)" using char(1) by (simp add: stopped_def)
      have f: "feed_loop input capacity ?d (i + 1) out = (d1, j, out1)"
        using 1(3) True char ns by (subst (asm) feed_loop.simps) simp
      obtain n where r: "decoder_run ?d (drop (i + 1) input @ v) = (d2, n, o2)" "n2 = n + 1"
        using 1(7) dr char by (auto split: prod.splits)
      show ?thesis using 1(2) [OF True ns char(2, 3) f _ _ _ r(1)] feed_char_ok [OF 1(4)] char(3) True 1(6) r(2) by fastforce
    qed
  qed
qed


section \<open>What the decoder accepts\<close>

text \<open>The decoder, having taken \<open>n\<close> bytes of the text and handed out \<open>b\<close>, is done.\<close>

definition accepts :: "chunked_decoder \<Rightarrow> string \<Rightarrow> nat \<Rightarrow> string \<Rightarrow> bool" where
  "accepts d w n b \<longleftrightarrow> (\<exists>d'. decoder_run d w = (d', n, b) \<and> dec_phase d' = Phase_done)"

lemma accepts_error: "dec_phase d = Phase_error \<Longrightarrow> \<not> accepts d w n b"
  using run_stopped [of d w] by (auto simp: accepts_def stopped_def)

lemma accepts_done: "dec_phase d = Phase_done \<Longrightarrow> accepts d w n b \<longleftrightarrow> n = 0 \<and> b = []"
  using run_stopped [of d w] by (auto simp: accepts_def stopped_def)

lemma accepts_Nil: "dec_phase d \<noteq> Phase_done \<Longrightarrow> \<not> accepts d [] n b"
  by (simp add: accepts_def)

lemma accepts_char:
  assumes "\<not> stopped d" "dec_phase d \<noteq> Phase_data"
  shows "accepts d (c # w) n b \<longleftrightarrow>
    metadata d < metadata_limit d \<and> (\<exists>m. n = m + 1 \<and> accepts (feed_char c (d\<lparr>metadata := metadata d + 1\<rparr>)) w m b)"
proof (cases "metadata_limit d \<le> metadata d")
  case True
  then show ?thesis using assms by (simp add: accepts_def)
next
  case False
  obtain d' m b' where r: "decoder_run (feed_char c (d\<lparr>metadata := metadata d + 1\<rparr>)) w = (d', m, b')"
    using prod_cases3 by blast
  then show ?thesis using assms False by (auto simp: accepts_def)
qed

lemma accepts_line:
  "dec_phase d = p \<Longrightarrow> (p, q) \<in> {(Phase_size, Phase_size_lf), (Phase_trailer, Phase_trailer_lf)} \<Longrightarrow> length (dec_line d) \<le> line_capacity d \<Longrightarrow>
   accepts d w n b \<longleftrightarrow> (\<exists>ln r m. w = ln @ cr # r \<and> list_all plain ln \<and> length (dec_line d) + length ln \<le> line_capacity d \<and>
     metadata d + length ln < metadata_limit d \<and> n = length ln + 1 + m \<and>
     accepts (d\<lparr>dec_line := dec_line d @ ln, metadata := metadata d + length ln + 1, dec_phase := q\<rparr>) r m b)"
  (is "_ \<Longrightarrow> _ \<Longrightarrow> _ \<Longrightarrow> _ = ?R d w n")
proof (induction w arbitrary: d n)
  case Nil
  then show ?case using accepts_Nil [of d] by auto
next
  case (Cons c w)
  let ?d = "d\<lparr>metadata := metadata d + 1\<rparr>"
  have pq: "dec_phase d = Phase_size \<and> q = Phase_size_lf \<or> dec_phase d = Phase_trailer \<and> q = Phase_trailer_lf"
    using Cons.prems(1, 2) by auto
  then have ns: "\<not> stopped d" "dec_phase d \<noteq> Phase_data" by (auto simp: stopped_def)
  show ?case
  proof (cases "metadata d < metadata_limit d")
    case False
    then show ?thesis using accepts_char [OF ns] by auto
  next
    case lim: True
    show ?thesis
    proof (cases "c = cr")
      case True
      then have "feed_char c ?d = d\<lparr>dec_line := dec_line d @ [], metadata := metadata d + length ([] :: string) + 1, dec_phase := q\<rparr>"
        using pq by (elim disjE conjE) (simp_all add: feed_char_def Let_def)
      then have e: "accepts d (c # w) n b \<longleftrightarrow>
          (\<exists>m. n = m + 1 \<and> accepts (d\<lparr>dec_line := dec_line d @ [], metadata := metadata d + length ([] :: string) + 1, dec_phase := q\<rparr>) w m b)"
        using accepts_char [OF ns, of c w n b] lim by (simp only: simp_thms)
      show ?thesis
      proof
        assume "accepts d (c # w) n b"
        then obtain m where "n = m + 1"
            "accepts (d\<lparr>dec_line := dec_line d @ [], metadata := metadata d + length ([] :: string) + 1, dec_phase := q\<rparr>) w m b"
          using e by blast
        then show "?R d (c # w) n" using True lim Cons.prems(3) by (intro exI [of _ "[]"] exI [of _ w] exI [of _ m]) simp
      next
        assume "?R d (c # w) n"
        then obtain ln r m where g: "c # w = ln @ cr # r" "list_all plain ln" "n = length ln + 1 + m"
            "accepts (d\<lparr>dec_line := dec_line d @ ln, metadata := metadata d + length ln + 1, dec_phase := q\<rparr>) r m b" by blast
        then have "ln = []" "r = w" using True by (cases ln; simp)+
        then show "accepts d (c # w) n b" unfolding e using g(3, 4) by (intro exI [of _ m]) simp
      qed
    next
      case c: False
      show ?thesis
      proof (cases "c = lf \<or> line_capacity d \<le> length (dec_line d)")
        case True
        then have "dec_phase (feed_char c ?d) = Phase_error" using pq c by (elim disjE conjE) (simp_all add: feed_char_def Let_def)
        moreover have "\<not> ?R d (c # w) n" using True c by (auto simp: Cons_eq_append_conv)
        ultimately show ?thesis using accepts_char [OF ns, of c w n b] accepts_error by blast
      next
        case False
        let ?e = "d\<lparr>dec_line := dec_line d @ [c], metadata := metadata d + 1\<rparr>"
        have "feed_char c ?d = ?e" using pq c False by (elim disjE conjE) (simp_all add: feed_char_def Let_def)
        then have "accepts d (c # w) n b \<longleftrightarrow> (\<exists>m. n = m + 1 \<and> accepts ?e w m b)" using accepts_char [OF ns, of c w n b] lim by simp
        also have "\<dots> \<longleftrightarrow> (\<exists>m. n = m + 1 \<and> ?R ?e w m)" using Cons.IH [of ?e] Cons.prems False by auto
        also have "\<dots> \<longleftrightarrow> ?R d (c # w) n"
        proof
          assume "\<exists>m. n = m + 1 \<and> ?R ?e w m"
          then obtain ln r m where "w = ln @ cr # r" "list_all plain ln" "length (dec_line ?e) + length ln \<le> line_capacity ?e"
              "metadata ?e + length ln < metadata_limit ?e" "n = length ln + 1 + m + 1"
              "accepts (?e\<lparr>dec_line := dec_line ?e @ ln, metadata := metadata ?e + length ln + 1, dec_phase := q\<rparr>) r m b" by blast
          then show "?R d (c # w) n" using c False by (intro exI [of _ "c # ln"] exI [of _ r] exI [of _ m]) auto
        next
          assume "?R d (c # w) n"
          then obtain ln r m where g: "c # w = ln @ cr # r" "list_all plain ln" "length (dec_line d) + length ln \<le> line_capacity d"
              "metadata d + length ln < metadata_limit d" "n = length ln + 1 + m"
              "accepts (d\<lparr>dec_line := dec_line d @ ln, metadata := metadata d + length ln + 1, dec_phase := q\<rparr>) r m b" by blast
          from g(1) c obtain l where l: "ln = c # l" "w = l @ cr # r" by (auto simp: Cons_eq_append_conv)
          then have "?R ?e w (length l + 1 + m)" using g by (intro exI [of _ l] exI [of _ r] exI [of _ m]) auto
          then show "\<exists>m. n = m + 1 \<and> ?R ?e w m" using g(5) l(1) by auto
        qed
        finally show ?thesis .
      qed
    qed
  qed
qed


lemma accepts_size_lf:
  assumes "dec_phase d = Phase_size_lf"
  shows "accepts d w n b \<longleftrightarrow> (\<exists>r m k. w = lf # r \<and> metadata d < metadata_limit d \<and> size_line (dec_line d) k \<and>
    k \<le> decoded_limit d - decoded d \<and> n = m + 1 \<and>
    accepts (d\<lparr>metadata := metadata d + 1, dec_remaining := k, dec_phase := (if k = 0 then Phase_trailer else Phase_data), dec_line := []\<rparr>) r m b)"
proof (cases w)
  case Nil
  then show ?thesis using accepts_Nil [of d] assms by simp
next
  case (Cons c r)
  have ns: "\<not> stopped d" "dec_phase d \<noteq> Phase_data" using assms by (auto simp: stopped_def)
  let ?d = "d\<lparr>metadata := metadata d + 1\<rparr>"
  show ?thesis
  proof (cases "c = lf")
    case False
    then have "dec_phase (feed_char c ?d) = Phase_error" using assms by (simp add: feed_char_def)
    then show ?thesis using accepts_char [OF ns] accepts_error Cons False by simp
  next
    case True
    show ?thesis
    proof (cases "\<exists>k. size_line (dec_line d) k \<and> k \<le> decoded_limit d - decoded d")
      case fits: True
      then obtain k where k: "try_parse_size (dec_line d) = Some k" "k \<le> decoded_limit d - decoded d" by (auto simp: try_parse_size_iff)
      then have "feed_char c ?d = d\<lparr>metadata := metadata d + 1, dec_remaining := k, dec_phase := (if k = 0 then Phase_trailer else Phase_data), dec_line := []\<rparr>"
        using assms True by (simp add: feed_char_def decoder_try_finish_line_def Let_def)
      moreover have "size_line (dec_line d) k' \<longleftrightarrow> k' = k" for k' using k(1) by (auto simp: try_parse_size_iff [symmetric])
      ultimately show ?thesis using accepts_char [OF ns, of c r n b] Cons True k(2) by (simp only:) auto
    next
      case False
      then have "dec_phase (feed_char c ?d) = Phase_error"
        using assms True by (auto simp: feed_char_def decoder_try_finish_line_def Let_def try_parse_size_iff [symmetric] split: option.split)
      then show ?thesis using accepts_char [OF ns] accepts_error Cons False by auto
    qed
  qed
qed

lemma accepts_size:
  assumes "dec_phase d = Phase_size" "dec_line d = []"
  shows "accepts d w n b \<longleftrightarrow> (\<exists>ln r m k. w = ln @ crlf @ r \<and> size_line ln k \<and> length ln \<le> line_capacity d \<and>
    metadata d + length ln + 2 \<le> metadata_limit d \<and> k \<le> decoded_limit d - decoded d \<and> n = length ln + 2 + m \<and>
    accepts (d\<lparr>metadata := metadata d + length ln + 2, dec_remaining := k, dec_phase := (if k = 0 then Phase_trailer else Phase_data)\<rparr>) r m b)"
    (is "_ \<longleftrightarrow> ?R")
proof -
  let ?e = "\<lambda>ln. d\<lparr>dec_line := dec_line d @ ln, metadata := metadata d + length ln + 1, dec_phase := Phase_size_lf\<rparr>"
  have st: "(?e ln)\<lparr>metadata := metadata (?e ln) + 1, dec_remaining := k, dec_phase := p, dec_line := []\<rparr> =
      d\<lparr>metadata := metadata d + length ln + 2, dec_remaining := k, dec_phase := p\<rparr>" for ln k p
    using assms(2) by (cases d) simp
  have l: "accepts d w n b \<longleftrightarrow> (\<exists>ln r m. w = ln @ cr # r \<and> list_all plain ln \<and> length (dec_line d) + length ln \<le> line_capacity d \<and>
     metadata d + length ln < metadata_limit d \<and> n = length ln + 1 + m \<and> accepts (?e ln) r m b)"
    using accepts_line [OF assms(1), of Phase_size_lf w n b] assms(2) by simp
  have f: "accepts (?e ln) r m b \<longleftrightarrow> (\<exists>r' m' k. r = lf # r' \<and> metadata d + length ln + 1 < metadata_limit d \<and> size_line ln k \<and>
      k \<le> decoded_limit d - decoded d \<and> m = m' + 1 \<and>
      accepts (d\<lparr>metadata := metadata d + length ln + 2, dec_remaining := k, dec_phase := (if k = 0 then Phase_trailer else Phase_data)\<rparr>) r' m' b)"
    for ln r m
    using accepts_size_lf [of "?e ln" r m b, unfolded st] assms(2) by simp
  show ?thesis
  proof
    assume "accepts d w n b"
    then obtain ln r m where a: "w = ln @ cr # r" "length ln \<le> line_capacity d" "n = length ln + 1 + m" "accepts (?e ln) r m b"
      unfolding l using assms(2) by auto
    then obtain r' m' k where "r = lf # r'" "metadata d + length ln + 1 < metadata_limit d" "size_line ln k"
      "k \<le> decoded_limit d - decoded d" "m = m' + 1"
      "accepts (d\<lparr>metadata := metadata d + length ln + 2, dec_remaining := k, dec_phase := (if k = 0 then Phase_trailer else Phase_data)\<rparr>) r' m' b"
      unfolding f by blast
    then show ?R using a by (intro exI [of _ ln] exI [of _ r'] exI [of _ m'] exI [of _ k]) simp
  next
    assume ?R
    then obtain ln r m k where g: "w = ln @ crlf @ r" "size_line ln k" "length ln \<le> line_capacity d"
        "metadata d + length ln + 2 \<le> metadata_limit d" "k \<le> decoded_limit d - decoded d" "n = length ln + 2 + m"
        "accepts (d\<lparr>metadata := metadata d + length ln + 2, dec_remaining := k, dec_phase := (if k = 0 then Phase_trailer else Phase_data)\<rparr>) r m b"
      by blast
    have "accepts (?e ln) (lf # r) (m + 1) b" unfolding f using g by (intro exI [of _ r] exI [of _ m] exI [of _ k]) simp
    then show "accepts d w n b" unfolding l using g size_line_plain [OF g(2)] assms(2)
      by (intro exI [of _ ln] exI [of _ "lf # r"] exI [of _ "m + 1"]) simp
  qed
qed


lemma accepts_trailer_lf:
  assumes "dec_phase d = Phase_trailer_lf"
  shows "accepts d w n b \<longleftrightarrow> (\<exists>r m. w = lf # r \<and> metadata d < metadata_limit d \<and> n = m + 1 \<and>
    (dec_line d = [] \<and> m = 0 \<and> b = [] \<or>
     (\<exists>f. good_field f \<and> dec_line d = field_line f) \<and>
       accepts (d\<lparr>metadata := metadata d + 1, dec_phase := Phase_trailer, dec_line := []\<rparr>) r m b))"
proof (cases w)
  case Nil
  then show ?thesis using accepts_Nil [of d] assms by simp
next
  case (Cons c r)
  have ns: "\<not> stopped d" "dec_phase d \<noteq> Phase_data" using assms by (auto simp: stopped_def)
  let ?d = "d\<lparr>metadata := metadata d + 1\<rparr>" and ?ln = "dec_line d"
  have field: "snd (parse_field parser_init ?ln 0 (length ?ln)) = Complete h \<longleftrightarrow> (\<exists>l r. good_field (l, h, r) \<and> ?ln = field_line (l, h, r))" for h
    using parse_field_iff [of 0 "length ?ln" ?ln parser_init _ h]
    by (cases "parse_field parser_init ?ln 0 (length ?ln)") (auto simp: from_offset_def)
  show ?thesis
  proof (cases "c = lf")
    case False
    then have "dec_phase (feed_char c ?d) = Phase_error" using assms by (simp add: feed_char_def)
    then show ?thesis using accepts_char [OF ns] accepts_error Cons False by simp
  next
    case True
    show ?thesis
    proof (cases "?ln = []")
      case e: True
      then have "dec_phase (feed_char c ?d) = Phase_done" using assms True by (simp add: feed_char_def decoder_try_finish_line_def)
      moreover have "\<not> (\<exists>f. good_field f \<and> ?ln = field_line f)" using e field_line_plain by fastforce
      ultimately show ?thesis using accepts_char [OF ns, of c r n b] accepts_done e Cons True by auto
    next
      case ne: False
      show ?thesis
      proof (cases "\<exists>f. good_field f \<and> ?ln = field_line f")
        case g: True
        then obtain h where h: "snd (parse_field parser_init ?ln 0 (length ?ln)) = Complete h" unfolding field by auto
        then have "feed_char c ?d = d\<lparr>metadata := metadata d + 1, dec_phase := Phase_trailer, dec_line := []\<rparr>"
          using assms True ne by (simp add: feed_char_def decoder_try_finish_line_def Let_def)
        then show ?thesis using accepts_char [OF ns, of c r n b] ne g Cons True by auto
      next
        case g: False
        then have "\<nexists>h. snd (parse_field parser_init ?ln 0 (length ?ln)) = Complete h" unfolding field by auto
        then have "dec_phase (feed_char c ?d) = Phase_error"
          using assms True ne by (cases "snd (parse_field parser_init ?ln 0 (length ?ln))")
            (simp_all add: feed_char_def decoder_try_finish_line_def Let_def)
        then show ?thesis using accepts_char [OF ns, of c r n b] accepts_error ne g Cons True by auto
      qed
    qed
  qed
qed

lemma accepts_trailer:
  assumes "dec_phase d = Phase_trailer" "dec_line d = []"
  shows "accepts d w n b \<longleftrightarrow> (\<exists>ln r m. w = ln @ crlf @ r \<and> length ln \<le> line_capacity d \<and>
    metadata d + length ln + 2 \<le> metadata_limit d \<and> n = length ln + 2 + m \<and>
    (ln = [] \<and> m = 0 \<and> b = [] \<or>
     (\<exists>f. good_field f \<and> ln = field_line f) \<and> accepts (d\<lparr>metadata := metadata d + length ln + 2\<rparr>) r m b))"
    (is "_ \<longleftrightarrow> ?R")
proof -
  let ?e = "\<lambda>ln. d\<lparr>dec_line := dec_line d @ ln, metadata := metadata d + length ln + 1, dec_phase := Phase_trailer_lf\<rparr>"
  have st: "(?e ln)\<lparr>metadata := metadata (?e ln) + 1, dec_phase := Phase_trailer, dec_line := []\<rparr> = d\<lparr>metadata := metadata d + length ln + 2\<rparr>" for ln
    using assms by (cases d) simp
  have l: "accepts d w n b \<longleftrightarrow> (\<exists>ln r m. w = ln @ cr # r \<and> list_all plain ln \<and> length (dec_line d) + length ln \<le> line_capacity d \<and>
     metadata d + length ln < metadata_limit d \<and> n = length ln + 1 + m \<and> accepts (?e ln) r m b)"
    using accepts_line [OF assms(1), of Phase_trailer_lf w n b] assms(2) by simp
  have f: "accepts (?e ln) r m b \<longleftrightarrow> (\<exists>r' m'. r = lf # r' \<and> metadata d + length ln + 1 < metadata_limit d \<and> m = m' + 1 \<and>
      (ln = [] \<and> m' = 0 \<and> b = [] \<or> (\<exists>f. good_field f \<and> ln = field_line f) \<and> accepts (d\<lparr>metadata := metadata d + length ln + 2\<rparr>) r' m' b))"
    for ln r m
    using accepts_trailer_lf [of "?e ln" r m b, unfolded st] assms(2) by simp
  show ?thesis
  proof
    assume "accepts d w n b"
    then obtain ln r m where a: "w = ln @ cr # r" "length ln \<le> line_capacity d" "n = length ln + 1 + m" "accepts (?e ln) r m b"
      unfolding l using assms(2) by auto
    then obtain r' m' where "r = lf # r'" "metadata d + length ln + 1 < metadata_limit d" "m = m' + 1"
      "ln = [] \<and> m' = 0 \<and> b = [] \<or> (\<exists>f. good_field f \<and> ln = field_line f) \<and> accepts (d\<lparr>metadata := metadata d + length ln + 2\<rparr>) r' m' b"
      unfolding f by blast
    then show ?R using a by (intro exI [of _ ln] exI [of _ r'] exI [of _ m']) simp
  next
    assume ?R
    then obtain ln r m where g: "w = ln @ crlf @ r" "length ln \<le> line_capacity d" "metadata d + length ln + 2 \<le> metadata_limit d" "n = length ln + 2 + m"
        "ln = [] \<and> m = 0 \<and> b = [] \<or> (\<exists>f. good_field f \<and> ln = field_line f) \<and> accepts (d\<lparr>metadata := metadata d + length ln + 2\<rparr>) r m b"
      by blast
    have "accepts (?e ln) (lf # r) (m + 1) b" unfolding f using g by (intro exI [of _ r] exI [of _ m]) simp
    moreover have "list_all plain ln" using g(5) field_line_plain by auto
    ultimately show "accepts d w n b" unfolding l using g assms(2)
      by (intro exI [of _ ln] exI [of _ "lf # r"] exI [of _ "m + 1"]) simp
  qed
qed

lemma accepts_delimiter:
  assumes "dec_phase d = p" "(p, c, q) \<in> {(Phase_data_cr, cr, Phase_data_lf), (Phase_data_lf, lf, Phase_size)}"
  shows "accepts d w n b \<longleftrightarrow> (\<exists>r m. w = c # r \<and> metadata d < metadata_limit d \<and> n = m + 1 \<and>
    accepts (d\<lparr>metadata := metadata d + 1, dec_phase := q\<rparr>) r m b)"
proof (cases w)
  case Nil
  then show ?thesis using accepts_Nil [of d] assms by auto
next
  case (Cons a r)
  let ?d = "d\<lparr>metadata := metadata d + 1\<rparr>"
  have pq: "dec_phase d = Phase_data_cr \<and> c = cr \<and> q = Phase_data_lf \<or> dec_phase d = Phase_data_lf \<and> c = lf \<and> q = Phase_size" using assms by auto
  then have ns: "\<not> stopped d" "dec_phase d \<noteq> Phase_data" by (auto simp: stopped_def)
  have f: "feed_char a ?d = (if a = c then d\<lparr>metadata := metadata d + 1, dec_phase := q\<rparr> else ?d\<lparr>dec_phase := Phase_error\<rparr>)"
    using pq by (elim disjE conjE) (simp_all add: feed_char_def Let_def)
  show ?thesis
  proof (cases "a = c")
    case True
    then show ?thesis using accepts_char [OF ns, of a r n b] f Cons by auto
  next
    case False
    then show ?thesis using accepts_char [OF ns, of a r n b] f Cons accepts_error [of "?d\<lparr>dec_phase := Phase_error\<rparr>"] by simp
  qed
qed

lemma accepts_data_end:
  assumes "dec_phase d = Phase_data_cr"
  shows "accepts d w n b \<longleftrightarrow> (\<exists>r m. w = crlf @ r \<and> metadata d + 2 \<le> metadata_limit d \<and> n = m + 2 \<and>
    accepts (d\<lparr>metadata := metadata d + 2, dec_phase := Phase_size\<rparr>) r m b)"
proof -
  let ?e = "d\<lparr>metadata := metadata d + 1, dec_phase := Phase_data_lf\<rparr>"
  have "accepts ?e r m b \<longleftrightarrow> (\<exists>r' m'. r = lf # r' \<and> metadata d + 1 < metadata_limit d \<and> m = m' + 1 \<and>
      accepts (d\<lparr>metadata := metadata d + 2, dec_phase := Phase_size\<rparr>) r' m' b)" for r m
    using accepts_delimiter [of ?e Phase_data_lf lf Phase_size r m b] by simp
  then show ?thesis using accepts_delimiter [of d Phase_data_cr cr Phase_data_lf w n b] assms by auto
qed

lemma accepts_data:
  assumes "dec_phase d = Phase_data" "0 < dec_remaining d"
  shows "accepts d w n b \<longleftrightarrow> (\<exists>x r m b'. w = x @ crlf @ r \<and> length x = dec_remaining d \<and> metadata d + 2 \<le> metadata_limit d \<and>
    n = length x + 2 + m \<and> b = x @ b' \<and>
    accepts (d\<lparr>decoded := decoded d + dec_remaining d, dec_remaining := 0, metadata := metadata d + 2, dec_phase := Phase_size\<rparr>) r m b')"
  (is "_ \<longleftrightarrow> ?R")
proof (cases "dec_remaining d \<le> length w")
  case False
  have "\<not> accepts d w n b"
  proof (cases "w = []")
    case False
    then have "decoder_run d w = (feed_data (length w) d, length w, w)" using run_data [OF assms(1), of w] \<open>\<not> dec_remaining d \<le> length w\<close> by simp
    moreover have "dec_phase (feed_data (length w) d) = Phase_data" using False \<open>\<not> dec_remaining d \<le> length w\<close> assms(1) by (simp add: feed_data_def Let_def)
    ultimately show ?thesis by (simp add: accepts_def)
  qed (use assms accepts_Nil [of d] in simp)
  then show ?thesis using False by auto
next
  case True
  define x where "x = take (dec_remaining d) w"
  define v where "v = drop (dec_remaining d) w"
  have w: "w = x @ v" "length x = dec_remaining d" using True by (simp_all add: x_def v_def)
  let ?e = "feed_data (dec_remaining d) d"
  have e: "?e = d\<lparr>decoded := decoded d + dec_remaining d, dec_remaining := 0, dec_phase := Phase_data_cr\<rparr>"
    using assms(2) by (simp add: feed_data_def)
  have r: "decoder_run d x = (?e, length x, x)" using run_data [OF assms(1), of x] w(2) assms(2) by simp
  have "accepts d w n b \<longleftrightarrow> (\<exists>m b'. n = length x + m \<and> b = x @ b' \<and> accepts ?e v m b')"
    unfolding accepts_def w(1) run_append r by (auto split: prod.splits)
  also have "\<dots> \<longleftrightarrow> (\<exists>r m b'. v = crlf @ r \<and> metadata d + 2 \<le> metadata_limit d \<and> n = length x + 2 + m \<and> b = x @ b' \<and>
      accepts (d\<lparr>decoded := decoded d + dec_remaining d, dec_remaining := 0, metadata := metadata d + 2, dec_phase := Phase_size\<rparr>) r m b')"
    using accepts_data_end [of ?e v] e by auto
  finally have eq: "accepts d w n b \<longleftrightarrow> (\<exists>r m b'. v = crlf @ r \<and> metadata d + 2 \<le> metadata_limit d \<and> n = length x + 2 + m \<and> b = x @ b' \<and>
      accepts (d\<lparr>decoded := decoded d + dec_remaining d, dec_remaining := 0, metadata := metadata d + 2, dec_phase := Phase_size\<rparr>) r m b')" .
  show ?thesis
  proof
    assume "accepts d w n b"
    then show ?R unfolding eq using w by blast
  next
    assume ?R
    then obtain y r m b' where g: "w = y @ crlf @ r" "length y = dec_remaining d" "metadata d + 2 \<le> metadata_limit d" "n = length y + 2 + m" "b = y @ b'"
        "accepts (d\<lparr>decoded := decoded d + dec_remaining d, dec_remaining := 0, metadata := metadata d + 2, dec_phase := Phase_size\<rparr>) r m b'" by blast
    have "y = x" "v = crlf @ r" using g(1, 2) w by simp_all
    then show "accepts d w n b" unfolding eq using g(3-6) by blast
  qed
qed


text \<open>A body of the grammar whose lines fit the scratch line.\<close>

definition lines_fit :: "nat \<Rightarrow> chunk list \<Rightarrow> string \<Rightarrow> field list \<Rightarrow> bool" where
  "lines_fit c cs ln fs \<longleftrightarrow> list_all (\<lambda>(l, d). length l \<le> c) cs \<and> length ln \<le> c \<and> list_all (\<lambda>f. length (field_line f) \<le> c) fs"

text \<open>The bytes of a body that are not data.\<close>

definition overhead :: "chunk list \<Rightarrow> string \<Rightarrow> field list \<Rightarrow> nat" where
  "overhead cs ln fs = sum_list (map (\<lambda>(l, d). length l + 4) cs) + length ln + 2 + length (fields_text fs)"

lemma overhead_simps [simp]:
  "overhead [] ln fs = length ln + 2 + length (fields_text fs)"
  "overhead ((l, d) # cs) ln fs = length l + 4 + overhead cs ln fs"
  by (simp_all add: overhead_def)

lemma overhead_length: "length (chunked_text cs ln fs) = length (chunked_body cs) + overhead cs ln fs"
  by (induction cs) (auto simp: overhead_def)

lemma accepts_trailers:
  "dec_phase d = Phase_trailer \<Longrightarrow> dec_line d = [] \<Longrightarrow>
   accepts d w n b \<longleftrightarrow> (\<exists>fs rest. w = fields_text fs @ rest \<and> list_all good_field fs \<and> list_all (\<lambda>f. length (field_line f) \<le> line_capacity d) fs \<and>
     metadata d + length (fields_text fs) \<le> metadata_limit d \<and> n = length (fields_text fs) \<and> b = [])"
  (is "_ \<Longrightarrow> _ \<Longrightarrow> _ \<longleftrightarrow> ?R d w n")
proof (induction "length w" arbitrary: w d n rule: less_induct)
  case less
  show ?case
  proof
    assume "accepts d w n b"
    then obtain ln r m where g: "w = ln @ crlf @ r" "length ln \<le> line_capacity d" "metadata d + length ln + 2 \<le> metadata_limit d" "n = length ln + 2 + m"
        "ln = [] \<and> m = 0 \<and> b = [] \<or> (\<exists>f. good_field f \<and> ln = field_line f) \<and> accepts (d\<lparr>metadata := metadata d + length ln + 2\<rparr>) r m b"
      unfolding accepts_trailer [OF less.prems] by blast
    show "?R d w n"
    proof (cases "ln = [] \<and> m = 0 \<and> b = []")
      case True
      then show ?thesis using g by (intro exI [of _ "[]"] exI [of _ r]) simp
    next
      case False
      then obtain f where f: "good_field f" "ln = field_line f" "accepts (d\<lparr>metadata := metadata d + length ln + 2\<rparr>) r m b" using g(5) by blast
      have "?R (d\<lparr>metadata := metadata d + length ln + 2\<rparr>) r m"
        using less.hyps [of r "d\<lparr>metadata := metadata d + length ln + 2\<rparr>" m] f(3) less.prems g(1) by simp
      then obtain fs rest where "r = fields_text fs @ rest" "list_all good_field fs" "list_all (\<lambda>f. length (field_line f) \<le> line_capacity d) fs"
          "metadata d + length ln + 2 + length (fields_text fs) \<le> metadata_limit d" "m = length (fields_text fs)" "b = []" by auto
      then show ?thesis using g(1, 2, 4) f(1, 2) by (intro exI [of _ "f # fs"] exI [of _ rest]) simp
    qed
  next
    assume "?R d w n"
    then obtain fs rest where g: "w = fields_text fs @ rest" "list_all good_field fs" "list_all (\<lambda>f. length (field_line f) \<le> line_capacity d) fs"
      "metadata d + length (fields_text fs) \<le> metadata_limit d" "n = length (fields_text fs)" "b = []" by blast
    show "accepts d w n b"
    proof (cases fs)
      case Nil
      then show ?thesis unfolding accepts_trailer [OF less.prems] using g
        by (intro exI [of _ "[]"] exI [of _ rest] exI [of _ 0]) simp
    next
      case (Cons f fs')
      let ?ln = "field_line f" let ?d = "d\<lparr>metadata := metadata d + length ?ln + 2\<rparr>"
      have "?R ?d (fields_text fs' @ rest) (length (fields_text fs'))" using g Cons by (intro exI [of _ fs'] exI [of _ rest]) simp
      then have "accepts ?d (fields_text fs' @ rest) (length (fields_text fs')) b"
        using less.hyps [of "fields_text fs' @ rest" ?d "length (fields_text fs')"] less.prems g(1) Cons by simp
      moreover have "good_field f" using g(2) Cons by simp
      then have "\<exists>f'. good_field f' \<and> ?ln = field_line f'" by blast
      ultimately show ?thesis unfolding accepts_trailer [OF less.prems] using g Cons
        by (intro exI [of _ ?ln] exI [of _ "fields_text fs' @ rest"] exI [of _ "length (fields_text fs')"]) simp
    qed
  qed
qed

lemma accepts_body:
  "dec_phase d = Phase_size \<Longrightarrow> dec_line d = [] \<Longrightarrow> dec_remaining d = 0 \<Longrightarrow> decoded d \<le> decoded_limit d \<Longrightarrow>
   accepts d w n b \<longleftrightarrow> (\<exists>cs ln fs rest. w = chunked_text cs ln fs @ rest \<and> good_chunked cs ln fs \<and> lines_fit (line_capacity d) cs ln fs \<and>
     decoded d + length (chunked_body cs) \<le> decoded_limit d \<and> metadata d + overhead cs ln fs \<le> metadata_limit d \<and>
     n = length (chunked_text cs ln fs) \<and> b = chunked_body cs)"
  (is "_ \<Longrightarrow> _ \<Longrightarrow> _ \<Longrightarrow> _ \<Longrightarrow> _ \<longleftrightarrow> ?R d w n b")
proof (induction "length w" arbitrary: w d n b rule: less_induct)
  case less
  let ?t = "\<lambda>k ln. d\<lparr>metadata := metadata d + length ln + 2, dec_remaining := k, dec_phase := (if k = 0 then Phase_trailer else Phase_data)\<rparr>"
  let ?s = "\<lambda>k ln. d\<lparr>decoded := decoded d + k, metadata := metadata d + length ln + 4\<rparr>"
  have s: "(?t k ln)\<lparr>decoded := decoded (?t k ln) + dec_remaining (?t k ln), dec_remaining := 0, metadata := metadata (?t k ln) + 2, dec_phase := Phase_size\<rparr> =
      ?s k ln" for k and ln :: string
    using less.prems by (cases d) simp
  show ?case
  proof
    assume "accepts d w n b"
    then obtain ln r m k where g: "w = ln @ crlf @ r" "size_line ln k" "length ln \<le> line_capacity d" "metadata d + length ln + 2 \<le> metadata_limit d"
        "k \<le> decoded_limit d - decoded d" "n = length ln + 2 + m" "accepts (?t k ln) r m b"
      unfolding accepts_size [OF less.prems(1, 2)] by blast
    show "?R d w n b"
    proof (cases "k = 0")
      case True
      then have "dec_phase (?t k ln) = Phase_trailer" "dec_line (?t k ln) = []" using less.prems(2) by simp_all
      from g(7) [unfolded accepts_trailers [OF this]] obtain fs rest where "r = fields_text fs @ rest" "list_all good_field fs"
          "list_all (\<lambda>f. length (field_line f) \<le> line_capacity d) fs" "metadata d + length ln + 2 + length (fields_text fs) \<le> metadata_limit d"
          "m = length (fields_text fs)" "b = []" by auto
      then show ?thesis using g True less.prems(4)
        by (intro exI [of _ "[]"] exI [of _ ln] exI [of _ fs] exI [of _ rest]) (simp add: lines_fit_def)
    next
      case False
      then have "dec_phase (?t k ln) = Phase_data" "0 < dec_remaining (?t k ln)" by simp_all
      from g(7) [unfolded accepts_data [OF this] s] obtain x r' m' b' where x: "r = x @ crlf @ r'" "length x = k"
          "metadata d + length ln + 4 \<le> metadata_limit d" "m = length x + 2 + m'" "b = x @ b'" "accepts (?s k ln) r' m' b'" by auto
      have "?R (?s k ln) r' m' b'"
        using less.hyps [of r' "?s k ln" m' b'] x(1, 6) g(1, 5) less.prems by simp
      then obtain cs ln' fs rest where "r' = chunked_text cs ln' fs @ rest" "good_chunked cs ln' fs" "lines_fit (line_capacity d) cs ln' fs"
          "decoded d + k + length (chunked_body cs) \<le> decoded_limit d" "metadata d + length ln + 4 + overhead cs ln' fs \<le> metadata_limit d"
          "m' = length (chunked_text cs ln' fs)" "b' = chunked_body cs" by auto
      then show ?thesis using g x False
        by (intro exI [of _ "(ln, x) # cs"] exI [of _ ln'] exI [of _ fs] exI [of _ rest]) (auto simp: lines_fit_def)
    qed
  next
    assume "?R d w n b"
    then obtain cs ln fs rest where g: "w = chunked_text cs ln fs @ rest" "good_chunked cs ln fs" "lines_fit (line_capacity d) cs ln fs"
      "decoded d + length (chunked_body cs) \<le> decoded_limit d" "metadata d + overhead cs ln fs \<le> metadata_limit d"
      "n = length (chunked_text cs ln fs)" "b = chunked_body cs" by blast
    show "accepts d w n b"
    proof (cases cs)
      case Nil
      have t: "dec_phase (?t 0 ln) = Phase_trailer" "dec_line (?t 0 ln) = []" using less.prems(2) by simp_all
      have "accepts (?t 0 ln) (fields_text fs @ rest) (length (fields_text fs)) b"
        unfolding accepts_trailers [OF t] using g Nil by (intro exI [of _ fs] exI [of _ rest]) (simp add: lines_fit_def)
      then show ?thesis unfolding accepts_size [OF less.prems(1, 2)] using g Nil
        by (intro exI [of _ ln] exI [of _ "fields_text fs @ rest"] exI [of _ "length (fields_text fs)"] exI [of _ 0]) (simp add: lines_fit_def)
    next
      case (Cons c cs')
      obtain l x where c: "c = (l, x)" by (cases c)
      let ?k = "length x"
      let ?w = "chunked_text cs' ln fs @ rest" and ?n = "length (chunked_text cs' ln fs)"
      have k: "0 < ?k" using g(2) Cons c by simp
      have "?R (?s ?k l) ?w ?n (chunked_body cs')"
        using g Cons c by (intro exI [of _ cs'] exI [of _ ln] exI [of _ fs] exI [of _ rest]) (simp add: lines_fit_def)
      then have a: "accepts (?s ?k l) ?w ?n (chunked_body cs')"
        using less.hyps [of ?w "?s ?k l" ?n "chunked_body cs'"] g(1, 4) Cons c less.prems by simp
      have t: "dec_phase (?t ?k l) = Phase_data" "0 < dec_remaining (?t ?k l)" using k by simp_all
      have "accepts (?t ?k l) (x @ crlf @ ?w) (?k + 2 + ?n) (x @ chunked_body cs')"
        unfolding accepts_data [OF t] s using a g(5) Cons c
        by (intro exI [of _ x] exI [of _ ?w] exI [of _ ?n] exI [of _ "chunked_body cs'"]) simp
      then show ?thesis unfolding accepts_size [OF less.prems(1, 2)] using g Cons c k
        by (intro exI [of _ l] exI [of _ "x @ crlf @ ?w"] exI [of _ "?k + 2 + ?n"] exI [of _ ?k]) (simp add: lines_fit_def)
    qed
  qed
qed


section \<open>The decoder in use\<close>

lemma finish_line_keeps:
  "decoder_try_finish_line d = (d', ok) \<Longrightarrow>
   decoded d' = decoded d \<and> decoded_limit d' = decoded_limit d \<and> metadata d' = metadata d \<and> metadata_limit d' = metadata_limit d \<and> line_capacity d' = line_capacity d"
  by (auto simp: decoder_try_finish_line_def Let_def split: if_splits option.splits parse.splits)

lemma feed_char_keeps:
  "decoded (feed_char c d) = decoded d" "decoded_limit (feed_char c d) = decoded_limit d"
  "metadata (feed_char c d) = metadata d" "metadata_limit (feed_char c d) = metadata_limit d"
  "line_capacity (feed_char c d) = line_capacity d"
proof -
  obtain d' ok where f: "decoder_try_finish_line d = (d', ok)" by fastforce
  note k = finish_line_keeps [OF f]
  show "decoded (feed_char c d) = decoded d" using f k by (cases ok) (simp_all add: feed_char_def Let_def)
  show "decoded_limit (feed_char c d) = decoded_limit d" using f k by (cases ok) (simp_all add: feed_char_def Let_def)
  show "metadata (feed_char c d) = metadata d" using f k by (cases ok) (simp_all add: feed_char_def Let_def)
  show "metadata_limit (feed_char c d) = metadata_limit d" using f k by (cases ok) (simp_all add: feed_char_def Let_def)
  show "line_capacity (feed_char c d) = line_capacity d" using f k by (cases ok) (simp_all add: feed_char_def Let_def)
qed

definition same_limits :: "chunked_decoder \<Rightarrow> chunked_decoder \<Rightarrow> bool" where
  "same_limits d d' \<longleftrightarrow> line_capacity d' = line_capacity d \<and> decoded_limit d' = decoded_limit d \<and> metadata_limit d' = metadata_limit d"

lemma feed_loop_counts:
  "feed_loop input capacity d i out = (d1, j, out1) \<Longrightarrow> i \<le> length input \<Longrightarrow>
   decoded d1 + length out = decoded d + length out1 \<and> metadata d1 + length out1 + i = metadata d + length out + j \<and>
   metadata d \<le> metadata d1 \<and> same_limits d d1"
proof (induction input capacity d i out rule: feed_loop.induct)
  case (1 input capacity d i out)
  define k where "k = min (dec_remaining d) (min (length input - i) (capacity - length out))"
  consider (stop) "\<not> i < length input \<or> stopped d \<or> dec_phase d = Phase_data \<and> k = 0"
    | (data) "i < length input" "dec_phase d = Phase_data" "k \<noteq> 0"
    | (limit) "i < length input" "\<not> stopped d" "dec_phase d \<noteq> Phase_data" "metadata_limit d \<le> metadata d"
    | (char) "i < length input" "\<not> (dec_phase d = Phase_done \<or> dec_phase d = Phase_error)" "dec_phase d \<noteq> Phase_data" "\<not> metadata_limit d \<le> metadata d"
    unfolding stopped_def by blast
  then show ?case
  proof cases
    case stop
    then have "feed_loop input capacity d i out = (d, i, out)"
      by (subst feed_loop.simps) (auto simp: stopped_def Let_def k_def [symmetric])
    then show ?thesis using 1(3) by (auto simp: same_limits_def)
  next
    case limit
    then have "feed_loop input capacity d i out = (d\<lparr>dec_phase := Phase_error\<rparr>, i, out)"
      by (subst feed_loop.simps) (auto simp: stopped_def)
    then show ?thesis using 1(3) by (auto simp: same_limits_def)
  next
    case data
    have ns: "\<not> (dec_phase d = Phase_done \<or> dec_phase d = Phase_error)" using data by simp
    have "length (from_offset input i k) = k" "i + k \<le> length input" using data(1) by (simp_all add: k_def)
    moreover have "decoded (feed_data k d) = decoded d + k" "metadata (feed_data k d) = metadata d" "same_limits d (feed_data k d)"
      by (simp_all add: feed_data_def Let_def same_limits_def)
    moreover have "feed_loop input capacity d i out = feed_loop input capacity (feed_data k d) (i + k) (out @ from_offset input i k)"
      using data by (subst feed_loop.simps) (simp add: Let_def k_def [symmetric])
    ultimately show ?thesis using 1(1) [OF data(1) ns data(2) k_def data(3)] 1(3) by (simp add: same_limits_def)
  next
    case char
    have "feed_loop input capacity d i out = feed_loop input capacity (feed_char (input ! i) (d\<lparr>metadata := metadata d + 1\<rparr>)) (i + 1) out"
      using char by (subst feed_loop.simps) simp
    then show ?thesis using 1(2) [OF char] 1(3) char(1) by (simp add: feed_char_keeps same_limits_def)
  qed
qed

lemma suffix_same: "drop k (x @ y) = z \<Longrightarrow> length z = length y \<Longrightarrow> z = y"
  by (cases "k \<le> length x"; cases y) auto

text \<open>One feed: the rest of the input gives the rest of the result.\<close>

lemma feed_run:
  assumes "decoder_ok d" "decoder_feed d input capacity = (d1, n1, o1, st)" "decoder_run d (input @ v) = (d2, n2, o2)"
  shows "decoder_ok d1 \<and> n1 \<le> length input \<and> length o1 \<le> capacity \<and>
    decoded d1 = decoded d + length o1 \<and> metadata d1 + length o1 = metadata d + n1 \<and> metadata d \<le> metadata d1 \<and> same_limits d d1 \<and>
    (n1 < length input \<and> st = Incomplete \<longrightarrow> length o1 = capacity) \<and>
    (\<exists>n o'. decoder_run d1 (drop n1 input @ v) = (d2, n, o') \<and> n2 = n1 + n \<and> o2 = o1 @ o')"
proof -
  have f: "feed_loop input capacity d 0 [] = (d1, n1, o1)" "st = decoder_status d1"
    using assms(2) by (auto simp: decoder_feed_def split: prod.splits)
  have "st = Incomplete \<longleftrightarrow> \<not> stopped d1" using f(2) by (auto simp: decoder_status_def stopped_def)
  moreover have "decoder_run d (drop 0 input @ v) = (d2, n2, o2)" using assms(3) by simp
  ultimately show ?thesis using feed_loop_run [OF f(1) assms(1) _ _ _] feed_loop_counts [OF f(1)] by auto
qed


text \<open>
  The calls of a client: each brings a piece of the wire, behind what the call before left unconsumed,
  and room for some output.
\<close>

fun feed_all :: "chunked_decoder \<Rightarrow> string \<Rightarrow> (string \<times> nat) list \<Rightarrow> chunked_decoder \<times> string \<times> string list" where
  "feed_all d left [] = (d, left, [])"
| "feed_all d left ((piece, capacity) # calls) =
     (case decoder_feed d (left @ piece) capacity of (d1, n, o1, st) \<Rightarrow>
        case feed_all d1 (drop n (left @ piece)) calls of (d2, left', outs) \<Rightarrow> (d2, left', o1 # outs))"

lemma feed_all_run:
  "feed_all d left calls = (d1, left1, outs) \<Longrightarrow> decoder_ok d \<Longrightarrow> decoder_run d (left @ concat (map fst calls) @ v) = (d2, n2, o2) \<Longrightarrow>
   decoder_ok d1 \<and> same_limits d d1 \<and> (\<exists>k. left1 = drop k (left @ concat (map fst calls))) \<and>
   list_all2 (\<lambda>out call. length out \<le> snd call) outs calls \<and> decoded d1 = decoded d + length (concat outs) \<and>
   metadata d1 + length (concat outs) + length left1 = metadata d + length left + length (concat (map fst calls)) \<and>
   (\<exists>n u. decoder_run d1 (left1 @ v) = (d2, n, concat u) \<and> n2 + length left1 = n + length left + length (concat (map fst calls)) \<and> o2 = concat (outs @ u))"
proof (induction calls arbitrary: d left outs n2 o2)
  case Nil
  then show ?case by (auto simp: same_limits_def intro!: exI [of _ "[o2]"] exI [of _ 0])
next
  case (Cons call calls)
  obtain piece cap where c: "call = (piece, cap)" by (cases call)
  obtain d3 n o1 st where f: "decoder_feed d (left @ piece) cap = (d3, n, o1, st)" by (rule prod_cases4)
  obtain outs' where g: "feed_all d3 (drop n (left @ piece)) calls = (d1, left1, outs')" "outs = o1 # outs'"
    using Cons.prems(1) c f by (auto split: prod.splits)
  let ?v = "concat (map fst calls) @ v"
  have r: "decoder_run d ((left @ piece) @ ?v) = (d2, n2, o2)" using Cons.prems(3) c by simp
  obtain m o' where s: "decoder_ok d3" "n \<le> length (left @ piece)" "length o1 \<le> cap" "decoded d3 = decoded d + length o1"
      "metadata d3 + length o1 = metadata d + n" "same_limits d d3" "decoder_run d3 (drop n (left @ piece) @ ?v) = (d2, m, o')" "n2 = n + m" "o2 = o1 @ o'"
    using feed_run [OF Cons.prems(2) f r] by blast
  obtain m' u k where IH: "decoder_ok d1" "same_limits d3 d1" "left1 = drop k (drop n (left @ piece) @ concat (map fst calls))" "list_all2 (\<lambda>out call. length out \<le> snd call) outs' calls" "decoded d1 = decoded d3 + length (concat outs')"
      "metadata d1 + length (concat outs') + length left1 = metadata d3 + length (drop n (left @ piece)) + length (concat (map fst calls))"
      "decoder_run d1 (left1 @ v) = (d2, m', concat u)" "m + length left1 = m' + length (drop n (left @ piece)) + length (concat (map fst calls))"
      "o' = concat (outs' @ u)"
    using Cons.IH [OF g(1) s(1, 7)] by blast
  have "drop n (left @ piece) @ concat (map fst calls) = drop n ((left @ piece) @ concat (map fst calls))"
    using drop_append [of n "left @ piece" "concat (map fst calls)"] s(2) by (simp only: diff_is_0_eq' drop_0)
  then have "left1 = drop (k + n) ((left @ piece) @ concat (map fst calls))" using IH(3) by (simp only: drop_drop)
  moreover have "(left @ piece) @ concat (map fst calls) = left @ concat (map fst (call # calls))" using c by simp
  ultimately have "\<exists>k. left1 = drop k (left @ concat (map fst (call # calls)))" by (metis (no_types))
  moreover have "same_limits d d1" using IH(2) s(6) by (simp add: same_limits_def)
  moreover have "\<exists>n u. decoder_run d1 (left1 @ v) = (d2, n, concat u) \<and>
      n2 + length left1 = n + length left + length (concat (map fst (call # calls))) \<and> o2 = concat (outs @ u)"
    using IH(7-9) s(2, 8, 9) g(2) c by (intro exI [of _ m'] exI [of _ u]) simp
  moreover have "metadata d1 + length (concat outs) + length left1 = metadata d + length left + length (concat (map fst (call # calls)))"
    using IH(6) s(2, 5) g(2) c by simp
  moreover have "decoded d1 = decoded d + length (concat outs)" using IH(5) s(4) g(2) by simp
  moreover have "list_all2 (\<lambda>out call. length out \<le> snd call) outs (call # calls)" using IH(4) s(3) g(2) c by simp
  ultimately show ?case using IH(1) by blast
qed

definition within :: "nat \<Rightarrow> nat \<Rightarrow> nat \<Rightarrow> chunk list \<Rightarrow> string \<Rightarrow> field list \<Rightarrow> bool" where
  "within c l m cs ln fs \<longleftrightarrow> lines_fit c cs ln fs \<and> length (chunked_body cs) \<le> l \<and> overhead cs ln fs \<le> m"

lemma init_accepts:
  "accepts (decoder_init c l m) w n b \<longleftrightarrow> (\<exists>cs ln fs rest. w = chunked_text cs ln fs @ rest \<and> good_chunked cs ln fs \<and> within c l m cs ln fs \<and>
     n = length (chunked_text cs ln fs) \<and> b = chunked_body cs)"
  using accepts_body [of "decoder_init c l m" w n b] by (simp add: decoder_init_def within_def conj_ac)

lemma feed_roomy:
  assumes "decoder_ok d" "accepts d w n b"
  shows "\<exists>d'. decoder_feed d w (length w) = (d', n, b, Complete ())"
proof -
  obtain d2 where r: "decoder_run d (w @ []) = (d2, n, b)" "dec_phase d2 = Phase_done" using assms(2) by (auto simp: accepts_def)
  obtain d1 n1 o1 st where f: "decoder_feed d w (length w) = (d1, n1, o1, st)" by (rule prod_cases4)
  have c: "metadata d1 + length o1 = metadata d + n1" "metadata d \<le> metadata d1" "n1 \<le> length w" "n1 < length w \<and> st = Incomplete \<longrightarrow> length o1 = length w"
    and rest: "\<exists>m o'. decoder_run d1 (drop n1 w @ []) = (d2, m, o') \<and> n = n1 + m \<and> b = o1 @ o'"
    using feed_run [OF assms(1) f r(1)] by blast+
  have st: "st = decoder_status d1" using f by (auto simp: decoder_feed_def split: prod.splits)
  have "n1 = length w \<or> st \<noteq> Incomplete" using c by linarith
  then have "stopped d1 \<or> drop n1 w = []" using st by (auto simp: decoder_status_def stopped_def split: if_splits)
  then have "decoder_run d1 (drop n1 w @ []) = (d1, 0, [])" using run_stopped by auto
  then show ?thesis using rest r(2) f st by (auto simp: decoder_status_def)
qed

text \<open>
  Whatever the pieces the wire arrives in and the room the client gives, no feed writes past its room, the
  scratch line stays within its capacity, no more data is decoded and no more overhead read than the limits
  allow, and every byte of the wire is accounted for as data, overhead or left unconsumed.
\<close>

theorem decoder_bounds:
  assumes "feed_all (decoder_init c l m) [] calls = (d, left, outs)"
  shows "list_all2 (\<lambda>out call. length out \<le> snd call) outs calls \<and> length (dec_line d) \<le> c \<and> length (concat outs) \<le> l \<and> metadata d \<le> m \<and>
    decoded d = length (concat outs) \<and> metadata d + length (concat outs) + length left = length (concat (map fst calls))"
proof -
  obtain d2 n2 o2 where r: "decoder_run (decoder_init c l m) ([] @ concat (map fst calls) @ []) = (d2, n2, o2)" by (rule prod_cases3)
  note a = feed_all_run [OF assms decoder_init_ok r]
  have k: "line_capacity d = c" "decoded_limit d = l" "metadata_limit d = m"
    using a by (simp_all add: same_limits_def decoder_init_def)
  show ?thesis using a k by (auto simp: decoder_ok_def decoder_init_def)
qed

lemma session_exact:
  assumes "feed_all (decoder_init c l m) left0 calls = (d, left, outs)"
  shows "(dec_phase d = Phase_done \<longrightarrow> (\<exists>cs ln fs. left0 @ concat (map fst calls) = chunked_text cs ln fs @ left \<and>
       good_chunked cs ln fs \<and> within c l m cs ln fs \<and> concat outs = chunked_body cs)) \<and>
    (left0 @ concat (map fst calls) = chunked_text cs ln fs @ rest \<and> good_chunked cs ln fs \<and> within c l m cs ln fs \<longrightarrow>
       (\<exists>d' out. decoder_feed d left (length left) = (d', length left - length rest, out, Complete ()) \<and>
          concat outs @ out = chunked_body cs))"
proof -
  let ?w = "left0 @ concat (map fst calls)"
  obtain d2 n2 o2 where r: "decoder_run (decoder_init c l m) (left0 @ concat (map fst calls) @ []) = (d2, n2, o2)" by (rule prod_cases3)
  obtain n u k where a: "decoder_ok d" "decoder_run d (left @ []) = (d2, n, concat u)" "n2 + length left = n + length ?w" "o2 = concat (outs @ u)" "left = drop k ?w"
    using feed_all_run [OF assms decoder_init_ok r] by auto
  have acc: "accepts (decoder_init c l m) ?w n2 o2 \<longleftrightarrow> dec_phase d2 = Phase_done" using r by (simp add: accepts_def)
  show ?thesis
  proof (intro conjI impI)
    assume "dec_phase d = Phase_done"
    then have z: "d2 = d" "n = 0" "concat u = []" using a(2) run_stopped [of d "left @ []"] by (auto simp: stopped_def)
    obtain cs ln fs rest where g: "?w = chunked_text cs ln fs @ rest" "good_chunked cs ln fs" "within c l m cs ln fs"
        "n2 = length (chunked_text cs ln fs)" "o2 = chunked_body cs"
      using acc z(1) \<open>dec_phase d = Phase_done\<close> unfolding init_accepts by blast
    have "length left = length rest" using arg_cong [OF g(1), of length] g(4) a(3) z(2) by simp
    then have "left = rest" using a(5) g(1) suffix_same by metis
    then show "\<exists>cs ln fs. ?w = chunked_text cs ln fs @ left \<and> good_chunked cs ln fs \<and> within c l m cs ln fs \<and> concat outs = chunked_body cs"
      using g a(4) z(3) by auto
  next
    assume h: "?w = chunked_text cs ln fs @ rest \<and> good_chunked cs ln fs \<and> within c l m cs ln fs"
    then have "accepts (decoder_init c l m) ?w (length (chunked_text cs ln fs)) (chunked_body cs)" unfolding init_accepts by blast
    then have e: "n2 = length (chunked_text cs ln fs)" "o2 = chunked_body cs" "dec_phase d2 = Phase_done" using r by (auto simp: accepts_def)
    then have "accepts d left n (concat u)" using a(2) by (simp add: accepts_def)
    then obtain d' where f: "decoder_feed d left (length left) = (d', n, concat u, Complete ())" using feed_roomy [OF a(1)] by blast
    have "length ?w = n2 + length rest" using h e(1) by simp
    then have "n = length left - length rest" using a(3) by simp
    then show "\<exists>d' out. decoder_feed d left (length left) = (d', length left - length rest, out, Complete ()) \<and> concat outs @ out = chunked_body cs"
      using f a(4) e(2) by auto
  qed
qed

text \<open>
  C22: whatever the pieces and the room, the decoder is done only when the wire began with a body of the
  grammar within the limits, has handed out exactly its data and has left what follows it; and on such a wire it
  never fails: what it has not yet handed out comes with the next feed that has room for it.
\<close>

theorem decoder_exact:
  assumes "feed_all (decoder_init c l m) [] calls = (d, left, outs)"
  shows "(dec_phase d = Phase_done \<longrightarrow> (\<exists>cs ln fs. concat (map fst calls) = chunked_text cs ln fs @ left \<and>
       good_chunked cs ln fs \<and> within c l m cs ln fs \<and> concat outs = chunked_body cs)) \<and>
    (concat (map fst calls) = chunked_text cs ln fs @ rest \<and> good_chunked cs ln fs \<and> within c l m cs ln fs \<longrightarrow>
       (\<exists>d' out. decoder_feed d left (length left) = (d', length left - length rest, out, Complete ()) \<and>
          concat outs @ out = chunked_body cs))"
  using session_exact [OF assms, of cs ln fs rest] by simp

theorem decoder_bounds_witness:
  "length (dec_line (fst (feed_all (decoder_init 8 2 20) [] [(''2'' @ crlf @ ''h'', 4), (''i'', 0), (crlf, 1)]))) \<le> 8"
proof -
  obtain d left outs where "feed_all (decoder_init 8 2 20) [] [(''2'' @ crlf @ ''h'', 4), (''i'', 0), (crlf, 1)] = (d, left, outs)"
    by (rule prod_cases3)
  from decoder_bounds [OF this] this show ?thesis by (simp only: fst_conv)
qed

theorem decoder_exact_witness:
  "\<exists>d' out. decoder_feed (fst (feed_all (decoder_init 8 2 20) [] [(''2'' @ crlf @ ''h'', 4), (''i'', 0), (crlf @ ''0'' @ crlf @ crlf, 0)]))
     (''i'' @ crlf @ ''0'' @ crlf @ crlf) 8 = (d', 8, out, Complete ()) \<and> ''h'' @ out = ''hi''"
proof -
  let ?calls = "[(''2'' @ crlf @ ''h'', 4), (''i'', 0), (crlf @ ''0'' @ crlf @ crlf, 0)] :: (string \<times> nat) list"
  have "snd (feed_all (decoder_init 8 2 20) [] ?calls) = (''i'' @ crlf @ ''0'' @ crlf @ crlf, [''h'', [], []])" by code_simp
  then obtain d where f: "feed_all (decoder_init 8 2 20) [] ?calls = (d, ''i'' @ crlf @ ''0'' @ crlf @ crlf, [''h'', [], []])"
    by (metis prod.collapse)
  have d: "fst (feed_all (decoder_init 8 2 20) [] ?calls) = d" by (simp only: f fst_conv)
  have "size_line ''2'' 2" "size_line ''0'' 0" unfolding try_parse_size_iff [symmetric] by code_simp+
  then have "good_chunked [(''2'', ''hi'')] ''0'' []" "within 8 2 20 [(''2'', ''hi'')] ''0'' []"
    by (simp_all add: within_def lines_fit_def numeral_2_eq_2)
  then show ?thesis using decoder_exact [OF f, of "[(''2'', ''hi'')]" "''0''" "[]" "[]"] unfolding d by (simp add: numeral_eq_Suc)
qed

end
