(* ===== verification/Http_Body.thy ===== *)
theory Http_Body
  imports Http_Decoder "HOL-Library.Sublist"
begin

text \<open>
  Readers (\<^verbatim>\<open>src/lh/core/io/reader.c\<close>) and the reader of message bodies on top of one
  (\<^verbatim>\<open>src/lh/core/http/body/reader.c\<close>), framed by a length or by chunks. The source is a callback: a function
  of its state and of the room it is given; \<open>None\<close> is a callback that does not return. The wire scratch
  is the list of its valid bytes. Shown: on a source that keeps its contract a read returns, keeps the same
  contract, and the reads together hand out exactly the body and leave what follows it, whatever the
  source and the client do.
\<close>

section \<open>Readers\<close>

text \<open>The signed answers of a stream read.\<close>

datatype io_result =
    Io_got string
  | Io_end
  | Io_pending
  | Io_error

type_synonym 's io_reader = "'s \<Rightarrow> nat \<Rightarrow> (io_result \<times> 's) option"

text \<open>What a reader promises in the states it is used in.\<close>

definition reader_contract :: "'s io_reader \<Rightarrow> ('s \<Rightarrow> bool) \<Rightarrow> bool" where
  "reader_contract read ok \<longleftrightarrow> (\<forall>s n. ok s \<longrightarrow> 0 < n \<longrightarrow>
     (\<exists>r s'. read s n = Some (r, s') \<and> ok s' \<and> (\<forall>t. r = Io_got t \<longrightarrow> t \<noteq> [] \<and> length t \<le> n)))"

definition io_text :: "io_result \<Rightarrow> string" where
  "io_text r = (case r of Io_got t \<Rightarrow> t | _ \<Rightarrow> [])"

lemma io_text_simps [simp]: "io_text (Io_got t) = t" "io_text Io_end = []" "io_text Io_pending = []" "io_text Io_error = []"
  by (simp_all add: io_text_def)

partial_function (option) reader_drain :: "'s io_reader \<Rightarrow> nat \<Rightarrow> 's \<Rightarrow> (io_result \<times> 's) option" where
  "reader_drain read capacity s =
     Option.bind (read s capacity) (\<lambda>(result, s').
       case result of Io_got t \<Rightarrow> reader_drain read capacity s' | _ \<Rightarrow> Some (result, s'))"

section \<open>The body reader\<close>

record 's body_reader =
  br_source :: 's
  br_decoder :: "chunked_decoder option"
  wire :: string
  wire_capacity :: nat
  wire_pos :: nat
  br_remaining :: nat
  br_failed :: bool

definition body_init_length :: "'s \<Rightarrow> string \<Rightarrow> nat \<Rightarrow> nat \<Rightarrow> 's body_reader" where
  "body_init_length source available capacity n =
     \<lparr>br_source = source, br_decoder = None, wire = available, wire_capacity = capacity, wire_pos = 0,
      br_remaining = n, br_failed = False\<rparr>"

definition body_init_chunked :: "'s \<Rightarrow> string \<Rightarrow> nat \<Rightarrow> chunked_decoder \<Rightarrow> 's body_reader" where
  "body_init_chunked source available capacity decoder =
     (body_init_length source available capacity 0)\<lparr>br_decoder := Some decoder\<rparr>"

definition body_refill :: "'s io_reader \<Rightarrow> 's body_reader \<Rightarrow> (io_result \<times> 's body_reader) option" where
  "body_refill read self =
     (case read (br_source self) (wire_capacity self) of
        None \<Rightarrow> None
      | Some (Io_got t, s) \<Rightarrow> Some (Io_got t, self\<lparr>br_source := s, wire_pos := 0, wire := t\<rparr>)
      | Some (r, s) \<Rightarrow> Some (r, self\<lparr>br_source := s\<rparr>))"

definition body_get_unread :: "'s body_reader \<Rightarrow> string" where
  "body_get_unread self = drop (wire_pos self) (wire self)"

text \<open>One turn of the loop of a read: the answer, or the reader to go on with.\<close>

definition body_take :: "nat \<Rightarrow> 's body_reader \<Rightarrow> io_result \<times> 's body_reader + 's body_reader" where
  "body_take capacity self =
     (case br_decoder self of
        None \<Rightarrow>
          let n = min capacity (min (length (wire self) - wire_pos self) (br_remaining self))
          in Inl (Io_got (from_offset (wire self) (wire_pos self) n),
               self\<lparr>wire_pos := wire_pos self + n, br_remaining := br_remaining self - n\<rparr>)
      | Some decoder \<Rightarrow>
          (case decoder_feed decoder (body_get_unread self) capacity of
             (decoder', used, written, status) \<Rightarrow>
               let self1 = self\<lparr>br_decoder := Some decoder', wire_pos := wire_pos self + used\<rparr>;
                   self2 = (if status = Error then self1\<lparr>br_failed := True\<rparr> else self1)
               in if written \<noteq> [] then Inl (Io_got written, self2)
                  else if status = Error then Inl (Io_error, self2)
                  else if status = Complete () then Inl (Io_end, self2)
                  else Inr self2))"

definition body_turn :: "'s io_reader \<Rightarrow> nat \<Rightarrow> 's body_reader \<Rightarrow> (io_result \<times> 's body_reader + 's body_reader) option" where
  "body_turn read capacity self =
     (if br_decoder self = None \<and> br_remaining self = 0 then Some (Inl (Io_end, self))
      else if (case br_decoder self of None \<Rightarrow> False | Some decoder \<Rightarrow> dec_phase decoder = Phase_done) then Some (Inl (Io_end, self))
      else if wire_pos self = length (wire self) then
        (case body_refill read self of
           None \<Rightarrow> None
         | Some (Io_pending, self1) \<Rightarrow> Some (Inl (Io_pending, self1))
         | Some (Io_got t, self1) \<Rightarrow> Some (body_take capacity self1)
         | Some (_, self1) \<Rightarrow> Some (Inl (Io_error, self1\<lparr>br_failed := True\<rparr>)))
      else Some (body_take capacity self))"

partial_function (option) body_loop :: "'s io_reader \<Rightarrow> nat \<Rightarrow> 's body_reader \<Rightarrow> (io_result \<times> 's body_reader) option" where
  "body_loop read capacity self =
     Option.bind (body_turn read capacity self) (\<lambda>turn.
       case turn of Inl answer \<Rightarrow> Some answer | Inr self1 \<Rightarrow> body_loop read capacity self1)"

definition ssize_max :: nat where
  "ssize_max = 2 ^ 63 - 1"

definition body_read :: "'s io_reader \<Rightarrow> 's body_reader io_reader" where
  "body_read read self room =
     (if room = 0 then Some (Io_end, self)
      else if br_failed self then Some (Io_error, self)
      else body_loop read (min room ssize_max) self)"

text \<open>The reads of a client, each with its room.\<close>

fun reads :: "'s io_reader \<Rightarrow> nat list \<Rightarrow> 's \<Rightarrow> (io_result list \<times> 's) option" where
  "reads read [] s = Some ([], s)"
| "reads read (n # ns) s =
     Option.bind (read s n) (\<lambda>(r, s1). Option.bind (reads read ns s1) (\<lambda>(rs, s2). Some (r # rs, s2)))"

text \<open>What a source was made to give, from one state of it to another.\<close>

inductive pulled :: "'s io_reader \<Rightarrow> nat \<Rightarrow> 's \<Rightarrow> 's \<Rightarrow> string \<Rightarrow> bool" for read cap s where
  pulled_none: "pulled read cap s s []"
| pulled_more: "pulled read cap s s1 t \<Longrightarrow> read s1 cap = Some (r, s2) \<Longrightarrow> pulled read cap s s2 (t @ io_text r)"

section \<open>Bodies in chunks\<close>

lemma feed_all_snoc:
  "feed_all d left (calls @ [(p, k)]) =
     (case feed_all d left calls of (d1, left1, outs) \<Rightarrow>
        case decoder_feed d1 (left1 @ p) k of (d2, n, o1, st) \<Rightarrow> (d2, drop n (left1 @ p), outs @ [o1]))"
  by (induction d left calls rule: feed_all.induct) (auto split: prod.splits)

text \<open>
  The state of a reader of chunks: the source gave \<open>t\<close> behind the bytes that were there, and the decoder has
  been fed with all of it but the unread bytes, in some pieces.
\<close>

definition chunked_state ::
  "'s io_reader \<Rightarrow> ('s \<Rightarrow> bool) \<Rightarrow> nat \<Rightarrow> 's \<Rightarrow> string \<Rightarrow> chunked_decoder \<Rightarrow> 's body_reader \<Rightarrow> chunked_decoder \<Rightarrow> string \<Rightarrow> string \<Rightarrow> bool" where
  "chunked_state read ok cap s0 w0 d0 self d t b \<longleftrightarrow>
     wire_pos self \<le> length (wire self) \<and> wire_capacity self = cap \<and> ok (br_source self) \<and> br_decoder self = Some d \<and>
     (br_failed self \<longrightarrow> dec_phase d \<noteq> Phase_done) \<and> pulled read cap s0 (br_source self) t \<and>
     (\<exists>calls outs. feed_all d0 w0 calls = (d, body_get_unread self, outs) \<and> concat (map fst calls) = t \<and> concat outs = b)"

lemma chunked_state_ok:
  assumes "chunked_state read ok cap s0 w0 d0 self d t b" "decoder_ok d0"
  shows "decoder_ok d"
proof -
  obtain calls outs where f: "feed_all d0 w0 calls = (d, body_get_unread self, outs)" using assms(1) by (auto simp: chunked_state_def)
  obtain d2 n2 o2 where "decoder_run d0 (w0 @ concat (map fst calls) @ []) = (d2, n2, o2)" by (rule prod_cases3)
  from feed_all_run [OF f assms(2) this] show ?thesis by simp
qed

text \<open>The bytes a turn takes from the source come behind the unread ones.\<close>

definition behind :: "'s body_reader \<Rightarrow> 's body_reader \<Rightarrow> string \<Rightarrow> bool" where
  "behind self self1 p \<longleftrightarrow> wire_pos self1 \<le> length (wire self1) \<and> wire_capacity self1 = wire_capacity self \<and> br_decoder self1 = br_decoder self \<and>
     br_remaining self1 = br_remaining self \<and> br_failed self1 = br_failed self \<and> body_get_unread self1 = body_get_unread self @ p"

lemma refill_behind:
  assumes "reader_contract read ok" "ok (br_source self)" "0 < wire_capacity self" "wire_pos self = length (wire self)"
  shows "\<exists>r self1. body_refill read self = Some (r, self1) \<and> ok (br_source self1) \<and> behind self self1 (io_text r) \<and>
    (\<forall>t. r = Io_got t \<longrightarrow> t \<noteq> []) \<and> (\<forall>s t. pulled read (wire_capacity self) s (br_source self) t \<longrightarrow>
       pulled read (wire_capacity self) s (br_source self1) (t @ io_text r))"
proof -
  obtain r s where r: "read (br_source self) (wire_capacity self) = Some (r, s)" "ok s" "\<forall>t. r = Io_got t \<longrightarrow> t \<noteq> []"
    using assms(1-3) unfolding reader_contract_def by blast
  have "pulled read (wire_capacity self) s0 s (t @ io_text r)" if "pulled read (wire_capacity self) s0 (br_source self) t" for s0 t
    using pulled_more [OF that r(1)] .
  then show ?thesis using r assms(4) by (cases r) (auto simp: body_refill_def behind_def body_get_unread_def)
qed

lemma take_chunked:
  assumes s: "chunked_state read ok cap s0 w0 d0 self d t b" "decoder_ok d0" and b: "behind self self1 p" "ok (br_source self1)"
    and p: "pulled read cap s0 (br_source self1) (t @ p)" and c: "0 < k" "body_get_unread self1 \<noteq> []" "\<not> br_failed self"
  shows "case body_take k self1 of
      Inl (r, self2) \<Rightarrow> \<exists>d'. chunked_state read ok cap s0 w0 d0 self2 d' (t @ p) (b @ io_text r) \<and>
        (r = Io_end \<longrightarrow> dec_phase d' = Phase_done) \<and> r \<noteq> Io_pending \<and> (\<forall>u. r = Io_got u \<longrightarrow> u \<noteq> [] \<and> length u \<le> k) \<and>
        (r = Io_error \<longrightarrow> dec_phase d' = Phase_error)
    | Inr self2 \<Rightarrow> \<exists>d'. chunked_state read ok cap s0 w0 d0 self2 d' (t @ p) b \<and> \<not> br_failed self2 \<and> metadata d < metadata d' \<and> metadata d' \<le> metadata_limit d' \<and> same_limits d d'"
proof -
  obtain calls outs where f: "feed_all d0 w0 calls = (d, body_get_unread self, outs)" "concat (map fst calls) = t" "concat outs = b"
    using s(1) by (auto simp: chunked_state_def)
  have dec: "br_decoder self1 = Some d" and un: "body_get_unread self1 = body_get_unread self @ p" using s(1) b(1) by (auto simp: chunked_state_def behind_def)
  obtain d' n w st where g: "decoder_feed d (body_get_unread self1) k = (d', n, w, st)" by (rule prod_cases4)
  have st: "st = decoder_status d'" using g by (auto simp: decoder_feed_def split: prod.splits)
  obtain d2 n2 o2 where run: "decoder_run d (body_get_unread self1 @ []) = (d2, n2, o2)" by (rule prod_cases3)
  note fr = feed_run [OF chunked_state_ok [OF s] g run]
  define self2 where "self2 = (if st = Error then self1\<lparr>br_decoder := Some d', wire_pos := wire_pos self1 + n, br_failed := True\<rparr>
    else self1\<lparr>br_decoder := Some d', wire_pos := wire_pos self1 + n\<rparr>)"
  have n: "n \<le> length (body_get_unread self1)" using fr by blast
  have u2: "body_get_unread self2 = drop n (body_get_unread self1)" by (simp add: self2_def body_get_unread_def add.commute)
  have f2: "feed_all d0 w0 (calls @ [(p, k)]) = (d', body_get_unread self2, outs @ [w])"
    using f(1) g unfolding un by (simp only: feed_all_snoc u2 un prod.case)
  have "wire_pos self2 \<le> length (wire self2)" using n b(1) by (auto simp: self2_def body_get_unread_def behind_def)
  moreover have "br_failed self2 \<longrightarrow> dec_phase d' \<noteq> Phase_done" using st c(3) b(1) by (auto simp: self2_def decoder_status_def behind_def)
  moreover have "\<exists>calls outs. feed_all d0 w0 calls = (d', body_get_unread self2, outs) \<and> concat (map fst calls) = t @ p \<and> concat outs = b @ w"
    using f2 f(2, 3) by (intro exI [of _ "calls @ [(p, k)]"] exI [of _ "outs @ [w]"]) simp
  moreover have "wire_capacity self2 = cap" "br_source self2 = br_source self1" "br_decoder self2 = Some d'"
    using s(1) b(1) by (auto simp: self2_def chunked_state_def behind_def)
  ultimately have st2: "chunked_state read ok cap s0 w0 d0 self2 d' (t @ p) (b @ w)" using b(2) p by (simp add: chunked_state_def)
  have t: "body_take k self1 = (if w \<noteq> [] then Inl (Io_got w, self2) else if st = Error then Inl (Io_error, self2)
      else if st = Complete () then Inl (Io_end, self2) else Inr self2)"
    using dec g by (simp add: body_take_def self2_def Let_def)
  show ?thesis
  proof (cases "w = [] \<and> st = Incomplete")
    case True
    then have "n = length (body_get_unread self1)" using fr c(1) by auto
    then have "metadata d < metadata d'" "metadata d' \<le> metadata_limit d'" "same_limits d d'" using fr True c(2) by (auto simp: decoder_ok_def)
    moreover have "\<not> br_failed self2" using True c(3) b(1) by (simp add: self2_def behind_def)
    ultimately show ?thesis using t True st2 by (auto intro!: exI [of _ d'])
  next
    case False
    have "length w \<le> k" using fr by blast
    then show ?thesis using t False st2 st by (cases st) (auto simp: decoder_status_def split: if_splits intro!: exI [of _ d'])
  qed
qed


text \<open>What a read of a chunked body answers.\<close>

definition chunked_answer ::
  "'s io_reader \<Rightarrow> ('s \<Rightarrow> bool) \<Rightarrow> nat \<Rightarrow> 's \<Rightarrow> string \<Rightarrow> chunked_decoder \<Rightarrow> nat \<Rightarrow> string \<Rightarrow> string \<Rightarrow> io_result \<Rightarrow> 's body_reader \<Rightarrow> bool" where
  "chunked_answer read ok cap s0 w0 d0 k t b r self \<longleftrightarrow>
     (\<exists>d p. chunked_state read ok cap s0 w0 d0 self d (t @ p) (b @ io_text r) \<and>
        (r = Io_end \<longrightarrow> dec_phase d = Phase_done) \<and> (\<forall>u. r = Io_got u \<longrightarrow> u \<noteq> [] \<and> length u \<le> k))"

lemma chunked_answer_more: "chunked_answer read ok cap s0 w0 d0 k (t @ p) b r self \<Longrightarrow> chunked_answer read ok cap s0 w0 d0 k t b r self"
  unfolding chunked_answer_def by (metis append.assoc)

lemma chunked_loop:
  assumes "reader_contract read ok" "0 < cap" "decoder_ok d0" "0 < k"
  shows "chunked_state read ok cap s0 w0 d0 self d t b \<Longrightarrow> \<not> br_failed self \<Longrightarrow>
    \<exists>r self'. body_loop read k self = Some (r, self') \<and> chunked_answer read ok cap s0 w0 d0 k t b r self' \<and>
      (dec_phase d = Phase_done \<longrightarrow> r = Io_end \<and> self' = self)"
proof (induction "metadata_limit d - metadata d" arbitrary: self d t rule: less_induct)
  case less
  note st = less.prems(1)
  have dec: "br_decoder self = Some d" and pos: "wire_pos self \<le> length (wire self)" and src: "ok (br_source self)" and cap: "wire_capacity self = cap"
    and pl: "pulled read cap s0 (br_source self) t"
    using st by (simp_all add: chunked_state_def)
  show ?case
  proof (cases "dec_phase d = Phase_done")
    case True
    then have "body_loop read k self = Some (Io_end, self)" using dec by (subst body_loop.simps) (simp add: body_turn_def)
    moreover have "chunked_answer read ok cap s0 w0 d0 k t b Io_end self"
      unfolding chunked_answer_def using st True by (intro exI [of _ d] exI [of _ "[]"]) simp
    ultimately show ?thesis by blast
  next
    case nd: False
    have go: "\<exists>r self'. body_loop read k self = Some (r, self') \<and> chunked_answer read ok cap s0 w0 d0 k t b r self'"
      if turn: "body_turn read k self = Some (body_take k self1)" and bh: "behind self self1 p" "ok (br_source self1)"
        "pulled read cap s0 (br_source self1) (t @ p)" "body_get_unread self1 \<noteq> []" for self1 p
    proof (cases "body_take k self1")
      case (Inl a)
      obtain r self2 where a: "a = (r, self2)" by (cases a)
      have "chunked_answer read ok cap s0 w0 d0 k t b r self2"
        using take_chunked [OF st assms(3) bh(1-3) assms(4) bh(4) less.prems(2)] unfolding Inl a chunked_answer_def by auto
      moreover have "body_loop read k self = Some (r, self2)" using turn Inl a by (subst body_loop.simps) simp
      ultimately show ?thesis by blast
    next
      case (Inr self2)
      obtain d' where d': "chunked_state read ok cap s0 w0 d0 self2 d' (t @ p) b" "\<not> br_failed self2" "metadata d < metadata d'"
          "metadata d' \<le> metadata_limit d'" "same_limits d d'"
        using take_chunked [OF st assms(3) bh(1-3) assms(4) bh(4) less.prems(2)] unfolding Inr by auto
      have "metadata_limit d' - metadata d' < metadata_limit d - metadata d" using d'(3-5) by (auto simp: same_limits_def)
      then obtain r self' where "body_loop read k self2 = Some (r, self')" "chunked_answer read ok cap s0 w0 d0 k (t @ p) b r self'"
        using less.hyps [OF _ d'(1, 2)] by blast
      moreover have "body_loop read k self = body_loop read k self2" using turn Inr by (subst body_loop.simps) simp
      ultimately show ?thesis using chunked_answer_more by metis
    qed
    have here: "body_turn read k self = (if wire_pos self = length (wire self) then
        (case body_refill read self of None \<Rightarrow> None | Some (Io_pending, self1) \<Rightarrow> Some (Inl (Io_pending, self1))
         | Some (Io_got t, self1) \<Rightarrow> Some (body_take k self1) | Some (_, self1) \<Rightarrow> Some (Inl (Io_error, self1\<lparr>br_failed := True\<rparr>)))
      else Some (body_take k self))"
      using dec nd by (simp add: body_turn_def)
    show ?thesis
    proof (cases "wire_pos self = length (wire self)")
      case False
      have "behind self self []" "body_get_unread self \<noteq> []" using pos False by (auto simp: behind_def body_get_unread_def)
      then show ?thesis using go [of self "[]"] here False src pl nd by simp
    next
      case True
      obtain q self1 where q: "body_refill read self = Some (q, self1)" "ok (br_source self1)" "behind self self1 (io_text q)"
          "\<forall>t. q = Io_got t \<longrightarrow> t \<noteq> []" "pulled read cap s0 (br_source self1) (t @ io_text q)"
        using refill_behind [OF assms(1) src, unfolded cap, OF assms(2) True] pl by blast
      show ?thesis
      proof (cases "\<exists>u. q = Io_got u")
        case True
        then obtain u where u: "q = Io_got u" by blast
        have "body_get_unread self1 \<noteq> []" using q(3, 4) u by (simp add: behind_def)
        then show ?thesis using go [of self1 u] here q u \<open>wire_pos self = _\<close> nd by simp
      next
        case False
        then have z: "io_text q = []" by (cases q) auto
        have same: "br_decoder self1 = Some d" "body_get_unread self1 = body_get_unread self" "wire_pos self1 \<le> length (wire self1)"
            "wire_capacity self1 = cap" "br_failed self1 = br_failed self"
          using q(3) dec z cap by (auto simp: behind_def)
        define self2 where "self2 = (if q = Io_pending then self1 else self1\<lparr>br_failed := True\<rparr>)"
        define r where "r = (if q = Io_pending then Io_pending else Io_error)"
        have "body_loop read k self = Some (r, self2)"
          using here \<open>wire_pos self = _\<close> q(1) False by (subst body_loop.simps) (cases q, auto simp: self2_def r_def)
        moreover have "chunked_state read ok cap s0 w0 d0 self2 d t b"
          using st same q(2, 5) z nd by (auto simp: chunked_state_def self2_def body_get_unread_def)
        then have "chunked_answer read ok cap s0 w0 d0 k t b r self2"
          unfolding chunked_answer_def by (intro exI [of _ d] exI [of _ "[]"]) (auto simp: r_def)
        ultimately show ?thesis using nd by blast
      qed
    qed
  qed
qed

lemma chunked_read:
  assumes "reader_contract read ok" "0 < cap" "decoder_ok d0" "chunked_state read ok cap s0 w0 d0 self d t b" "0 < n"
  shows "\<exists>r self'. body_read read self n = Some (r, self') \<and> chunked_answer read ok cap s0 w0 d0 n t b r self' \<and>
    (dec_phase d = Phase_done \<longrightarrow> r = Io_end \<and> self' = self)"
proof (cases "br_failed self")
  case True
  moreover have "chunked_answer read ok cap s0 w0 d0 n t b Io_error self"
    unfolding chunked_answer_def using assms(4) by (intro exI [of _ d] exI [of _ "[]"]) simp
  moreover have "dec_phase d \<noteq> Phase_done" using True assms(4) by (simp add: chunked_state_def)
  ultimately show ?thesis using assms(5) by (simp add: body_read_def)
next
  case False
  have "0 < min n ssize_max" using assms(5) by (simp add: ssize_max_def)
  then obtain r self' where l: "body_loop read (min n ssize_max) self = Some (r, self')" "chunked_answer read ok cap s0 w0 d0 (min n ssize_max) t b r self'"
      "dec_phase d = Phase_done \<longrightarrow> r = Io_end \<and> self' = self"
    using chunked_loop [OF assms(1-3) _ assms(4) False] by blast
  have "chunked_answer read ok cap s0 w0 d0 n t b r self'" using l(2) by (auto simp: chunked_answer_def)
  then show ?thesis using l assms(5) False by (simp add: body_read_def)
qed

section \<open>Bodies of a length\<close>

definition length_state ::
  "'s io_reader \<Rightarrow> ('s \<Rightarrow> bool) \<Rightarrow> nat \<Rightarrow> 's \<Rightarrow> string \<Rightarrow> nat \<Rightarrow> 's body_reader \<Rightarrow> string \<Rightarrow> string \<Rightarrow> bool" where
  "length_state read ok cap s0 w0 len self t b \<longleftrightarrow>
     wire_pos self \<le> length (wire self) \<and> wire_capacity self = cap \<and> ok (br_source self) \<and> br_decoder self = None \<and>
     (br_failed self \<longrightarrow> br_remaining self \<noteq> 0) \<and> pulled read cap s0 (br_source self) t \<and>
     length b + br_remaining self = len \<and> w0 @ t = b @ body_get_unread self"

lemma length_take:
  assumes s: "length_state read ok cap s0 w0 len self t b" and b: "behind self self1 p" "ok (br_source self1)"
    and p: "pulled read cap s0 (br_source self1) (t @ p)" and c: "0 < k" "body_get_unread self1 \<noteq> []" "\<not> br_failed self" "br_remaining self \<noteq> 0"
  shows "\<exists>u self2. body_take k self1 = Inl (Io_got u, self2) \<and> u \<noteq> [] \<and> length u \<le> k \<and> length_state read ok cap s0 w0 len self2 (t @ p) (b @ u)"
proof -
  define n where "n = min k (min (length (wire self1) - wire_pos self1) (br_remaining self1))"
  define u where "u = from_offset (wire self1) (wire_pos self1) n"
  define self2 where "self2 = self1\<lparr>wire_pos := wire_pos self1 + n, br_remaining := br_remaining self1 - n\<rparr>"
  have "body_take k self1 = Inl (Io_got u, self2)" using s b(1) by (simp add: body_take_def length_state_def behind_def n_def u_def self2_def Let_def)
  moreover have n: "0 < n" "n \<le> k" "n \<le> br_remaining self1" "wire_pos self1 + n \<le> length (wire self1)" "length u = n"
    using c b(1) by (auto simp: n_def u_def behind_def body_get_unread_def)
  moreover have "body_get_unread self1 = u @ body_get_unread self2"
    unfolding body_get_unread_def u_def self2_def by (simp add: from_offset_def add.commute [of _ n] drop_drop [symmetric] del: drop_drop)
  then have "w0 @ t @ p = (b @ u) @ body_get_unread self2" using s b(1) by (simp add: length_state_def behind_def)
  then have "length_state read ok cap s0 w0 len self2 (t @ p) (b @ u)"
    using s b n p c(3) by (simp add: length_state_def behind_def self2_def)
  ultimately show ?thesis by auto
qed

text \<open>A body is finished when its length has been handed out or its decoder is done.\<close>

definition body_finished :: "'s body_reader \<Rightarrow> bool" where
  "body_finished self \<longleftrightarrow> (case br_decoder self of None \<Rightarrow> br_remaining self = 0 | Some d \<Rightarrow> dec_phase d = Phase_done)"

lemma length_read:
  assumes "reader_contract read ok" "0 < cap" "length_state read ok cap s0 w0 len self t b" "0 < n"
  shows "\<exists>r self' p. body_read read self n = Some (r, self') \<and> length_state read ok cap s0 w0 len self' (t @ p) (b @ io_text r) \<and>
    (r = Io_end \<longrightarrow> body_finished self') \<and> (\<forall>u. r = Io_got u \<longrightarrow> u \<noteq> [] \<and> length u \<le> n) \<and>
    (body_finished self \<longrightarrow> r = Io_end \<and> self' = self)"
proof -
  note st = assms(3)
  have dec: "br_decoder self = None" and pos: "wire_pos self \<le> length (wire self)" and src: "ok (br_source self)" and cap: "wire_capacity self = cap"
    and pl: "pulled read cap s0 (br_source self) t"
    using st by (simp_all add: length_state_def)
  have fin: "body_finished self \<longleftrightarrow> br_remaining self = 0" using dec by (simp add: body_finished_def)
  let ?k = "min n ssize_max"
  have k: "0 < ?k" using assms(4) by (simp add: ssize_max_def)
  consider (failed) "br_failed self" | (finished) "\<not> br_failed self" "br_remaining self = 0" | (run) "\<not> br_failed self" "br_remaining self \<noteq> 0" by blast
  then show ?thesis
  proof cases
    case failed
    then have "body_read read self n = Some (Io_error, self)" "br_remaining self \<noteq> 0"
      using assms(4) st by (simp_all add: body_read_def length_state_def)
    then show ?thesis using st fin by (intro exI [of _ Io_error] exI [of _ self] exI [of _ "[]"]) simp
  next
    case finished
    then have "body_read read self n = Some (Io_end, self)"
      using assms(4) dec by (simp add: body_read_def) (subst body_loop.simps, simp add: body_turn_def)
    then show ?thesis using st fin finished by (intro exI [of _ Io_end] exI [of _ self] exI [of _ "[]"]) simp
  next
    case run
    have here: "body_turn read ?k self = (if wire_pos self = length (wire self) then
        (case body_refill read self of None \<Rightarrow> None | Some (Io_pending, self1) \<Rightarrow> Some (Inl (Io_pending, self1))
         | Some (Io_got t, self1) \<Rightarrow> Some (body_take ?k self1) | Some (_, self1) \<Rightarrow> Some (Inl (Io_error, self1\<lparr>br_failed := True\<rparr>)))
      else Some (body_take ?k self))"
      using dec run by (simp add: body_turn_def)
    have go: ?thesis if turn: "body_turn read ?k self = Some (body_take ?k self1)" and bh: "behind self self1 p" "ok (br_source self1)"
        "pulled read cap s0 (br_source self1) (t @ p)" "body_get_unread self1 \<noteq> []" for self1 p
    proof -
      obtain u self2 where u: "body_take ?k self1 = Inl (Io_got u, self2)" "u \<noteq> []" "length u \<le> ?k"
          "length_state read ok cap s0 w0 len self2 (t @ p) (b @ u)"
        using length_take [OF st bh(1-3) k bh(4) run] by blast
      have "body_read read self n = Some (Io_got u, self2)"
        using assms(4) run(1) turn u(1) by (simp add: body_read_def) (subst body_loop.simps, simp)
      then show ?thesis using u fin run by (intro exI [of _ "Io_got u"] exI [of _ self2] exI [of _ p]) simp
    qed
    show ?thesis
    proof (cases "wire_pos self = length (wire self)")
      case False
      have "behind self self []" "body_get_unread self \<noteq> []" using pos False by (auto simp: behind_def body_get_unread_def)
      then show ?thesis using go [of self "[]"] here False src pl by simp
    next
      case True
      obtain q self1 where q: "body_refill read self = Some (q, self1)" "ok (br_source self1)" "behind self self1 (io_text q)"
          "\<forall>t. q = Io_got t \<longrightarrow> t \<noteq> []" "pulled read cap s0 (br_source self1) (t @ io_text q)"
        using refill_behind [OF assms(1) src, unfolded cap, OF assms(2) True] pl by blast
      show ?thesis
      proof (cases "\<exists>u. q = Io_got u")
        case True
        then obtain u where u: "q = Io_got u" by blast
        have "body_get_unread self1 \<noteq> []" using q(3, 4) u by (simp add: behind_def)
        then show ?thesis using go [of self1 u] here q u \<open>wire_pos self = _\<close> by simp
      next
        case False
        then have z: "io_text q = []" by (cases q) auto
        define self2 where "self2 = (if q = Io_pending then self1 else self1\<lparr>br_failed := True\<rparr>)"
        define r where "r = (if q = Io_pending then Io_pending else Io_error)"
        have "body_read read self n = Some (r, self2)"
          using here \<open>wire_pos self = _\<close> q(1) False run(1) assms(4)
          by (simp add: body_read_def) (subst body_loop.simps, cases q, auto simp: self2_def r_def)
        moreover have "length_state read ok cap s0 w0 len self2 t b"
          using st q(2, 3, 5) z run by (auto simp: length_state_def self2_def behind_def body_get_unread_def)
        ultimately show ?thesis using fin run by (intro exI [of _ r] exI [of _ self2] exI [of _ "[]"]) (auto simp: r_def)
      qed
    qed
  qed
qed


section \<open>Reads to the end\<close>

text \<open>
  A reader of a body, of either framing: with each read the source may give more, what the read hands out
  follows what was handed out before, the end is reported only when the body is finished and from then on always.
\<close>

locale body_delivery =
  fixes read :: "'r io_reader" and state :: "'r \<Rightarrow> string \<Rightarrow> string \<Rightarrow> bool" and finished :: "'r \<Rightarrow> bool"
  assumes step: "state self t b \<Longrightarrow> 0 < n \<Longrightarrow>
    \<exists>r self' p. read self n = Some (r, self') \<and> state self' (t @ p) (b @ io_text r) \<and> (r = Io_end \<longrightarrow> finished self') \<and>
      (\<forall>u. r = Io_got u \<longrightarrow> u \<noteq> [] \<and> length u \<le> n) \<and> (finished self \<longrightarrow> r = Io_end \<and> self' = self)"
begin

lemma contract: "reader_contract read (\<lambda>self. \<exists>t b. state self t b)"
  unfolding reader_contract_def using step by metis

lemma delivers:
  "state self t b \<Longrightarrow> list_all (\<lambda>n. 0 < n) ns \<Longrightarrow>
   \<exists>rs self' p. reads read ns self = Some (rs, self') \<and> state self' (t @ p) (b @ concat (map io_text rs)) \<and>
     list_all2 (\<lambda>r n. length (io_text r) \<le> n) rs ns \<and> (Io_end \<in> set rs \<or> finished self \<longrightarrow> finished self')"
proof (induction ns arbitrary: self t b)
  case Nil
  then show ?case by (auto intro!: exI [of _ "[]"])
next
  case (Cons n ns)
  have n: "0 < n" using Cons.prems(2) by simp
  obtain r self1 p1 where r: "read self n = Some (r, self1)" "state self1 (t @ p1) (b @ io_text r)" "r = Io_end \<longrightarrow> finished self1"
      "\<forall>u. r = Io_got u \<longrightarrow> u \<noteq> [] \<and> length u \<le> n" "finished self \<longrightarrow> r = Io_end \<and> self1 = self"
    using step [OF Cons.prems(1) n] by blast
  obtain rs self' p where IH: "reads read ns self1 = Some (rs, self')" "state self' ((t @ p1) @ p) ((b @ io_text r) @ concat (map io_text rs))"
      "list_all2 (\<lambda>r n. length (io_text r) \<le> n) rs ns" "Io_end \<in> set rs \<or> finished self1 \<longrightarrow> finished self'"
    using Cons.IH [OF r(2)] Cons.prems(2) by auto
  have "reads read (n # ns) self = Some (r # rs, self')" using r(1) IH(1) by simp
  moreover have "state self' (t @ (p1 @ p)) (b @ concat (map io_text (r # rs)))" using IH(2) by simp
  moreover have "list_all2 (\<lambda>r n. length (io_text r) \<le> n) (r # rs) (n # ns)" using IH(3) r(4) by (cases r) auto
  moreover have "Io_end \<in> set (r # rs) \<or> finished self \<longrightarrow> finished self'" using IH(4) r(3, 5) by auto
  ultimately show ?case by blast
qed

end

interpretation chunked_body: body_delivery "body_read src"
  "\<lambda>self t b. reader_contract src ok \<and> 0 < cap \<and> decoder_ok d0 \<and> (\<exists>d. chunked_state src ok cap s0 w0 d0 self d t b)" body_finished
  for src ok cap s0 w0 d0
proof (unfold_locales, elim conjE exE)
  fix self t b n d
  assume a: "0 < (n :: nat)" "reader_contract src ok" "0 < cap" "decoder_ok d0" "chunked_state src ok cap s0 w0 d0 self d t b"
  obtain r self' where r: "body_read src self n = Some (r, self')" "chunked_answer src ok cap s0 w0 d0 n t b r self'"
      "dec_phase d = Phase_done \<longrightarrow> r = Io_end \<and> self' = self"
    using chunked_read [OF a(2-5) a(1)] by blast
  obtain d' p where s: "chunked_state src ok cap s0 w0 d0 self' d' (t @ p) (b @ io_text r)" "r = Io_end \<longrightarrow> dec_phase d' = Phase_done"
      "\<forall>u. r = Io_got u \<longrightarrow> u \<noteq> [] \<and> length u \<le> n"
    using r(2) unfolding chunked_answer_def by blast
  have "body_finished self \<longleftrightarrow> dec_phase d = Phase_done" "body_finished self' \<longleftrightarrow> dec_phase d' = Phase_done"
    using a(5) s(1) by (simp_all add: body_finished_def chunked_state_def)
  then show "\<exists>r self' p. body_read src self n = Some (r, self') \<and>
      (reader_contract src ok \<and> 0 < cap \<and> decoder_ok d0 \<and> (\<exists>d. chunked_state src ok cap s0 w0 d0 self' d (t @ p) (b @ io_text r))) \<and>
      (r = Io_end \<longrightarrow> body_finished self') \<and> (\<forall>u. r = Io_got u \<longrightarrow> u \<noteq> [] \<and> length u \<le> n) \<and> (body_finished self \<longrightarrow> r = Io_end \<and> self' = self)"
    using r(1, 3) s a(2-4) by blast
qed

interpretation length_body: body_delivery "body_read src"
  "\<lambda>self t b. reader_contract src ok \<and> 0 < cap \<and> length_state src ok cap s0 w0 len self t b" body_finished
  for src ok cap s0 w0 len
proof (unfold_locales, elim conjE)
  fix self t b n
  assume a: "0 < (n :: nat)" "reader_contract src ok" "0 < cap" "length_state src ok cap s0 w0 len self t b"
  show "\<exists>r self' p. body_read src self n = Some (r, self') \<and>
      (reader_contract src ok \<and> 0 < cap \<and> length_state src ok cap s0 w0 len self' (t @ p) (b @ io_text r)) \<and>
      (r = Io_end \<longrightarrow> body_finished self') \<and> (\<forall>u. r = Io_got u \<longrightarrow> u \<noteq> [] \<and> length u \<le> n) \<and> (body_finished self \<longrightarrow> r = Io_end \<and> self' = self)"
    using length_read [OF a(2-4) a(1)] a(2, 3) by (simp only: simp_thms)
qed

lemma chunked_init_state:
  "ok s0 \<Longrightarrow> chunked_state src ok cap s0 w0 d0 (body_init_chunked s0 w0 cap d0) d0 [] []"
  by (simp add: chunked_state_def body_init_chunked_def body_init_length_def body_get_unread_def pulled_none)
    (rule exI [of _ "[]"], simp)

lemma length_init_state: "ok s0 \<Longrightarrow> length_state src ok cap s0 w0 len (body_init_length s0 w0 cap len) [] []"
  by (simp add: length_state_def body_init_length_def body_get_unread_def pulled_none)

text \<open>
  C21: reads of a chunked body always return, whatever room they are given and however the source
  cuts the wire, pauses or fails, and never hand out more than their room. When one reports the end, the wire taken
  so far is a body of the grammar within the limits followed by exactly the unread bytes, and the reads together
  handed out exactly its data. On a wire that begins with such a body nothing else is ever handed out.
\<close>

theorem body_chunked_delivers:
  assumes "reader_contract src ok" "ok s0" "0 < cap" "list_all (\<lambda>n. 0 < n) ns"
  shows "\<exists>rs self t. reads (body_read src) ns (body_init_chunked s0 w0 cap (decoder_init c l m)) = Some (rs, self) \<and>
    pulled src cap s0 (br_source self) t \<and> list_all2 (\<lambda>r n. length (io_text r) \<le> n) rs ns \<and>
    (Io_end \<in> set rs \<longrightarrow> (\<exists>cs ln fs. w0 @ t = chunked_text cs ln fs @ body_get_unread self \<and> good_chunked cs ln fs \<and>
       within c l m cs ln fs \<and> concat (map io_text rs) = chunked_body cs)) \<and>
    (w0 @ t = chunked_text cs ln fs @ rest \<and> good_chunked cs ln fs \<and> within c l m cs ln fs \<longrightarrow>
       prefix (concat (map io_text rs)) (chunked_body cs))"
proof -
  let ?d = "decoder_init c l m"
  obtain rs self t d where r: "reads (body_read src) ns (body_init_chunked s0 w0 cap ?d) = Some (rs, self)"
      "chunked_state src ok cap s0 w0 ?d self d t (concat (map io_text rs))" "list_all2 (\<lambda>r n. length (io_text r) \<le> n) rs ns"
      "Io_end \<in> set rs \<longrightarrow> body_finished self"
    using chunked_body.delivers [of src ok cap ?d s0 w0 "body_init_chunked s0 w0 cap ?d" "[]" "[]" ns]
      chunked_init_state [of ok s0 src cap w0 ?d] assms decoder_init_ok by auto
  obtain calls outs where f: "feed_all ?d w0 calls = (d, body_get_unread self, outs)" "concat (map fst calls) = t" "concat outs = concat (map io_text rs)"
    using r(2) by (auto simp: chunked_state_def)
  note e = session_exact [OF f(1), unfolded f(2, 3)]
  have "pulled src cap s0 (br_source self) t" "body_finished self \<longleftrightarrow> dec_phase d = Phase_done"
    using r(2) by (simp_all add: chunked_state_def body_finished_def)
  moreover have "prefix (concat (map io_text rs)) (chunked_body cs)"
    if "w0 @ t = chunked_text cs ln fs @ rest \<and> good_chunked cs ln fs \<and> within c l m cs ln fs"
    using e [of cs ln fs rest] that by (metis prefixI)
  ultimately show ?thesis using r(1, 3, 4) e by blast
qed

text \<open>
  Reads of a body with a length always return and never hand out more than their room; together
  they hand out the beginning of the wire up to that length, and all of it, with exactly the bytes behind it
  left unread, once one of them reports the end.
\<close>

theorem body_length_delivers:
  assumes "reader_contract src ok" "ok s0" "0 < cap" "list_all (\<lambda>n. 0 < n) ns"
  shows "\<exists>rs self t. reads (body_read src) ns (body_init_length s0 w0 cap len) = Some (rs, self) \<and>
    pulled src cap s0 (br_source self) t \<and> list_all2 (\<lambda>r n. length (io_text r) \<le> n) rs ns \<and>
    w0 @ t = concat (map io_text rs) @ body_get_unread self \<and> length (concat (map io_text rs)) \<le> len \<and>
    (Io_end \<in> set rs \<longrightarrow> length (concat (map io_text rs)) = len)"
proof -
  obtain rs self t where r: "reads (body_read src) ns (body_init_length s0 w0 cap len) = Some (rs, self)"
      "length_state src ok cap s0 w0 len self t (concat (map io_text rs))" "list_all2 (\<lambda>r n. length (io_text r) \<le> n) rs ns"
      "Io_end \<in> set rs \<longrightarrow> body_finished self"
    using length_body.delivers [of src ok cap s0 w0 len "body_init_length s0 w0 cap len" "[]" "[]" ns]
      length_init_state [of ok s0 src cap w0 len] assms by auto
  then show ?thesis
    by (intro exI [of _ rs] exI [of _ self] exI [of _ t]) (auto simp: length_state_def body_finished_def)
qed

text \<open>
  The reader of a body is a reader like its source: wherever the source keeps the contract of readers (a read
  returns, and what it gives is not empty and fits the room), so does every read of the body.
\<close>

theorem body_read_contract:
  assumes "reader_contract src ok" "0 < cap"
  shows "reader_contract (body_read src) (\<lambda>self. \<exists>t b. (\<exists>d. chunked_state src ok cap s0 w0 (decoder_init c l m) self d t b)) \<and>
    reader_contract (body_read src) (\<lambda>self. \<exists>t b. length_state src ok cap s0 w0 len self t b)"
  using chunked_body.contract [of src ok cap "decoder_init c l m" s0 w0] length_body.contract [of src ok cap s0 w0 len] assms decoder_init_ok
  by simp

text \<open>A source that gives a text in pieces, each a read, and then has nothing yet.\<close>

fun script_read :: "string list io_reader" where
  "script_read [] n = Some (Io_pending, [])"
| "script_read (t # ts) n = (if t = [] then Some (Io_pending, ts) else if length t \<le> n then Some (Io_got t, ts)
     else Some (Io_got (take n t), drop n t # ts))"

lemma script_contract: "reader_contract script_read (\<lambda>s. True)"
  unfolding reader_contract_def
proof (intro allI impI)
  fix s :: "string list" and n :: nat assume "0 < n"
  then show "\<exists>r s'. script_read s n = Some (r, s') \<and> True \<and> (\<forall>t. r = Io_got t \<longrightarrow> t \<noteq> [] \<and> length t \<le> n)"
    by (cases "(s, n)" rule: script_read.cases) auto
qed

lemma sample_room: "0 < (8 :: nat)" "list_all (\<lambda>n. 0 < n) [4, 4, 4, 4 :: nat]"
  by simp_all

theorem body_chunked_delivers_witness:
  "\<exists>rs self t. reads (body_read script_read) [4, 4, 4, 4] (body_init_chunked [''hi'' @ crlf, [], ''0'' @ crlf @ crlf @ ''x''] (''2'' @ crlf) 8
     (decoder_init 8 8 30)) = Some (rs, self) \<and>
     pulled script_read 8 [''hi'' @ crlf, [], ''0'' @ crlf @ crlf @ ''x''] (br_source self) t \<and>
     list_all2 (\<lambda>r n. length (io_text r) \<le> n) rs [4, 4, 4, 4]"
  using body_chunked_delivers [OF script_contract TrueI sample_room, of "[''hi'' @ crlf, [], ''0'' @ crlf @ crlf @ ''x'']" "''2'' @ crlf" 8 8 30]
  by blast

theorem body_length_delivers_witness:
  "\<exists>rs self t. reads (body_read script_read) [4, 4, 4, 4] (body_init_length [''cd'', ''ef''] ''ab'' 8 3) = Some (rs, self) \<and>
     ''ab'' @ t = concat (map io_text rs) @ body_get_unread self \<and> length (concat (map io_text rs)) \<le> 3"
  using body_length_delivers [OF script_contract TrueI sample_room, of "[''cd'', ''ef'']" "''ab''" 3] by blast

theorem body_read_contract_witness:
  "reader_contract (body_read script_read) (\<lambda>self. \<exists>t b. length_state script_read (\<lambda>s. True) 8 [''cd''] ''ab'' 3 self t b)"
  using body_read_contract [OF script_contract sample_room(1), of "[''cd'']" "''ab''" 1 1 1 3] by blast

end
