(* ===== verification/Http_Framing.thy ===== *)
theory Http_Framing
  imports Http_Chunked
begin

text \<open>
  The framing of a message by its fields (\<^verbatim>\<open>src/lh/core/http/framing.c\<close>), the expectation
  (\<^verbatim>\<open>src/lh/core/http/expect.c\<close>) and the coding of its content (\<^verbatim>\<open>src/lh/core/http/content/encoding.c\<close>). A field is
  looked for by its position, as the code does; shown is what follows for all fields of that name: the
  framing that is accepted is the only one the message admits.
\<close>

section \<open>Framing\<close>

definition transfer_encoding :: string where "transfer_encoding = ''Transfer-Encoding''"
definition content_length :: string where "content_length = ''Content-Length''"
definition content_encoding :: string where "content_encoding = ''Content-Encoding''"
definition expect_name :: string where "expect_name = ''Expect''"

definition view_split_next_of :: "string \<Rightarrow> string \<Rightarrow> nat \<Rightarrow> (string \<times> bool \<times> nat) option" where
  "view_split_next_of self delims pos = (if self = [] then None else split_next_of self delims pos)"

text \<open>Whether the body is chunked and whether it is compressed before that: of a value, and of a message.\<close>

definition framing_parse_transfer :: "string \<Rightarrow> (bool \<times> bool) option" where
  "framing_parse_transfer v =
     (case view_split_next_of v '','' 0 of
        None \<Rightarrow> None
      | Some (part, delimiter, position) \<Rightarrow>
          let part1 = view_trim part
          in if view_equals part1 ''chunked'' True \<and> \<not> delimiter then Some (True, False)
             else if \<not> view_equals part1 ''gzip'' True \<or> \<not> delimiter then None
             else (case view_split_next_of v '','' position of
                     None \<Rightarrow> None
                   | Some (part2, delimiter2, position2) \<Rightarrow>
                       if delimiter2 then None
                       else if \<not> view_equals (view_trim part2) ''chunked'' True then None
                       else Some (True, True)))"

definition framing_try_get_transfer :: "http_header list \<Rightarrow> (bool \<times> bool) option" where
  "framing_try_get_transfer headers =
     (case header_find headers transfer_encoding of
        None \<Rightarrow> Some (False, False)
      | Some field \<Rightarrow>
          let next' = field + 1
          in if header_find (drop next' headers) transfer_encoding \<noteq> None \<or> header_find headers content_length \<noteq> None then None
             else framing_parse_transfer (val (headers ! field)))"

definition framing_get_transfer :: "http_header list \<Rightarrow> error_code + bool \<times> bool" where
  "framing_get_transfer headers = (case framing_try_get_transfer headers of None \<Rightarrow> Inl Invalid_range | Some r \<Rightarrow> Inr r)"

definition framing_try_is_chunked :: "http_header list \<Rightarrow> bool option" where
  "framing_try_is_chunked headers = map_option fst (framing_try_get_transfer headers)"

definition framing_is_chunked :: "http_header list \<Rightarrow> error_code + bool" where
  "framing_is_chunked headers = (case framing_try_is_chunked headers of None \<Rightarrow> Inl Invalid_range | Some r \<Rightarrow> Inr r)"

definition framing_try_get_content_length :: "http_header list \<Rightarrow> nat option" where
  "framing_try_get_content_length headers =
     (if header_find headers transfer_encoding \<noteq> None then None
      else case header_find headers content_length of
        None \<Rightarrow> Some 0
      | Some index \<Rightarrow>
          let next' = index + 1
          in if header_find (drop next' headers) content_length \<noteq> None then None
             else
               let v = val (headers ! index)
               in if v = [] then None
                  else (case parse_ullong_digits (- 1) v of None \<Rightarrow> None | Some n \<Rightarrow> Some (unat n)))"

definition framing_get_content_length :: "http_header list \<Rightarrow> error_code + nat" where
  "framing_get_content_length headers =
     (case framing_try_get_content_length headers of None \<Rightarrow> Inl Invalid_range | Some n \<Rightarrow> Inr n)"

section \<open>Content coding and expectations\<close>

definition content_encoding_try_is_gzip :: "http_header list \<Rightarrow> bool option" where
  "content_encoding_try_is_gzip headers =
     (case header_find headers content_encoding of
        None \<Rightarrow> Some False
      | Some field \<Rightarrow>
          let next' = field + 1
          in if header_find (drop next' headers) content_encoding \<noteq> None then None
             else if view_equals (val (headers ! field)) ''gzip'' True then Some True
             else if view_equals (val (headers ! field)) ''identity'' True then Some False
             else None)"

definition content_encoding_is_gzip :: "http_header list \<Rightarrow> error_code + bool" where
  "content_encoding_is_gzip headers = (case content_encoding_try_is_gzip headers of None \<Rightarrow> Inl Invalid_range | Some r \<Rightarrow> Inr r)"

text \<open>The loop over the members of one value: whether there was a member, or \<open>None\<close> when one is not the expected.\<close>

lemma split_next_of_pos: "split_next_of s ds pos = Some (part, d, pos') \<Longrightarrow> pos < length s \<and> pos < pos'"
  by (auto simp: split_next_of_def Let_def split: if_splits option.splits)

function expect_members :: "string \<Rightarrow> nat \<Rightarrow> bool \<Rightarrow> bool option" where
  "expect_members v pos member =
     (case view_split_next_of v '','' pos of
        None \<Rightarrow> Some member
      | Some (part, delimiter, pos') \<Rightarrow>
          let part1 = view_trim part
          in if part1 = [] then expect_members v pos' member
             else if \<not> view_equals part1 ''100-continue'' True then None
             else expect_members v pos' True)"
  by pat_completeness auto

termination expect_members
  by (relation "measure (\<lambda>(v, pos, member). length v - pos)")
    (auto simp: view_split_next_of_def split: if_splits dest!: split_next_of_pos sym [of _ "view_split_next_of _ _ _"])

declare expect_members.simps [simp del]

text \<open>The loop over the fields; \<open>headers\<close> are those behind the last one found.\<close>

lemma header_find_less: "header_find hs w = Some i \<Longrightarrow> i < length hs"
  by (induction hs arbitrary: i) (auto split: if_splits)

function expect_fields :: "http_header list \<Rightarrow> bool \<Rightarrow> bool option" where
  "expect_fields headers found =
     (case header_find headers expect_name of
        None \<Rightarrow> Some found
      | Some field \<Rightarrow>
          (case expect_members (val (headers ! field)) 0 False of
             None \<Rightarrow> None
           | Some member \<Rightarrow> if \<not> member then None else expect_fields (drop (field + 1) headers) True))"
  by pat_completeness auto

termination expect_fields
  by (relation "measure (\<lambda>(headers, found). length headers)") (auto dest: header_find_less)

declare expect_fields.simps [simp del]

definition expect_try_get_continue :: "http_header list \<Rightarrow> bool option" where
  "expect_try_get_continue headers = (if headers = [] then Some False else expect_fields headers False)"

definition expect_get_continue :: "http_header list \<Rightarrow> error_code + bool" where
  "expect_get_continue headers = (case expect_try_get_continue headers of None \<Rightarrow> Inl Invalid_range | Some r \<Rightarrow> Inr r)"

section \<open>What is accepted\<close>

text \<open>The values of all fields of a name.\<close>

definition field_values :: "string \<Rightarrow> http_header list \<Rightarrow> string list" where
  "field_values wanted hs = map val (filter (\<lambda>h. view_equals (name h) wanted True) hs)"

lemma field_values_simps [simp]:
  "field_values w [] = []"
  "field_values w (h # hs) = (if view_equals (name h) w True then val h # field_values w hs else field_values w hs)"
  by (simp_all add: field_values_def)

lemma find_none: "header_find hs w = None \<longleftrightarrow> field_values w hs = []"
  by (induction hs) auto

lemma find_some: "header_find hs w = Some i \<Longrightarrow> field_values w hs = val (hs ! i) # field_values w (drop (Suc i) hs)"
  by (induction hs arbitrary: i) (auto split: if_splits)

lemma find_only:
  "header_find hs w = Some i \<Longrightarrow> header_find (drop (Suc i) hs) w = None \<longleftrightarrow> field_values w hs = [val (hs ! i)]"
  by (simp add: find_none find_some)

lemma split_comma:
  assumes "pos \<le> length v"
  shows "view_split_next_of v '','' pos = (if drop pos v = [] then None
    else let a = takeWhile (\<lambda>c. c \<noteq> CHR '','') (drop pos v)
      in if length a < length (drop pos v) then Some (a, True, pos + length a + 1) else Some (drop pos v, False, length v))"
  using assms by (auto simp: view_split_next_of_def split_next_of_def find_of_chars_def Let_def takeWhile_eq_take [symmetric])

text \<open>
  \<open>chunked\<close> or \<open>gzip , chunked\<close>, in any case and with blanks around each.
\<close>

definition transfer_value :: "string \<Rightarrow> bool \<Rightarrow> bool" where
  "transfer_value v gz \<longleftrightarrow>
     (if gz then \<exists>a b. v = a @ CHR '','' # b \<and> CHR '','' \<notin> set a \<and> CHR '','' \<notin> set b \<and>
          view_equals (view_trim a) ''gzip'' True \<and> view_equals (view_trim b) ''chunked'' True
      else CHR '','' \<notin> set v \<and> view_equals (view_trim v) ''chunked'' True)"


lemma split_no_more:
  assumes "pos \<le> length v" "CHR '','' \<notin> set (drop pos v)"
  shows "view_split_next_of v '','' pos = (if drop pos v = [] then None else Some (drop pos v, False, length v))"
proof -
  have "takeWhile (\<lambda>c. c \<noteq> CHR '','') (drop pos v) = drop pos v" using assms(2) by (auto simp: takeWhile_eq_all_conv)
  from this [THEN arg_cong [of _ _ length]] this show ?thesis unfolding split_comma [OF assms(1)] Let_def by (simp only: less_irrefl if_False)
qed

lemma split_more:
  assumes "pos \<le> length v" "drop pos v = a @ CHR '','' # b" "CHR '','' \<notin> set a"
  shows "view_split_next_of v '','' pos = Some (a, True, pos + length a + 1)" "drop (pos + length a + 1) v = b" "pos + length a + 1 \<le> length v"
proof -
  have "list_all (\<lambda>c. c \<noteq> CHR '','') a" using assms(3) by (auto simp: list_all_iff)
  then have "takeWhile (\<lambda>c. c \<noteq> CHR '','') (drop pos v) = a"
    using takeWhile_cut [of "\<lambda>c. c \<noteq> CHR '',''" a "CHR '',''" b] assms(2) by simp
  then show "view_split_next_of v '','' pos = Some (a, True, pos + length a + 1)" by (simp add: split_comma [OF assms(1)] assms(2))
  have "drop (pos + length a + 1) v = drop (length a + 1) (drop pos v)" by (simp add: add.commute add.left_commute)
  then show "drop (pos + length a + 1) v = b" by (simp add: assms(2))
  show "pos + length a + 1 \<le> length v" using arg_cong [OF assms(2), of length] assms(1) by simp
qed

lemma comma_cases:
  obtains (one) "CHR '','' \<notin> set w" | (more) a b where "w = a @ CHR '','' # b" "CHR '','' \<notin> set a"
  by (meson split_list_first)

lemma comma_split: "CHR '','' \<notin> set a \<Longrightarrow> CHR '','' \<notin> set a' \<Longrightarrow> a @ CHR '','' # b = a' @ CHR '','' # b' \<longleftrightarrow> a = a' \<and> b = b'"
  by (auto simp: append_eq_append_conv2 append_eq_Cons_conv Cons_eq_append_conv)

lemma transfer_of_value: "framing_parse_transfer v = Some (c, gz) \<longleftrightarrow> c \<and> transfer_value v gz"
proof (cases v rule: comma_cases)
  case one
  have ne: "v \<noteq> []" if "view_equals (view_trim v) ''chunked'' True" using that by (auto simp: view_equals_iff view_trim_def view_ltrim_def view_rtrim_def find_not_of_def rfind_not_of_def)
  have "view_split_next_of v '','' 0 = (if v = [] then None else Some (v, False, length v))" using split_no_more [of 0 v] one by simp
  then show ?thesis using one ne by (auto simp: framing_parse_transfer_def transfer_value_def Let_def)
next
  case (more a b)
  have "drop 0 v = a @ CHR '','' # b" using more(1) by simp
  note s = split_more [OF _ this more(2), simplified]
  have t: "transfer_value v gz \<longleftrightarrow> gz \<and> CHR '','' \<notin> set b \<and> view_equals (view_trim a) ''gzip'' True \<and> view_equals (view_trim b) ''chunked'' True"
    using comma_split [OF more(2)] more by (auto simp: transfer_value_def)
  have ne: "b \<noteq> []" if "view_equals (view_trim b) ''chunked'' True" using that by (auto simp: view_equals_iff view_trim_def view_ltrim_def view_rtrim_def find_not_of_def rfind_not_of_def)
  show ?thesis
  proof (cases b rule: comma_cases)
    case one
    have "view_split_next_of v '','' (Suc (length a)) = (if b = [] then None else Some (b, False, length v))"
      using split_no_more [of "Suc (length a)" v] s(2, 3) one by simp
    then show ?thesis using s(1) t one ne by (auto simp: framing_parse_transfer_def Let_def)
  next
    case m: (more a2 b2)
    have "view_split_next_of v '','' (Suc (length a)) = Some (a2, True, Suc (length a) + length a2 + 1)"
      using split_more(1) [of "Suc (length a)" v a2 b2] s(2, 3) m by simp
    then show ?thesis using s(1) t m by (auto simp: framing_parse_transfer_def Let_def)
  qed
qed

lemma transfer_exact:
  "framing_try_get_transfer hs = Some (c, gz) \<longleftrightarrow>
     field_values transfer_encoding hs = [] \<and> \<not> c \<and> \<not> gz \<or>
     (\<exists>v. field_values transfer_encoding hs = [v] \<and> field_values content_length hs = [] \<and> c \<and> transfer_value v gz)"
proof (cases "header_find hs transfer_encoding")
  case None
  then show ?thesis using find_none [of hs transfer_encoding] by (auto simp: framing_try_get_transfer_def)
next
  case (Some i)
  have ne: "field_values transfer_encoding hs \<noteq> []" using find_some [OF Some] by simp
  show ?thesis
  proof (cases "field_values transfer_encoding hs = [val (hs ! i)] \<and> field_values content_length hs = []")
    case True
    then have "header_find (drop (i + 1) hs) transfer_encoding = None" "header_find hs content_length = None"
      using find_only [OF Some] by (simp_all add: find_none)
    then have "framing_try_get_transfer hs = Some (c, gz) \<longleftrightarrow> c \<and> transfer_value (val (hs ! i)) gz"
      using transfer_of_value by (simp add: framing_try_get_transfer_def Some)
    then show ?thesis using True by auto
  next
    case False
    then have "header_find (drop (i + 1) hs) transfer_encoding \<noteq> None \<or> header_find hs content_length \<noteq> None"
      using find_only [OF Some] by (auto simp: find_none)
    then have "framing_try_get_transfer hs = None" by (simp add: framing_try_get_transfer_def Some)
    then show ?thesis using False find_some [OF Some] by auto
  qed
qed

lemma length_exact:
  "framing_try_get_content_length hs = Some n \<longleftrightarrow> field_values transfer_encoding hs = [] \<and>
     (field_values content_length hs = [] \<and> n = 0 \<or>
      (\<exists>v. field_values content_length hs = [v] \<and> v \<noteq> [] \<and> list_all char_is_digit v \<and> dec_value v \<le> usize_max \<and> n = dec_value v))"
proof (cases "header_find hs content_length")
  case None
  then show ?thesis using find_none [of hs transfer_encoding] find_none [of hs content_length] by (auto simp: framing_try_get_content_length_def)
next
  case (Some i)
  let ?v = "val (hs ! i)"
  have max: "unat (- 1 :: ullong_t) = usize_max" by (simp add: usize_max_def unsigned_minus_1_eq_mask mask_eq_exp_minus_1)
  have u: "unat (of_nat k :: ullong_t) = k" if "k \<le> usize_max" for k using that by (intro unat_of_nat_small) (simp add: usize_max_def)
  have p: "(case parse_ullong_digits (- 1) ?v of None \<Rightarrow> None | Some n \<Rightarrow> Some (unat n)) = Some n \<longleftrightarrow>
      ?v \<noteq> [] \<and> list_all char_is_digit ?v \<and> dec_value ?v \<le> usize_max \<and> n = dec_value ?v"
    using u [of "dec_value ?v"] by (auto simp: parse_ullong_digits_exact max)
  show ?thesis
  proof (cases "field_values content_length hs = [?v]")
    case True
    then show ?thesis using find_only [OF Some] p
      by (auto simp: framing_try_get_content_length_def Some find_none [symmetric] Let_def)
  next
    case False
    then have "header_find (drop (i + 1) hs) content_length \<noteq> None" using find_only [OF Some] by simp
    then have "framing_try_get_content_length hs = None" by (simp add: framing_try_get_content_length_def Some)
    then show ?thesis using False find_some [OF Some] by auto
  qed
qed


text \<open>The members of a list of values: the parts between commas, without blanks, that are not empty.\<close>

function comma_parts :: "string \<Rightarrow> string list" where
  "comma_parts w = (let a = takeWhile (\<lambda>c. c \<noteq> CHR '','') w
     in if length a < length w then a # comma_parts (drop (length a + 1) w) else [w])"
  by pat_completeness auto

termination comma_parts
  by (relation "measure length") auto

declare comma_parts.simps [simp del]

definition list_members :: "string \<Rightarrow> string list" where
  "list_members v = filter (\<lambda>m. m \<noteq> []) (map view_trim (comma_parts v))"

lemma trim_empty [simp]: "view_trim [] = []"
  by (simp add: view_trim_def view_ltrim_def view_rtrim_def find_not_of_def rfind_not_of_def)

lemma members_one: "CHR '','' \<notin> set w \<Longrightarrow> list_members w = (if view_trim w = [] then [] else [view_trim w])"
proof -
  assume "CHR '','' \<notin> set w"
  then have "takeWhile (\<lambda>c. c \<noteq> CHR '','') w = w" by (auto simp: takeWhile_eq_all_conv)
  then have "comma_parts w = [w]" by (subst comma_parts.simps) (simp add: Let_def del: takeWhile_eq_all_conv)
  then show ?thesis by (simp add: list_members_def)
qed

lemma members_more:
  assumes "CHR '','' \<notin> set a"
  shows "list_members (a @ CHR '','' # b) = (if view_trim a = [] then list_members b else view_trim a # list_members b)"
proof -
  have "list_all (\<lambda>c. c \<noteq> CHR '','') a" using assms by (auto simp: list_all_iff)
  then have "takeWhile (\<lambda>c. c \<noteq> CHR '','') (a @ CHR '','' # b) = a" by (rule takeWhile_cut) simp
  then have "comma_parts (a @ CHR '','' # b) = a # comma_parts b" by (subst comma_parts.simps) simp
  then show ?thesis by (simp add: list_members_def)
qed

lemma expect_members_exact:
  "pos \<le> length v \<Longrightarrow> expect_members v pos m = Some r \<longleftrightarrow>
     (\<forall>x \<in> set (list_members (drop pos v)). view_equals x ''100-continue'' True) \<and> r = (m \<or> list_members (drop pos v) \<noteq> [])"
proof (induction v pos m rule: expect_members.induct)
  case (1 v pos m)
  show ?case
  proof (cases "drop pos v" rule: comma_cases)
    case one
    have end': "expect_members v (length v) q = Some q" for q using split_no_more [of "length v" v] by (subst expect_members.simps) simp
    show ?thesis
    proof (cases "drop pos v = []")
      case True
      then have "expect_members v pos m = Some m" using split_no_more [OF 1(3) one] by (subst expect_members.simps) simp
      then show ?thesis using members_one [OF one] True by auto
    next
      case False
      then have "view_split_next_of v '','' pos = Some (drop pos v, False, length v)" using split_no_more [OF 1(3) one] by simp
      then have "expect_members v pos m = (if view_trim (drop pos v) = [] then Some m
          else if \<not> view_equals (view_trim (drop pos v)) ''100-continue'' True then None else Some True)"
        by (subst expect_members.simps) (simp add: end' Let_def)
      then show ?thesis using members_one [OF one] by auto
    qed
  next
    case (more a b)
    note s = split_more [OF 1(3) more]
    note IH = 1(1) [OF s(1) refl refl refl] 1(2) [OF s(1) refl refl refl]
    have e: "expect_members v pos m = (if view_trim a = [] then expect_members v (pos + length a + 1) m
        else if \<not> view_equals (view_trim a) ''100-continue'' True then None else expect_members v (pos + length a + 1) True)"
      by (subst expect_members.simps) (simp add: s(1) Let_def)
    show ?thesis unfolding more(1) members_more [OF more(2)] e using IH s(2, 3) by auto
  qed
qed

lemma expect_fields_exact:
  "expect_fields hs f = Some r \<longleftrightarrow>
     (\<forall>v \<in> set (field_values expect_name hs). list_members v \<noteq> [] \<and> (\<forall>x \<in> set (list_members v). view_equals x ''100-continue'' True)) \<and>
     r = (f \<or> field_values expect_name hs \<noteq> [])"
proof (induction hs f rule: expect_fields.induct)
  case (1 hs f)
  show ?case
  proof (cases "header_find hs expect_name")
    case None
    then show ?thesis using find_none [of hs expect_name] by (subst expect_fields.simps) auto
  next
    case (Some i)
    let ?v = "val (hs ! i)"
    have m: "expect_members ?v 0 False = Some q \<longleftrightarrow>
        (\<forall>x \<in> set (list_members ?v). view_equals x ''100-continue'' True) \<and> q = (list_members ?v \<noteq> [])" for q
      using expect_members_exact [of 0 ?v False q] by simp
    have vs: "field_values expect_name hs = ?v # field_values expect_name (drop (i + 1) hs)" using find_some [OF Some] by simp
    show ?thesis
    proof (cases "expect_members ?v 0 False")
      case None
      then have "\<not> (\<forall>x \<in> set (list_members ?v). view_equals x ''100-continue'' True)" using m [of "list_members ?v \<noteq> []"] by auto
      then show ?thesis using None Some vs by (subst expect_fields.simps) auto
    next
      case q: (Some q)
      note IH = 1 [OF Some q]
      show ?thesis
      proof (cases q)
        case True
        have "expect_fields hs f = expect_fields (drop (i + 1) hs) True" using Some q True by (subst expect_fields.simps) simp
        then show ?thesis using IH True m [of q] q unfolding vs by auto
      next
        case False
        have "expect_fields hs f = None" using Some q False by (subst expect_fields.simps) simp
        then show ?thesis using False m [of q] q unfolding vs by auto
      qed
    qed
  qed
qed

lemma coding_exact:
  "content_encoding_try_is_gzip hs = Some g \<longleftrightarrow>
     field_values content_encoding hs = [] \<and> \<not> g \<or>
     (\<exists>v. field_values content_encoding hs = [v] \<and> view_equals v (if g then ''gzip'' else ''identity'') True)"
proof (cases "header_find hs content_encoding")
  case None
  then show ?thesis using find_none [of hs content_encoding] by (auto simp: content_encoding_try_is_gzip_def)
next
  case (Some i)
  have x: "\<not> (view_equals v ''gzip'' True \<and> view_equals v ''identity'' True)" for v
    unfolding view_equals_iff by (auto dest: map_eq_imp_length_eq)
  show ?thesis
  proof (cases "field_values content_encoding hs = [val (hs ! i)]")
    case True
    then show ?thesis using find_only [OF Some] x [of "val (hs ! i)"] by (cases g) (auto simp: content_encoding_try_is_gzip_def Some)
  next
    case False
    then have "header_find (drop (i + 1) hs) content_encoding \<noteq> None" using find_only [OF Some] by simp
    then have "content_encoding_try_is_gzip hs = None" by (simp add: content_encoding_try_is_gzip_def Some)
    then show ?thesis using False find_some [OF Some] by auto
  qed
qed

text \<open>
  C24: a message never admits two framings. Its transfer coding is accepted exactly when it has no such field, or
  one only, that says \<open>chunked\<close> or \<open>gzip, chunked\<close>, and no length beside it; its length exactly when it has no transfer
  coding and at most one length, written in decimal digits and fitting the type of sizes. So a message that is chunked has
  no length, however often and in whatever letters the fields are repeated.
\<close>

theorem framing_unambiguous:
  "(framing_try_get_transfer hs = Some (chunked, gzip) \<longleftrightarrow>
      field_values transfer_encoding hs = [] \<and> \<not> chunked \<and> \<not> gzip \<or>
      (\<exists>v. field_values transfer_encoding hs = [v] \<and> field_values content_length hs = [] \<and> chunked \<and> transfer_value v gzip)) \<and>
   (framing_try_get_content_length hs = Some n \<longleftrightarrow> field_values transfer_encoding hs = [] \<and>
      (field_values content_length hs = [] \<and> n = 0 \<or>
       (\<exists>v. field_values content_length hs = [v] \<and> v \<noteq> [] \<and> list_all char_is_digit v \<and> dec_value v \<le> usize_max \<and> n = dec_value v))) \<and>
   \<not> (framing_try_is_chunked hs = Some True \<and> framing_try_get_content_length hs = Some n)"
proof (intro conjI)
  show "\<not> (framing_try_is_chunked hs = Some True \<and> framing_try_get_content_length hs = Some n)"
    using transfer_exact [of hs] length_exact [of hs n] by (auto simp: framing_try_is_chunked_def)
qed (rule transfer_exact length_exact)+

text \<open>
  An expectation is accepted exactly when every Expect field lists at least one member and nothing but
  \<open>100-continue\<close>, and is reported when there is such a field; a content coding exactly when the message has no such field,
  or one only, that says \<open>gzip\<close> or \<open>identity\<close>.
\<close>

theorem expectation_exact:
  "(expect_try_get_continue hs = Some b \<longleftrightarrow>
      (\<forall>v \<in> set (field_values expect_name hs). list_members v \<noteq> [] \<and> (\<forall>x \<in> set (list_members v). view_equals x ''100-continue'' True)) \<and>
      b = (field_values expect_name hs \<noteq> [])) \<and>
   (content_encoding_try_is_gzip hs = Some g \<longleftrightarrow>
      field_values content_encoding hs = [] \<and> \<not> g \<or>
      (\<exists>v. field_values content_encoding hs = [v] \<and> view_equals v (if g then ''gzip'' else ''identity'') True))"
  using expect_fields_exact [of hs False b] coding_exact [of hs g] by (cases hs) (auto simp: expect_try_get_continue_def)

theorem expectation_exact_witness:
  "expect_try_get_continue [\<lparr>name = ''expect'', val = '' 100-Continue, ''\<rparr>] = Some True \<and>
   content_encoding_try_is_gzip [\<lparr>name = ''Content-Encoding'', val = ''GZIP''\<rparr>] = Some True"
proof -
  have a: "field_values expect_name [\<lparr>name = ''expect'', val = '' 100-Continue, ''\<rparr>] = ['' 100-Continue, '']"
    "field_values content_encoding [\<lparr>name = ''Content-Encoding'', val = ''GZIP''\<rparr>] = [''GZIP'']"
    "list_members '' 100-Continue, '' = [''100-Continue'']" "view_equals ''100-Continue'' ''100-continue'' True"
    "view_equals ''GZIP'' ''gzip'' True"
    by code_simp+
  show ?thesis
    using expectation_exact [of "[\<lparr>name = ''expect'', val = '' 100-Continue, ''\<rparr>]" True True]
      expectation_exact [of "[\<lparr>name = ''Content-Encoding'', val = ''GZIP''\<rparr>]" True True] a by simp
qed


definition gzip_fields :: "http_header list" where
  "gzip_fields = [\<lparr>name = ''transfer-encoding'', val = ''gzip, Chunked''\<rparr>]"

definition twice_fields :: "http_header list" where
  "twice_fields = [\<lparr>name = ''Content-Length'', val = ''1''\<rparr>, \<lparr>name = ''content-length'', val = ''1''\<rparr>]"

theorem framing_unambiguous_witness:
  "framing_try_get_transfer gzip_fields = Some (True, True) \<and> framing_try_get_content_length twice_fields \<noteq> Some 1"
proof
  have f: "field_values transfer_encoding gzip_fields = [''gzip, Chunked'']" "field_values content_length gzip_fields = []"
    "field_values content_length twice_fields = [''1'', ''1'']"
    by code_simp+
  have "view_equals (view_trim ''gzip'') ''gzip'' True" "view_equals (view_trim '' Chunked'') ''chunked'' True" by code_simp+
  then have "transfer_value (''gzip'' @ CHR '','' # '' Chunked'') True" unfolding transfer_value_def if_True
    by (intro exI [of _ "''gzip''"] exI [of _ "'' Chunked''"]) simp
  then show "framing_try_get_transfer gzip_fields = Some (True, True)"
    using framing_unambiguous [of gzip_fields True True 0] f by simp
  show "framing_try_get_content_length twice_fields \<noteq> Some 1"
    using framing_unambiguous [of twice_fields True True 1] f(3) by simp
qed

end
