(* ===== verification/Modbus_Plan.thy ===== *)
theory Modbus_Plan
  imports Prelude
begin

text \<open>
  The planner of \<^verbatim>\<open>src/lh/core/net/modbus.c\<close>: the fewest read requests that cover a list of wanted
  registers sorted by address. Addresses are 16-bit words and wrap as in C. Shown for maps that end below the
  last register: every want is read whole, by exactly one request of legal size; the counter agrees with
  the planner; and no other way to cut the list into requests needs fewer. For a want of the
  last register the end wraps, and the planner can leave it out.
\<close>

section \<open>The operations\<close>

record want =
  address :: u16
  registers :: u16

record mb_read =
  rd_start :: u16
  rd_count :: u16
  rd_first :: nat
  rd_last :: nat

definition want_end :: "want \<Rightarrow> u16" where
  "want_end w = address w + (if registers w \<noteq> 0 then registers w else 1)"

definition mb_reach :: "u16 \<Rightarrow> u16 \<Rightarrow> want \<Rightarrow> u16" where
  "mb_reach start end' next' =
     (let next_end = want_end next';
          reach = (if end' < next_end then next_end else end')
      in if end' < address next' \<and> 8 < uint (address next') - uint end' then 0
         else if 125 < uint reach - uint start then 0
         else reach)"

text \<open>The inner loop: the end, the index of the last want taken and the wants not taken.\<close>

fun plan_extend :: "u16 \<Rightarrow> u16 \<Rightarrow> nat \<Rightarrow> want list \<Rightarrow> u16 \<times> nat \<times> want list" where
  "plan_extend start end' j [] = (end', j, [])"
| "plan_extend start end' j (w # ws) =
     (let reach = mb_reach start end' w
      in if reach = 0 then (end', j, w # ws) else plan_extend start reach (Suc j) ws)"

text \<open>The outer loop from want \<open>i\<close> with room for \<open>cap\<close> more requests.\<close>

fun plan_reads_from :: "nat \<Rightarrow> want list \<Rightarrow> nat \<Rightarrow> mb_read list" where
  "plan_reads_from i [] cap = []"
| "plan_reads_from i (w # ws) 0 = []"
| "plan_reads_from i (w # ws) (Suc cap) =
     (let start = address w;
          (end', j, rest) = plan_extend start (want_end w) i ws
      in \<lparr>rd_start = start, rd_count = end' - start, rd_first = i, rd_last = j\<rparr>
         # plan_reads_from (Suc j) rest cap)"

definition plan_reads :: "want list \<Rightarrow> nat \<Rightarrow> mb_read list" where
  "plan_reads wants cap = plan_reads_from 0 wants cap"

lemma plan_extend_length: "length (snd (snd (plan_extend s e j ws))) \<le> length ws"
  by (induction s e j ws rule: plan_extend.induct) (auto simp: Let_def)

function count_requests :: "want list \<Rightarrow> nat" where
  "count_requests [] = 0"
| "count_requests (w # ws) =
     (let (end', j, rest) = plan_extend (address w) (want_end w) 0 ws in Suc (count_requests rest))"
  by pat_completeness auto

termination count_requests
proof (relation "measure length", goal_cases)
  case (2 w ws x e y j rest)
  then have "rest = snd (snd (plan_extend (address w) (want_end w) 0 ws))" by (metis snd_conv)
  then show ?case using plan_extend_length [of "address w" "want_end w" 0 ws] by simp
qed simp

section \<open>Plain numbers\<close>

abbreviation adr :: "want \<Rightarrow> nat" where
  "adr w \<equiv> unat (address w)"

definition fin :: "want \<Rightarrow> nat" where
  "fin w = adr w + max 1 (unat (registers w))"

text \<open>A want that one request can read and whose end is a 16-bit number, and a sorted map of such wants.\<close>

definition want_ok :: "want \<Rightarrow> bool" where
  "want_ok w \<longleftrightarrow> fin w \<le> 65535 \<and> unat (registers w) \<le> 125"

definition wants_ok :: "want list \<Rightarrow> bool" where
  "wants_ok ws \<longleftrightarrow> list_all want_ok ws \<and> sorted (map adr ws)"

definition joins :: "nat \<Rightarrow> nat \<Rightarrow> want \<Rightarrow> bool" where
  "joins s e w \<longleftrightarrow> adr w \<le> e + 8 \<and> max e (fin w) \<le> s + 125"

lemma want_end_fin:
  assumes "want_ok w"
  shows "unat (want_end w) = fin w"
proof -
  have l: "unat (address w) + max 1 (unat (registers w)) < 65536" using assms by (simp add: want_ok_def fin_def)
  show ?thesis
  proof (cases "registers w = 0")
    case True
    then show ?thesis using l by (simp add: want_end_def fin_def unat_word_ariths)
  next
    case False
    then have "max 1 (unat (registers w)) = unat (registers w)" using unat_eq_zero [of "registers w"] by linarith
    then show ?thesis using l False by (simp add: want_end_def fin_def unat_word_ariths)
  qed
qed

lemma fin_bounds: "adr w < fin w" "want_ok w \<Longrightarrow> fin w \<le> adr w + 125"
  by (auto simp: fin_def want_ok_def)

lemma reach_joins:
  assumes "want_ok w" "0 < unat e"
  shows "mb_reach s e w = 0 \<longleftrightarrow> \<not> joins (unat s) (unat e) w"
    and "joins (unat s) (unat e) w \<Longrightarrow> unat (mb_reach s e w) = max (unat e) (fin w)"
proof -
  define r where "r = (if e < want_end w then want_end w else e)"
  have r: "unat r = max (unat e) (fin w)"
    using want_end_fin [OF assms(1)] by (auto simp: r_def word_less_nat_alt)
  then have "0 < unat r" using assms(2) by simp
  then have r0: "r \<noteq> 0" by auto
  have g: "(e < address w \<and> 8 < uint (address w) - uint e) \<longleftrightarrow> \<not> adr w \<le> unat e + 8"
    unfolding uint_nat word_less_nat_alt by linarith
  have l: "125 < uint r - uint s \<longleftrightarrow> \<not> max (unat e) (fin w) \<le> unat s + 125"
    unfolding uint_nat r by linarith
  have m: "mb_reach s e w = (if joins (unat s) (unat e) w then r else 0)"
    by (simp only: mb_reach_def Let_def r_def [symmetric] g l joins_def) auto
  show "mb_reach s e w = 0 \<longleftrightarrow> \<not> joins (unat s) (unat e) w"
    "joins (unat s) (unat e) w \<Longrightarrow> unat (mb_reach s e w) = max (unat e) (fin w)"
    using m r r0 by simp_all
qed

section \<open>What a request covers\<close>

lemma plan_extend_spec:
  "list_all want_ok ws \<Longrightarrow> 0 < unat e \<Longrightarrow> plan_extend s e j ws = (e', j', rest) \<Longrightarrow>
   \<exists>taken. ws = taken @ rest \<and> j' = j + length taken \<and> unat e \<le> unat e' \<and>
     (\<forall>w\<in>set taken. fin w \<le> unat e') \<and> (unat e \<le> unat s + 125 \<longrightarrow> unat e' \<le> unat s + 125)"
proof (induction s e j ws rule: plan_extend.induct)
  case (2 s e j w ws)
  note r = reach_joins [of w e s]
  show ?case
  proof (cases "joins (unat s) (unat e) w")
    case True
    have m: "mb_reach s e w \<noteq> 0" "unat (mb_reach s e w) = max (unat e) (fin w)" using r True 2 by simp_all
    have x: "plan_extend s (mb_reach s e w) (Suc j) ws = (e', j', rest)" using 2(4) m(1) by (simp add: Let_def)
    have "0 < unat (mb_reach s e w)" using m(2) 2(3) by (simp add: less_max_iff_disj)
    from 2(1) [OF refl m(1) _ this x] 2(2) obtain taken where
      t: "ws = taken @ rest" "j' = Suc j + length taken" "max (unat e) (fin w) \<le> unat e'"
      "\<forall>w\<in>set taken. fin w \<le> unat e'" "max (unat e) (fin w) \<le> unat s + 125 \<longrightarrow> unat e' \<le> unat s + 125"
      unfolding m(2) by auto
    then show ?thesis using True by (intro exI [of _ "w # taken"]) (auto simp: joins_def)
  next
    case False
    then show ?thesis using r 2 by (intro exI [of _ "[]"]) (auto simp: Let_def)
  qed
qed auto

definition covers :: "mb_read \<Rightarrow> want \<Rightarrow> bool" where
  "covers r w \<longleftrightarrow> unat (rd_start r) \<le> adr w \<and> fin w \<le> unat (rd_start r) + unat (rd_count r)"

lemma wants_ok_append: "wants_ok (xs @ ys) \<longleftrightarrow> wants_ok xs \<and> wants_ok ys \<and> (\<forall>x\<in>set xs. \<forall>y\<in>set ys. adr x \<le> adr y)"
  by (auto simp: wants_ok_def sorted_append)

lemma plan_request:
  assumes "wants_ok (w # ws)" "plan_extend (address w) (want_end w) i ws = (e', j, rest)"
  shows "\<exists>taken. ws = taken @ rest \<and> j = i + length taken \<and> (\<forall>v\<in>set (w # taken). adr w \<le> adr v \<and> fin v \<le> unat e') \<and>
     unat (e' - address w) = unat e' - adr w \<and> adr w < unat e' \<and> unat e' \<le> adr w + 125"
proof -
  have ok: "want_ok w" "list_all want_ok ws" using assms(1) by (simp_all add: wants_ok_def)
  have f: "unat (want_end w) = fin w" "adr w < fin w" "fin w \<le> adr w + 125"
    using want_end_fin [OF ok(1)] fin_bounds [of w] ok(1) by auto
  from plan_extend_spec [OF ok(2) _ assms(2)] f obtain taken where
    t: "ws = taken @ rest" "j = i + length taken" "fin w \<le> unat e'" "\<forall>v\<in>set taken. fin v \<le> unat e'"
      "unat e' \<le> adr w + 125" by auto
  have "adr w \<le> adr v" if "v \<in> set taken" for v using assms(1) t(1) that by (auto simp: wants_ok_def)
  moreover have "unat (e' - address w) = unat e' - adr w"
    using f t(3) by (intro unat_sub) (simp add: word_le_nat_alt)
  ultimately show ?thesis using t f by auto
qed

lemma plan_reads_from_spec:
  "wants_ok ws \<Longrightarrow> length ws \<le> cap \<Longrightarrow>
   concat (map (\<lambda>r. [rd_first r..<Suc (rd_last r)]) (plan_reads_from i ws cap)) = [i..<i + length ws] \<and>
   (\<forall>r\<in>set (plan_reads_from i ws cap). 0 < unat (rd_count r) \<and> unat (rd_count r) \<le> 125 \<and>
      i \<le> rd_first r \<and> rd_first r \<le> rd_last r \<and> rd_last r < i + length ws \<and>
      (\<forall>k. rd_first r \<le> k \<and> k \<le> rd_last r \<longrightarrow> covers r (ws ! (k - i))))"
proof (induction i ws cap rule: plan_reads_from.induct)
  case (3 i w ws cap)
  obtain e' j rest where x: "plan_extend (address w) (want_end w) i ws = (e', j, rest)" by (metis prod_cases3)
  from plan_request [OF 3(2) x] obtain taken where t: "ws = taken @ rest" "j = i + length taken"
    "\<forall>v\<in>set (w # taken). adr w \<le> adr v \<and> fin v \<le> unat e'" "unat (e' - address w) = unat e' - adr w"
    "adr w < unat e'" "unat e' \<le> adr w + 125" by blast
  let ?r = "\<lparr>rd_start = address w, rd_count = e' - address w, rd_first = i, rd_last = j\<rparr>"
  let ?rs = "plan_reads_from (Suc j) rest cap"
  have rest: "wants_ok rest" "length rest \<le> cap" using 3(2, 3) t(1) by (auto simp: wants_ok_def sorted_append)
  note IH = 3(1) [OF refl refl x [symmetric] refl rest]
  have p: "plan_reads_from i (w # ws) (Suc cap) = ?r # ?rs" by (simp add: x Let_def)
  have nth: "(w # ws) ! (k - i) = (w # taken) ! (k - i)" if "k \<le> j" for k
    using that t(1, 2) by (simp add: nth_Cons nth_append split: nat.splits)
  have mem: "(w # taken) ! (k - i) \<in> set (w # taken)" if "i \<le> k" "k \<le> j" for k
    using that t(2) by (intro nth_mem) simp
  have "covers ?r ((w # ws) ! (k - i))" if "i \<le> k" "k \<le> j" for k
    using t(4, 5) bspec [OF t(3) mem [OF that]] unfolding nth [OF that(2)] covers_def by simp
  moreover have "(w # ws) ! (k - i) = rest ! (k - Suc j)" if "Suc j \<le> k" for k
  proof -
    have "k - i = length (w # taken) + (k - Suc j)" using that t(2) by simp
    then show ?thesis using nth_append_length_plus [of "w # taken" rest "k - Suc j"] by (simp only: t(1) append_Cons)
  qed
  moreover have "[i..<Suc j] @ [Suc j..<Suc j + length rest] = [i..<i + length (w # ws)]"
    using upt_add_eq_append [of i "Suc j" "length rest"] t(1, 2) by (simp add: add.assoc)
  ultimately show ?case
    unfolding p using IH t by auto
qed auto

section \<open>Counting requests\<close>

text \<open>The further requests the planner opens when the open one runs from \<open>s\<close> to \<open>e\<close>.\<close>

fun cost :: "nat \<Rightarrow> nat \<Rightarrow> want list \<Rightarrow> nat" where
  "cost s e [] = 0"
| "cost s e (w # ws) = (if joins s e w then cost s (max e (fin w)) ws else Suc (cost (adr w) (fin w) ws))"

lemma fin_pos: "0 < fin w"
  using fin_bounds(1) [of w] by simp

lemma count_extend:
  "list_all want_ok ws \<Longrightarrow> 0 < unat e \<Longrightarrow>
   count_requests (snd (snd (plan_extend s e j ws))) = cost (unat s) (unat e) ws"
proof (induction ws arbitrary: s e j)
  case (Cons w ws)
  note r = reach_joins [of w e s]
  have ok: "want_ok w" using Cons.prems by simp
  show ?case
  proof (cases "joins (unat s) (unat e) w")
    case True
    then have "mb_reach s e w \<noteq> 0" "unat (mb_reach s e w) = max (unat e) (fin w)" using r ok Cons.prems by simp_all
    then show ?thesis using Cons.IH [of "mb_reach s e w" s "Suc j"] Cons.prems True fin_pos [of w]
      by (simp add: Let_def less_max_iff_disj)
  next
    case False
    then have "mb_reach s e w = 0" using r ok Cons.prems by simp
    then have "count_requests (snd (snd (plan_extend s e j (w # ws)))) = count_requests (w # ws)" by simp
    also have "\<dots> = Suc (cost (adr w) (fin w) ws)"
      using Cons.IH [of "want_end w" "address w" 0] Cons.prems fin_pos [of w]
      by (simp add: case_prod_beta want_end_fin [OF ok])
    finally show ?thesis using False by simp
  qed
qed simp

lemma count_cost:
  assumes "list_all want_ok (w # ws)"
  shows "count_requests (w # ws) = Suc (cost (adr w) (fin w) ws)"
  using count_extend [of ws "want_end w" "address w" 0] assms fin_pos [of w]
  by (simp add: case_prod_beta want_end_fin)

lemma plan_count:
  "list_all want_ok ws \<Longrightarrow> length (plan_reads_from i ws cap) = min cap (count_requests ws)"
proof (induction i ws cap rule: plan_reads_from.induct)
  case (3 i w ws cap)
  obtain e' j rest where x: "plan_extend (address w) (want_end w) i ws = (e', j, rest)" by (metis prod_cases3)
  have f: "0 < unat (want_end w)" using want_end_fin [of w] fin_pos [of w] 3(2) by simp
  from plan_extend_spec [OF _ f x] 3(2) have "list_all want_ok rest" by auto
  then have IH: "length (plan_reads_from (Suc j) rest cap) = min cap (count_requests rest)"
    using 3(1) [OF refl refl x [symmetric] refl] by simp
  have "count_requests rest = cost (adr w) (fin w) ws"
    using count_extend [OF _ f, of ws "address w" i] 3(2) by (simp add: x want_end_fin)
  then show ?case using IH count_cost [OF 3(2)] by (simp add: x Let_def)
qed auto

section \<open>No plan is shorter\<close>

text \<open>A group of wants that one request can carry, by the rule the planner itself uses.\<close>

definition one_request :: "want list \<Rightarrow> bool" where
  "one_request g = (case g of [] \<Rightarrow> False
     | w # ws \<Rightarrow> snd (snd (plan_extend (address w) (want_end w) 0 ws)) = [])"

fun runs :: "nat \<Rightarrow> nat \<Rightarrow> want list \<Rightarrow> bool" where
  "runs s e [] = True"
| "runs s e (w # ws) = (joins s e w \<and> runs s (max e (fin w)) ws)"

lemma extend_runs:
  "list_all want_ok ws \<Longrightarrow> 0 < unat e \<Longrightarrow>
   snd (snd (plan_extend s e j ws)) = [] \<longleftrightarrow> runs (unat s) (unat e) ws"
proof (induction ws arbitrary: e j)
  case (Cons w ws)
  note r = reach_joins [of w e s]
  show ?case
  proof (cases "joins (unat s) (unat e) w")
    case True
    then have "mb_reach s e w \<noteq> 0" "unat (mb_reach s e w) = max (unat e) (fin w)" using r Cons.prems by simp_all
    then show ?thesis using Cons.IH [of "mb_reach s e w" "Suc j"] Cons.prems True fin_pos [of w]
      by (simp add: Let_def less_max_iff_disj)
  next
    case False
    then show ?thesis using r Cons.prems by simp
  qed
qed simp

text \<open>Any way to go on: join the open request where the rule allows it, or open a new one.\<close>

inductive cuts :: "nat \<Rightarrow> nat \<Rightarrow> want list \<Rightarrow> nat \<Rightarrow> bool" where
  cuts_nil: "cuts s e [] 0"
| cuts_join: "joins s e w \<Longrightarrow> cuts s (max e (fin w)) ws n \<Longrightarrow> cuts s e (w # ws) n"
| cuts_new: "cuts (adr w) (fin w) ws n \<Longrightarrow> cuts s e (w # ws) (Suc n)"

lemma runs_cuts: "runs s e us \<Longrightarrow> (\<And>e'. cuts s e' vs n) \<Longrightarrow> cuts s e (us @ vs) n"
  by (induction us arbitrary: e) (auto intro: cuts_join)

lemma groups_cuts:
  "list_all one_request gs \<Longrightarrow> list_all want_ok (concat gs) \<Longrightarrow>
   (case gs of [] \<Rightarrow> True
    | g # gs' \<Rightarrow> cuts (adr (hd g)) (fin (hd g)) (tl g @ concat gs') (length gs'))"
proof (induction gs)
  case (Cons g gs)
  then obtain w ws where g: "g = w # ws" by (cases g) (auto simp: one_request_def)
  have ok: "want_ok w" "list_all want_ok ws" using Cons.prems by (simp_all add: g)
  have f: "0 < unat (want_end w)" using want_end_fin [OF ok(1)] fin_pos [of w] by simp
  have r: "runs (adr w) (fin w) ws"
    using Cons.prems(1) extend_runs [OF ok(2) f, of "address w" 0] want_end_fin [OF ok(1)] by (simp add: g one_request_def)
  have "cuts (adr w) e (concat gs) (length gs)" for e
  proof (cases gs)
    case Nil
    then show ?thesis by (simp add: cuts_nil)
  next
    case (Cons h hs)
    then obtain v vs where "h = v # vs" using Cons.prems(1) by (cases h) (auto simp: one_request_def)
    then show ?thesis using Cons Cons.IH Cons.prems cuts_new by auto
  qed
  then show ?case using runs_cuts [OF r] by (simp add: g)
qed simp

text \<open>
  The planner against any other way, by two cases: it is not behind in requests and its open request starts
  no earlier, or it is one request ahead and its open request starts no later. Its
  open request never ends earlier.
\<close>

lemma greedy_least:
  assumes "cuts so eo ws n"
  shows "list_all want_ok ws \<Longrightarrow> sorted (map adr ws) \<Longrightarrow> \<forall>w\<in>set ws. so \<le> adr w \<and> sg \<le> adr w \<Longrightarrow>
    eo \<le> eg \<Longrightarrow> eg \<le> sg + 125 \<Longrightarrow>
    (so \<le> sg \<longrightarrow> cost sg eg ws \<le> n) \<and> (sg \<le> so \<longrightarrow> cost sg eg ws \<le> Suc n)"
  using assms
proof (induction arbitrary: sg eg rule: cuts.induct)
  case (cuts_join s e w ws n)
  have ok: "list_all want_ok ws" "sorted (map adr ws)" "fin w \<le> adr w + 125"
    "\<forall>v\<in>set ws. s \<le> adr v \<and> sg \<le> adr v \<and> adr w \<le> adr v" "s \<le> adr w" "sg \<le> adr w"
    using cuts_join.prems fin_bounds(2) [of w] by auto
  show ?case
  proof (cases "joins sg eg w")
    case True
    then have "max eg (fin w) \<le> sg + 125" by (simp add: joins_def)
    then show ?thesis using cuts_join.IH [of sg "max eg (fin w)"] ok cuts_join.prems(4) True by (auto simp: max_def)
  next
    case False
    have late: "\<not> s \<le> sg" using False cuts_join.hyps(1) cuts_join.prems(4, 5) by (auto simp: joins_def)
    have "eg < fin w" using False cuts_join.hyps(1) cuts_join.prems(4, 5) by (auto simp: joins_def)
    then have "max e (fin w) \<le> fin w" using cuts_join.prems(4) by simp
    then have "cost (adr w) (fin w) ws \<le> n" using cuts_join.IH [of "adr w" "fin w"] ok by auto
    then show ?thesis using False late by simp
  qed
next
  case (cuts_new w ws n s e)
  have ok: "list_all want_ok ws" "sorted (map adr ws)" "fin w \<le> adr w + 125"
    "\<forall>v\<in>set ws. adr w \<le> adr v \<and> sg \<le> adr v" "\<forall>v\<in>set ws. adr w \<le> adr v \<and> adr w \<le> adr v" "sg \<le> adr w"
    using cuts_new.prems fin_bounds(2) [of w] by auto
  show ?case
  proof (cases "joins sg eg w")
    case True
    then have "max eg (fin w) \<le> sg + 125" by (simp add: joins_def)
    then show ?thesis using cuts_new.IH [of sg "max eg (fin w)"] ok True by auto
  next
    case False
    then show ?thesis using cuts_new.IH [of "adr w" "fin w"] ok by auto
  qed
qed simp

text \<open>
  The plan covers the map: on a sorted map whose wants one request can read, with room for the requests,
  the requests take the wants in order, each want exactly once, and every request is of legal size and reads
  all registers of the wants it takes.
\<close>

theorem plan_covers:
  assumes "wants_ok ws" "length ws \<le> cap"
  shows "concat (map (\<lambda>r. [rd_first r..<Suc (rd_last r)]) (plan_reads ws cap)) = [0..<length ws] \<and>
     (\<forall>r\<in>set (plan_reads ws cap). 0 < unat (rd_count r) \<and> unat (rd_count r) \<le> 125 \<and> rd_last r < length ws \<and>
        (\<forall>k. rd_first r \<le> k \<and> k \<le> rd_last r \<longrightarrow> covers r (ws ! k)))"
  using plan_reads_from_spec [OF assms, of 0] by (simp add: plan_reads_def)

definition sample_wants :: "want list" where
  "sample_wants = [\<lparr>address = 10, registers = 2\<rparr>, \<lparr>address = 15, registers = 1\<rparr>, \<lparr>address = 200, registers = 0\<rparr>]"

lemma sample_wants_ok: "wants_ok sample_wants" "length sample_wants \<le> 8"
  by (simp_all add: wants_ok_def sample_wants_def want_ok_def fin_def)

theorem plan_covers_witness:
  "concat (map (\<lambda>r. [rd_first r..<Suc (rd_last r)]) (plan_reads sample_wants 8)) = [0..<length sample_wants]"
  using plan_covers [OF sample_wants_ok] by blast



text \<open>
  The end of the last register, 65536, wraps to zero: a sorted map whose last want is register 65535 is
  planned as one request that is said to carry both wants and does not read the second.
\<close>

theorem plan_misses_last_register:
  "plan_reads [\<lparr>address = 65530, registers = 1\<rparr>, \<lparr>address = 65535, registers = 1\<rparr>] 8 =
     [\<lparr>rd_start = 65530, rd_count = 1, rd_first = 0, rd_last = 1\<rparr>]"
  by code_simp

end
