(* ===== verification/Hash.thy ===== *)
theory Hash
  imports Prelude
begin

text \<open>
  Checksums: the reflected CRC kernel and CRC-32 (\<^verbatim>\<open>src/lh/core/hash/crc.c\<close>) and the 32-bit FNV-1a hash
  (\<^verbatim>\<open>hash/fnv.c\<close>), as folds over bytes. Shown: feeding data in pieces gives the checksum of the
  whole, and a CRC whose polynomial has its top bit set detects every burst of damage no longer than
  its register.
\<close>

section \<open>The operations\<close>

type_synonym byte = "8 word"

text \<open>One turn of the loop over the eight bits of a byte.\<close>

definition crc_bit :: "u32 \<Rightarrow> u32 \<Rightarrow> u32" where
  "crc_bit polynomial crc =
     (let low = (crc AND 1 \<noteq> 0); crc' = drop_bit 1 crc
      in if low then crc' XOR polynomial else crc')"

definition crc_reflected_byte :: "u32 \<Rightarrow> byte \<Rightarrow> u32 \<Rightarrow> u32" where
  "crc_reflected_byte crc byte polynomial = (crc_bit polynomial ^^ 8) (crc XOR ucast byte)"

fun crc_reflected_update :: "u32 \<Rightarrow> byte list \<Rightarrow> u32 \<Rightarrow> u32" where
  "crc_reflected_update crc [] polynomial = crc"
| "crc_reflected_update crc (b # bs) polynomial =
     crc_reflected_update (crc_reflected_byte crc b polynomial) bs polynomial"

definition crc32_polynomial :: u32 where
  "crc32_polynomial = 0xEDB88320"

definition crc32_update :: "u32 \<Rightarrow> byte list \<Rightarrow> u32" where
  "crc32_update crc data =
     crc_reflected_update (crc XOR 0xFFFFFFFF) data crc32_polynomial XOR 0xFFFFFFFF"

definition crc32 :: "byte list \<Rightarrow> u32" where
  "crc32 data = crc32_update 0 data"

definition fnv1a_32_byte :: "u32 \<Rightarrow> byte \<Rightarrow> u32" where
  "fnv1a_32_byte hash byte = (hash XOR ucast byte) * 16777619"

fun fnv1a_32_update :: "u32 \<Rightarrow> byte list \<Rightarrow> u32" where
  "fnv1a_32_update hash [] = hash"
| "fnv1a_32_update hash (b # bs) = fnv1a_32_update (fnv1a_32_byte hash b) bs"

definition fnv1a_32 :: "byte list \<Rightarrow> u32" where
  "fnv1a_32 data = fnv1a_32_update 2166136261 data"

section \<open>Pieces\<close>

lemma crc_update_append:
  "crc_reflected_update crc (xs @ ys) p = crc_reflected_update (crc_reflected_update crc xs p) ys p"
  by (induction crc xs p rule: crc_reflected_update.induct) simp_all

lemma xor_cancel [simp]: "((x :: 'w::len word) XOR y) XOR y = x"
  by (simp add: xor.assoc)

lemma xor_right_inj: "(x :: 'w::len word) XOR z = y XOR z \<Longrightarrow> x = y"
  by (metis xor_cancel)

lemma crc32_update_append: "crc32_update crc (xs @ ys) = crc32_update (crc32_update crc xs) ys"
  by (simp add: crc32_update_def crc_update_append)

lemma fnv_update_append: "fnv1a_32_update h (xs @ ys) = fnv1a_32_update (fnv1a_32_update h xs) ys"
  by (induction h xs rule: fnv1a_32_update.induct) simp_all

text \<open>
  What a checksum that is fed a piece at a time promises: a fresh state has taken nothing, feeding appends
  to the message taken, and the kind of the checksum (its tag) stays. A piece is shorter than
  \<open>2 ^ 64\<close> bytes, the range of \<^verbatim>\<open>lh_usize_t\<close>.
\<close>

fun feed_pieces :: "('s \<Rightarrow> byte list \<Rightarrow> error_code + 's) \<Rightarrow> 's \<Rightarrow> byte list list \<Rightarrow> error_code + 's" where
  "feed_pieces feed s [] = Inr s"
| "feed_pieces feed s (d # ds) = bind_result (feed s d) (\<lambda>t. feed_pieces feed t ds)"

locale stream_hash =
  fixes fresh :: "'s \<Rightarrow> bool"
    and feed :: "'s \<Rightarrow> byte list \<Rightarrow> error_code + 's"
    and took :: "'s \<Rightarrow> byte list \<Rightarrow> bool"
    and tag :: "'s \<Rightarrow> 'k"
  assumes fresh_took: "fresh s \<Longrightarrow> took s []"
    and feed_took: "took s m \<Longrightarrow> length d < 2 ^ 64 \<Longrightarrow> \<exists>t. feed s d = Inr t \<and> tag t = tag s \<and> took t (m @ d)"
begin

lemma took_pieces:
  "took s m \<Longrightarrow> \<forall>d \<in> set ds. length d < 2 ^ 64 \<Longrightarrow>
   \<exists>t. feed_pieces feed s ds = Inr t \<and> tag t = tag s \<and> took t (m @ concat ds)"
proof (induction ds arbitrary: s m)
  case (Cons d ds)
  then obtain t where t: "feed s d = Inr t" "tag t = tag s" "took t (m @ d)"
    using feed_took [of s m d] by auto
  from Cons.IH [OF t(3)] Cons.prems(2) obtain u
    where "feed_pieces feed t ds = Inr u" "tag u = tag t" "took u ((m @ d) @ concat ds)" by auto
  with t show ?case by simp
qed simp

lemma fresh_pieces:
  assumes "fresh s" "\<forall>d \<in> set ds. length d < 2 ^ 64"
  shows "\<exists>t. feed_pieces feed s ds = Inr t \<and> tag t = tag s \<and> took t (concat ds)"
  using took_pieces [OF fresh_took [OF assms(1)] assms(2)] by simp

end

interpretation crc32_stream:
  stream_hash "\<lambda>s. s = 0" "\<lambda>s d. Inr (crc32_update s d)" "\<lambda>s m. s = crc32 m" "\<lambda>_. ()"
  by unfold_locales (simp_all add: crc32_def crc32_update_append, simp add: crc32_update_def)

interpretation fnv1a_stream:
  stream_hash "\<lambda>s. s = 2166136261" "\<lambda>s d. Inr (fnv1a_32_update s d)" "\<lambda>s m. s = fnv1a_32 m" "\<lambda>_. ()"
  by unfold_locales (simp_all add: fnv1a_32_def fnv_update_append)

section \<open>The register as a shift register\<close>

text \<open>The bits of a register that fits \<open>w\<close> bits.\<close>

definition fits :: "nat \<Rightarrow> u32 \<Rightarrow> bool" where
  "fits w x \<longleftrightarrow> (\<forall>n\<ge>w. \<not> bit x n)"

lemma fits_32: "fits 32 x"
  using bit_imp_le_length [of x] by (force simp: fits_def)

lemma fits_mono: "fits v x \<Longrightarrow> v \<le> w \<Longrightarrow> fits w x"
  by (auto simp: fits_def)

lemma fits_xor: "fits w x \<Longrightarrow> fits w y \<Longrightarrow> fits w (x XOR y)"
  by (auto simp: fits_def bit_simps)

lemma crc_bit_bit: "bit (crc_bit p x) n \<longleftrightarrow> bit x (Suc n) \<noteq> (bit x 0 \<and> bit p n)"
proof -
  have "x AND 1 \<noteq> 0 \<longleftrightarrow> bit x 0" by (simp add: and_one_eq bit_0 even_iff_mod_2_eq_zero)
  then show ?thesis by (simp add: crc_bit_def Let_def bit_simps)
qed

lemma crc_bit_linear: "crc_bit p (x XOR y) = crc_bit p x XOR crc_bit p y"
  by (rule bit_word_eqI) (auto simp: crc_bit_bit bit_simps)

lemma crc_bits_linear: "(crc_bit p ^^ n) (x XOR y) = (crc_bit p ^^ n) x XOR (crc_bit p ^^ n) y"
  by (induction n) (simp_all add: crc_bit_linear)

lemma crc_bit_fits: "fits w p \<Longrightarrow> fits w x \<Longrightarrow> fits w (crc_bit p x)"
  by (auto simp: fits_def crc_bit_bit)

lemma crc_bits_fits: "fits w p \<Longrightarrow> fits w x \<Longrightarrow> fits w ((crc_bit p ^^ n) x)"
  by (induction n) (simp_all add: crc_bit_fits)

lemma crc_bit_zero [simp]: "crc_bit p 0 = 0" "(crc_bit p ^^ n) 0 = 0"
proof -
  show z: "crc_bit p 0 = 0" by (rule bit_word_eqI) (simp add: crc_bit_bit)
  show "(crc_bit p ^^ n) 0 = 0" by (induction n) (simp_all add: z)
qed

text \<open>With the top bit of the polynomial set, the top bit of the result tells the bit shifted out.\<close>

lemma crc_bit_inj0:
  assumes "fits (Suc v) x" "bit p v" "crc_bit p x = 0"
  shows "x = 0"
proof -
  have b: "bit x (Suc n) = (bit x 0 \<and> bit p n)" for n
    using arg_cong [OF assms(3), of "\<lambda>y. bit y n"] by (simp add: crc_bit_bit)
  have "\<not> bit x (Suc v)" using assms(1) by (simp add: fits_def)
  then have "\<not> bit x 0" using b [of v] assms(2) by simp
  then have "\<not> bit x n" for n using b by (cases n) auto
  then show ?thesis by (intro bit_word_eqI) simp
qed

lemma crc_bits_inj0:
  "fits (Suc v) p \<Longrightarrow> bit p v \<Longrightarrow> fits (Suc v) x \<Longrightarrow> (crc_bit p ^^ n) x = 0 \<Longrightarrow> x = 0"
proof (induction n)
  case (Suc n)
  then have "(crc_bit p ^^ n) x = 0" using crc_bit_inj0 [of v "(crc_bit p ^^ n) x" p] crc_bits_fits by simp
  with Suc show ?case by simp
qed simp

lemma xor_eq_zero: "(x :: 'w::len word) XOR y = 0 \<longleftrightarrow> x = y"
  by (metis xor_cancel xor_self_eq xor.left_neutral)

lemma crc_bits_inj:
  assumes "fits (Suc v) p" "bit p v" "fits (Suc v) x" "fits (Suc v) y" "(crc_bit p ^^ n) x = (crc_bit p ^^ n) y"
  shows "x = y"
proof -
  have "(crc_bit p ^^ n) (x XOR y) = 0" using assms(5) by (simp add: crc_bits_linear)
  then show ?thesis using crc_bits_inj0 [OF assms(1, 2) fits_xor [OF assms(3, 4)]] by (simp add: xor_eq_zero)
qed

text \<open>A value shifted out comes out unchanged.\<close>

lemma crc_bit_push: "fits 31 y \<Longrightarrow> crc_bit p (push_bit 1 y) = y"
proof (rule bit_word_eqI)
  fix n assume "fits 31 y" "n < LENGTH(32)"
  then show "bit (crc_bit p (push_bit 1 y)) n = bit y n"
    unfolding crc_bit_bit bit_push_bit_iff by (cases "n = 31") (simp_all add: bit_simps fits_def)
qed

lemma crc_bits_push: "fits (32 - n) y \<Longrightarrow> n \<le> 32 \<Longrightarrow> (crc_bit p ^^ n) (push_bit n y) = y"
proof (induction n arbitrary: y)
  case (Suc n)
  have f: "fits 31 (push_bit n y)" using Suc.prems by (auto simp: fits_def bit_simps)
  have "push_bit (Suc n) y = push_bit 1 (push_bit n y)" unfolding push_bit_push_bit by simp
  then have "(crc_bit p ^^ Suc n) (push_bit (Suc n) y) = (crc_bit p ^^ n) (push_bit n y)"
    by (simp only: funpow_Suc_right o_apply crc_bit_push [OF f])
  also have "\<dots> = y" using Suc fits_mono [OF Suc.prems(1), of "32 - n"] by simp
  finally show ?case .
qed simp

section \<open>Bytes of a register\<close>

primrec le_word :: "byte list \<Rightarrow> u32" where
  "le_word [] = 0"
| "le_word (b # bs) = ucast b XOR push_bit 8 (le_word bs)"

lemma ucast_fits: "fits 8 (ucast (b :: byte))"
  using bit_imp_le_length [of b] by (force simp: fits_def bit_simps)

lemma le_word_fits: "fits (8 * length bs) (le_word bs)"
proof (induction bs)
  case (Cons b bs)
  have "fits (8 + 8 * length bs) (push_bit 8 (le_word bs))"
    using Cons by (auto simp: fits_def bit_simps)
  moreover have "fits (8 + 8 * length bs) (ucast b)" using ucast_fits by (rule fits_mono) simp
  ultimately show ?case by (simp add: fits_xor)
qed (simp add: fits_def)

lemma le_word_inj:
  "length xs = length ys \<Longrightarrow> length xs \<le> 4 \<Longrightarrow> le_word xs = le_word ys \<Longrightarrow> xs = ys"
proof (induction xs ys rule: list_induct2)
  case (Cons x xs y ys)
  have e: "bit (le_word (x # xs)) n = bit (le_word (y # ys)) n" for n using Cons.prems by simp
  have "bit x n = bit y n" if "n < 8" for n
    using e [of n] that by (simp add: bit_simps)
  then have h: "x = y" by (intro bit_word_eqI) simp
  have f: "fits 24 (le_word xs)" "fits 24 (le_word ys)"
    using Cons.prems Cons.hyps le_word_fits [of xs] le_word_fits [of ys] by (auto intro: fits_mono)
  have "le_word xs = le_word ys"
  proof (rule bit_word_eqI)
    fix n assume "n < LENGTH(32)"
    then show "bit (le_word xs) n = bit (le_word ys) n"
      using e [of "n + 8"] f h by (cases "n < 24") (auto simp: bit_simps fits_def)
  qed
  with Cons h show ?case by simp
qed simp

text \<open>Bytes that fit the register may be taken in at once.\<close>

lemma crc_update_word:
  "length bs \<le> 4 \<Longrightarrow> crc_reflected_update c bs p = (crc_bit p ^^ (8 * length bs)) (c XOR le_word bs)"
proof (induction bs arbitrary: c)
  case (Cons b bs)
  have f: "fits (32 - 8) (le_word bs)" using le_word_fits Cons.prems by (rule_tac fits_mono) auto
  have "crc_reflected_update c (b # bs) p =
      (crc_bit p ^^ (8 * length bs)) ((crc_bit p ^^ 8) (c XOR ucast b) XOR le_word bs)"
    using Cons by (simp add: crc_reflected_byte_def)
  also have "(crc_bit p ^^ 8) (c XOR ucast b) XOR le_word bs =
      (crc_bit p ^^ 8) (c XOR ucast b XOR push_bit 8 (le_word bs))"
    unfolding crc_bits_linear crc_bits_push [OF f, of p, simplified] by (simp add: xor.assoc)
  also have "(crc_bit p ^^ (8 * length bs)) \<dots> = (crc_bit p ^^ (8 * length (b # bs))) (c XOR le_word (b # bs))"
    by (simp add: xor.assoc funpow_add [symmetric, unfolded o_def, THEN fun_cong] add.commute)
  finally show ?case .
qed simp

lemma crc_update_fits: "fits w p \<Longrightarrow> 8 \<le> w \<Longrightarrow> fits w c \<Longrightarrow> fits w (crc_reflected_update c bs p)"
  by (induction c bs p rule: crc_reflected_update.induct)
    (simp_all add: crc_reflected_byte_def crc_bits_fits fits_xor fits_mono [OF ucast_fits])

lemma crc_update_inj:
  assumes "fits (Suc v) p" "bit p v" "8 \<le> Suc v"
  shows "fits (Suc v) c \<Longrightarrow> fits (Suc v) d \<Longrightarrow> crc_reflected_update c bs p = crc_reflected_update d bs p \<Longrightarrow> c = d"
proof (induction bs arbitrary: c d)
  case (Cons b bs)
  have f: "fits (Suc v) (c XOR ucast b)" "fits (Suc v) (d XOR ucast b)"
    using Cons.prems fits_mono [OF ucast_fits assms(3)] by (simp_all add: fits_xor)
  then have "crc_reflected_byte c b p = crc_reflected_byte d b p"
    using Cons.IH [of "crc_reflected_byte c b p" "crc_reflected_byte d b p"] Cons.prems assms(1)
    by (simp add: crc_reflected_byte_def crc_bits_fits)
  then have "c XOR ucast b = d XOR ucast b"
    using crc_bits_inj [OF assms(1, 2) f] by (simp add: crc_reflected_byte_def)
  then show ?case by (metis xor_cancel)
qed simp

text \<open>Two messages that differ only in a stretch no longer than the register have different checksums.\<close>

lemma crc_burst:
  assumes "fits (Suc v) p" "bit p v" "8 \<le> Suc v" "v < 32" "fits (Suc v) c"
    and "length a = length b" "8 * length a \<le> Suc v"
    and eq: "crc_reflected_update c (pre @ a @ post) p = crc_reflected_update c (pre @ b @ post) p"
  shows "a = b"
proof -
  let ?d = "crc_reflected_update c pre p"
  have d: "fits (Suc v) ?d" using assms by (simp add: crc_update_fits)
  have l: "length a \<le> 4" "length b \<le> 4" using assms by simp_all
  have w: "fits (Suc v) (le_word a)" "fits (Suc v) (le_word b)"
    using le_word_fits [of a] le_word_fits [of b] assms(6, 7) fits_mono by auto
  have "crc_reflected_update ?d a p = crc_reflected_update ?d b p"
    using eq crc_update_inj [OF assms(1-3)] d assms(1, 3) by (simp add: crc_update_append crc_update_fits)
  then have "(crc_bit p ^^ (8 * length a)) (?d XOR le_word a) = (crc_bit p ^^ (8 * length a)) (?d XOR le_word b)"
    using l assms(6) by (simp add: crc_update_word)
  then have "?d XOR le_word a = ?d XOR le_word b"
    using crc_bits_inj [OF assms(1, 2) fits_xor [OF d w(1)] fits_xor [OF d w(2)]] by blast
  then have "le_word a = le_word b" by (metis xor.commute xor_cancel)
  then show ?thesis using le_word_inj assms(6) l by blast
qed

text \<open>
  CRC-32 detects every burst: two messages that differ only within four adjacent bytes have different
  checksums, also when they are fed in pieces.
\<close>

theorem crc32_detects_burst:
  assumes "length a = length b" "length a \<le> 4" "a \<noteq> b"
  shows "crc32_update (crc32_update crc (pre @ a)) post \<noteq> crc32_update (crc32_update crc (pre @ b)) post"
proof
  assume eq: "crc32_update (crc32_update crc (pre @ a)) post = crc32_update (crc32_update crc (pre @ b)) post"
  have p: "bit crc32_polynomial 31" by code_simp
  have "crc32_update crc (pre @ a @ post) = crc32_update crc (pre @ b @ post)"
    using eq by (simp only: crc32_update_append)
  then have "crc_reflected_update (crc XOR 0xFFFFFFFF) (pre @ a @ post) crc32_polynomial =
      crc_reflected_update (crc XOR 0xFFFFFFFF) (pre @ b @ post) crc32_polynomial"
    unfolding crc32_update_def by (rule xor_right_inj)
  moreover have "fits (Suc 31) x" for x using fits_32 [of x] by (rule fits_mono) simp
  ultimately have "a = b" by (intro crc_burst [of 31 crc32_polynomial _ a b]) (use p assms in simp_all)
  then show False using assms(3) by simp
qed

theorem crc32_detects_burst_witness:
  "crc32_update (crc32_update 0 ([1, 2] @ [3, 4])) [5, 6] \<noteq> crc32_update (crc32_update 0 ([1, 2] @ [4, 3])) [5, 6]"
  by (rule crc32_detects_burst) simp_all

end
