(* ===== verification/Modbus.thy ===== *)
theory Modbus
  imports Hash
begin

text \<open>
  Modbus: the requests and answers (PDUs) and their RTU frames (\<^verbatim>\<open>src/lh/core/net/modbus.c\<close>), the two
  framings (the first part of \<^verbatim>\<open>net/modbus/link.c\<close>) and the planner that covers a list of wanted
  registers with requests. A buffer is the list of its bytes and its length the count the C functions are
  given; null pointers are not represented. A builder returns the bytes it wrote, none when it
  refuses.
\<close>

section \<open>Checksum and words\<close>

definition mb_crc16 :: "byte list \<Rightarrow> u16" where
  "mb_crc16 bytes = ucast (crc_reflected_update 0xFFFF bytes 0xA001)"

definition hi :: "u16 \<Rightarrow> byte" where
  "hi x = ucast (drop_bit 8 x AND 0xFF)"

definition lo :: "u16 \<Rightarrow> byte" where
  "lo x = ucast (x AND 0xFF)"

definition be16 :: "byte \<Rightarrow> byte \<Rightarrow> u16" where
  "be16 h l = push_bit 8 (ucast h) OR ucast l"

abbreviation fc_read_holding :: u8 where "fc_read_holding \<equiv> 0x03"
abbreviation fc_read_input :: u8 where "fc_read_input \<equiv> 0x04"
abbreviation fc_write_one :: u8 where "fc_write_one \<equiv> 0x06"
abbreviation fc_write_many :: u8 where "fc_write_many \<equiv> 0x10"
abbreviation adu_max :: nat where "adu_max \<equiv> 260"

section \<open>Requests\<close>

definition build_pdu_read :: "nat \<Rightarrow> u8 \<Rightarrow> u16 \<Rightarrow> u16 \<Rightarrow> byte list" where
  "build_pdu_read cap fc address count =
     (if cap < 6 \<or> count = 0 \<or> 125 < count then []
      else if \<not> (fc = fc_read_holding \<or> fc = fc_read_input) then []
      else [fc, hi address, lo address, hi count, lo count])"

definition words_bytes :: "u16 list \<Rightarrow> byte list" where
  "words_bytes values = concat (map (\<lambda>v. [hi v, lo v]) values)"

definition build_pdu_write :: "nat \<Rightarrow> u16 \<Rightarrow> u16 list \<Rightarrow> byte list" where
  "build_pdu_write cap address values =
     (let count = length values
      in if count = 0 \<or> 123 < count then []
         else if cap < 6 + count * 2 then []
         else [fc_write_many, hi address, lo address, hi (of_nat count), lo (of_nat count), of_nat (count * 2)]
              @ words_bytes values)"

definition build_pdu_write_one :: "nat \<Rightarrow> u16 \<Rightarrow> u16 \<Rightarrow> byte list" where
  "build_pdu_write_one cap address value =
     (if cap < 5 then [] else [fc_write_one, hi address, lo address, hi value, lo value])"

definition with_crc :: "byte list \<Rightarrow> byte list" where
  "with_crc body = (let crc = mb_crc16 body in body @ [lo crc, hi crc])"

definition build_read :: "nat \<Rightarrow> u8 \<Rightarrow> u8 \<Rightarrow> u16 \<Rightarrow> u16 \<Rightarrow> byte list" where
  "build_read cap unit fc address count =
     (if cap < 8 then []
      else let pdu = build_pdu_read 16 fc address count
           in if pdu = [] then [] else with_crc (unit # pdu))"

definition build_write :: "nat \<Rightarrow> u8 \<Rightarrow> u16 \<Rightarrow> u16 list \<Rightarrow> byte list" where
  "build_write cap unit address values =
     (let count = length values
      in if count = 0 \<or> 125 < count then []
         else if cap < 9 + count * 2 then []
         else let pdu = build_pdu_write adu_max address values
              in if pdu = [] then [] else with_crc (unit # pdu))"

section \<open>Answers\<close>

datatype mb_status =
    Status_ok
  | Status_partial
  | Status_short
  | Status_crc
  | Status_exception
  | Status_wrong_unit
  | Status_wrong_code
  | Status_garbage
  | Status_lost

text \<open>
  What a parser leaves behind: its status, the word count, the array of values and the exception code.
\<close>

record answer =
  status :: mb_status
  out :: u16
  out_values :: "u16 list"
  exception_code :: u8

definition no_answer :: "mb_status \<Rightarrow> u16 list \<Rightarrow> answer" where
  "no_answer s values = \<lparr>status = s, out = 0, out_values = values, exception_code = 0\<rparr>"

definition parse_pdu :: "byte list \<Rightarrow> u8 \<Rightarrow> u16 \<Rightarrow> u16 list \<Rightarrow> answer" where
  "parse_pdu pdu fc expect values =
     (if length pdu < 2 then no_answer Status_short values
      else if pdu ! 0 = (fc OR 0x80) then (no_answer Status_exception values)\<lparr>exception_code := pdu ! 1\<rparr>
      else if length pdu < 4 then no_answer Status_short values
      else if pdu ! 0 \<noteq> fc then no_answer Status_wrong_code values
      else
        let bytes = unat (pdu ! 1)
        in if bytes mod 2 \<noteq> 0 then no_answer Status_garbage values
           else
             let got = bytes div 2
             in if length pdu - 2 < bytes then no_answer Status_short values
                else
                  let n = (if got < length values then got else length values);
                      values' = map (\<lambda>i. be16 (pdu ! (2 + i * 2)) (pdu ! (3 + i * 2))) [0..<n] @ drop n values
                  in \<lparr>status = (if of_nat got < expect then Status_partial else Status_ok), out = of_nat got,
                      out_values = values', exception_code = 0\<rparr>)"

text \<open>The two write answers echo their request.\<close>

definition parse_echo :: "u8 \<Rightarrow> byte list \<Rightarrow> u16 \<Rightarrow> u16 \<Rightarrow> mb_status \<times> u8" where
  "parse_echo fc pdu address word =
     (if length pdu < 2 then (Status_short, 0)
      else if pdu ! 0 = (fc OR 0x80) then (Status_exception, pdu ! 1)
      else if length pdu < 5 then (Status_short, 0)
      else if pdu ! 0 \<noteq> fc then (Status_wrong_code, 0)
      else if be16 (pdu ! 1) (pdu ! 2) \<noteq> address \<or> be16 (pdu ! 3) (pdu ! 4) \<noteq> word then (Status_garbage, 0)
      else (Status_ok, 0))"

definition parse_pdu_write :: "byte list \<Rightarrow> u16 \<Rightarrow> u16 \<Rightarrow> mb_status \<times> u8" where
  "parse_pdu_write pdu address count = parse_echo fc_write_many pdu address count"

definition parse_pdu_write_one :: "byte list \<Rightarrow> u16 \<Rightarrow> u16 \<Rightarrow> mb_status \<times> u8" where
  "parse_pdu_write_one pdu address value = parse_echo fc_write_one pdu address value"

text \<open>
  The frame is copied into a buffer of \<^verbatim>\<open>LH_MB_ADU_MAX\<close> bytes; a longer one would be written behind its
  end, which is the value \<open>None\<close>.
\<close>

definition parse_read :: "byte list \<Rightarrow> u8 \<Rightarrow> u8 \<Rightarrow> u16 \<Rightarrow> u16 list \<Rightarrow> answer option" where
  "parse_read adu unit fc expect values =
     (let n = length adu
      in if n < 3 then Some (no_answer Status_short values)
         else if adu ! 0 \<noteq> unit then Some (no_answer Status_wrong_unit values)
         else if adu ! 1 = (fc OR 0x80) then Some ((no_answer Status_exception values)\<lparr>exception_code := adu ! 2\<rparr>)
         else if n < 5 then Some (no_answer Status_short values)
         else if mb_crc16 (take (n - 2) adu) \<noteq> be16 (adu ! (n - 1)) (adu ! (n - 2))
         then Some (no_answer Status_crc values)
         else if adu_max < n - 3 then None
         else Some ((parse_pdu (take (n - 3) (drop 1 adu)) fc expect values)\<lparr>exception_code := 0\<rparr>))"

section \<open>Framings\<close>

datatype framing = Rtu | Mbap

definition mbap_head :: nat where
  "mbap_head = 7"

text \<open>The frame; \<open>None\<close> when the room check passes and the frame is still longer than the buffer.\<close>

definition mb_encode :: "framing \<Rightarrow> u8 \<Rightarrow> u16 \<Rightarrow> byte list \<Rightarrow> u16 \<Rightarrow> byte list option" where
  "mb_encode framing unit tx pdu cap =
     (let pdu_length = length pdu;
          frame = (if framing = Mbap
                   then [ucast (drop_bit 8 tx), lo tx, 0, 0, hi (of_nat (1 + pdu_length)), lo (of_nat (1 + pdu_length)), unit]
                        @ pdu
                   else with_crc (unit # pdu))
      in if cap < of_nat ((if framing = Mbap then mbap_head else 2) + pdu_length) then Some []
         else if unat cap < length frame then None
         else Some frame)"

definition rtu_frame_length :: "byte list \<Rightarrow> u8 \<Rightarrow> nat" where
  "rtu_frame_length frame fc =
     (if length frame < 3 then 0
      else if frame ! 1 AND 0x80 \<noteq> 0 then 5
      else if fc = fc_read_holding \<or> fc = fc_read_input then 5 + unat (frame ! 2)
      else if fc = fc_write_one \<or> fc = fc_write_many then 8
      else 0)"

definition frame_length :: "framing \<Rightarrow> byte list \<Rightarrow> u8 \<Rightarrow> nat" where
  "frame_length framing frame fc =
     (if framing = Mbap then
        if length frame < mbap_head then 0
        else if frame ! 2 \<noteq> 0 \<or> frame ! 3 \<noteq> 0 then 0
        else let len = unat (be16 (frame ! 4) (frame ! 5))
             in if len < 2 \<or> adu_max - mbap_head + 1 < len then 0
                else mbap_head + len - 1
      else rtu_frame_length frame fc)"

definition mb_decode :: "framing \<Rightarrow> u8 \<Rightarrow> byte list \<Rightarrow> byte list option" where
  "mb_decode framing unit frame =
     (let n = length frame
      in if framing = Mbap then
           if \<not> mbap_head < n then None
           else if frame ! 2 \<noteq> 0 \<or> frame ! 3 \<noteq> 0 \<or> frame ! 6 \<noteq> unit then None
           else Some (drop 7 frame)
         else if n < 4 then None
         else if frame ! 0 \<noteq> unit then None
         else if mb_crc16 (take (n - 2) frame) \<noteq> be16 (frame ! (n - 1)) (frame ! (n - 2)) then None
         else Some (take (n - 3) (drop 1 frame)))"

section \<open>Bytes and words\<close>

lemma word_mask8: "(0xFF :: 'w::len word) = mask 8"
  by (simp add: mask_eq_exp_minus_1)

lemma hi_lo_bits:
  "bit (hi x) n \<longleftrightarrow> n < 8 \<and> bit x (n + 8)" "bit (lo x) n \<longleftrightarrow> n < 8 \<and> bit x n"
  "bit (be16 h l) n \<longleftrightarrow> (if n < 8 then bit l n else bit h (n - 8))"
  using bit_imp_le_length [of h "n - 8"] bit_imp_le_length [of l n]
  by (auto simp: hi_def lo_def be16_def word_mask8 bit_simps add.commute)

lemma be16_hi_lo [simp]: "be16 (hi x) (lo x) = x"
proof (rule bit_word_eqI)
  fix n assume "n < LENGTH(16)"
  then have "n - 8 < 8" by simp
  then show "bit (be16 (hi x) (lo x)) n = bit x n" by (simp add: hi_lo_bits)
qed

lemma hi_be16 [simp]: "hi (be16 h l) = h" "lo (be16 h l) = l"
  by (rule bit_word_eqI, simp add: hi_lo_bits)+

lemma be16_eq_iff: "be16 h l = x \<longleftrightarrow> h = hi x \<and> l = lo x"
  by (metis be16_hi_lo hi_be16)

lemma words_bytes_length [simp]: "length (words_bytes vs) = 2 * length vs"
  by (induction vs) (simp_all add: words_bytes_def)

lemma words_bytes_nth:
  "i < length vs \<Longrightarrow> words_bytes vs ! (i * 2) = hi (vs ! i) \<and> words_bytes vs ! Suc (i * 2) = lo (vs ! i)"
proof (induction vs arbitrary: i)
  case (Cons v vs)
  then show ?case by (cases i) (simp_all add: words_bytes_def)
qed simp

section \<open>The checksum of a frame\<close>

abbreviation crc16_run :: "byte list \<Rightarrow> u32" where
  "crc16_run bytes \<equiv> crc_reflected_update 0xFFFF bytes 0xA001"

lemma fits_16:
  assumes "unat (x :: u32) < 65536"
  shows "fits 16 x"
proof -
  have "x = take_bit 16 x" using assms by (simp add: word_unat_eq_iff take_bit_eq_mod unat_mod)
  then show ?thesis unfolding fits_def by (metis bit_take_bit_iff not_le)
qed

lemma crc16_fits: "fits (Suc 15) 0xA001" "bit (0xA001 :: u32) 15" "fits (Suc 15) (crc16_run bytes)"
proof -
  show f: "fits (Suc 15) 0xA001" using fits_16 [of "0xA001"] by simp
  show "bit (0xA001 :: u32) 15" by code_simp
  show "fits (Suc 15) (crc16_run bytes)"
    by (rule crc_update_fits [OF f]) (use fits_16 [of "0xFFFF"] in simp_all)
qed

lemma le_word_pair: "le_word [l, h] = ucast (be16 h l)"
proof (rule bit_word_eqI)
  fix n
  show "bit (le_word [l, h]) n = bit (ucast (be16 h l) :: u32) n"
    using bit_imp_le_length [of h] bit_imp_le_length [of l n]
    by (auto simp: bit_simps hi_lo_bits)
qed

text \<open>A frame carries its own checksum exactly when the register ends at zero.\<close>

lemma crc16_residue: "crc16_run (body @ [l, h]) = 0 \<longleftrightarrow> mb_crc16 body = be16 h l"
proof -
  let ?c = "crc16_run body"
  have f: "fits (Suc 15) ?c" by (rule crc16_fits(3))
  have w: "fits (Suc 15) (le_word [l, h])" using le_word_fits [of "[l, h]"] by (rule fits_mono) simp
  have "crc_reflected_update ?c [l, h] 0xA001 = (crc_bit 0xA001 ^^ (8 * length [l, h])) (?c XOR le_word [l, h])"
    by (rule crc_update_word) simp
  moreover have "8 * length [l, h] = 16" by simp
  ultimately have "crc16_run (body @ [l, h]) = (crc_bit 0xA001 ^^ 16) (?c XOR le_word [l, h])"
    by (simp only: crc_update_append)
  then have "crc16_run (body @ [l, h]) = 0 \<longleftrightarrow> ?c XOR le_word [l, h] = 0"
    using crc_bits_inj0 [OF crc16_fits(1, 2) fits_xor [OF f w], of 16] by auto
  also have "\<dots> \<longleftrightarrow> ?c = ucast (be16 h l)" by (simp only: xor_eq_zero le_word_pair)
  also have "\<dots> \<longleftrightarrow> mb_crc16 body = be16 h l"
  proof
    assume "mb_crc16 body = be16 h l"
    then have "bit ?c n = bit (be16 h l) n" if "n < 16" for n
      using that unfolding mb_crc16_def by (auto simp: bit_simps dest: arg_cong [where f = "\<lambda>x. bit x n"])
    moreover have "\<not> bit ?c n" if "\<not> n < 16" for n using f that by (simp add: fits_def)
    moreover have "\<not> bit (be16 h l) n" if "\<not> n < 16" for n using bit_imp_le_length [of "be16 h l" n] that by auto
    ultimately show "?c = ucast (be16 h l)" by (intro bit_word_eqI) (auto simp: bit_simps)
  next
    assume "?c = ucast (be16 h l)"
    then show "mb_crc16 body = be16 h l"
      unfolding mb_crc16_def by (simp only:) (rule bit_word_eqI, simp add: bit_simps)
  qed
  finally show ?thesis .
qed

lemma frame_crc_iff:
  assumes "2 \<le> length f"
  shows "mb_crc16 (take (length f - 2) f) = be16 (f ! (length f - 1)) (f ! (length f - 2)) \<longleftrightarrow> crc16_run f = 0"
proof -
  obtain g h where g: "f = g @ [h]" using assms by (cases f rule: rev_cases) auto
  then obtain body l where "g = body @ [l]" using assms by (cases g rule: rev_cases) auto
  with g show ?thesis using crc16_residue [of body l h] by (simp add: nth_append)
qed

lemma decode_rtu:
  "mb_decode Rtu unit f = (if 4 \<le> length f \<and> f ! 0 = unit \<and> crc16_run f = 0
     then Some (take (length f - 3) (drop 1 f)) else None)"
  using frame_crc_iff [of f] by (simp add: mb_decode_def Let_def)

lemma with_crc_residue: "crc16_run (with_crc body) = 0"
  by (simp only: with_crc_def Let_def crc16_residue) simp

lemma with_crc_length [simp]: "length (with_crc body) = length body + 2"
  by (simp add: with_crc_def Let_def)

text \<open>
  C16: a damaged RTU frame is never taken for an answer: if a frame is accepted, no frame that differs from it
  only within two adjacent bytes, the checksum included, is accepted for any unit.
\<close>

theorem rtu_detects_damage:
  assumes "mb_decode Rtu unit (pre @ a @ post) = Some pdu" "length a = length b" "length a \<le> 2" "a \<noteq> b"
  shows "mb_decode Rtu unit' (pre @ b @ post) = None"
proof -
  have "crc16_run (pre @ a @ post) = 0" using assms(1) by (metis decode_rtu option.distinct(1))
  moreover have "crc16_run (pre @ a @ post) \<noteq> crc16_run (pre @ b @ post)"
  proof
    assume eq: "crc16_run (pre @ a @ post) = crc16_run (pre @ b @ post)"
    have "fits (Suc 15) (0xFFFF :: u32)" using fits_16 [of "0xFFFF"] by simp
    from crc_burst [OF crc16_fits(1, 2) _ _ this assms(2) _ eq] assms(3) have "a = b" by simp
    with assms(4) show False by simp
  qed
  ultimately show ?thesis by (simp only: decode_rtu) simp
qed

lemma decode_with_crc: "pdu \<noteq> [] \<Longrightarrow> mb_decode Rtu unit (with_crc (unit # pdu)) = Some pdu"
  unfolding decode_rtu with_crc_residue
  by (cases pdu) (simp_all add: with_crc_def Let_def)

theorem rtu_detects_damage_witness:
  "mb_decode Rtu 1 ([1, 3, 2] @ [0, 8] @ [lo (mb_crc16 [1, 3, 2, 0, 7]), hi (mb_crc16 [1, 3, 2, 0, 7])]) = None"
proof (rule rtu_detects_damage)
  show "mb_decode Rtu 1 ([1, 3, 2] @ [0, 7] @ [lo (mb_crc16 [1, 3, 2, 0, 7]), hi (mb_crc16 [1, 3, 2, 0, 7])]) =
      Some [3, 2, 0, 7]"
    using decode_with_crc [of "[3, 2, 0, 7]" 1] by (simp only: with_crc_def Let_def append.simps) simp
qed simp_all

section \<open>Frames there and back\<close>

text \<open>The shapes an answer to function code \<open>fc\<close> can have.\<close>

definition answer_shape :: "u8 \<Rightarrow> byte list \<Rightarrow> bool" where
  "answer_shape fc pdu \<longleftrightarrow>
     (length pdu = 2 \<and> pdu ! 0 AND 0x80 \<noteq> 0) \<or>
     (fc \<in> {fc_read_holding, fc_read_input} \<and> 2 \<le> length pdu \<and> pdu ! 0 = fc \<and> length pdu = 2 + unat (pdu ! 1)
        \<and> length pdu \<le> 253) \<or>
     (fc \<in> {fc_write_one, fc_write_many} \<and> length pdu = 5 \<and> pdu ! 0 = fc)"

lemma encode_fits:
  assumes "length pdu \<le> 253"
  shows "mb_encode Rtu unit tx pdu 260 = Some (with_crc (unit # pdu))"
    and "mb_encode Mbap unit tx pdu 260 =
      Some ([hi tx, lo tx, 0, 0, hi (of_nat (1 + length pdu)), lo (of_nat (1 + length pdu)), unit] @ pdu)"
proof -
  have u: "unat (of_nat (k + length pdu) :: u16) = k + length pdu" if "k \<le> 7" for k
    using that assms by (simp add: unat_of_nat del: of_nat_add)
  have "ucast (drop_bit 8 tx) = hi tx"
    by (rule bit_word_eqI) (auto simp: hi_lo_bits bit_simps add.commute)
  moreover have "\<not> 260 < (of_nat (2 + length pdu) :: u16)" "\<not> 260 < (of_nat (7 + length pdu) :: u16)"
    using u [of 2] u [of 7] assms by (simp_all add: word_less_nat_alt del: of_nat_add)
  ultimately show "mb_encode Rtu unit tx pdu 260 = Some (with_crc (unit # pdu))"
    "mb_encode Mbap unit tx pdu 260 =
      Some ([hi tx, lo tx, 0, 0, hi (of_nat (1 + length pdu)), lo (of_nat (1 + length pdu)), unit] @ pdu)"
    using assms by (simp_all add: mb_encode_def Let_def mbap_head_def del: of_nat_add)
qed

text \<open>The room check of an RTU frame counts one checksum byte of the two: a buffer one byte short is overrun.\<close>

lemma encode_rtu_overrun:
  assumes "length pdu \<le> 253"
  shows "mb_encode Rtu unit tx pdu (of_nat (2 + length pdu)) = None"
proof -
  have "unat (of_nat (2 + length pdu) :: u16) = 2 + length pdu" using assms by (intro unat_of_nat_small) simp
  then show ?thesis by (simp add: mb_encode_def Let_def del: of_nat_add)
qed

lemma frame_length_rtu:
  assumes "answer_shape fc pdu"
  shows "rtu_frame_length (with_crc (unit # pdu) @ rest) fc = length (with_crc (unit # pdu))"
proof -
  have n: "(3 :: u8) AND 128 = 0" "(4 :: u8) AND 128 = 0" "(6 :: u8) AND 128 = 0" "(16 :: u8) AND 128 = 0" by code_simp+
  obtain a b cs where "pdu = a # b # cs" using assms
    by (cases pdu; cases "tl pdu") (auto simp: answer_shape_def)
  then show ?thesis
    using assms n by (auto simp: answer_shape_def rtu_frame_length_def with_crc_def Let_def)
qed

lemma frame_length_mbap:
  assumes "pdu \<noteq> []" "length pdu \<le> 253"
  shows "frame_length Mbap ([hi tx, lo tx, 0, 0, hi (of_nat (1 + length pdu)), lo (of_nat (1 + length pdu)), unit] @ pdu @ rest) fc
    = 7 + length pdu"
proof -
  have "unat (of_nat (1 + length pdu) :: u16) = 1 + length pdu"
    using assms(2) by (intro unat_of_nat_small) simp
  then show ?thesis using assms by (simp add: frame_length_def mbap_head_def Let_def del: of_nat_add of_nat_Suc)
qed

text \<open>
  C17: framing is lossless over both lines: an answer put into a frame fits the frame buffer, its length is
  found from the bytes that have arrived even when more bytes follow it, and taking
  the frame apart gives the answer back.
\<close>

theorem mb_frame_roundtrip:
  assumes "answer_shape fc pdu"
  shows "\<exists>frame. mb_encode framing unit tx pdu 260 = Some frame \<and> length frame \<le> adu_max \<and>
     (\<forall>rest. frame_length framing (frame @ rest) fc = length frame) \<and> mb_decode framing unit frame = Some pdu"
proof -
  have l: "pdu \<noteq> []" "length pdu \<le> 253" using assms by (auto simp: answer_shape_def)
  show ?thesis
  proof (cases framing)
    case Rtu
    show ?thesis unfolding Rtu
      using encode_fits(1) [OF l(2)] decode_with_crc [OF l(1)] frame_length_rtu [OF assms] l(2)
      by (auto simp: frame_length_def)
  next
    case Mbap
    have "mb_decode Mbap unit ([hi tx, lo tx, 0, 0, hi (of_nat (1 + length pdu)), lo (of_nat (1 + length pdu)), unit] @ pdu)
        = Some pdu"
      using l(1) by (simp add: mb_decode_def mbap_head_def Let_def)
    then show ?thesis unfolding Mbap
      using encode_fits(2) [OF l(2)] frame_length_mbap [OF l] l(2) by auto
  qed
qed

theorem mb_frame_roundtrip_witness:
  "\<exists>frame. mb_encode Mbap 17 258 [3, 2, 0, 7] 260 = Some frame \<and> frame_length Mbap (frame @ [9, 9]) 3 = length frame \<and>
     mb_decode Mbap 17 frame = Some [3, 2, 0, 7]"
proof -
  have "answer_shape 3 [3, 2, 0, 7]" by code_simp
  from mb_frame_roundtrip [OF this] show ?thesis by metis
qed

text \<open>The values of a read answer come back as they were sent.\<close>

lemma parse_read_answer:
  assumes "0 < length vs" "length vs \<le> 127" "fc = fc_read_holding \<or> fc = fc_read_input"
  shows "parse_pdu (fc # of_nat (2 * length vs) # words_bytes vs) fc expect values =
    \<lparr>status = (if of_nat (length vs) < expect then Status_partial else Status_ok), out = of_nat (length vs),
     out_values = take (length values) vs @ drop (length vs) values, exception_code = 0\<rparr>"
proof -
  have u: "unat (of_nat (2 * length vs) :: u8) = 2 * length vs"
    using assms(2) by (simp add: unat_of_nat del: of_nat_mult)
  have "(3 :: u8) OR 128 = 131" "(4 :: u8) OR 128 = 132" by code_simp+
  then have e: "fc \<noteq> (fc OR 0x80)" using assms(3) by auto
  define n where "n = (if length vs < length values then length vs else length values)"
  have n: "n = min (length vs) (length values)" by (simp add: n_def)
  have m: "map (\<lambda>i. be16 ((fc # of_nat (2 * length vs) # words_bytes vs) ! (2 + i * 2))
      ((fc # of_nat (2 * length vs) # words_bytes vs) ! (3 + i * 2))) [0..<n] = take n vs"
    by (rule nth_equalityI) (simp_all add: n words_bytes_nth numeral_3_eq_3)
  have t: "take n vs @ drop n values = take (length values) vs @ drop (length vs) values"
    unfolding n by (cases "length vs < length values") (simp_all add: min_def)
  show ?thesis
    using assms(1) e u m t by (simp add: parse_pdu_def Let_def n_def [symmetric] del: of_nat_mult)
qed

end
