(* ===== verification/Modbus_Link.thy ===== *)
theory Modbus_Link
  imports Modbus
begin

text \<open>
  A Modbus link (\<^verbatim>\<open>src/lh/core/net/modbus/link.c\<close>, \<^verbatim>\<open>link/counters.c\<close>): one device on one line, one
  question in flight, and a poll that never waits. The stream and the clock are the environment: a
  write is answered with the count it reports, a read with what arrived, a clock call with the
  time, and a link without a clock gets \<open>None\<close>. The bytes held are the live part of the frame buffer.
  Shown: the buffer never fills up without a whole frame in it, a question is ended exactly once, and
  over MBAP the answer to the question in flight is found however the bytes are cut into reads and whatever
  stale answers precede it.
\<close>

section \<open>Data\<close>

datatype link_state =
    Link_idle
  | Link_waiting
  | Link_answered
  | Link_failed

record counters =
  c_sent :: u32
  c_done :: u32
  c_failed :: u32
  c_refused :: u32
  c_bytes :: u32
  c_us_busy :: u64

definition count_sent :: "counters \<Rightarrow> counters" where
  "count_sent self = self\<lparr>c_sent := c_sent self + 1\<rparr>"

definition count_done :: "counters \<Rightarrow> counters" where
  "count_done self = self\<lparr>c_done := c_done self + 1\<rparr>"

definition count_failed :: "counters \<Rightarrow> counters" where
  "count_failed self = self\<lparr>c_failed := c_failed self + 1\<rparr>"

definition count_refused :: "counters \<Rightarrow> counters" where
  "count_refused self = self\<lparr>c_refused := c_refused self + 1\<rparr>"

definition add_bytes :: "u32 \<Rightarrow> counters \<Rightarrow> counters" where
  "add_bytes n self = self\<lparr>c_bytes := c_bytes self + n\<rparr>"

definition add_us_busy :: "u64 \<Rightarrow> counters \<Rightarrow> counters" where
  "add_us_busy us self = self\<lparr>c_us_busy := c_us_busy self + us\<rparr>"

record mb_link =
  l_framing :: framing
  l_unit :: u8
  l_fc :: u8
  l_asked_fc :: u8
  l_state :: link_state
  l_reason :: mb_status
  l_address :: u16
  l_expected :: u16
  l_got :: u16
  l_written :: u16
  l_held :: "byte list"
  l_tx :: u16
  l_asked_tx :: u16
  l_since_us :: u64
  l_values :: "u16 list"
  l_counters :: counters

definition counters_zero :: counters where
  "counters_zero = \<lparr>c_sent = 0, c_done = 0, c_failed = 0, c_refused = 0, c_bytes = 0, c_us_busy = 0\<rparr>"

text \<open>What a read of the stream answers.\<close>

datatype io_read =
    Io_bytes "byte list"
  | Io_end
  | Io_pending
  | Io_error

section \<open>Operations\<close>

definition link_init :: "framing \<Rightarrow> u8 \<Rightarrow> mb_link" where
  "link_init framing unit =
     \<lparr>l_framing = framing, l_unit = unit, l_fc = fc_read_holding, l_asked_fc = fc_read_holding,
      l_state = Link_idle, l_reason = Status_ok, l_address = 0, l_expected = 0, l_got = 0, l_written = 0,
      l_held = [], l_tx = 0, l_asked_tx = 0, l_since_us = 0, l_values = replicate 125 0,
      l_counters = counters_zero\<rparr>"

definition link_set_fc :: "u8 \<Rightarrow> mb_link \<Rightarrow> mb_link" where
  "link_set_fc fc self = (if l_state self \<noteq> Link_idle then self else self\<lparr>l_fc := fc\<rparr>)"

definition link_set_stream :: "mb_link \<Rightarrow> mb_link" where
  "link_set_stream self = self\<lparr>l_held := [], l_state := Link_idle, l_reason := Status_ok\<rparr>"

definition link_fail :: "mb_status \<Rightarrow> mb_link \<Rightarrow> mb_link" where
  "link_fail reason self =
     self\<lparr>l_state := Link_idle, l_reason := reason, l_counters := count_failed (l_counters self)\<rparr>"

definition link_lose :: "mb_link \<Rightarrow> mb_link \<times> link_state" where
  "link_lose self = (link_fail Status_lost (self\<lparr>l_held := []\<rparr>), Link_failed)"

definition link_consume :: "nat \<Rightarrow> mb_link \<Rightarrow> mb_link" where
  "link_consume n self =
     (if l_framing self \<noteq> Mbap \<or> n \<ge> length (l_held self) then self\<lparr>l_held := []\<rparr>
      else self\<lparr>l_held := drop n (l_held self)\<rparr>)"

definition link_take :: "mb_link \<Rightarrow> (u16 \<times> u16 list) option" where
  "link_take self = (if l_state self = Link_answered then Some (l_got self, l_values self) else None)"

definition link_release :: "mb_link \<Rightarrow> mb_link" where
  "link_release self =
     (let self1 = self\<lparr>l_state := Link_idle\<rparr>
      in if l_framing self1 \<noteq> Mbap then self1\<lparr>l_held := []\<rparr> else self1)"

text \<open>The write answers a count, \<open>- 2\<close> for pending and another negative number for a failure.\<close>

definition io_pending :: int where
  "io_pending = - 2"

text \<open>The bookkeeping once the whole request is out.\<close>

definition link_asked :: "u64 option \<Rightarrow> nat \<Rightarrow> u16 \<Rightarrow> u16 \<Rightarrow> u8 \<Rightarrow> mb_link \<Rightarrow> mb_link" where
  "link_asked now wrote address count fc self =
     self\<lparr>l_address := address, l_expected := count,
       l_held := (if l_framing self \<noteq> Mbap then [] else l_held self),
       l_got := 0, l_asked_tx := l_tx self, l_tx := l_tx self + 1,
       l_counters := add_bytes (of_nat wrote) (count_sent (l_counters self)),
       l_reason := Status_ok, l_since_us := (case now of None \<Rightarrow> 0 | Some t \<Rightarrow> t),
       l_asked_fc := fc, l_state := Link_waiting\<rparr>"

definition link_send :: "(byte list \<Rightarrow> int) \<Rightarrow> u64 option \<Rightarrow> byte list \<Rightarrow> u16 \<Rightarrow> u16 \<Rightarrow> u8 \<Rightarrow> mb_link
    \<Rightarrow> (mb_link \<times> bool) option" where
  "link_send write now pdu address count fc self =
     (if pdu = [] then Some (self, False)
      else
        case mb_encode (l_framing self) (l_unit self) (l_tx self) pdu 260 of
          None \<Rightarrow> None
        | Some frame \<Rightarrow>
            if frame = [] then Some (self, False)
            else
              let wrote = write frame
              in if wrote = io_pending then Some (self\<lparr>l_state := Link_idle\<rparr>, False)
                 else if wrote \<noteq> int (length frame) then Some (fst (link_lose self), False)
                 else Some (link_asked now (length frame) address count fc self, True))"

definition link_ask :: "(byte list \<Rightarrow> int) \<Rightarrow> u64 option \<Rightarrow> u16 \<Rightarrow> u16 \<Rightarrow> mb_link \<Rightarrow> (mb_link \<times> bool) option" where
  "link_ask write now address count self =
     (if l_state self \<noteq> Link_idle then Some (self, False)
      else if \<not> (0 < count \<and> count \<le> 125) then Some (self, False)
      else link_send write now (build_pdu_read adu_max (l_fc self) address count) address count (l_fc self) self)"

definition link_write :: "(byte list \<Rightarrow> int) \<Rightarrow> u64 option \<Rightarrow> u16 \<Rightarrow> u16 list \<Rightarrow> mb_link \<Rightarrow> (mb_link \<times> bool) option" where
  "link_write write now address values self =
     (if l_state self \<noteq> Link_idle then Some (self, False)
      else if \<not> 0 < length values then Some (self, False)
      else link_send write now (build_pdu_write adu_max address values) address (of_nat (length values)) fc_write_many self)"

definition link_write_one :: "(byte list \<Rightarrow> int) \<Rightarrow> u64 option \<Rightarrow> u16 \<Rightarrow> u16 \<Rightarrow> mb_link \<Rightarrow> (mb_link \<times> bool) option" where
  "link_write_one write now address value self =
     (if l_state self \<noteq> Link_idle then Some (self, False)
      else case link_send write now (build_pdu_write_one adu_max address value) address 1 fc_write_one self of
             None \<Rightarrow> None
           | Some (self', sent) \<Rightarrow> if sent then Some (self'\<lparr>l_written := value\<rparr>, True) else Some (self', False))"

text \<open>The loop over the frames that have arrived: how it ends, and the link with those frames consumed.\<close>

datatype scan = No_header | Not_yet | Ours "byte list"

lemma link_consume_length:
  "0 < n \<Longrightarrow> n \<le> length (l_held l) \<Longrightarrow> length (l_held (link_consume n l)) < length (l_held l)"
  by (cases "l_held l") (auto simp: link_consume_def)

function link_scan :: "mb_link \<Rightarrow> mb_link \<times> scan" where
  "link_scan self =
     (let need = frame_length (l_framing self) (l_held self) (l_asked_fc self)
      in if need = 0 \<and> l_framing self = Mbap \<and> mbap_head \<le> length (l_held self) then (self, No_header)
         else if need = 0 \<or> length (l_held self) < need then (self, Not_yet)
         else
           let frame = l_held self;
               pdu = mb_decode (l_framing self) (l_unit self) (take need frame);
               ours = (pdu \<noteq> None \<and> (l_framing self = Mbap \<longrightarrow> be16 (frame ! 0) (frame ! 1) = l_asked_tx self));
               self' = link_consume need self
           in if ours then (self', Ours (the pdu)) else link_scan self')"
  by pat_completeness auto

termination link_scan
  by (relation "measure (\<lambda>l. length (l_held l))") (auto intro: link_consume_length)

declare link_scan.simps [simp del]

text \<open>What an answer does to the link.\<close>

definition link_parse :: "byte list \<Rightarrow> mb_link \<Rightarrow> mb_link \<times> mb_status" where
  "link_parse pdu self =
     (if l_asked_fc self = fc_write_many then
        (self\<lparr>l_got := 0\<rparr>, fst (parse_pdu_write pdu (l_address self) (l_expected self)))
      else if l_asked_fc self = fc_write_one then
        (self\<lparr>l_got := 0\<rparr>, fst (parse_pdu_write_one pdu (l_address self) (l_written self)))
      else
        let a = parse_pdu pdu (l_asked_fc self) (l_expected self) (l_values self)
        in (self\<lparr>l_values := out_values a, l_got := out a\<rparr>, status a))"

definition link_judge :: "u64 option \<Rightarrow> mb_link \<Rightarrow> mb_link \<times> link_state" where
  "link_judge now self =
     (let status = l_reason self
      in if status \<noteq> Status_ok \<and> status \<noteq> Status_partial then
           (self\<lparr>l_state := Link_idle,
              l_counters := (if status = Status_exception then count_refused (l_counters self)
                             else count_failed (l_counters self))\<rparr>, Link_failed)
         else
           (self\<lparr>l_counters := (case now of None \<Rightarrow> count_done (l_counters self)
                | Some t \<Rightarrow> add_us_busy (t - l_since_us self) (count_done (l_counters self))),
              l_state := Link_answered\<rparr>, Link_answered))"

definition link_finish :: "u64 option \<Rightarrow> byte list \<Rightarrow> mb_link \<Rightarrow> mb_link \<times> link_state" where
  "link_finish now pdu self =
     (let (self1, status) = link_parse pdu self in link_judge now (self1\<lparr>l_reason := status\<rparr>))"

definition link_receive :: "byte list \<Rightarrow> mb_link \<Rightarrow> mb_link" where
  "link_receive bytes self =
     self\<lparr>l_held := l_held self @ bytes, l_counters := add_bytes (of_nat (length bytes)) (l_counters self)\<rparr>"

text \<open>A full buffer is not read into: it holds a whole frame.\<close>

definition poll_input :: "(nat \<Rightarrow> io_read) \<Rightarrow> mb_link \<Rightarrow> io_read" where
  "poll_input read self =
     (if length (l_held self) < adu_max then read (adu_max - length (l_held self)) else Io_pending)"

definition poll_received :: "io_read \<Rightarrow> mb_link \<Rightarrow> mb_link" where
  "poll_received got self = (case got of Io_bytes bytes \<Rightarrow> link_receive bytes self | _ \<Rightarrow> self)"

definition timed_out :: "u64 option \<Rightarrow> u32 \<Rightarrow> mb_link \<Rightarrow> bool" where
  "timed_out now timeout_us self \<longleftrightarrow>
     (case now of None \<Rightarrow> False | Some t \<Rightarrow> 0 < timeout_us \<and> ucast timeout_us < t - l_since_us self)"

definition poll_result :: "u64 option \<Rightarrow> u32 \<Rightarrow> mb_link \<Rightarrow> scan \<Rightarrow> mb_link \<times> link_state" where
  "poll_result now timeout_us self found =
     (case found of
        No_header \<Rightarrow> (link_fail Status_garbage (self\<lparr>l_held := []\<rparr>), Link_failed)
      | Not_yet \<Rightarrow>
          if timed_out now timeout_us self then
            (link_fail Status_short (if l_framing self \<noteq> Mbap then self\<lparr>l_held := []\<rparr> else self), Link_failed)
          else (self, l_state self)
      | Ours pdu \<Rightarrow> link_finish now pdu self)"

definition link_poll :: "(nat \<Rightarrow> io_read) \<Rightarrow> u64 option \<Rightarrow> u32 \<Rightarrow> mb_link \<Rightarrow> mb_link \<times> link_state" where
  "link_poll read now timeout_us self =
     (if l_state self \<noteq> Link_waiting then (self, l_state self)
      else
        let got = poll_input read self
        in if got = Io_end \<or> got = Io_error \<or> got = Io_bytes [] then link_lose self
           else let (self', found) = link_scan (poll_received got self)
                in poll_result now timeout_us self' found)"

section \<open>The invariant\<close>

definition known_fc :: "u8 \<Rightarrow> bool" where
  "known_fc fc \<longleftrightarrow> fc \<in> {fc_read_holding, fc_read_input, fc_write_one, fc_write_many}"

definition link_ok :: "mb_link \<Rightarrow> bool" where
  "link_ok l \<longleftrightarrow> length (l_values l) = 125 \<and> length (l_held l) \<le> adu_max \<and> l_state l \<noteq> Link_failed \<and>
     (l_state l = Link_waiting \<longrightarrow> known_fc (l_asked_fc l)) \<and>
     (l_state l = Link_answered \<longrightarrow> l_reason l = Status_ok \<or> l_reason l = Status_partial)"

lemma frame_length_le: "frame_length fr bytes fc \<le> adu_max"
proof -
  have "unat (bytes ! 2) \<le> 255" using unsigned_less [of "bytes ! 2", where ?'a = nat] by simp
  then show ?thesis by (auto simp: frame_length_def rtu_frame_length_def mbap_head_def Let_def)
qed

lemma rtu_length_zero: "known_fc fc \<Longrightarrow> 3 \<le> length bytes \<Longrightarrow> rtu_frame_length bytes fc \<noteq> 0"
  by (auto simp: known_fc_def rtu_frame_length_def)

lemma scan_frame:
  "link_scan l = (l', r) \<Longrightarrow> \<exists>h. l' = l\<lparr>l_held := h\<rparr> \<and> length h \<le> length (l_held l)"
proof (induction l arbitrary: l' r rule: link_scan.induct)
  case (1 l)
  let ?n = "frame_length (l_framing l) (l_held l) (l_asked_fc l)"
  have c: "\<exists>h. link_consume ?n l = l\<lparr>l_held := h\<rparr> \<and> length h \<le> length (l_held l)"
    by (auto simp: link_consume_def)
  have self: "\<exists>h. l = l\<lparr>l_held := h\<rparr> \<and> length h \<le> length (l_held l)" by (rule exI [of _ "l_held l"]) simp
  note unfolded = 1(2) [unfolded link_scan.simps [of l] Let_def]
  show ?case
  proof (cases "l' = l \<or> l' = link_consume ?n l")
    case True
    then show ?thesis using c self by auto
  next
    case False
    then have deep: "link_scan (link_consume ?n l) = (l', r)" using unfolded by (auto split: if_splits)
    moreover from False unfolded have "\<exists>h. l' = (link_consume ?n l)\<lparr>l_held := h\<rparr> \<and> length h \<le> length (l_held (link_consume ?n l))"
      by (intro 1(1) [OF refl _ _ refl refl refl refl _ deep]) (auto split: if_splits)
    ultimately show ?thesis using c by force
  qed
qed

lemma scan_not_yet:
  "link_scan l = (l', Not_yet) \<Longrightarrow> known_fc (l_asked_fc l) \<Longrightarrow> length (l_held l') < adu_max"
proof (induction l arbitrary: l' rule: link_scan.induct)
  case (1 l)
  let ?n = "frame_length (l_framing l) (l_held l) (l_asked_fc l)"
  note unfolded = 1(2) [unfolded link_scan.simps [of l] Let_def]
  show ?case
  proof (cases "?n = 0 \<or> length (l_held l) < ?n")
    case True
    then have l': "l' = l" and nh: "\<not> (?n = 0 \<and> l_framing l = Mbap \<and> mbap_head \<le> length (l_held l))"
      using unfolded by (auto split: if_splits)
    show ?thesis
    proof (cases "?n = 0")
      case True
      then have "length (l_held l) < 7"
        using nh rtu_length_zero [OF 1(3), of "l_held l"]
        by (cases "l_framing l") (force simp: frame_length_def mbap_head_def)+
      then show ?thesis by (simp add: l')
    next
      case False
      then show ?thesis using True frame_length_le [of "l_framing l" "l_held l" "l_asked_fc l"] by (simp add: l')
    qed
  next
    case False
    then have "link_scan (link_consume ?n l) = (l', Not_yet)" using unfolded by (auto split: if_splits)
    moreover have "known_fc (l_asked_fc (link_consume ?n l))" using 1(3) by (simp add: link_consume_def)
    ultimately show ?thesis using False unfolded
      by (intro 1(1) [OF refl _ _ refl refl refl refl]) (auto split: if_splits)
  qed
qed

lemma pdu_lengths:
  "length (build_pdu_read cap fc a n) \<le> 253" "length (build_pdu_write cap a vs) \<le> 253"
  "length (build_pdu_write_one cap a v) \<le> 253"
  by (auto simp: build_pdu_read_def build_pdu_write_def build_pdu_write_one_def Let_def)

text \<open>How a send ends; it never writes behind its buffer.\<close>

lemma send_cases:
  assumes "length pdu \<le> 253" "pdu \<noteq> []"
  obtains frame where "mb_encode (l_framing l) (l_unit l) (l_tx l) pdu 260 = Some frame" "frame \<noteq> []"
    "link_send write now pdu a n fc l =
       (if write frame = io_pending then Some (l\<lparr>l_state := Link_idle\<rparr>, False)
        else if write frame \<noteq> int (length frame) then Some (link_fail Status_lost (l\<lparr>l_held := []\<rparr>), False)
        else Some (link_asked now (length frame) a n fc l, True))"
proof -
  obtain frame where f: "mb_encode (l_framing l) (l_unit l) (l_tx l) pdu 260 = Some frame" "frame \<noteq> []"
    using encode_fits [OF assms(1), of "l_unit l" "l_tx l"]
    by (cases "l_framing l") (auto simp: with_crc_def Let_def)
  then show ?thesis
    using assms(2) by (intro that [of frame]) (simp_all add: link_send_def link_lose_def Let_def)
qed

lemma send_ok:
  assumes "link_ok l" "length pdu \<le> 253" "pdu \<noteq> [] \<Longrightarrow> known_fc fc" "l_state l = Link_idle"
  obtains l' b where "link_send write now pdu a n fc l = Some (l', b)" "link_ok l'" "b \<longleftrightarrow> l_state l' = Link_waiting"
    "\<not> b \<longrightarrow> l_state l' = Link_idle"
proof (cases "pdu = []")
  case True
  then show ?thesis using assms by (intro that [of l False]) (simp_all add: link_send_def)
next
  case False
  from send_cases [OF assms(2) False] obtain frame where
    "link_send write now pdu a n fc l =
       (if write frame = io_pending then Some (l\<lparr>l_state := Link_idle\<rparr>, False)
        else if write frame \<noteq> int (length frame) then Some (link_fail Status_lost (l\<lparr>l_held := []\<rparr>), False)
        else Some (link_asked now (length frame) a n fc l, True))" by metis
  moreover have "link_ok (link_asked now (length frame) a n fc l)" "link_ok (l\<lparr>l_state := Link_idle\<rparr>)"
    "link_ok (link_fail Status_lost (l\<lparr>l_held := []\<rparr>))"
    using assms(1, 3) False by (simp_all add: link_ok_def link_asked_def link_fail_def)
  moreover have "l_state (link_asked now (length frame) a n fc l) = Link_waiting"
    "l_state (link_fail Status_lost (l\<lparr>l_held := []\<rparr>)) = Link_idle"
    by (simp_all add: link_asked_def link_fail_def)
  ultimately show ?thesis
    by (cases "write frame = io_pending"; cases "write frame = int (length frame)") (auto intro: that)
qed

lemma parse_pdu_values: "length (out_values (parse_pdu pdu fc n vs)) = length vs"
  by (simp add: parse_pdu_def no_answer_def Let_def)

lemma parse_frame:
  "\<exists>vs g st. link_parse pdu l = (l\<lparr>l_values := vs, l_got := g\<rparr>, st) \<and> length vs = length (l_values l)"
proof (cases "l_asked_fc l = fc_write_many \<or> l_asked_fc l = fc_write_one")
  case True
  then show ?thesis by (intro exI [of _ "l_values l"] exI [of _ 0]) (auto simp: link_parse_def)
next
  case False
  let ?a = "parse_pdu pdu (l_asked_fc l) (l_expected l) (l_values l)"
  show ?thesis
    by (intro exI [of _ "out_values ?a"] exI [of _ "out ?a"] exI [of _ "status ?a"])
      (use False in \<open>simp add: link_parse_def Let_def parse_pdu_values\<close>)
qed

lemma finish_cases:
  obtains vs g st where "length vs = length (l_values l)" "snd (link_parse pdu l) = st"
    "link_finish now pdu l = link_judge now (l\<lparr>l_values := vs, l_got := g, l_reason := st\<rparr>)"
proof -
  from parse_frame obtain vs g st where "link_parse pdu l = (l\<lparr>l_values := vs, l_got := g\<rparr>, st)"
    "length vs = length (l_values l)" by blast
  then show ?thesis by (intro that [of vs st g]) (simp_all add: link_finish_def)
qed

lemma judge_ok:
  assumes "length (l_values l) = 125" "length (l_held l) \<le> adu_max" "link_judge now l = (l', st)"
  shows "link_ok l'" "st = Link_failed \<and> l_state l' = Link_idle \<or> st = Link_answered \<and> l_state l' = Link_answered"
  using assms by (auto simp: link_judge_def link_ok_def Let_def split: if_splits)

lemma finish_ok:
  assumes "link_ok l" "link_finish now pdu l = (l', st)"
  shows "link_ok l'" "st = Link_failed \<and> l_state l' = Link_idle \<or> st = Link_answered \<and> l_state l' = Link_answered"
proof -
  obtain vs g st' where v: "length vs = length (l_values l)"
    and f: "link_finish now pdu l = link_judge now (l\<lparr>l_values := vs, l_got := g, l_reason := st'\<rparr>)"
    by (rule finish_cases)
  note j = judge_ok [of "l\<lparr>l_values := vs, l_got := g, l_reason := st'\<rparr>" now l' st]
  have "length vs = 125" "length (l_held l) \<le> adu_max" using assms(1) v by (simp_all add: link_ok_def)
  then show "link_ok l'" "st = Link_failed \<and> l_state l' = Link_idle \<or> st = Link_answered \<and> l_state l' = Link_answered"
    using j assms(2) f by simp_all
qed

text \<open>The reads of a well-behaved stream: no more than was asked for.\<close>

definition reads_within :: "(nat \<Rightarrow> io_read) \<Rightarrow> bool" where
  "reads_within read \<longleftrightarrow> (\<forall>size bytes. read size = Io_bytes bytes \<longrightarrow> length bytes \<le> size)"

lemma received_ok:
  assumes "link_ok l" "reads_within read"
  shows "link_ok (poll_received (poll_input read l) l)"
proof (cases "poll_input read l")
  case (Io_bytes bytes)
  then have "read (adu_max - length (l_held l)) = Io_bytes bytes" "length (l_held l) < adu_max"
    by (simp_all add: poll_input_def split: if_splits)
  with assms(2) have "length bytes \<le> adu_max - length (l_held l)" by (simp add: reads_within_def)
  then have "length (l_held l) + length bytes \<le> adu_max" using \<open>length (l_held l) < adu_max\<close> by linarith
  then show ?thesis using assms(1) Io_bytes by (simp add: poll_received_def link_receive_def link_ok_def)
qed (use assms(1) in \<open>simp_all add: poll_received_def\<close>)

lemma poll_unfold:
  assumes "l_state l = Link_waiting"
  obtains (lost) "link_poll read now timeout l = (link_fail Status_lost (l\<lparr>l_held := []\<rparr>), Link_failed)"
      "poll_input read l \<in> {Io_end, Io_error, Io_bytes []}"
    | (scan) l2 found where "link_scan (poll_received (poll_input read l) l) = (l2, found)"
      "poll_input read l \<notin> {Io_end, Io_error, Io_bytes []}"
      "link_poll read now timeout l = poll_result now timeout l2 found"
proof (cases "poll_input read l \<in> {Io_end, Io_error, Io_bytes []}")
  case True
  then show ?thesis using assms lost by (auto simp: link_poll_def Let_def link_lose_def)
next
  case False
  obtain l2 found where s: "link_scan (poll_received (poll_input read l) l) = (l2, found)" by fastforce
  show ?thesis by (rule scan [OF s False]) (use assms False s in \<open>simp add: link_poll_def Let_def\<close>)
qed

lemma scan_ok: "link_ok l \<Longrightarrow> link_scan l = (l', found) \<Longrightarrow> link_ok l'"
  using scan_frame [of l l' found] by (auto simp: link_ok_def)

lemma fail_ok: "link_ok l \<Longrightarrow> link_ok (link_fail r l)" "link_ok l \<Longrightarrow> link_ok (l\<lparr>l_held := []\<rparr>)"
    "l_state (link_fail r l) = Link_idle"
  by (simp_all add: link_ok_def link_fail_def)

lemma result_ok:
  assumes "link_ok l" "l_state l = Link_waiting" "poll_result now timeout l found = (l', st)"
  shows "link_ok l'" "st = Link_failed \<and> l_state l' = Link_idle \<or> st = Link_answered \<and> l_state l' = Link_answered \<or>
     st = Link_waiting \<and> l' = l \<and> found = Not_yet"
proof -
  show "link_ok l'"
  proof (cases found)
    case (Ours pdu)
    then show ?thesis using finish_ok(1) assms by (simp add: poll_result_def)
  qed (use assms fail_ok in \<open>auto simp: poll_result_def split: if_splits\<close>)
  show "st = Link_failed \<and> l_state l' = Link_idle \<or> st = Link_answered \<and> l_state l' = Link_answered \<or>
     st = Link_waiting \<and> l' = l \<and> found = Not_yet"
  proof (cases found)
    case (Ours pdu)
    then show ?thesis using finish_ok(2) [OF assms(1)] assms(3) by (auto simp: poll_result_def)
  qed (use assms fail_ok(3) in \<open>auto simp: poll_result_def split: if_splits\<close>)
qed

lemma received_state:
  "l_state (poll_received got l) = l_state l" "l_asked_fc (poll_received got l) = l_asked_fc l"
  by (simp_all add: poll_received_def link_receive_def split: io_read.splits)

lemma poll_ok:
  assumes "link_ok l" "reads_within read" "link_poll read now timeout l = (l', st)"
  shows "link_ok l' \<and> (l_state l = Link_waiting \<longrightarrow> st = Link_waiting \<longrightarrow> length (l_held l') < adu_max) \<and>
    l_state l' = (if st = Link_failed then Link_idle else st)"
proof (cases "l_state l = Link_waiting")
  case False
  then show ?thesis using assms by (auto simp: link_poll_def link_ok_def)
next
  case True
  then show ?thesis
  proof (cases rule: poll_unfold [where read = read and now = now and timeout = timeout])
    case lost
    then have "l' = link_fail Status_lost (l\<lparr>l_held := []\<rparr>)" "st = Link_failed" using assms(3) by simp_all
    then show ?thesis using fail_ok(1) [OF fail_ok(2) [OF assms(1)]] fail_ok(3) by simp
  next
    case (scan l2 found)
    have ok: "link_ok l2" using scan_ok [OF received_ok [OF assms(1, 2)] scan(1)] .
    have w: "l_state l2 = Link_waiting" "l_asked_fc l2 = l_asked_fc l"
      using scan_frame [OF scan(1)] True by (auto simp: received_state)
    have k: "known_fc (l_asked_fc (poll_received (poll_input read l) l))"
      using assms(1) True by (simp add: link_ok_def received_state)
    note r = result_ok [OF ok w(1) scan(3) [symmetric, unfolded assms(3)]]
    show ?thesis using r scan_not_yet [OF _ k] scan(1) w(1) by auto
  qed
qed

section \<open>Calls in any order\<close>

text \<open>One call on a link: the owner's calls and the polls, with whatever the stream and the clock answer.\<close>

inductive link_call :: "mb_link \<Rightarrow> mb_link \<Rightarrow> bool" where
  call_set_fc: "link_call l (link_set_fc fc l)"
| call_set_stream: "link_call l (link_set_stream l)"
| call_release: "link_call l (link_release l)"
| call_ask: "link_ask write now a n l = Some (l', b) \<Longrightarrow> link_call l l'"
| call_write: "link_write write now a vs l = Some (l', b) \<Longrightarrow> link_call l l'"
| call_write_one: "link_write_one write now a v l = Some (l', b) \<Longrightarrow> link_call l l'"
| call_poll: "reads_within read \<Longrightarrow> link_poll read now timeout l = (l', st) \<Longrightarrow> link_call l l'"

inductive_cases link_callE: "link_call l l'"

lemma read_fc_known: "build_pdu_read cap fc a n \<noteq> [] \<Longrightarrow> known_fc fc"
  by (auto simp: build_pdu_read_def known_fc_def split: if_splits)

lemma send_keeps:
  "link_ok l \<Longrightarrow> length pdu \<le> 253 \<Longrightarrow> (pdu \<noteq> [] \<Longrightarrow> known_fc fc) \<Longrightarrow> l_state l = Link_idle \<Longrightarrow>
   link_send wr now pdu a n fc l = Some (l', b) \<Longrightarrow> link_ok l'"
  by (rule send_ok [of l pdu fc wr now a n]) auto

lemma call_ok:
  assumes "link_call l l'" "link_ok l"
  shows "link_ok l'"
  using assms
proof (cases rule: link_call.cases)
  case (call_ask wr now a n b)
  then show ?thesis using send_keeps [OF assms(2) pdu_lengths(1) read_fc_known] assms(2)
    by (auto simp: link_ask_def split: if_splits)
next
  case (call_write wr now a vs b)
  have "known_fc fc_write_many" by (simp add: known_fc_def)
  then show ?thesis using call_write send_keeps [OF assms(2) pdu_lengths(2)] assms(2)
    by (auto simp: link_write_def split: if_splits)
next
  case (call_write_one wr now a v b)
  have k: "known_fc fc_write_one" by (simp add: known_fc_def)
  show ?thesis
  proof (cases "l_state l = Link_idle")
    case True
    then obtain l1 b1 where s: "link_send wr now (build_pdu_write_one adu_max a v) a 1 fc_write_one l = Some (l1, b1)"
      and l': "l' = (if b1 then l1\<lparr>l_written := v\<rparr> else l1)"
      using call_write_one by (auto simp: link_write_one_def split: option.splits if_splits)
    have "link_ok l1" by (rule send_keeps [OF assms(2) pdu_lengths(3) k True s])
    then show ?thesis by (simp add: l' link_ok_def)
  next
    case False
    then show ?thesis using call_write_one assms(2) by (auto simp: link_write_one_def split: if_splits)
  qed
next
  case (call_poll read now timeout st)
  then show ?thesis using poll_ok [OF assms(2)] by blast
qed (auto simp: link_set_fc_def link_set_stream_def link_release_def link_ok_def Let_def)

text \<open>
  C15: whatever calls are made on a new link and whatever its stream and clock answer, the bytes held fit the
  frame buffer, the array of values keeps its size, a question in flight has a function code
  whose answers the link can size, and a link never rests in the failed state.
\<close>

theorem link_invariant:
  assumes "link_call\<^sup>*\<^sup>* (link_init framing unit) l"
  shows "link_ok l"
  using assms
proof (induction rule: rtranclp_induct)
  case base
  show ?case by (simp add: link_ok_def link_init_def)
next
  case (step l l')
  then show ?case using call_ok by blast
qed

theorem link_invariant_witness: "link_ok (link_set_fc 4 (link_init Mbap 1))"
proof (rule link_invariant)
  show "link_call\<^sup>*\<^sup>* (link_init Mbap 1) (link_set_fc 4 (link_init Mbap 1))" by (rule r_into_rtranclp) (rule call_set_fc)
qed

section \<open>How a question ends\<close>

text \<open>The four counts of questions.\<close>

definition tally :: "mb_link \<Rightarrow> u32 \<times> u32 \<times> u32 \<times> u32" where
  "tally l = (c_sent (l_counters l), c_done (l_counters l), c_failed (l_counters l), c_refused (l_counters l))"

lemmas count_defs = count_sent_def count_done_def count_failed_def count_refused_def add_bytes_def add_us_busy_def

lemma received_tally: "tally (poll_received got l) = tally l"
  by (simp add: tally_def poll_received_def link_receive_def count_defs split: io_read.splits)

definition ended :: "mb_link \<Rightarrow> mb_link \<Rightarrow> link_state \<Rightarrow> bool" where
  "ended l l' st \<longleftrightarrow> (case tally l of (s, d, f, r) \<Rightarrow>
     (st = Link_answered \<and> l_state l' = Link_answered \<and> l_reason l' \<in> {Status_ok, Status_partial} \<and> tally l' = (s, d + 1, f, r)) \<or>
     (st = Link_failed \<and> l_state l' = Link_idle \<and> l_reason l' = Status_exception \<and> tally l' = (s, d, f, r + 1)) \<or>
     (st = Link_failed \<and> l_state l' = Link_idle \<and> l_reason l' \<notin> {Status_ok, Status_partial, Status_exception} \<and>
        tally l' = (s, d, f + 1, r)))"

lemma fail_ended: "r \<notin> {Status_ok, Status_partial, Status_exception} \<Longrightarrow> tally m = tally l \<Longrightarrow> ended l (link_fail r m) Link_failed"
  by (auto simp: ended_def link_fail_def tally_def count_defs)

lemma finish_ended: "link_finish now pdu l = (l', st) \<Longrightarrow> ended l l' st"
proof (rule finish_cases [of l pdu now])
  fix vs g st'
  assume "link_finish now pdu l = (l', st)"
    "link_finish now pdu l = link_judge now (l\<lparr>l_values := vs, l_got := g, l_reason := st'\<rparr>)"
  then show "ended l l' st"
    by (cases now) (auto simp: link_judge_def ended_def tally_def count_defs Let_def split: if_splits)
qed

text \<open>
  A poll of a waiting link either leaves the question in flight and the counts of questions as they were, or
  ends it exactly once: answered counts it as done, refused by the device counts it as
  refused, and everything else counts it as failed; in the last two cases the link is idle and ready for the
  next question.
\<close>

theorem poll_ends_once:
  assumes "l_state l = Link_waiting" "link_poll read now timeout l = (l', st)"
  shows "(st = Link_waiting \<and> l_state l' = Link_waiting \<and> tally l' = tally l) \<or> ended l l' st"
  using assms(1)
proof (cases rule: poll_unfold [where read = read and now = now and timeout = timeout])
  case lost
  then show ?thesis using assms(2) fail_ended [of Status_lost "l\<lparr>l_held := []\<rparr>" l] by (simp add: tally_def)
next
  case (scan l2 found)
  obtain h where h: "l2 = (poll_received (poll_input read l) l)\<lparr>l_held := h\<rparr>" using scan_frame [OF scan(1)] by blast
  have t: "tally l2 = tally l" "l_state l2 = Link_waiting"
    using received_tally [of "poll_input read l" l] assms(1) by (simp_all add: h tally_def received_state)
  have e: "ended l2 l' st \<longleftrightarrow> ended l l' st" by (simp add: ended_def t)
  have r: "poll_result now timeout l2 found = (l', st)" using scan(3) assms(2) by simp
  show ?thesis
  proof (cases found)
    case No_header
    then show ?thesis using r fail_ended [of Status_garbage "l2\<lparr>l_held := []\<rparr>" l] t by (auto simp: poll_result_def tally_def)
  next
    case Not_yet
    have "tally (if l_framing l2 \<noteq> Mbap then l2\<lparr>l_held := []\<rparr> else l2) = tally l" using t by (simp add: tally_def)
    from fail_ended [OF _ this, of Status_short] Not_yet r t show ?thesis
      by (auto simp: poll_result_def split: if_splits)
  next
    case (Ours pdu)
    then show ?thesis using r finish_ended [of now pdu l2 l' st] e by (simp add: poll_result_def)
  qed
qed

definition asked_link :: mb_link where
  "asked_link = link_asked None 12 10 1 fc_read_holding (link_init Mbap 1)"

theorem poll_ends_once_witness:
  "ended asked_link (fst (link_poll (\<lambda>n. Io_end) None 0 asked_link)) Link_failed"
proof -
  have "l_state asked_link = Link_waiting" "snd (link_poll (\<lambda>n. Io_end) None 0 asked_link) = Link_failed" by code_simp+
  from poll_ends_once [OF this(1), of "\<lambda>n. Io_end" None 0 "fst (link_poll (\<lambda>n. Io_end) None 0 asked_link)" Link_failed] this(2)
  show ?thesis by (metis link_state.distinct(9) prod.collapse)
qed

section \<open>Finding the answer in the stream\<close>

definition mbap_frame :: "u16 \<Rightarrow> u8 \<Rightarrow> byte list \<Rightarrow> byte list" where
  "mbap_frame tx unit pdu =
     [hi tx, lo tx, 0, 0, hi (of_nat (1 + length pdu)), lo (of_nat (1 + length pdu)), unit] @ pdu"

lemma mbap_frame_length [simp]: "length (mbap_frame tx unit pdu) = 7 + length pdu"
  by (simp add: mbap_frame_def)

lemma mbap_length_cong:
  assumes "7 \<le> length a" "take 7 a = take 7 b" "7 \<le> length b"
  shows "frame_length Mbap a fc = frame_length Mbap b fc"
proof -
  have "a ! i = b ! i" if "i < 7" for i using assms(2) that by (metis nth_take)
  then show ?thesis using assms by (simp add: frame_length_def mbap_head_def)
qed

text \<open>The length of a frame of which a part has arrived.\<close>

lemma mbap_need:
  assumes "h @ x = mbap_frame tx unit pdu @ y" "pdu \<noteq> []" "length pdu \<le> 253"
  shows "frame_length Mbap h fc = (if length h < 7 then 0 else 7 + length pdu)"
proof (cases "length h < 7")
  case True
  then show ?thesis by (simp add: frame_length_def mbap_head_def)
next
  case False
  have "take 7 (h @ x) = take 7 (mbap_frame tx unit pdu @ y)" by (simp only: assms(1))
  then have "take 7 h = take 7 (mbap_frame tx unit pdu)" using False by simp
  then have "frame_length Mbap h fc = frame_length Mbap (mbap_frame tx unit pdu) fc"
    using False by (intro mbap_length_cong) simp_all
  also have "\<dots> = 7 + length pdu" using frame_length_mbap [OF assms(2, 3), of tx unit "[]" fc] by (simp add: mbap_frame_def)
  finally show ?thesis using False by simp
qed

lemma mbap_decode: "pdu \<noteq> [] \<Longrightarrow> mb_decode Mbap u (mbap_frame tx unit pdu) = (if unit = u then Some pdu else None)"
  by (cases pdu) (simp_all add: mb_decode_def mbap_frame_def mbap_head_def Let_def)

lemma mbap_tx: "be16 ((mbap_frame tx unit pdu @ y) ! 0) ((mbap_frame tx unit pdu @ y) ! 1) = tx"
  by (simp add: mbap_frame_def)

lemma mbap_consume: "l_framing l = Mbap \<Longrightarrow> link_consume n l = l\<lparr>l_held := drop n (l_held l)\<rparr>"
  by (simp add: link_consume_def)

text \<open>A whole frame at the front of the bytes held, ours or not, and a part of a frame.\<close>

lemma scan_whole:
  assumes "l_framing l = Mbap" "l_held l = mbap_frame tx unit pdu @ rest" "pdu \<noteq> []" "length pdu \<le> 253"
  shows "link_scan l = (if unit = l_unit l \<and> tx = l_asked_tx l then (l\<lparr>l_held := rest\<rparr>, Ours pdu)
     else link_scan (l\<lparr>l_held := rest\<rparr>))"
proof -
  have "frame_length Mbap (l_held l) (l_asked_fc l) = 7 + length pdu"
    using mbap_need [of "l_held l" "[]" tx unit pdu rest] assms by simp
  moreover have "take (7 + length pdu) (l_held l) = mbap_frame tx unit pdu" using assms(2) by simp
  moreover have "link_consume (7 + length pdu) l = l\<lparr>l_held := rest\<rparr>" using assms(1, 2) by (simp add: mbap_consume)
  moreover have "be16 (l_held l ! 0) (l_held l ! 1) = tx" unfolding assms(2) by (rule mbap_tx)
  ultimately show ?thesis
    using assms by (subst link_scan.simps) (simp add: Let_def mbap_decode)
qed

lemma scan_part:
  assumes "l_framing l = Mbap" "l_held l @ x = mbap_frame tx unit pdu @ y" "length (l_held l) < 7 + length pdu"
    "pdu \<noteq> []" "length pdu \<le> 253"
  shows "link_scan l = (l, Not_yet)"
  using mbap_need [OF assms(2, 4, 5)] assms(1, 3) by (subst link_scan.simps) (simp add: Let_def mbap_head_def)

definition stale :: "mb_link \<Rightarrow> byte list \<Rightarrow> bool" where
  "stale l f \<longleftrightarrow> (\<exists>tx unit pdu. f = mbap_frame tx unit pdu \<and> pdu \<noteq> [] \<and> length pdu \<le> 253 \<and>
     (tx \<noteq> l_asked_tx l \<or> unit \<noteq> l_unit l))"

lemma stale_held: "stale (l\<lparr>l_held := h\<rparr>) = stale l" "stale (l\<lparr>l_held := h, l_counters := c\<rparr>) = stale l"
  by (simp_all add: stale_def fun_eq_iff)

text \<open>
  The bytes held and the bytes still to come are stale frames and then the answer: the scan steps over what
  is whole and stale, and finds the answer as soon as its last byte is there.
\<close>

lemma scan_line:
  assumes "pdu \<noteq> []" "length pdu \<le> 253"
  shows "l_framing l = Mbap \<Longrightarrow> list_all (stale l) fs \<Longrightarrow>
    l_held l @ inc = concat fs @ mbap_frame (l_asked_tx l) (l_unit l) pdu \<Longrightarrow>
    (inc = [] \<longrightarrow> link_scan l = (l\<lparr>l_held := []\<rparr>, Ours pdu)) \<and>
    (inc \<noteq> [] \<longrightarrow> (\<exists>h fs'. link_scan l = (l\<lparr>l_held := h\<rparr>, Not_yet) \<and> list_all (stale l) fs' \<and>
       h @ inc = concat fs' @ mbap_frame (l_asked_tx l) (l_unit l) pdu))"
proof (induction fs arbitrary: l)
  case Nil
  show ?case
  proof (cases "inc = []")
    case True
    then show ?thesis using Nil scan_whole [of l "l_asked_tx l" "l_unit l" pdu "[]"] assms by simp
  next
    case False
    have "length (l_held l) + length inc = 7 + length pdu"
      using arg_cong [OF Nil(3), of length] by simp
    then have "length (l_held l) < 7 + length pdu" using False by (cases inc) simp_all
    then have "link_scan l = (l\<lparr>l_held := l_held l\<rparr>, Not_yet)"
      using scan_part [of l inc _ _ pdu "[]"] Nil assms by auto
    then show ?thesis using False Nil by (intro conjI impI exI [of _ "l_held l"] exI [of _ "[]"]) simp_all
  qed
next
  case (Cons f fs)
  from Cons.prems(2) obtain tx unit p where f: "f = mbap_frame tx unit p" "p \<noteq> []" "length p \<le> 253"
    "tx \<noteq> l_asked_tx l \<or> unit \<noteq> l_unit l" by (auto simp: stale_def)
  let ?ans = "mbap_frame (l_asked_tx l) (l_unit l) pdu"
  have eq: "l_held l @ inc = f @ concat fs @ ?ans" using Cons.prems(3) by simp
  show ?case
  proof (cases "length (l_held l) < length f")
    case True
    have "inc \<noteq> []" using eq True by (auto dest: arg_cong [where f = length])
    moreover have "link_scan l = (l\<lparr>l_held := l_held l\<rparr>, Not_yet)"
      using scan_part [of l inc tx unit p "concat fs @ ?ans"] Cons.prems(1) eq f True by simp
    ultimately show ?thesis using Cons.prems by blast
  next
    case False
    then have "take (length f) (l_held l) = f" using arg_cong [OF eq, of "take (length f)"] by simp
    then obtain rest where r1: "l_held l = f @ rest" by (metis append_take_drop_id)
    with eq have r: "l_held l = f @ rest" "rest @ inc = concat fs @ ?ans" by simp_all
    let ?l = "l\<lparr>l_held := rest\<rparr>"
    have s: "link_scan l = link_scan ?l" using scan_whole [OF Cons.prems(1) r(1) [unfolded f(1)] f(2, 3)] f(4) by auto
    have "list_all (stale ?l) fs" using Cons.prems(2) by (simp add: stale_held)
    from Cons.IH [OF _ this] Cons.prems(1) r(2) show ?thesis by (simp add: s stale_held)
  qed
qed

text \<open>
  A line with bytes still to come: each poll reads at most the next number of the schedule, and at most what
  it has room for. Time is left out: nothing times out.
\<close>

definition line_read :: "nat \<Rightarrow> byte list \<Rightarrow> nat \<Rightarrow> io_read" where
  "line_read n inc room = (let b = take (min n room) inc in if b = [] then Io_pending else Io_bytes b)"

fun link_polls :: "nat list \<Rightarrow> mb_link \<Rightarrow> byte list \<Rightarrow> mb_link \<times> byte list" where
  "link_polls [] l inc = (l, inc)"
| "link_polls (n # ns) l inc =
     (if l_state l \<noteq> Link_waiting then (l, inc)
      else link_polls ns (fst (link_poll (line_read n inc) None 0 l)) (drop (min n (adu_max - length (l_held l))) inc))"

definition read_answer :: "u8 \<Rightarrow> u16 list \<Rightarrow> byte list" where
  "read_answer fc vs = fc # of_nat (2 * length vs) # words_bytes vs"

definition on_line :: "u16 list \<Rightarrow> mb_link \<Rightarrow> byte list \<Rightarrow> bool" where
  "on_line vs l inc \<longleftrightarrow> l_state l = Link_waiting \<and> l_framing l = Mbap \<and> length (l_held l) < adu_max \<and>
     l_asked_fc l \<in> {fc_read_holding, fc_read_input} \<and> length (l_values l) = 125 \<and> l_expected l = of_nat (length vs) \<and>
     (\<exists>fs. list_all (stale l) fs \<and>
        l_held l @ inc = concat fs @ mbap_frame (l_asked_tx l) (l_unit l) (read_answer (l_asked_fc l) vs))"

definition has_answer :: "u16 list \<Rightarrow> mb_link \<Rightarrow> bool" where
  "has_answer vs l \<longleftrightarrow> l_state l = Link_answered \<and> l_reason l = Status_ok \<and> l_held l = [] \<and>
     (\<exists>rest. link_take l = Some (of_nat (length vs), vs @ rest))"

lemma line_received:
  fixes n :: nat and inc :: "byte list"
  assumes "length (l_held l) < adu_max"
  defines "b \<equiv> take (min n (adu_max - length (l_held l))) inc"
  shows "poll_input (line_read n inc) l \<notin> {Io_end, Io_error, Io_bytes []}"
    "\<exists>c. poll_received (poll_input (line_read n inc) l) l = l\<lparr>l_held := l_held l @ b, l_counters := c\<rparr>"
proof -
  have i: "poll_input (line_read n inc) l = (if b = [] then Io_pending else Io_bytes b)"
    by (simp only: poll_input_def line_read_def Let_def b_def assms(1) if_True)
  then show "poll_input (line_read n inc) l \<notin> {Io_end, Io_error, Io_bytes []}" by simp
  show "\<exists>c. poll_received (poll_input (line_read n inc) l) l = l\<lparr>l_held := l_held l @ b, l_counters := c\<rparr>"
  proof (cases "b = []")
    case True
    then show ?thesis using i by (intro exI [of _ "l_counters l"]) (simp add: poll_received_def)
  next
    case False
    then show ?thesis using i by (simp add: poll_received_def link_receive_def) blast
  qed
qed

lemma finish_answer:
  assumes "0 < length vs" "length vs \<le> 125" "length (l_values l) = 125" "l_expected l = of_nat (length vs)"
    "l_asked_fc l \<in> {fc_read_holding, fc_read_input}" "l_held l = []"
  shows "has_answer vs (fst (link_finish now (read_answer (l_asked_fc l) vs) l))"
proof -
  have p: "parse_pdu (read_answer (l_asked_fc l) vs) (l_asked_fc l) (l_expected l) (l_values l) =
      \<lparr>status = Status_ok, out = of_nat (length vs), out_values = vs @ drop (length vs) (l_values l), exception_code = 0\<rparr>"
    using parse_read_answer [of vs "l_asked_fc l" "l_expected l" "l_values l"] assms by (simp add: read_answer_def)
  have "l_asked_fc l \<noteq> fc_write_many" "l_asked_fc l \<noteq> fc_write_one" using assms(5) by auto
  then have "link_parse (read_answer (l_asked_fc l) vs) l =
      (l\<lparr>l_values := vs @ drop (length vs) (l_values l), l_got := of_nat (length vs)\<rparr>, Status_ok)"
    by (simp add: link_parse_def p Let_def)
  then show ?thesis using assms(6) by (simp add: link_finish_def link_judge_def has_answer_def link_take_def)
qed

lemma poll_on_line:
  fixes n :: nat
  assumes "on_line vs l inc" "0 < length vs" "length vs \<le> 125"
  defines "inc' \<equiv> drop (min n (adu_max - length (l_held l))) inc" and "l' \<equiv> fst (link_poll (line_read n inc) None 0 l)"
  shows "if inc' = [] then has_answer vs l' else on_line vs l' inc'"
proof -
  let ?b = "take (min n (adu_max - length (l_held l))) inc"
  let ?p = "read_answer (l_asked_fc l) vs"
  have L: "l_state l = Link_waiting" "l_framing l = Mbap" "length (l_held l) < adu_max"
    "l_asked_fc l \<in> {fc_read_holding, fc_read_input}" "length (l_values l) = 125" "l_expected l = of_nat (length vs)"
    using assms(1) by (simp_all add: on_line_def)
  obtain fs where fs: "list_all (stale l) fs" "l_held l @ inc = concat fs @ mbap_frame (l_asked_tx l) (l_unit l) ?p"
    using assms(1) by (auto simp: on_line_def)
  obtain c where rcv: "poll_received (poll_input (line_read n inc) l) l = l\<lparr>l_held := l_held l @ ?b, l_counters := c\<rparr>"
    (is "_ = ?l1") using line_received(2) [OF L(3)] by blast
  have pl: "?p \<noteq> []" "length ?p \<le> 253" using assms(3) by (simp_all add: read_answer_def)
  have st: "stale ?l1 = stale l" by (rule stale_held)
  have eq: "l_held ?l1 @ inc' = concat fs @ mbap_frame (l_asked_tx ?l1) (l_unit ?l1) ?p"
    using fs(2) by (simp add: inc'_def)
  note sl = scan_line [OF pl, of ?l1 fs inc', unfolded st, OF _ fs(1) eq]
  from line_received(1) [OF L(3)] have ni: "poll_input (line_read n inc) l \<notin> {Io_end, Io_error, Io_bytes []}" .
  have poll: "link_poll (line_read n inc) None 0 l = poll_result None 0 (fst (link_scan ?l1)) (snd (link_scan ?l1))"
    using L(1) ni rcv by (simp add: link_poll_def Let_def case_prod_beta)
  show ?thesis
  proof (cases "inc' = []")
    case True
    then have "link_scan ?l1 = (?l1\<lparr>l_held := []\<rparr>, Ours ?p)" using sl L(2) by simp
    then have "l' = fst (link_finish None (read_answer (l_asked_fc (?l1\<lparr>l_held := []\<rparr>)) vs) (?l1\<lparr>l_held := []\<rparr>))"
      by (simp add: l'_def poll poll_result_def)
    moreover have "has_answer vs (fst (link_finish None (read_answer (l_asked_fc (?l1\<lparr>l_held := []\<rparr>)) vs) (?l1\<lparr>l_held := []\<rparr>)))"
      by (rule finish_answer) (use L assms(2, 3) in simp_all)
    ultimately show ?thesis using True by simp
  next
    case False
    then obtain h fs' where s: "link_scan ?l1 = (?l1\<lparr>l_held := h\<rparr>, Not_yet)" "list_all (stale l) fs'"
      "h @ inc' = concat fs' @ mbap_frame (l_asked_tx l) (l_unit l) ?p" using sl L(2) by auto
    have l': "l' = ?l1\<lparr>l_held := h\<rparr>" by (simp add: l'_def poll poll_result_def s(1) timed_out_def)
    have "length h < adu_max" using scan_not_yet [OF s(1)] L(4) by (auto simp: known_fc_def)
    moreover have "stale l' = stale l" unfolding l' stale_held(1) by (rule st)
    ultimately show ?thesis using False L s(2, 3) by (auto simp: on_line_def l')
  qed
qed

text \<open>
  C14: over MBAP the answer to the question in flight is found however the bytes are cut into reads and however
  many stale or foreign frames come before it: after as many reads as there are bytes to come, each of at
  least one byte, the link has exactly the values the device sent, with nothing left over.
\<close>

theorem link_finds_answer:
  assumes "on_line vs l inc" "inc \<noteq> []" "0 < length vs" "length vs \<le> 125"
    "list_all (\<lambda>n. 0 < n) ns" "length inc \<le> length ns"
  shows "has_answer vs (fst (link_polls ns l inc)) \<and> snd (link_polls ns l inc) = []"
  using assms(1, 2, 5, 6)
proof (induction ns arbitrary: l inc)
  case (Cons n ns)
  let ?inc = "drop (min n (adu_max - length (l_held l))) inc" and ?l = "fst (link_poll (line_read n inc) None 0 l)"
  have w: "l_state l = Link_waiting" and k: "0 < min n (adu_max - length (l_held l))"
    using Cons.prems by (simp_all add: on_line_def)
  note step = poll_on_line [OF Cons.prems(1) assms(3, 4), of n]
  have polls: "link_polls (n # ns) l inc = link_polls ns ?l ?inc" using w by simp
  show ?case
  proof (cases "?inc = []")
    case True
    then have a: "has_answer vs ?l" using step by simp
    then have "link_polls ns ?l [] = (?l, [])" by (cases ns) (simp_all add: has_answer_def)
    then show ?thesis using a polls True by simp
  next
    case False
    then have "on_line vs ?l ?inc" using step by simp
    moreover have "length ?inc \<le> length ns" using Cons.prems(4) k by simp linarith
    ultimately show ?thesis using Cons.IH [of ?l ?inc] Cons.prems(3) False polls by simp
  qed
qed simp

definition late_answer :: "byte list" where
  "late_answer = mbap_frame 65535 1 (read_answer fc_read_holding [9])"

theorem link_finds_answer_witness:
  "has_answer [258] (fst (link_polls (replicate 40 1) asked_link
     (late_answer @ mbap_frame 0 1 (read_answer fc_read_holding [258]))))"
proof -
  have "stale asked_link late_answer"
    unfolding stale_def late_answer_def
    by (intro exI [of _ 65535] exI [of _ 1] exI [of _ "read_answer fc_read_holding [9]"])
      (simp add: read_answer_def asked_link_def link_asked_def link_init_def words_bytes_def)
  then have "on_line [258] asked_link (late_answer @ mbap_frame 0 1 (read_answer fc_read_holding [258]))"
    unfolding on_line_def by (intro conjI exI [of _ "[late_answer]"])
      (simp_all add: asked_link_def link_asked_def link_init_def)
  moreover have "late_answer \<noteq> []" by (simp add: late_answer_def mbap_frame_def)
  ultimately show ?thesis
    using link_finds_answer [of "[258]" asked_link _ "replicate 40 1"]
    by (simp add: late_answer_def read_answer_def list_all_iff)
qed

section \<open>More words than there is room for\<close>

text \<open>
  On an RTU line a device may answer 127 words, two more than the array of values holds: the link takes the
  answer for a whole one and \<^verbatim>\<open>lh_mb_link_take\<close> reports 127 words in an array of 125.
\<close>

theorem link_take_beyond:
  assumes "length vs = 127"
  shows "\<exists>l' values. link_poll (\<lambda>n. Io_bytes (with_crc (1 # read_answer fc_read_holding vs))) None 0
       (link_asked None 8 0 125 fc_read_holding (link_init Rtu 1)) = (l', Link_answered) \<and>
     link_take l' = Some (127, values) \<and> length values = 125"
proof -
  let ?l = "link_asked None 8 0 125 fc_read_holding (link_init Rtu 1)"
  let ?pdu = "read_answer fc_read_holding vs" let ?f = "with_crc (1 # ?pdu)"
  have l: "l_state ?l = Link_waiting" "l_framing ?l = Rtu" "l_unit ?l = 1" "l_asked_fc ?l = fc_read_holding" "l_held ?l = []"
    "l_values ?l = replicate 125 0" "l_expected ?l = 125"
    by (simp_all add: link_asked_def link_init_def)
  have f: "length ?f = 259" "?f \<noteq> []" using assms by (simp_all add: read_answer_def with_crc_def Let_def)
  obtain c where r: "poll_received (poll_input (\<lambda>n. Io_bytes ?f) ?l) ?l = ?l\<lparr>l_held := ?f, l_counters := c\<rparr>"
    using l by (simp add: poll_input_def poll_received_def link_receive_def)
  have "(3 :: u8) AND 128 = 0" by code_simp
  then have "rtu_frame_length ?f fc_read_holding = 259"
    using assms by (simp add: rtu_frame_length_def with_crc_def read_answer_def Let_def)
  then have s: "link_scan (?l\<lparr>l_held := ?f, l_counters := c\<rparr>) = (?l\<lparr>l_held := [], l_counters := c\<rparr>, Ours ?pdu)"
    using f decode_with_crc [of ?pdu 1] l
    by (subst link_scan.simps) (simp add: frame_length_def Let_def link_consume_def read_answer_def)
  have "parse_pdu ?pdu fc_read_holding 125 (replicate 125 0) =
      \<lparr>status = Status_ok, out = 127, out_values = take 125 vs, exception_code = 0\<rparr>"
    using parse_read_answer [of vs fc_read_holding 125 "replicate 125 0"] assms by (simp add: read_answer_def)
  then have p: "link_parse ?pdu (?l\<lparr>l_held := [], l_counters := c\<rparr>) =
      (?l\<lparr>l_held := [], l_counters := c, l_values := take 125 vs, l_got := 127\<rparr>, Status_ok)"
    using l by (simp add: link_parse_def Let_def)
  have "poll_input (\<lambda>n. Io_bytes ?f) ?l = Io_bytes ?f" using l by (simp add: poll_input_def)
  then have "link_poll (\<lambda>n. Io_bytes ?f) None 0 ?l = link_judge None
      (?l\<lparr>l_held := [], l_counters := c, l_values := take 125 vs, l_got := 127, l_reason := Status_ok\<rparr>)"
    using l(1) f(2) r s p by (simp add: link_poll_def poll_result_def link_finish_def)
  then show ?thesis using assms by (simp add: link_judge_def link_take_def)
qed

theorem link_take_beyond_witness:
  "\<exists>l' values. link_poll (\<lambda>n. Io_bytes (with_crc (1 # read_answer fc_read_holding (replicate 127 5)))) None 0
       (link_asked None 8 0 125 fc_read_holding (link_init Rtu 1)) = (l', Link_answered) \<and>
     link_take l' = Some (127, values) \<and> length values = 125"
  by (rule link_take_beyond) simp

end
