(* ===== verification/Bits.thy ===== *)
theory Bits
  imports Prelude
begin

text \<open>
  Byte order and rotation: the inline functions of \<^verbatim>\<open>include/lh/core/bit/endian.h\<close>,
  \<^verbatim>\<open>bit/half.h\<close> and \<^verbatim>\<open>bit/rotate.h\<close>. A buffer that a \<open>pack\<close> function fills is the list of bytes it
  writes; an \<open>unpack\<close> function reads the first bytes of the list it is given. The byte-wise XOR of
  \<^verbatim>\<open>lh_memory_std_xor\<close> is here too. Shown: packing then unpacking is the identity in both orders and
  all widths, the little-endian bytes are the big-endian ones reversed, and rotating left and right by
  the same amount undo each other.
\<close>

section \<open>The operations\<close>

definition make_u64 :: "u32 \<Rightarrow> u32 \<Rightarrow> u64" where
  "make_u64 high low = push_bit 32 (ucast high) OR ucast low"

definition get_high_u32 :: "u64 \<Rightarrow> u32" where
  "get_high_u32 x = ucast (drop_bit 32 x)"

definition get_low_u32 :: "u64 \<Rightarrow> u32" where
  "get_low_u32 x = ucast x"

definition pack_be16 :: "u16 \<Rightarrow> u8 list" where
  "pack_be16 v = [ucast (drop_bit 8 v), ucast (v AND 0xFF)]"

definition unpack_be16 :: "u8 list \<Rightarrow> u16" where
  "unpack_be16 bs = push_bit 8 (ucast (bs ! 0)) OR ucast (bs ! 1)"

definition pack_le16 :: "u16 \<Rightarrow> u8 list" where
  "pack_le16 v = [ucast v, ucast (drop_bit 8 v)]"

definition unpack_le16 :: "u8 list \<Rightarrow> u16" where
  "unpack_le16 bs = ucast (bs ! 0) OR push_bit 8 (ucast (bs ! 1))"

definition pack_be32 :: "u32 \<Rightarrow> u8 list" where
  "pack_be32 v = [ucast (drop_bit 24 v), ucast (drop_bit 16 v), ucast (drop_bit 8 v), ucast v]"

definition unpack_be32 :: "u8 list \<Rightarrow> u32" where
  "unpack_be32 bs =
     (push_bit 24 (ucast (bs ! 0)) OR push_bit 16 (ucast (bs ! 1))) OR
     (push_bit 8 (ucast (bs ! 2)) OR ucast (bs ! 3))"

definition pack_le32 :: "u32 \<Rightarrow> u8 list" where
  "pack_le32 v = [ucast v, ucast (drop_bit 8 v), ucast (drop_bit 16 v), ucast (drop_bit 24 v)]"

definition unpack_le32 :: "u8 list \<Rightarrow> u32" where
  "unpack_le32 bs =
     (ucast (bs ! 0) OR push_bit 8 (ucast (bs ! 1))) OR
     (push_bit 16 (ucast (bs ! 2)) OR push_bit 24 (ucast (bs ! 3)))"

definition pack_be64 :: "u64 \<Rightarrow> u8 list" where
  "pack_be64 v = pack_be32 (get_high_u32 v) @ pack_be32 (get_low_u32 v)"

definition unpack_be64 :: "u8 list \<Rightarrow> u64" where
  "unpack_be64 bs = make_u64 (unpack_be32 bs) (unpack_be32 (drop 4 bs))"

definition pack_le64 :: "u64 \<Rightarrow> u8 list" where
  "pack_le64 v = pack_le32 (get_low_u32 v) @ pack_le32 (get_high_u32 v)"

definition unpack_le64 :: "u8 list \<Rightarrow> u64" where
  "unpack_le64 bs = make_u64 (unpack_le32 (drop 4 bs)) (unpack_le32 bs)"

definition rotate_left_u32 :: "u32 \<Rightarrow> nat \<Rightarrow> u32" where
  "rotate_left_u32 x r =
     (let r = r mod 32 in if r = 0 then x else push_bit r x OR drop_bit (32 - r) x)"

definition rotate_right_u32 :: "u32 \<Rightarrow> nat \<Rightarrow> u32" where
  "rotate_right_u32 x r =
     (let r = r mod 32 in if r = 0 then x else drop_bit r x OR push_bit (32 - r) x)"

definition rotate_left_u64 :: "u64 \<Rightarrow> nat \<Rightarrow> u64" where
  "rotate_left_u64 x r =
     (let r = r mod 64 in if r = 0 then x else push_bit r x OR drop_bit (64 - r) x)"

definition rotate_right_u64 :: "u64 \<Rightarrow> nat \<Rightarrow> u64" where
  "rotate_right_u64 x r =
     (let r = r mod 64 in if r = 0 then x else drop_bit r x OR push_bit (64 - r) x)"

text \<open>
  \<^verbatim>\<open>lh_memory_std_xor\<close> on buffers that are the same or do not overlap: the value of the destination.
\<close>

definition memory_std_xor :: "u8 list \<Rightarrow> u8 list \<Rightarrow> u8 list" where
  "memory_std_xor lhs rhs = map2 (XOR) lhs rhs"

text \<open>
  A write of some bytes at an offset of a fixed array (\<^verbatim>\<open>lh_memory_std_copy\<close> into it, or a pack function
  given a pointer into it), and the bytes a pointer into an array is read for.
\<close>

definition write_at :: "'a list \<Rightarrow> nat \<Rightarrow> 'a list \<Rightarrow> 'a list" where
  "write_at dst off bytes = take off dst @ bytes @ drop (off + length bytes) dst"

definition slice :: "nat \<Rightarrow> nat \<Rightarrow> 'a list \<Rightarrow> 'a list" where
  "slice off n xs = take n (drop off xs)"

section \<open>Writes and reads of an array\<close>

lemma write_at_length [simp]: "off + length bs \<le> length dst \<Longrightarrow> length (write_at dst off bs) = length dst"
  by (simp add: write_at_def)

lemma slice_length [simp]: "length (slice off n xs) = min n (length xs - off)"
  by (simp add: slice_def)

lemma write_at_nth:
  "off + length bs \<le> length dst \<Longrightarrow> i < length dst \<Longrightarrow>
   write_at dst off bs ! i = (if off \<le> i \<and> i < off + length bs then bs ! (i - off) else dst ! i)"
  by (auto simp: write_at_def nth_append)

lemma slice_nth: "i < n \<Longrightarrow> off + n \<le> length xs \<Longrightarrow> slice off n xs ! i = xs ! (off + i)"
  by (simp add: slice_def)

lemma slice_write_same: "off \<le> length dst \<Longrightarrow> length bs = n \<Longrightarrow> slice off n (write_at dst off bs) = bs"
  by (simp add: slice_def write_at_def)

lemma slice_write_other:
  assumes "off + length bs \<le> length dst" "o2 + n \<le> length dst" "o2 + n \<le> off \<or> off + length bs \<le> o2"
  shows "slice o2 n (write_at dst off bs) = slice o2 n dst"
  by (rule nth_equalityI) (use assms in \<open>auto simp: slice_nth write_at_nth\<close>)

text \<open>Two loops whose bodies agree on the states the second one keeps.\<close>

lemma fold_agree:
  assumes "\<And>x s. x \<in> set xs \<Longrightarrow> P s \<Longrightarrow> f x s = g x s \<and> P (g x s)" "P s"
  shows "fold f xs s = fold g xs s \<and> P (fold g xs s)"
  using assms by (induction xs arbitrary: s) simp_all

section \<open>Round trips\<close>

lemma pack_lengths [simp]:
  "length (pack_be16 h) = 2" "length (pack_le16 h) = 2" "length (pack_be32 w) = 4"
  "length (pack_le32 w) = 4" "length (pack_be64 d) = 8" "length (pack_le64 d) = 8"
  by (simp_all add: pack_be16_def pack_le16_def pack_be32_def pack_le32_def pack_be64_def
      pack_le64_def)

lemma byte_mask: "(0xFF :: u16) = mask 8"
  by (simp add: mask_eq_decr_exp)

lemma le_is_be_reversed:
  "pack_le16 h = rev (pack_be16 h)" "pack_le32 w = rev (pack_be32 w)" "pack_le64 d = rev (pack_be64 d)"
proof -
  show "pack_le16 h = rev (pack_be16 h)"
    by (auto simp: pack_le16_def pack_be16_def byte_mask intro!: bit_word_eqI simp: bit_simps)
  show *: "pack_le32 w = rev (pack_be32 w)" for w
    by (simp add: pack_le32_def pack_be32_def)
  show "pack_le64 d = rev (pack_be64 d)"
    by (simp add: pack_le64_def pack_be64_def *)
qed

text \<open>Which byte of the wire holds bit \<open>n\<close>.\<close>

lemma byte_of_bit:
  fixes n :: nat
  assumes "n < 32"
  obtains "n < 8" | "8 \<le> n" "n < 16" | "16 \<le> n" "n < 24" | "24 \<le> n" "n < 32"
  using assms by linarith

lemma unpack_pack_be16 [simp]: "unpack_be16 (pack_be16 h @ bs) = h"
proof (rule bit_word_eqI)
  fix n assume "n < LENGTH(16)"
  then show "bit (unpack_be16 (pack_be16 h @ bs)) n = bit h n"
    by (cases "n < 8") (auto simp: unpack_be16_def pack_be16_def byte_mask bit_simps)
qed

lemma unpack_pack_be32 [simp]: "unpack_be32 (pack_be32 w @ bs) = w"
proof (rule bit_word_eqI)
  fix n assume "n < LENGTH(32)"
  then show "bit (unpack_be32 (pack_be32 w @ bs)) n = bit w n"
    by (simp add: unpack_be32_def pack_be32_def bit_simps)
      (rule byte_of_bit [of n]; auto simp: bit_simps)
qed

lemma unpack_le_is_be:
  "unpack_le16 [a, b] = unpack_be16 [b, a]" "unpack_le32 [a, b, c, d] = unpack_be32 [d, c, b, a]"
  by (simp_all add: unpack_le16_def unpack_be16_def unpack_le32_def unpack_be32_def or.commute
      or.left_commute or.assoc)

lemma unpack_pack_le16 [simp]: "unpack_le16 (pack_le16 h) = h"
  using unpack_pack_be16 [of h "[]"] unfolding le_is_be_reversed pack_be16_def
  by (simp add: unpack_le_is_be)

lemma unpack_pack_le32 [simp]: "unpack_le32 (pack_le32 w @ bs) = w"
proof -
  have "unpack_le32 (pack_le32 w @ bs) = unpack_le32 (pack_le32 w)"
    by (simp add: unpack_le32_def pack_le32_def)
  also have "\<dots> = w"
    using unpack_pack_be32 [of w "[]"] unfolding le_is_be_reversed pack_be32_def
    by (simp add: unpack_le_is_be)
  finally show ?thesis .
qed

lemma make_u64_halves [simp]: "make_u64 (get_high_u32 d) (get_low_u32 d) = d"
  by (rule bit_word_eqI) (auto simp: make_u64_def get_high_u32_def get_low_u32_def bit_simps)

lemma high_make_u64 [simp]: "get_high_u32 (make_u64 h l) = h"
  by (rule bit_word_eqI) (auto simp: make_u64_def get_high_u32_def bit_simps dest: bit_imp_le_length)

lemma low_make_u64 [simp]: "get_low_u32 (make_u64 h l) = l"
  by (rule bit_word_eqI) (auto simp: make_u64_def get_low_u32_def bit_simps)

lemma unpack_pack_be64 [simp]: "unpack_be64 (pack_be64 d @ bs) = d"
  by (simp add: unpack_be64_def pack_be64_def)

lemma unpack_pack_le64 [simp]: "unpack_le64 (pack_le64 d @ bs) = d"
  by (simp add: unpack_le64_def pack_le64_def)

section \<open>Rotations\<close>

lemma rotate_u32_inverse: "rotate_right_u32 (rotate_left_u32 x r) r = x"
proof (rule bit_word_eqI)
  fix n assume "n < LENGTH(32)"
  then have n: "n < 32" by simp
  show "bit (rotate_right_u32 (rotate_left_u32 x r) r) n = bit x n"
  proof (cases "n + r mod 32 < 32")
    case True
    with n show ?thesis
      by (auto simp: rotate_right_u32_def rotate_left_u32_def Let_def bit_simps add.commute)
  next
    case False
    with n show ?thesis
      by (auto simp: rotate_right_u32_def rotate_left_u32_def Let_def bit_simps add.commute
          dest: bit_imp_le_length)
  qed
qed

section \<open>Byte-wise XOR\<close>

lemma memory_std_xor_length [simp]:
  "length (memory_std_xor xs ys) = min (length xs) (length ys)"
  by (simp add: memory_std_xor_def)

lemma memory_std_xor_nth:
  "i < length xs \<Longrightarrow> i < length ys \<Longrightarrow> memory_std_xor xs ys ! i = xs ! i XOR ys ! i"
  by (simp add: memory_std_xor_def)

lemma memory_std_xor_cancel:
  assumes "length xs = length ys"
  shows "memory_std_xor (memory_std_xor xs ys) ys = xs"
  by (rule nth_equalityI) (simp_all add: assms memory_std_xor_nth xor.assoc)

lemma memory_std_xor_commute: "memory_std_xor xs ys = memory_std_xor ys xs"
  by (rule nth_equalityI) (simp_all add: memory_std_xor_nth ac_simps)

end
