(* ===== verification/Rijndael_Round.thy ===== *)
theory Rijndael_Round
  imports Bits
begin

text \<open>
  The transformations of a Rijndael round (\<^verbatim>\<open>src/lh/core/crypto/rijndael.c\<close>): the tables, the field
  arithmetic, ShiftRows, SubBytes and MixColumns with their inverses, on a state of four rows and any
  number of columns. Shown: each inverse undoes its transformation, substitution commutes with moving
  bytes and mixing back is linear, which is what the AES-NI key schedule relies on.
\<close>

section \<open>Tables\<close>

definition m_sbox :: "u8 list" where
  "m_sbox = [
     0x63, 0x7C, 0x77, 0x7B, 0xF2, 0x6B, 0x6F, 0xC5, 0x30, 0x01, 0x67, 0x2B, 0xFE, 0xD7, 0xAB, 0x76,
     0xCA, 0x82, 0xC9, 0x7D, 0xFA, 0x59, 0x47, 0xF0, 0xAD, 0xD4, 0xA2, 0xAF, 0x9C, 0xA4, 0x72, 0xC0,
     0xB7, 0xFD, 0x93, 0x26, 0x36, 0x3F, 0xF7, 0xCC, 0x34, 0xA5, 0xE5, 0xF1, 0x71, 0xD8, 0x31, 0x15,
     0x04, 0xC7, 0x23, 0xC3, 0x18, 0x96, 0x05, 0x9A, 0x07, 0x12, 0x80, 0xE2, 0xEB, 0x27, 0xB2, 0x75,
     0x09, 0x83, 0x2C, 0x1A, 0x1B, 0x6E, 0x5A, 0xA0, 0x52, 0x3B, 0xD6, 0xB3, 0x29, 0xE3, 0x2F, 0x84,
     0x53, 0xD1, 0x00, 0xED, 0x20, 0xFC, 0xB1, 0x5B, 0x6A, 0xCB, 0xBE, 0x39, 0x4A, 0x4C, 0x58, 0xCF,
     0xD0, 0xEF, 0xAA, 0xFB, 0x43, 0x4D, 0x33, 0x85, 0x45, 0xF9, 0x02, 0x7F, 0x50, 0x3C, 0x9F, 0xA8,
     0x51, 0xA3, 0x40, 0x8F, 0x92, 0x9D, 0x38, 0xF5, 0xBC, 0xB6, 0xDA, 0x21, 0x10, 0xFF, 0xF3, 0xD2,
     0xCD, 0x0C, 0x13, 0xEC, 0x5F, 0x97, 0x44, 0x17, 0xC4, 0xA7, 0x7E, 0x3D, 0x64, 0x5D, 0x19, 0x73,
     0x60, 0x81, 0x4F, 0xDC, 0x22, 0x2A, 0x90, 0x88, 0x46, 0xEE, 0xB8, 0x14, 0xDE, 0x5E, 0x0B, 0xDB,
     0xE0, 0x32, 0x3A, 0x0A, 0x49, 0x06, 0x24, 0x5C, 0xC2, 0xD3, 0xAC, 0x62, 0x91, 0x95, 0xE4, 0x79,
     0xE7, 0xC8, 0x37, 0x6D, 0x8D, 0xD5, 0x4E, 0xA9, 0x6C, 0x56, 0xF4, 0xEA, 0x65, 0x7A, 0xAE, 0x08,
     0xBA, 0x78, 0x25, 0x2E, 0x1C, 0xA6, 0xB4, 0xC6, 0xE8, 0xDD, 0x74, 0x1F, 0x4B, 0xBD, 0x8B, 0x8A,
     0x70, 0x3E, 0xB5, 0x66, 0x48, 0x03, 0xF6, 0x0E, 0x61, 0x35, 0x57, 0xB9, 0x86, 0xC1, 0x1D, 0x9E,
     0xE1, 0xF8, 0x98, 0x11, 0x69, 0xD9, 0x8E, 0x94, 0x9B, 0x1E, 0x87, 0xE9, 0xCE, 0x55, 0x28, 0xDF,
     0x8C, 0xA1, 0x89, 0x0D, 0xBF, 0xE6, 0x42, 0x68, 0x41, 0x99, 0x2D, 0x0F, 0xB0, 0x54, 0xBB, 0x16]"
definition m_inv_sbox :: "u8 list" where
  "m_inv_sbox = [
     0x52, 0x09, 0x6A, 0xD5, 0x30, 0x36, 0xA5, 0x38, 0xBF, 0x40, 0xA3, 0x9E, 0x81, 0xF3, 0xD7, 0xFB,
     0x7C, 0xE3, 0x39, 0x82, 0x9B, 0x2F, 0xFF, 0x87, 0x34, 0x8E, 0x43, 0x44, 0xC4, 0xDE, 0xE9, 0xCB,
     0x54, 0x7B, 0x94, 0x32, 0xA6, 0xC2, 0x23, 0x3D, 0xEE, 0x4C, 0x95, 0x0B, 0x42, 0xFA, 0xC3, 0x4E,
     0x08, 0x2E, 0xA1, 0x66, 0x28, 0xD9, 0x24, 0xB2, 0x76, 0x5B, 0xA2, 0x49, 0x6D, 0x8B, 0xD1, 0x25,
     0x72, 0xF8, 0xF6, 0x64, 0x86, 0x68, 0x98, 0x16, 0xD4, 0xA4, 0x5C, 0xCC, 0x5D, 0x65, 0xB6, 0x92,
     0x6C, 0x70, 0x48, 0x50, 0xFD, 0xED, 0xB9, 0xDA, 0x5E, 0x15, 0x46, 0x57, 0xA7, 0x8D, 0x9D, 0x84,
     0x90, 0xD8, 0xAB, 0x00, 0x8C, 0xBC, 0xD3, 0x0A, 0xF7, 0xE4, 0x58, 0x05, 0xB8, 0xB3, 0x45, 0x06,
     0xD0, 0x2C, 0x1E, 0x8F, 0xCA, 0x3F, 0x0F, 0x02, 0xC1, 0xAF, 0xBD, 0x03, 0x01, 0x13, 0x8A, 0x6B,
     0x3A, 0x91, 0x11, 0x41, 0x4F, 0x67, 0xDC, 0xEA, 0x97, 0xF2, 0xCF, 0xCE, 0xF0, 0xB4, 0xE6, 0x73,
     0x96, 0xAC, 0x74, 0x22, 0xE7, 0xAD, 0x35, 0x85, 0xE2, 0xF9, 0x37, 0xE8, 0x1C, 0x75, 0xDF, 0x6E,
     0x47, 0xF1, 0x1A, 0x71, 0x1D, 0x29, 0xC5, 0x89, 0x6F, 0xB7, 0x62, 0x0E, 0xAA, 0x18, 0xBE, 0x1B,
     0xFC, 0x56, 0x3E, 0x4B, 0xC6, 0xD2, 0x79, 0x20, 0x9A, 0xDB, 0xC0, 0xFE, 0x78, 0xCD, 0x5A, 0xF4,
     0x1F, 0xDD, 0xA8, 0x33, 0x88, 0x07, 0xC7, 0x31, 0xB1, 0x12, 0x10, 0x59, 0x27, 0x80, 0xEC, 0x5F,
     0x60, 0x51, 0x7F, 0xA9, 0x19, 0xB5, 0x4A, 0x0D, 0x2D, 0xE5, 0x7A, 0x9F, 0x93, 0xC9, 0x9C, 0xEF,
     0xA0, 0xE0, 0x3B, 0x4D, 0xAE, 0x2A, 0xF5, 0xB0, 0xC8, 0xEB, 0xBB, 0x3C, 0x83, 0x53, 0x99, 0x61,
     0x17, 0x2B, 0x04, 0x7E, 0xBA, 0x77, 0xD6, 0x26, 0xE1, 0x69, 0x14, 0x63, 0x55, 0x21, 0x0C, 0x7D]"

section \<open>The transformations of a round\<close>

definition size_ok :: "nat \<Rightarrow> bool" where
  "size_ok n \<longleftrightarrow> n = 16 \<or> n = 24 \<or> n = 32"

definition xtime :: "u8 \<Rightarrow> u8" where
  "xtime x = push_bit 1 x XOR (if x AND 0x80 \<noteq> 0 then 0x1B else 0)"

text \<open>The loop over the eight bits of the multiplier; the first argument counts the turns left.\<close>

fun gf_mul_loop :: "nat \<Rightarrow> u8 \<Rightarrow> u8 \<Rightarrow> u8 \<Rightarrow> u8" where
  "gf_mul_loop 0 a b p = p"
| "gf_mul_loop (Suc n) a b p =
     gf_mul_loop n (xtime a) (drop_bit 1 b) (if b AND 1 \<noteq> 0 then p XOR a else p)"

definition gf_mul :: "u8 \<Rightarrow> u8 \<Rightarrow> u8" where
  "gf_mul a b = gf_mul_loop 8 a b 0"

definition shift_offsets :: "nat \<Rightarrow> nat \<times> nat \<times> nat" where
  "shift_offsets nb = (if nb = 8 then (1, 3, 4) else (1, 2, 3))"

definition shift_src :: "nat \<Rightarrow> nat \<Rightarrow> bool \<Rightarrow> nat \<Rightarrow> nat" where
  "shift_src n shift inverted i = (if inverted then (i + n - shift mod n) mod n else (i + shift) mod n)"

definition shift_row :: "u8 list \<Rightarrow> nat \<Rightarrow> nat \<Rightarrow> nat \<Rightarrow> bool \<Rightarrow> u8 list" where
  "shift_row state nb row shift inverted =
     (let tmp = map (\<lambda>i. state ! (row + 4 * i)) [0..<nb]
      in fold (\<lambda>i st. st[row + 4 * i := tmp ! shift_src nb shift inverted i]) [0..<nb] state)"

definition shift_rows :: "u8 list \<Rightarrow> nat \<Rightarrow> bool \<Rightarrow> u8 list" where
  "shift_rows state nb inverted =
     (let (c1, c2, c3) = shift_offsets nb;
          state = shift_row state nb 1 c1 inverted;
          state = shift_row state nb 2 c2 inverted
      in shift_row state nb 3 c3 inverted)"

definition sub_bytes :: "u8 list \<Rightarrow> nat \<Rightarrow> bool \<Rightarrow> u8 list" where
  "sub_bytes state block_size inverted =
     (let box = (if inverted then m_inv_sbox else m_sbox)
      in map (\<lambda>b. box ! unat b) (take block_size state) @ drop block_size state)"

definition mix_column :: "u8 \<Rightarrow> u8 \<Rightarrow> u8 \<Rightarrow> u8 \<Rightarrow> u8 list" where
  "mix_column a0 a1 a2 a3 =
     (let t = a0 XOR a1 XOR a2 XOR a3
      in [a0 XOR t XOR xtime (a0 XOR a1), a1 XOR t XOR xtime (a1 XOR a2),
          a2 XOR t XOR xtime (a2 XOR a3), a3 XOR t XOR xtime (a3 XOR a0)])"

definition inv_mix_column :: "u8 \<Rightarrow> u8 \<Rightarrow> u8 \<Rightarrow> u8 \<Rightarrow> u8 list" where
  "inv_mix_column a0 a1 a2 a3 =
     [gf_mul a0 0x0E XOR gf_mul a1 0x0B XOR gf_mul a2 0x0D XOR gf_mul a3 0x09,
      gf_mul a0 0x09 XOR gf_mul a1 0x0E XOR gf_mul a2 0x0B XOR gf_mul a3 0x0D,
      gf_mul a0 0x0D XOR gf_mul a1 0x09 XOR gf_mul a2 0x0E XOR gf_mul a3 0x0B,
      gf_mul a0 0x0B XOR gf_mul a1 0x0D XOR gf_mul a2 0x09 XOR gf_mul a3 0x0E]"

text \<open>One turn of the loop over the columns, and the loop.\<close>

definition mix_columns_at :: "bool \<Rightarrow> nat \<Rightarrow> u8 list \<Rightarrow> u8 list" where
  "mix_columns_at inverted c state =
     (let a0 = state ! (c * 4); a1 = state ! (c * 4 + 1); a2 = state ! (c * 4 + 2);
          a3 = state ! (c * 4 + 3)
      in write_at state (c * 4)
           (if inverted then inv_mix_column a0 a1 a2 a3 else mix_column a0 a1 a2 a3))"

definition mix_columns :: "u8 list \<Rightarrow> nat \<Rightarrow> bool \<Rightarrow> u8 list" where
  "mix_columns state nb inverted = fold (mix_columns_at inverted) [0..<nb] state"

section \<open>The field operations\<close>

lemma xtime_xor: "xtime (x XOR y) = xtime x XOR xtime y"
proof -
  have top: "z AND 0x80 \<noteq> 0 \<longleftrightarrow> bit z 7" for z :: u8
    using and_exp_eq_0_iff_not_bit [of z 7] by simp
  show ?thesis
    by (rule bit_word_eqI) (auto simp: xtime_def top bit_simps)
qed

lemma xor_left_self [simp]: "(x :: 'a::len word) XOR (x XOR y) = y"
  by (simp add: xor.assoc [symmetric])

lemmas xor_ac = xor.assoc xor.commute xor.left_commute

lemma gf_mul_unroll: "gf_mul a b = gf_mul_loop (Suc (Suc (Suc (Suc (Suc (Suc (Suc (Suc 0)))))))) a b 0"
  by (simp add: gf_mul_def eval_nat_numeral)

lemma multiplier_shifts:
  "drop_bit (Suc 0) (14::u8) = 7" "drop_bit (Suc 0) (13::u8) = 6" "drop_bit (Suc 0) (11::u8) = 5"
  "drop_bit (Suc 0) (9::u8) = 4" "drop_bit (Suc 0) (7::u8) = 3" "drop_bit (Suc 0) (6::u8) = 3"
  "drop_bit (Suc 0) (5::u8) = 2" "drop_bit (Suc 0) (4::u8) = 2" "drop_bit (Suc 0) (3::u8) = 1"
  "drop_bit (Suc 0) (2::u8) = 1" "drop_bit (Suc 0) (1::u8) = 0"
  by code_simp+

lemma gf_mul_consts:
  "gf_mul a 0x09 = a XOR xtime (xtime (xtime a))"
  "gf_mul a 0x0B = a XOR xtime a XOR xtime (xtime (xtime a))"
  "gf_mul a 0x0D = a XOR xtime (xtime a) XOR xtime (xtime (xtime a))"
  "gf_mul a 0x0E = xtime a XOR xtime (xtime a) XOR xtime (xtime (xtime a))"
  by (simp_all add: gf_mul_unroll multiplier_shifts xor.assoc)

lemma inv_mix_column_mix_column:
  "mix_column a0 a1 a2 a3 = [b0, b1, b2, b3] \<Longrightarrow> inv_mix_column b0 b1 b2 b3 = [a0, a1, a2, a3]"
  by (auto simp: mix_column_def inv_mix_column_def gf_mul_consts xtime_xor Let_def xor_ac)

lemma inv_mix_column_xor:
  "inv_mix_column (a0 XOR b0) (a1 XOR b1) (a2 XOR b2) (a3 XOR b3) =
     memory_std_xor (inv_mix_column a0 a1 a2 a3) (inv_mix_column b0 b1 b2 b3)"
  by (simp add: inv_mix_column_def memory_std_xor_def gf_mul_consts xtime_xor xor_ac)

lemma sbox_length [simp]: "length m_sbox = 256" "length m_inv_sbox = 256"
  by (simp_all add: m_sbox_def m_inv_sbox_def)

lemma sbox_table: "map (\<lambda>b. m_inv_sbox ! unat b) m_sbox = map of_nat [0..<256]"
  by code_simp

text \<open>The second table undoes the first: every byte comes back.\<close>

lemma sbox_inverse: "m_inv_sbox ! unat (m_sbox ! unat b) = b"
proof -
  have b: "unat b < 256" using unsigned_less [of b] by simp
  have "map (\<lambda>b. m_inv_sbox ! unat b) m_sbox ! unat b = map of_nat [0..<256] ! unat b"
    by (simp only: sbox_table)
  with b show ?thesis by simp
qed

section \<open>The inverse transformations\<close>

lemma sub_bytes_length [simp]: "length (sub_bytes st n v) = length st"
  by (simp add: sub_bytes_def Let_def)

lemma sub_bytes_nth:
  "length st = n \<Longrightarrow> i < n \<Longrightarrow> sub_bytes st n v ! i = (if v then m_inv_sbox else m_sbox) ! unat (st ! i)"
  by (simp add: sub_bytes_def Let_def)

lemma sub_bytes_inverse: "length st = n \<Longrightarrow> sub_bytes (sub_bytes st n False) n True = st"
  by (rule nth_equalityI) (simp_all add: sub_bytes_nth sbox_inverse)

text \<open>The writes of a row: every column of the row once, from the copy taken first.\<close>

lemma row_writes:
  "row < 4 \<Longrightarrow> 4 * n \<le> length st \<Longrightarrow>
   length (fold (\<lambda>i st. st[row + 4 * i := g i]) [0..<n] st) = length st \<and>
   (\<forall>j < length st. fold (\<lambda>i st. st[row + 4 * i := g i]) [0..<n] st ! j =
      (if j mod 4 = row \<and> j div 4 < n then g (j div 4) else st ! j))"
proof (induction n)
  case (Suc n)
  let ?f = "fold (\<lambda>i st. st[row + 4 * i := g i]) [0..<n] st"
  have l: "length ?f = length st"
    and e: "\<And>j. j < length st \<Longrightarrow> ?f ! j = (if j mod 4 = row \<and> j div 4 < n then g (j div 4) else st ! j)"
    using Suc by simp_all
  have "?f[row + 4 * n := g n] ! j =
      (if j mod 4 = row \<and> j div 4 < Suc n then g (j div 4) else st ! j)" if "j < length st" for j
  proof (cases "j = row + 4 * n")
    case True
    with Suc.prems that l show ?thesis by simp
  next
    case False
    then have "\<not> (j mod 4 = row \<and> j div 4 = n)" using div_mult_mod_eq [of j 4] by auto
    with False e [OF that] show ?thesis by (auto simp: less_Suc_eq)
  qed
  with l show ?case by simp
qed simp

lemma shift_row_length [simp]: "row < 4 \<Longrightarrow> length st = 4 * nb \<Longrightarrow> length (shift_row st nb row s v) = length st"
  using row_writes [of row nb st] by (simp add: shift_row_def Let_def)

lemma shift_src_less: "0 < n \<Longrightarrow> shift_src n s v i < n"
  by (simp add: shift_src_def)

lemma shift_row_nth:
  assumes "row < 4" "length st = 4 * nb" "j < length st"
  shows "shift_row st nb row s v ! j =
     (if j mod 4 = row then st ! (row + 4 * shift_src nb s v (j div 4)) else st ! j)"
proof -
  have "j div 4 < nb" using assms by auto
  moreover from this have "shift_src nb s v (j div 4) < nb" by (simp add: shift_src_less)
  ultimately show ?thesis
    using row_writes [of row nb st] assms by (simp add: shift_row_def Let_def)
qed

lemma shift_src_inverse:
  assumes "i < n"
  shows "shift_src n s False (shift_src n s True i) = i"
proof -
  have n: "0 < n" using assms by simp
  have s: "s mod n \<le> n" using n by (simp add: less_imp_le)
  have "s = s div n * n + s mod n" by simp
  then have "i + n - s mod n + s = i + n + s div n * n" using s by linarith
  then have "(i + n - s mod n + s) mod n = i" using assms by simp
  then show ?thesis by (simp add: shift_src_def mod_add_left_eq)
qed

text \<open>
  Where the byte at \<open>j\<close> comes from: its row is \<open>j mod 4\<close>, its column \<open>j div 4\<close>.
\<close>

definition row_offset :: "nat \<Rightarrow> nat \<Rightarrow> nat" where
  "row_offset nb r =
     (case shift_offsets nb of (c1, c2, c3) \<Rightarrow> if r = 0 then 0 else if r = 1 then c1 else if r = 2 then c2 else c3)"

lemma shift_src_zero: "i < n \<Longrightarrow> shift_src n 0 v i = i"
  by (simp add: shift_src_def)

lemma shift_rows_length [simp]: "length st = 4 * nb \<Longrightarrow> length (shift_rows st nb v) = length st"
  by (simp add: shift_rows_def split: prod.split)

lemma shift_row_cell:
  assumes "row < 4" "r < 4" "c < nb" "length st = 4 * nb"
  shows "shift_row st nb row s v ! (r + 4 * c) = st ! (r + 4 * (if r = row then shift_src nb s v c else c))"
  using assms by (subst shift_row_nth) auto

lemma shift_rows_cell:
  assumes "r < 4" "c < nb" "length st = 4 * nb"
  shows "shift_rows st nb v ! (r + 4 * c) = st ! (r + 4 * shift_src nb (row_offset nb r) v c)"
proof -
  obtain c1 c2 c3 where o: "shift_offsets nb = (c1, c2, c3)" by (cases "shift_offsets nb") auto
  have src: "shift_src nb k v c < nb" for k using assms by (simp add: shift_src_less)
  have "shift_rows st nb v ! (r + 4 * c) =
      st ! (r + 4 * (if r = 3 then shift_src nb c3 v c else if r = 2 then shift_src nb c2 v c
                     else if r = 1 then shift_src nb c1 v c else c))"
    using assms src by (simp add: shift_rows_def o shift_row_cell)
  moreover have "r = 0 \<or> r = 1 \<or> r = 2 \<or> r = 3" using assms(1) by linarith
  ultimately show ?thesis using assms by (auto simp: row_offset_def o shift_src_zero)
qed

lemma shift_rows_nth:
  assumes "length st = 4 * nb" "j < length st"
  shows "shift_rows st nb v ! j = st ! (j mod 4 + 4 * shift_src nb (row_offset nb (j mod 4)) v (j div 4))"
proof -
  have "j div 4 < nb" using assms by auto
  then show ?thesis
    using shift_rows_cell [of "j mod 4" "j div 4" nb st v] assms by simp
qed

lemma shifted_cell: "j < 4 * nb \<Longrightarrow> j mod 4 + 4 * shift_src nb c v (j div 4) < 4 * nb"
proof -
  assume "j < 4 * nb"
  then have "shift_src nb c v (j div 4) < nb" by (intro shift_src_less) auto
  moreover have "j mod 4 < 4" by simp
  ultimately show ?thesis by linarith
qed

lemma shift_rows_inverse:
  assumes "length st = 4 * nb"
  shows "shift_rows (shift_rows st nb False) nb True = st"
proof (rule nth_equalityI)
  fix j assume "j < length (shift_rows (shift_rows st nb False) nb True)"
  then have j: "j < 4 * nb" using assms by simp
  then have "j div 4 < nb" by auto
  with j assms shifted_cell [OF j] show "shift_rows (shift_rows st nb False) nb True ! j = st ! j"
    by (simp add: shift_rows_nth shift_src_inverse)
qed (use assms in simp)

text \<open>Substitution works on each byte alone, so it commutes with moving bytes.\<close>

lemma sub_bytes_shift_rows:
  assumes "length st = 4 * nb"
  shows "sub_bytes (shift_rows st nb v) (4 * nb) w = shift_rows (sub_bytes st (4 * nb) w) nb v"
proof (rule nth_equalityI)
  fix j assume "j < length (sub_bytes (shift_rows st nb v) (4 * nb) w)"
  then have j: "j < 4 * nb" using assms by simp
  with assms shifted_cell [OF j]
  show "sub_bytes (shift_rows st nb v) (4 * nb) w ! j = shift_rows (sub_bytes st (4 * nb) w) nb v ! j"
    by (simp add: shift_rows_nth sub_bytes_nth)
qed (use assms in simp)

text \<open>The columns are mixed one after the other, each from its own four bytes.\<close>

definition column_of :: "bool \<Rightarrow> u8 list \<Rightarrow> nat \<Rightarrow> u8 list" where
  "column_of v st c =
     (if v then inv_mix_column else mix_column) (st ! (c * 4)) (st ! (c * 4 + 1)) (st ! (c * 4 + 2)) (st ! (c * 4 + 3))"

lemma column_of_length [simp]: "length (column_of v st c) = 4"
  by (simp add: column_of_def mix_column_def inv_mix_column_def Let_def)

lemma mix_columns_at_column: "mix_columns_at v c st = write_at st (c * 4) (column_of v st c)"
  by (simp add: mix_columns_at_def column_of_def Let_def)

lemma mix_columns_prefix:
  "4 * n \<le> length st \<Longrightarrow>
   fold (mix_columns_at v) [0..<n] st = concat (map (column_of v st) [0..<n]) @ drop (4 * n) st"
proof (induction n)
  case (Suc n)
  let ?p = "concat (map (column_of v st) [0..<n])"
  have l: "length ?p = 4 * n" by (induction n) simp_all
  have c: "column_of v (?p @ drop (4 * n) st) n = column_of v st n"
    using Suc.prems l by (simp add: column_of_def nth_append algebra_simps)
  show ?case
    using Suc c l by (simp add: mix_columns_at_column write_at_def algebra_simps)
qed simp

lemma mix_columns_eq:
  "length st = 4 * nb \<Longrightarrow> mix_columns st nb v = concat (map (column_of v st) [0..<nb])"
  by (simp add: mix_columns_def mix_columns_prefix)

lemma mix_columns_length [simp]: "length st = 4 * nb \<Longrightarrow> length (mix_columns st nb v) = length st"
proof (simp add: mix_columns_eq)
  show "length (concat (map (column_of v st) [0..<nb])) = 4 * nb" by (induction nb) simp_all
qed

lemma concat_fours_nth:
  assumes "\<And>c. length (f c) = 4" "c < n" "r < 4"
  shows "concat (map f [0..<n]) ! (c * 4 + r) = f c ! r"
  using assms(2)
proof (induction n)
  case (Suc n)
  have l: "length (concat (map f [0..<n])) = n * 4" by (induction n) (simp_all add: assms(1))
  show ?case
    using Suc assms(1, 3) l by (cases "c = n") (simp_all add: nth_append)
qed simp

lemma mix_columns_nth:
  "length st = 4 * nb \<Longrightarrow> c < nb \<Longrightarrow> r < 4 \<Longrightarrow> mix_columns st nb v ! (c * 4 + r) = column_of v st c ! r"
  by (simp add: mix_columns_eq concat_fours_nth)

text \<open>Equal columns make equal states.\<close>

lemma column_equalityI:
  assumes "length xs = 4 * nb" "length ys = 4 * nb"
    and "\<And>c r. c < nb \<Longrightarrow> r < 4 \<Longrightarrow> xs ! (c * 4 + r) = ys ! (c * 4 + r)"
  shows "xs = ys"
proof (rule nth_equalityI)
  fix i assume "i < length xs"
  then have "i div 4 < nb" using assms(1) by auto
  then show "xs ! i = ys ! i" using assms(3) [of "i div 4" "i mod 4"] by simp
qed (simp add: assms)

lemma mixed_column_parts:
  assumes "length st = 4 * nb" "c < nb"
  shows "mix_columns st nb v ! (c * 4) = column_of v st c ! 0"
    "mix_columns st nb v ! (c * 4 + 1) = column_of v st c ! 1"
    "mix_columns st nb v ! (c * 4 + 2) = column_of v st c ! 2"
    "mix_columns st nb v ! (c * 4 + 3) = column_of v st c ! 3"
  using mix_columns_nth [OF assms, of 0 v] mix_columns_nth [OF assms, of 1 v]
    mix_columns_nth [OF assms, of 2 v] mix_columns_nth [OF assms, of 3 v] by simp_all

lemma four_bytes: "length (xs :: 'a list) = 4 \<Longrightarrow> [xs ! 0, xs ! 1, xs ! 2, xs ! 3] = xs"
  by (auto simp: length_Suc_conv numeral_eq_Suc)

lemma less_four: "r < (4::nat) \<Longrightarrow> r = 0 \<or> r = 1 \<or> r = 2 \<or> r = 3"
  by linarith

lemma column_of_mixed:
  assumes "length st = 4 * nb" "c < nb"
  shows "column_of True (mix_columns st nb False) c = [st ! (c * 4), st ! (c * 4 + 1), st ! (c * 4 + 2), st ! (c * 4 + 3)]"
proof -
  let ?b = "column_of False st c"
  have "mix_column (st ! (c * 4)) (st ! (c * 4 + 1)) (st ! (c * 4 + 2)) (st ! (c * 4 + 3)) = [?b ! 0, ?b ! 1, ?b ! 2, ?b ! 3]"
    unfolding four_bytes [OF column_of_length] by (simp add: column_of_def)
  then show ?thesis
    unfolding column_of_def [of True] mixed_column_parts [OF assms] if_True by (rule inv_mix_column_mix_column)
qed

lemma mix_columns_inverse:
  assumes "length st = 4 * nb"
  shows "mix_columns (mix_columns st nb False) nb True = st"
proof (rule column_equalityI [of _ nb])
  fix c r :: nat assume c: "c < nb" and r: "r < 4"
  then show "mix_columns (mix_columns st nb False) nb True ! (c * 4 + r) = st ! (c * 4 + r)"
    using less_four [OF r] assms by (auto simp: mix_columns_nth column_of_mixed)
qed (use assms in simp_all)

text \<open>Mixing back is linear: it may be applied to a round key and to the state separately.\<close>

lemma inv_mix_columns_xor:
  assumes "length st = 4 * nb" "length k = 4 * nb"
  shows "mix_columns (memory_std_xor st k) nb True =
     memory_std_xor (mix_columns st nb True) (mix_columns k nb True)"
proof (rule column_equalityI [of _ nb])
  fix c r :: nat assume c: "c < nb" and r: "r < 4"
  have i: "c * 4 + q < 4 * nb" if "q < 4" for q using that c by linarith
  have "column_of True (memory_std_xor st k) c = memory_std_xor (column_of True st c) (column_of True k c)"
    using assms c i [of 0] i [of 1] i [of 2] i [of 3]
    by (simp add: column_of_def memory_std_xor_nth inv_mix_column_xor)
  with assms c r i [OF r] show "mix_columns (memory_std_xor st k) nb True ! (c * 4 + r) =
      memory_std_xor (mix_columns st nb True) (mix_columns k nb True) ! (c * 4 + r)"
    by (simp add: mix_columns_nth memory_std_xor_nth)
qed (use assms in simp_all)

end
