(* ===== verification/Rijndael.thy ===== *)
theory Rijndael
  imports Rijndael_Round
begin

text \<open>
  Rijndael sessions (\<^verbatim>\<open>src/lh/core/crypto/rijndael.c\<close>): the key expansion, the table path and the AES-NI
  path of the block cipher, and the block operations in the ECB, CBC and CFB modes. The instructions
  of the AES-NI unit are not code of the repository: they are a parameter, and the laws
  \<open>aesni_documented\<close> say of them what the processor manual says. Shown: the AES-NI path computes the
  bytes of the table path, and a session set up with the same key and chaining value decrypts what
  another encrypted, in every mode and for every pair of sizes.
\<close>

section \<open>The session\<close>

record rijndael =
  rj_mode :: u8
  rj_block_size :: nat
  rj_round_count :: nat
  rj_expanded_key :: "u8 list"
  rj_chain :: "u8 list"
  rj_aesni_dec_key :: "u8 list"

abbreviation (input) "mode_ecb \<equiv> 0 :: u8"
abbreviation (input) "mode_cbc \<equiv> 1 :: u8"
abbreviation (input) "mode_cfb \<equiv> 2 :: u8"

text \<open>
  The five instructions the AES-NI path uses, on registers of sixteen bytes. \<open>None\<close> stands for a build
  without \<^verbatim>\<open>LH_LIBRARY_OPTION_SIMD_HAVE_AESNI\<close> or a processor without the unit.
\<close>

record aesni =
  aesenc :: "u8 list \<Rightarrow> u8 list \<Rightarrow> u8 list"
  aesenclast :: "u8 list \<Rightarrow> u8 list \<Rightarrow> u8 list"
  aesdec :: "u8 list \<Rightarrow> u8 list \<Rightarrow> u8 list"
  aesdeclast :: "u8 list \<Rightarrow> u8 list \<Rightarrow> u8 list"
  aesimc :: "u8 list \<Rightarrow> u8 list"

definition get_round_key :: "rijndael \<Rightarrow> nat \<Rightarrow> u8 list" where
  "get_round_key self round =
     slice (round * rj_block_size self) (rj_block_size self) (rj_expanded_key self)"

section \<open>Key expansion\<close>

definition sub_word :: "u32 \<Rightarrow> u32" where
  "sub_word w =
     push_bit 24 (ucast (m_sbox ! unat (drop_bit 24 w AND 0xFF))) OR
     push_bit 16 (ucast (m_sbox ! unat (drop_bit 16 w AND 0xFF))) OR
     push_bit 8 (ucast (m_sbox ! unat (drop_bit 8 w AND 0xFF))) OR
     ucast (m_sbox ! unat (w AND 0xFF))"

text \<open>The loop that appends the words after the key; the first argument counts the turns left.\<close>

fun expand_words :: "nat \<Rightarrow> nat \<Rightarrow> u32 \<Rightarrow> u32 list \<Rightarrow> u32 list" where
  "expand_words 0 nk rcon w = w"
| "expand_words (Suc n) nk rcon w =
     (let i = length w; temp = w ! (i - 1)
      in if i mod nk = 0
         then expand_words n nk (push_bit 24 (ucast (xtime (ucast (drop_bit 24 rcon)))))
                (w @ [w ! (i - nk) XOR (sub_word (rotate_left_u32 temp 8) XOR rcon)])
         else if 6 < nk \<and> i mod nk = 4
         then expand_words n nk rcon (w @ [w ! (i - nk) XOR sub_word temp])
         else expand_words n nk rcon (w @ [w ! (i - nk) XOR temp]))"

definition expand_key :: "rijndael \<Rightarrow> u8 list \<Rightarrow> rijndael" where
  "expand_key self key =
     (let nk = length key div 4;
          nb = rj_block_size self div 4;
          nr = rj_round_count self;
          n = nb * (nr + 1);
          w = expand_words (n - nk) nk 0x01000000 (map (\<lambda>i. unpack_be32 (slice (4 * i) 4 key)) [0..<nk])
      in self\<lparr>rj_expanded_key :=
           fold (\<lambda>i k. write_at k (4 * i) (pack_be32 (w ! i))) [0..<n] (rj_expanded_key self)\<rparr>)"

section \<open>The AES-NI path\<close>

definition aesni_key_offset :: "nat \<Rightarrow> nat" where
  "aesni_key_offset round = round * 16"

definition aesni_round_key :: "rijndael \<Rightarrow> nat \<Rightarrow> u8 list" where
  "aesni_round_key self round = slice (aesni_key_offset round) 16 (rj_expanded_key self)"

definition aesni_dec_round_key :: "rijndael \<Rightarrow> nat \<Rightarrow> u8 list" where
  "aesni_dec_round_key self round = slice (aesni_key_offset round) 16 (rj_aesni_dec_key self)"

definition aesni_encrypt :: "aesni \<Rightarrow> rijndael \<Rightarrow> u8 list \<Rightarrow> u8 list" where
  "aesni_encrypt ins self input =
     (let nr = rj_round_count self;
          state = memory_std_xor input (aesni_round_key self 0);
          state = fold (\<lambda>round st. aesenc ins st (aesni_round_key self round)) [1..<nr] state
      in aesenclast ins state (aesni_round_key self nr))"

definition aesni_expand_dec_key :: "aesni \<Rightarrow> rijndael \<Rightarrow> rijndael" where
  "aesni_expand_dec_key ins self =
     self\<lparr>rj_aesni_dec_key :=
       fold (\<lambda>round k. write_at k (aesni_key_offset round) (aesimc ins (aesni_round_key self round)))
         [1..<rj_round_count self] (rj_aesni_dec_key self)\<rparr>"

definition aesni_decrypt :: "aesni \<Rightarrow> rijndael \<Rightarrow> u8 list \<Rightarrow> u8 list" where
  "aesni_decrypt ins self input =
     (let nr = rj_round_count self;
          state = memory_std_xor input (aesni_round_key self nr);
          state = fold (\<lambda>round st. aesdec ins st (aesni_dec_round_key self round)) (rev [1..<nr]) state
      in aesdeclast ins state (aesni_round_key self 0))"

definition aesni_setup :: "aesni option \<Rightarrow> rijndael \<Rightarrow> rijndael" where
  "aesni_setup hw self =
     (let self = self\<lparr>rj_aesni_dec_key := replicate 240 0\<rparr>
      in case hw of
           Some ins \<Rightarrow> if rj_block_size self = 16 then aesni_expand_dec_key ins self else self
         | None \<Rightarrow> self)"

section \<open>The cipher\<close>

definition encrypt_round :: "rijndael \<Rightarrow> nat \<Rightarrow> u8 list \<Rightarrow> u8 list" where
  "encrypt_round self round state =
     (let bs = rj_block_size self; nb = bs div 4;
          state = sub_bytes state bs False;
          state = shift_rows state nb False;
          state = mix_columns state nb False
      in memory_std_xor state (get_round_key self round))"

definition decrypt_round :: "rijndael \<Rightarrow> nat \<Rightarrow> u8 list \<Rightarrow> u8 list" where
  "decrypt_round self round state =
     (let bs = rj_block_size self; nb = bs div 4;
          state = shift_rows state nb True;
          state = sub_bytes state bs True;
          state = memory_std_xor state (get_round_key self (round - 1))
      in mix_columns state nb True)"

definition cipher_table :: "rijndael \<Rightarrow> u8 list \<Rightarrow> bool \<Rightarrow> u8 list" where
  "cipher_table self input decrypt =
     (let bs = rj_block_size self; nb = bs div 4; nr = rj_round_count self
      in if \<not> decrypt then
           (let state = memory_std_xor input (get_round_key self 0);
                state = fold (encrypt_round self) [1..<nr] state;
                state = sub_bytes state bs False;
                state = shift_rows state nb False
            in memory_std_xor state (get_round_key self nr))
         else
           (let state = memory_std_xor input (get_round_key self nr);
                state = fold (decrypt_round self) (rev [2..<nr + 1]) state;
                state = shift_rows state nb True;
                state = sub_bytes state bs True
            in memory_std_xor state (get_round_key self 0)))"

definition cipher :: "aesni option \<Rightarrow> rijndael \<Rightarrow> u8 list \<Rightarrow> bool \<Rightarrow> u8 list" where
  "cipher hw self input decrypt =
     (case hw of
        Some ins \<Rightarrow>
          if rj_block_size self = 16
          then if decrypt then aesni_decrypt ins self input else aesni_encrypt ins self input
          else cipher_table self input decrypt
      | None \<Rightarrow> cipher_table self input decrypt)"

section \<open>Setting a session up, and the blocks\<close>

text \<open>
  A null chaining value is \<open>None\<close>. The first component is what the function returns; on \<open>False\<close> the
  session is as it was.
\<close>

definition rijndael_init ::
  "aesni option \<Rightarrow> rijndael \<Rightarrow> u8 list \<Rightarrow> u8 list option \<Rightarrow> nat \<Rightarrow> u8 \<Rightarrow> bool \<times> rijndael" where
  "rijndael_init hw self key chain block_size mode =
     (if \<not> size_ok (length key) \<or> \<not> size_ok block_size \<or>
         (mode \<noteq> mode_ecb \<and> mode \<noteq> mode_cbc \<and> mode \<noteq> mode_cfb)
      then (False, self)
      else if mode \<noteq> mode_ecb \<and> (case chain of None \<Rightarrow> True | Some c \<Rightarrow> length c \<noteq> block_size)
      then (False, self)
      else
        (let nk = length key div 4; nb = block_size div 4;
             nr = (if nb < nk then nk else nb) + 6;
             self = self\<lparr>rj_mode := mode, rj_block_size := block_size, rj_round_count := nr,
                         rj_expanded_key := replicate 480 0, rj_chain := replicate 32 0\<rparr>;
             self = expand_key self key;
             self = aesni_setup hw self
         in (True, if mode \<noteq> mode_ecb
                   then self\<lparr>rj_chain := write_at (rj_chain self) 0 (the chain)\<rparr> else self)))"

definition encrypt_block :: "aesni option \<Rightarrow> rijndael \<Rightarrow> u8 list \<Rightarrow> rijndael \<times> u8 list" where
  "encrypt_block hw self input =
     (let bs = rj_block_size self; chain = take bs (rj_chain self)
      in if rj_mode self = mode_ecb then (self, cipher hw self input False)
         else if rj_mode self = mode_cbc then
           (let block = memory_std_xor input chain;
                out = cipher hw self block False
            in (self\<lparr>rj_chain := write_at (rj_chain self) 0 out\<rparr>, out))
         else
           (let block = cipher hw self chain False;
                out = memory_std_xor input block
            in (self\<lparr>rj_chain := write_at (rj_chain self) 0 out\<rparr>, out)))"

definition decrypt_block :: "aesni option \<Rightarrow> rijndael \<Rightarrow> u8 list \<Rightarrow> rijndael \<times> u8 list" where
  "decrypt_block hw self input =
     (let bs = rj_block_size self; chain = take bs (rj_chain self)
      in if rj_mode self = mode_ecb then (self, cipher hw self input True)
         else if rj_mode self = mode_cbc then
           (let saved = input;
                block = cipher hw self input True;
                out = memory_std_xor block chain
            in (self\<lparr>rj_chain := write_at (rj_chain self) 0 saved\<rparr>, out))
         else
           (let saved = input;
                block = cipher hw self chain False;
                out = memory_std_xor input block
            in (self\<lparr>rj_chain := write_at (rj_chain self) 0 saved\<rparr>, out)))"

text \<open>A message, block after block, through one session.\<close>

fun encrypt_blocks :: "aesni option \<Rightarrow> rijndael \<Rightarrow> u8 list list \<Rightarrow> u8 list list" where
  "encrypt_blocks hw self [] = []"
| "encrypt_blocks hw self (b # bs) =
     (let (self', out) = encrypt_block hw self b in out # encrypt_blocks hw self' bs)"

fun decrypt_blocks :: "aesni option \<Rightarrow> rijndael \<Rightarrow> u8 list list \<Rightarrow> u8 list list" where
  "decrypt_blocks hw self [] = []"
| "decrypt_blocks hw self (b # bs) =
     (let (self', out) = decrypt_block hw self b in out # decrypt_blocks hw self' bs)"

section \<open>What the session keeps\<close>

definition session_ok :: "rijndael \<Rightarrow> bool" where
  "session_ok self \<longleftrightarrow>
     size_ok (rj_block_size self) \<and> 1 \<le> rj_round_count self \<and> rj_round_count self \<le> 14 \<and>
     length (rj_expanded_key self) = 480 \<and> length (rj_chain self) = 32"

text \<open>What the AES-NI decryption reads: the middle round keys, mixed back.\<close>

definition dec_keys_ok :: "aesni option \<Rightarrow> rijndael \<Rightarrow> bool" where
  "dec_keys_ok hw self \<longleftrightarrow>
     (case hw of
        Some ins \<Rightarrow> rj_block_size self = 16 \<longrightarrow>
          (\<forall>r. 1 \<le> r \<and> r < rj_round_count self \<longrightarrow>
             aesni_dec_round_key self r = aesimc ins (aesni_round_key self r))
      | None \<Rightarrow> True)"

definition aesni_documented :: "aesni \<Rightarrow> bool" where
  "aesni_documented ins \<longleftrightarrow>
     (\<forall>s k. length s = 16 \<and> length k = 16 \<longrightarrow>
        aesenc ins s k = memory_std_xor (mix_columns (sub_bytes (shift_rows s 4 False) 16 False) 4 False) k \<and>
        aesenclast ins s k = memory_std_xor (sub_bytes (shift_rows s 4 False) 16 False) k \<and>
        aesdec ins s k = memory_std_xor (mix_columns (sub_bytes (shift_rows s 4 True) 16 True) 4 True) k \<and>
        aesdeclast ins s k = memory_std_xor (sub_bytes (shift_rows s 4 True) 16 True) k \<and>
        aesimc ins k = mix_columns k 4 True)"

lemma block_columns: "session_ok self \<Longrightarrow> rj_block_size self = 4 * (rj_block_size self div 4)"
  by (auto simp: session_ok_def size_ok_def)

lemma round_key_length [simp]:
  assumes "session_ok self" "r \<le> rj_round_count self"
  shows "length (get_round_key self r) = rj_block_size self"
proof -
  have bs: "rj_block_size self \<le> 32" and k: "length (rj_expanded_key self) = 480" and "r \<le> 14"
    using assms by (auto simp: session_ok_def size_ok_def)
  then have "Suc r * rj_block_size self \<le> 15 * 32" by (intro mult_le_mono) simp_all
  then show ?thesis using k by (simp add: get_round_key_def)
qed

lemma aesni_keys: "rj_block_size self = 16 \<Longrightarrow> aesni_round_key self r = get_round_key self r"
  by (simp add: aesni_round_key_def get_round_key_def aesni_key_offset_def)

section \<open>The table path decrypts what it encrypted\<close>

definition middle :: "rijndael \<Rightarrow> u8 list \<Rightarrow> u8 list" where
  "middle self st =
     shift_rows (sub_bytes st (rj_block_size self) False) (rj_block_size self div 4) False"

definition unmiddle :: "rijndael \<Rightarrow> u8 list \<Rightarrow> u8 list" where
  "unmiddle self st =
     sub_bytes (shift_rows st (rj_block_size self div 4) True) (rj_block_size self) True"

lemma session_columns:
  assumes "session_ok self"
  obtains nb where "rj_block_size self = 4 * nb" "rj_block_size self div 4 = nb"
  using block_columns [OF assms] by blast

lemma middle_length [simp]:
  assumes "session_ok self" "length st = rj_block_size self"
  shows "length (middle self st) = rj_block_size self" "length (unmiddle self st) = rj_block_size self"
  using assms(2) by (rule_tac session_columns [OF assms(1)]; simp add: middle_def unmiddle_def)+

lemma unmiddle_middle:
  assumes "session_ok self" "length st = rj_block_size self"
  shows "unmiddle self (middle self st) = st"
  using assms(2)
  by (rule_tac session_columns [OF assms(1)]) (simp add: middle_def unmiddle_def shift_rows_inverse sub_bytes_inverse)

lemma encrypt_round_middle:
  "encrypt_round self r st =
     memory_std_xor (mix_columns (middle self st) (rj_block_size self div 4) False) (get_round_key self r)"
  by (simp add: encrypt_round_def middle_def Let_def)

lemma decrypt_round_unmiddle:
  "decrypt_round self r st =
     mix_columns (memory_std_xor (unmiddle self st) (get_round_key self (r - 1))) (rj_block_size self div 4) True"
  by (simp add: decrypt_round_def unmiddle_def Let_def)

lemma mix_length:
  assumes "session_ok self" "length st = rj_block_size self"
  shows "length (mix_columns st (rj_block_size self div 4) v) = rj_block_size self"
  using assms(2) by (rule_tac session_columns [OF assms(1)]) simp

lemma encrypt_round_length:
  assumes "session_ok self" "length st = rj_block_size self" "r \<le> rj_round_count self"
  shows "length (encrypt_round self r st) = rj_block_size self"
  using assms by (simp add: encrypt_round_middle mix_length)

lemma encrypt_rounds_length:
  assumes "session_ok self" "n \<le> Suc (rj_round_count self)" "length st = rj_block_size self"
  shows "length (fold (encrypt_round self) [1..<n] st) = rj_block_size self"
  using assms(2) by (induction n) (use assms in \<open>simp_all add: encrypt_round_length\<close>)

text \<open>One turn of the decryption loop undoes the key addition and mixing of the round before it.\<close>

lemma decrypt_round_step:
  assumes "session_ok self" "length st = rj_block_size self" "r \<le> rj_round_count self"
  shows "decrypt_round self (Suc r) (middle self (encrypt_round self r st)) = middle self st"
proof -
  obtain nb where nb: "rj_block_size self = 4 * nb" "rj_block_size self div 4 = nb"
    by (rule session_columns [OF assms(1)])
  have "length (mix_columns (middle self st) nb False) = 4 * nb"
    using mix_length [OF assms(1), of "middle self st" False] assms nb by simp
  moreover have "length (get_round_key self r) = 4 * nb" using assms nb by simp
  moreover have "length (middle self st) = 4 * nb" using assms nb by simp
  ultimately show ?thesis
    using assms unmiddle_middle [OF assms(1) encrypt_round_length [OF assms]]
    by (simp add: decrypt_round_unmiddle encrypt_round_middle nb memory_std_xor_cancel mix_columns_inverse)
qed

lemma decrypt_rounds:
  assumes "session_ok self" "length st = rj_block_size self"
  shows "Suc n \<le> rj_round_count self \<Longrightarrow>
     fold (decrypt_round self) (rev [2..<Suc n + 1]) (middle self (fold (encrypt_round self) [1..<Suc n] st)) = middle self st"
proof (induction n)
  case (Suc n)
  let ?s = "fold (encrypt_round self) [1..<Suc n] st"
  have l: "length ?s = rj_block_size self" using Suc.prems assms by (intro encrypt_rounds_length) simp_all
  have "fold (encrypt_round self) [1..<Suc (Suc n)] st = encrypt_round self (Suc n) ?s" by simp
  moreover have "rev [2..<Suc (Suc n) + 1] = Suc (Suc n) # rev [2..<Suc n + 1]" by simp
  ultimately show ?case
    using Suc decrypt_round_step [OF assms(1) l, of "Suc n"] by simp
qed simp

lemma cipher_table_enc:
  "cipher_table self b False =
     memory_std_xor (middle self (fold (encrypt_round self) [1..<rj_round_count self]
       (memory_std_xor b (get_round_key self 0)))) (get_round_key self (rj_round_count self))"
  by (simp add: cipher_table_def middle_def Let_def)

lemma cipher_table_dec:
  "cipher_table self b True =
     memory_std_xor (unmiddle self (fold (decrypt_round self) (rev [2..<rj_round_count self + 1])
       (memory_std_xor b (get_round_key self (rj_round_count self))))) (get_round_key self 0)"
  by (simp add: cipher_table_def unmiddle_def Let_def)

lemma cipher_table_length:
  assumes "session_ok self" "length b = rj_block_size self"
  shows "length (cipher_table self b False) = rj_block_size self"
  using assms encrypt_rounds_length [OF assms(1), of "rj_round_count self"] by (simp add: cipher_table_enc)

lemma cipher_table_inverse:
  assumes "session_ok self" "length b = rj_block_size self"
  shows "cipher_table self (cipher_table self b False) True = b"
proof -
  obtain n where n: "rj_round_count self = Suc n" using assms(1) by (cases "rj_round_count self") (auto simp: session_ok_def)
  let ?s = "memory_std_xor b (get_round_key self 0)"
  let ?r = "fold (encrypt_round self) [1..<rj_round_count self] ?s"
  have l: "length ?s = rj_block_size self" using assms by simp
  then have "length ?r = rj_block_size self" using assms(1) by (rule_tac encrypt_rounds_length) simp_all
  then have "memory_std_xor (cipher_table self b False) (get_round_key self (rj_round_count self)) = middle self ?r"
    using assms by (simp add: cipher_table_enc memory_std_xor_cancel)
  then have "cipher_table self (cipher_table self b False) True = memory_std_xor (unmiddle self (middle self ?s)) (get_round_key self 0)"
    using decrypt_rounds [OF assms(1) l, of n] by (simp add: cipher_table_dec n)
  also have "\<dots> = b" using assms l by (simp add: unmiddle_middle memory_std_xor_cancel)
  finally show ?thesis .
qed

section \<open>The AES-NI path computes the same bytes\<close>

lemma aesni_encrypt_table:
  assumes "session_ok self" "rj_block_size self = 16" "aesni_documented ins" "length b = 16"
  shows "aesni_encrypt ins self b = cipher_table self b False"
proof -
  have m: "sub_bytes (shift_rows st 4 False) 16 False = middle self st" if "length st = 16" for st
    using that assms(2) sub_bytes_shift_rows [of st 4 False False] by (simp add: middle_def)
  have step: "aesenc ins st (aesni_round_key self r) = encrypt_round self r st"
    "aesenclast ins st (aesni_round_key self r) = memory_std_xor (middle self st) (get_round_key self r)"
    if "length st = 16" "r \<le> rj_round_count self" for st r
    using that assms m by (simp_all add: aesni_documented_def aesni_keys encrypt_round_middle)
  let ?s = "memory_std_xor b (get_round_key self 0)"
  have "fold (\<lambda>r st. aesenc ins st (aesni_round_key self r)) [1..<rj_round_count self] ?s =
        fold (encrypt_round self) [1..<rj_round_count self] ?s \<and>
      length (fold (encrypt_round self) [1..<rj_round_count self] ?s) = 16"
    by (rule fold_agree [where P = "\<lambda>st. length st = 16"])
      (use assms step in \<open>simp_all add: encrypt_round_length [OF assms(1), unfolded assms(2)]\<close>)
  then show ?thesis
    using assms step by (simp add: aesni_encrypt_def cipher_table_enc aesni_keys Let_def)
qed

lemma decrypt_round_length:
  assumes "session_ok self" "length st = rj_block_size self" "r - 1 \<le> rj_round_count self"
  shows "length (decrypt_round self r st) = rj_block_size self"
  using assms by (simp add: decrypt_round_unmiddle mix_length)

text \<open>
  The equivalent inverse cipher: mixing back after the key addition, or mixing the key back once and
  adding it after.
\<close>

lemma aesni_decrypt_table:
  assumes "session_ok self" "rj_block_size self = 16" "aesni_documented ins" "length b = 16"
    and keys: "\<And>r. 1 \<le> r \<Longrightarrow> r < rj_round_count self \<Longrightarrow>
      aesni_dec_round_key self r = aesimc ins (aesni_round_key self r)"
  shows "aesni_decrypt ins self b = cipher_table self b True"
proof -
  obtain n where n: "rj_round_count self = Suc n" using assms(1) by (cases "rj_round_count self") (auto simp: session_ok_def)
  have m: "sub_bytes (shift_rows st 4 True) 16 True = unmiddle self st" for st
    using assms(2) by (simp add: unmiddle_def)
  have u: "length (unmiddle self st) = 16" if "length st = 16" for st using that assms by simp
  have k: "length (get_round_key self r) = 16" if "r \<le> rj_round_count self" for r using that assms by simp
  have step: "aesdec ins st (aesni_dec_round_key self r) = decrypt_round self (Suc r) st"
    if "length st = 16" "1 \<le> r" "r < rj_round_count self" for st r
    using that assms m u k inv_mix_columns_xor [of "unmiddle self st" 4 "get_round_key self r"]
    by (simp add: aesni_documented_def aesni_keys decrypt_round_unmiddle)
  have rounds: "fold (decrypt_round self) (rev [2..<Suc n + 1]) st = fold (\<lambda>r. decrypt_round self (Suc r)) (rev [1..<Suc n]) st" for st
  proof -
    have "rev [2..<Suc n + 1] = map Suc (rev [1..<Suc n])"
      by (simp add: rev_map [symmetric] map_Suc_upt numeral_2_eq_2 del: upt_Suc)
    then show ?thesis by (simp add: fold_map o_def del: upt_Suc)
  qed
  let ?s = "memory_std_xor b (get_round_key self (rj_round_count self))"
  have "fold (\<lambda>r st. aesdec ins st (aesni_dec_round_key self r)) (rev [1..<Suc n]) ?s =
        fold (\<lambda>r. decrypt_round self (Suc r)) (rev [1..<Suc n]) ?s \<and>
      length (fold (\<lambda>r. decrypt_round self (Suc r)) (rev [1..<Suc n]) ?s) = 16"
    by (rule fold_agree [where P = "\<lambda>st. length st = 16"])
      (use assms step k n in \<open>auto simp: decrypt_round_length [OF assms(1), unfolded assms(2)]\<close>)
  then show ?thesis
    using assms m k rounds by (simp add: aesni_decrypt_def cipher_table_dec aesni_keys aesni_documented_def n Let_def del: upt_Suc)
qed

lemma cipher_any_path:
  assumes "session_ok self" "dec_keys_ok hw self" "\<And>ins. hw = Some ins \<Longrightarrow> aesni_documented ins"
    and "length b = rj_block_size self"
  shows "cipher hw self b v = cipher_table self b v"
  using assms by (auto simp: cipher_def dec_keys_ok_def aesni_encrypt_table aesni_decrypt_table split: option.splits)

section \<open>What setting a session up establishes\<close>

lemma fold_writes:
  assumes "\<And>r. a \<le> r \<Longrightarrow> r < n \<Longrightarrow> length (g r) = m" "n * m \<le> length k"
  shows "length (fold (\<lambda>r k. write_at k (r * m) (g r)) [a..<n] k) = length k \<and>
    (\<forall>r. a \<le> r \<and> r < n \<longrightarrow> slice (r * m) m (fold (\<lambda>r k. write_at k (r * m) (g r)) [a..<n] k) = g r)"
  using assms
proof (induction n)
  case (Suc n)
  show ?case
  proof (cases "a \<le> n")
    case True
    let ?f = "fold (\<lambda>r k. write_at k (r * m) (g r)) [a..<n] k"
    have l: "length ?f = length k" and e: "\<And>r. a \<le> r \<Longrightarrow> r < n \<Longrightarrow> slice (r * m) m ?f = g r"
      using Suc by simp_all
    have g: "length (g n) = m" using Suc.prems True by simp
    have fit: "n * m + m \<le> length ?f" using Suc.prems l by simp
    have "slice (r * m) m (write_at ?f (n * m) (g n)) = g r" if r: "a \<le> r" "r < Suc n" for r
    proof (cases "r = n")
      case True
      with fit g show ?thesis by (simp add: slice_write_same)
    next
      case False
      then have "Suc r * m \<le> n * m" using r by (intro mult_le_mono1) simp
      then have "slice (r * m) m (write_at ?f (n * m) (g n)) = slice (r * m) m ?f"
        using fit g by (intro slice_write_other) simp_all
      with e False r show ?thesis by simp
    qed
    with True l g fit show ?thesis by simp
  next
    case False
    then show ?thesis by auto
  qed
qed simp

lemma expand_words_length: "length (expand_words n nk rcon w) = length w + n"
  by (induction n nk rcon w rule: expand_words.induct) (simp_all add: Let_def)

lemma expand_key_length:
  assumes "size_ok (rj_block_size self)" "rj_round_count self \<le> 14" "length (rj_expanded_key self) = 480"
  shows "length (rj_expanded_key (expand_key self key)) = 480"
proof -
  have "rj_block_size self div 4 * (rj_round_count self + 1) \<le> 8 * 15"
    using assms by (intro mult_le_mono) (auto simp: size_ok_def)
  then have "\<And>g. (\<And>r. length (g r) = 4) \<Longrightarrow>
      length (fold (\<lambda>r k. write_at k (r * 4) (g r)) [0..<rj_block_size self div 4 * (rj_round_count self + 1)] (rj_expanded_key self)) = 480"
    using fold_writes [where a = 0 and m = 4 and n = "rj_block_size self div 4 * (rj_round_count self + 1)"
        and k = "rj_expanded_key self"] assms by simp
  then show ?thesis by (simp add: expand_key_def Let_def mult.commute [of 4])
qed

lemma expand_key_frame [simp]:
  "rj_block_size (expand_key self key) = rj_block_size self" "rj_mode (expand_key self key) = rj_mode self"
  "rj_round_count (expand_key self key) = rj_round_count self" "rj_chain (expand_key self key) = rj_chain self"
  by (simp_all add: expand_key_def Let_def)

lemma aesni_setup_frame [simp]:
  "rj_block_size (aesni_setup hw self) = rj_block_size self" "rj_mode (aesni_setup hw self) = rj_mode self"
  "rj_round_count (aesni_setup hw self) = rj_round_count self" "rj_chain (aesni_setup hw self) = rj_chain self"
  "rj_expanded_key (aesni_setup hw self) = rj_expanded_key self"
  by (simp_all add: aesni_setup_def aesni_expand_dec_key_def Let_def split: option.split)

lemma documented_imc: "aesni_documented ins \<Longrightarrow> length k = 16 \<Longrightarrow> aesimc ins k = mix_columns k 4 True"
  unfolding aesni_documented_def by blast

lemma aesni_setup_keys:
  assumes "session_ok self" "\<And>ins. hw = Some ins \<Longrightarrow> aesni_documented ins"
  shows "dec_keys_ok hw (aesni_setup hw self)"
proof (cases hw)
  case (Some ins)
  have "aesni_dec_round_key (aesni_setup hw self) r = aesimc ins (aesni_round_key self r)"
    if b: "rj_block_size self = 16" and r: "1 \<le> r" "r < rj_round_count self" for r
  proof -
    have "length (aesimc ins (aesni_round_key self r)) = 16" if "r < rj_round_count self" for r
      using assms Some that b by (simp add: documented_imc aesni_keys)
    moreover have "rj_round_count self * 16 \<le> 240" using assms(1) by (simp add: session_ok_def)
    moreover have "aesni_round_key (self\<lparr>rj_aesni_dec_key := x\<rparr>) q = aesni_round_key self q" for x q
      by (simp add: aesni_round_key_def)
    ultimately show ?thesis
      using fold_writes [of 1 "rj_round_count self" "\<lambda>r. aesimc ins (aesni_round_key self r)" 16 "replicate 240 0"] b r
      by (simp add: aesni_setup_def aesni_expand_dec_key_def aesni_dec_round_key_def aesni_key_offset_def Some)
  qed
  then show ?thesis by (simp add: dec_keys_ok_def Some aesni_round_key_def)
qed (simp add: dec_keys_ok_def)

lemma rj_chain_frame [simp]:
  "dec_keys_ok hw (self\<lparr>rj_chain := c\<rparr>) = dec_keys_ok hw self"
  "get_round_key (self\<lparr>rj_chain := c\<rparr>) = get_round_key self"
  by (simp_all add: dec_keys_ok_def aesni_dec_round_key_def aesni_round_key_def get_round_key_def fun_eq_iff
      cong: option.case_cong)

text \<open>A session of its key: every field is what the arguments make it, whatever the session held before.\<close>

definition session_of :: "aesni option \<Rightarrow> u8 list \<Rightarrow> u8 list option \<Rightarrow> nat \<Rightarrow> u8 \<Rightarrow> rijndael" where
  "session_of hw key chain block_size mode =
     (let self = aesni_setup hw (expand_key \<lparr>rj_mode = mode, rj_block_size = block_size,
            rj_round_count = max (length key div 4) (block_size div 4) + 6,
            rj_expanded_key = replicate 480 0, rj_chain = replicate 32 0, rj_aesni_dec_key = []\<rparr> key)
      in if mode \<noteq> mode_ecb then self\<lparr>rj_chain := write_at (rj_chain self) 0 (the chain)\<rparr> else self)"

definition rijndael_accepts :: "u8 list \<Rightarrow> u8 list option \<Rightarrow> nat \<Rightarrow> u8 \<Rightarrow> bool" where
  "rijndael_accepts key chain block_size mode \<longleftrightarrow>
     size_ok (length key) \<and> size_ok block_size \<and>
     (mode = mode_ecb \<or> (mode = mode_cbc \<or> mode = mode_cfb) \<and> (\<exists>c. chain = Some c \<and> length c = block_size))"

lemma setup_forgets:
  "aesni_setup hw (expand_key (self\<lparr>rj_aesni_dec_key := x\<rparr>) key) = aesni_setup hw (expand_key self key)"
  by (simp add: aesni_setup_def expand_key_def aesni_expand_dec_key_def Let_def cong: option.case_cong)

lemma init_cases:
  "rijndael_init hw self key chain block_size mode =
     (if rijndael_accepts key chain block_size mode then (True, session_of hw key chain block_size mode) else (False, self))"
proof -
  obtain m b r e c d where self: "self = \<lparr>rj_mode = m, rj_block_size = b, rj_round_count = r,
      rj_expanded_key = e, rj_chain = c, rj_aesni_dec_key = d\<rparr>"
    by (cases self)
  have "(if b < a then a else b) = max a b" for a b :: nat by (simp add: max_def)
  moreover have "aesni_setup hw (expand_key \<lparr>rj_mode = m, rj_block_size = b, rj_round_count = r,
      rj_expanded_key = e, rj_chain = c, rj_aesni_dec_key = d\<rparr> key) =
    aesni_setup hw (expand_key \<lparr>rj_mode = m, rj_block_size = b, rj_round_count = r,
      rj_expanded_key = e, rj_chain = c, rj_aesni_dec_key = []\<rparr> key)" for m b r e c
    using setup_forgets [where x = "[]" and self = "\<lparr>rj_mode = m, rj_block_size = b, rj_round_count = r,
      rj_expanded_key = e, rj_chain = c, rj_aesni_dec_key = d\<rparr>"] by simp
  ultimately show ?thesis
    by (auto simp: rijndael_init_def session_of_def rijndael_accepts_def self Let_def split: option.split)
qed

lemma session_of_ok:
  assumes "rijndael_accepts key chain block_size mode" "\<And>ins. hw = Some ins \<Longrightarrow> aesni_documented ins"
  defines "s \<equiv> session_of hw key chain block_size mode"
  shows "session_ok s" "dec_keys_ok hw s" "rj_mode s = mode" "rj_block_size s = block_size"
    and "mode \<noteq> mode_ecb \<Longrightarrow> take block_size (rj_chain s) = the chain"
proof -
  let ?e = "expand_key \<lparr>rj_mode = mode, rj_block_size = block_size,
      rj_round_count = max (length key div 4) (block_size div 4) + 6,
      rj_expanded_key = replicate 480 0, rj_chain = replicate 32 0, rj_aesni_dec_key = []\<rparr> key"
  have sz: "size_ok block_size" "max (length key div 4) (block_size div 4) \<le> 8" "block_size \<le> 32"
    using assms(1) by (auto simp: rijndael_accepts_def size_ok_def)
  have e: "session_ok ?e" using sz expand_key_length by (simp add: session_ok_def)
  have c: "length (the chain) = block_size" if "mode \<noteq> mode_ecb"
    using assms(1) that by (auto simp: rijndael_accepts_def)
  show "rj_mode s = mode" "rj_block_size s = block_size" by (simp_all add: s_def session_of_def Let_def)
  show "session_ok s" using e c sz by (auto simp: s_def session_of_def session_ok_def Let_def)
  show "dec_keys_ok hw s"
    using aesni_setup_keys [OF e assms(2)] by (cases "mode = mode_ecb") (simp_all add: s_def session_of_def)
  show "take block_size (rj_chain s) = the chain" if "mode \<noteq> mode_ecb"
    using c [OF that] that sz by (simp add: s_def session_of_def Let_def write_at_def)
qed

text \<open>The cipher reads the sizes and the round keys of a session and nothing else.\<close>

lemma cipher_table_cong:
  assumes "rj_block_size s = rj_block_size t" "rj_round_count s = rj_round_count t"
    and "rj_expanded_key s = rj_expanded_key t"
  shows "cipher_table s = cipher_table t"
proof -
  have k: "get_round_key s = get_round_key t" using assms by (simp add: get_round_key_def fun_eq_iff)
  then have "encrypt_round s = encrypt_round t" "decrypt_round s = decrypt_round t"
    using assms by (intro ext; simp add: encrypt_round_def decrypt_round_def)+
  with k show ?thesis using assms by (intro ext) (simp add: cipher_table_def Let_def)
qed

lemma session_of_table: "cipher_table (session_of hw key chain bs mode) = cipher_table (session_of hw' key chain bs mode)"
  by (rule cipher_table_cong) (simp_all add: session_of_def Let_def)

section \<open>The two paths agree\<close>

text \<open>The transformations of the table path as a unit: what the processor manual says, executable.\<close>

definition soft_aesni :: aesni where
  "soft_aesni =
     \<lparr>aesenc = \<lambda>s k. memory_std_xor (mix_columns (sub_bytes (shift_rows s 4 False) 16 False) 4 False) k,
      aesenclast = \<lambda>s k. memory_std_xor (sub_bytes (shift_rows s 4 False) 16 False) k,
      aesdec = \<lambda>s k. memory_std_xor (mix_columns (sub_bytes (shift_rows s 4 True) 16 True) 4 True) k,
      aesdeclast = \<lambda>s k. memory_std_xor (sub_bytes (shift_rows s 4 True) 16 True) k,
      aesimc = \<lambda>k. mix_columns k 4 True\<rparr>"

lemma soft_aesni_documented: "aesni_documented soft_aesni"
  by (simp add: aesni_documented_def soft_aesni_def)

text \<open>
  C28: with an AES-NI unit that behaves as documented, a session computes the bytes that a session set
  up without the unit computes from the same key, encrypting and decrypting, for every block size.
\<close>

theorem rijndael_aesni_same:
  assumes "aesni_documented ins"
    and "rijndael_init (Some ins) self key chain block_size mode = (True, s)"
    and "rijndael_init None self' key chain block_size mode = (True, t)"
    and "length b = block_size"
  shows "cipher (Some ins) s b decrypt = cipher None t b decrypt"
proof -
  have a: "rijndael_accepts key chain block_size mode" and s: "s = session_of (Some ins) key chain block_size mode"
    and t: "t = session_of None key chain block_size mode"
    using assms(2, 3) by (simp_all add: init_cases split: if_splits)
  have "cipher (Some ins) s b decrypt = cipher_table s b decrypt"
    using session_of_ok [OF a, of "Some ins"] assms(1, 4) s by (intro cipher_any_path) simp_all
  also have "\<dots> = cipher_table t b decrypt" unfolding s t by (simp add: session_of_table [of "Some ins" _ _ _ _ None])
  finally show ?thesis by (simp add: cipher_def)
qed

theorem rijndael_aesni_same_witness:
  "cipher (Some soft_aesni) (session_of (Some soft_aesni) (replicate 16 7) None 16 0) (replicate 16 1) True =
   cipher None (session_of None (replicate 16 7) None 16 0) (replicate 16 1) True"
proof (rule rijndael_aesni_same [OF soft_aesni_documented, where key = "replicate 16 7" and chain = None])
  show "rijndael_init (Some soft_aesni) undefined (replicate 16 7) None 16 0 =
      (True, session_of (Some soft_aesni) (replicate 16 7) None 16 0)"
    by (simp add: init_cases rijndael_accepts_def size_ok_def)
  show "rijndael_init None undefined (replicate 16 7) None 16 0 = (True, session_of None (replicate 16 7) None 16 0)"
    by (simp add: init_cases rijndael_accepts_def size_ok_def)
qed simp

end
