(* ===== verification/Rijndael_Modes.thy ===== *)
theory Rijndael_Modes
  imports Rijndael
begin

text \<open>
  The modes of operation of a Rijndael session. The locale \<open>block_cipher\<close> states what the modes need of a
  cipher; the ECB, CBC and CFB modes of NIST SP 800-38A are written over it, and decryption is shown to
  undo encryption there. The cipher of the model is the instance, and \<open>encrypt_block\<close> and
  \<open>decrypt_block\<close> of \<^verbatim>\<open>src/lh/core/crypto/rijndael.c\<close>, run over a message, are shown to be these modes.
\<close>

section \<open>The modes as the standard writes them\<close>

fun cbc_encrypt :: "(u8 list \<Rightarrow> u8 list) \<Rightarrow> u8 list \<Rightarrow> u8 list list \<Rightarrow> u8 list list" where
  "cbc_encrypt e c [] = []"
| "cbc_encrypt e c (p # ps) = e (memory_std_xor p c) # cbc_encrypt e (e (memory_std_xor p c)) ps"

fun cbc_decrypt :: "(u8 list \<Rightarrow> u8 list) \<Rightarrow> u8 list \<Rightarrow> u8 list list \<Rightarrow> u8 list list" where
  "cbc_decrypt d c [] = []"
| "cbc_decrypt d c (x # xs) = memory_std_xor (d x) c # cbc_decrypt d x xs"

fun cfb_encrypt :: "(u8 list \<Rightarrow> u8 list) \<Rightarrow> u8 list \<Rightarrow> u8 list list \<Rightarrow> u8 list list" where
  "cfb_encrypt e c [] = []"
| "cfb_encrypt e c (p # ps) = memory_std_xor p (e c) # cfb_encrypt e (memory_std_xor p (e c)) ps"

fun cfb_decrypt :: "(u8 list \<Rightarrow> u8 list) \<Rightarrow> u8 list \<Rightarrow> u8 list list \<Rightarrow> u8 list list" where
  "cfb_decrypt e c [] = []"
| "cfb_decrypt e c (x # xs) = memory_std_xor x (e c) # cfb_decrypt e x xs"

definition mode_encrypt :: "u8 \<Rightarrow> (u8 list \<Rightarrow> u8 list) \<Rightarrow> u8 list \<Rightarrow> u8 list list \<Rightarrow> u8 list list" where
  "mode_encrypt mode e c ps =
     (if mode = mode_ecb then map e ps else if mode = mode_cbc then cbc_encrypt e c ps else cfb_encrypt e c ps)"

definition mode_decrypt ::
  "u8 \<Rightarrow> (u8 list \<Rightarrow> u8 list) \<Rightarrow> (u8 list \<Rightarrow> u8 list) \<Rightarrow> u8 list \<Rightarrow> u8 list list \<Rightarrow> u8 list list" where
  "mode_decrypt mode e d c xs =
     (if mode = mode_ecb then map d xs else if mode = mode_cbc then cbc_decrypt d c xs else cfb_decrypt e c xs)"

locale block_cipher =
  fixes usable :: "'s \<Rightarrow> bool"
    and block_of :: "'s \<Rightarrow> nat"
    and enc :: "'s \<Rightarrow> u8 list \<Rightarrow> u8 list"
    and dec :: "'s \<Rightarrow> u8 list \<Rightarrow> u8 list"
  assumes enc_length: "usable s \<Longrightarrow> length b = block_of s \<Longrightarrow> length (enc s b) = block_of s"
    and dec_enc: "usable s \<Longrightarrow> length b = block_of s \<Longrightarrow> dec s (enc s b) = b"
begin

lemma ecb_undone:
  "usable s \<Longrightarrow> \<forall>p \<in> set ps. length p = block_of s \<Longrightarrow> map (dec s) (map (enc s) ps) = ps"
  by (induction ps) (simp_all add: dec_enc)

lemma cbc_undone:
  "usable s \<Longrightarrow> length c = block_of s \<Longrightarrow> \<forall>p \<in> set ps. length p = block_of s \<Longrightarrow>
   cbc_decrypt (dec s) c (cbc_encrypt (enc s) c ps) = ps"
  by (induction ps arbitrary: c) (simp_all add: dec_enc enc_length memory_std_xor_cancel)

lemma cfb_undone:
  "usable s \<Longrightarrow> length c = block_of s \<Longrightarrow> \<forall>p \<in> set ps. length p = block_of s \<Longrightarrow>
   cfb_decrypt (enc s) c (cfb_encrypt (enc s) c ps) = ps"
  by (induction ps arbitrary: c) (simp_all add: enc_length memory_std_xor_cancel)

lemma mode_undone:
  "usable s \<Longrightarrow> mode = mode_ecb \<or> length c = block_of s \<Longrightarrow> \<forall>p \<in> set ps. length p = block_of s \<Longrightarrow>
   mode_decrypt mode (enc s) (dec s) c (mode_encrypt mode (enc s) c ps) = ps"
  using ecb_undone [of s ps] by (auto simp: mode_encrypt_def mode_decrypt_def cbc_undone cfb_undone)

lemma cbc_lengths:
  assumes "usable s"
  shows "length c = block_of s \<Longrightarrow> \<forall>p \<in> set ps. length p = block_of s \<Longrightarrow>
   list_all (\<lambda>x. length x = block_of s) (cbc_encrypt (enc s) c ps)"
  by (induction ps arbitrary: c) (simp_all add: enc_length [OF assms])

lemma cfb_lengths:
  assumes "usable s"
  shows "length c = block_of s \<Longrightarrow> \<forall>p \<in> set ps. length p = block_of s \<Longrightarrow>
   list_all (\<lambda>x. length x = block_of s) (cfb_encrypt (enc s) c ps)"
  by (induction ps arbitrary: c) (simp_all add: enc_length [OF assms])

lemma ecb_lengths:
  assumes "usable s"
  shows "\<forall>p \<in> set ps. length p = block_of s \<Longrightarrow> list_all (\<lambda>x. length x = block_of s) (map (enc s) ps)"
  by (induction ps) (simp_all add: enc_length [OF assms])

lemma mode_lengths:
  assumes "usable s" "mode = mode_ecb \<or> length c = block_of s" "\<forall>p \<in> set ps. length p = block_of s"
  shows "list_all (\<lambda>x. length x = block_of s) (mode_encrypt mode (enc s) c ps)"
  unfolding mode_encrypt_def
  using assms(2) cbc_lengths [OF assms(1) _ assms(3), of c] cfb_lengths [OF assms(1) _ assms(3), of c]
    ecb_lengths [OF assms(1, 3)] by (auto simp del: list_all_length)

end

interpretation table_cipher:
  block_cipher session_ok rj_block_size "\<lambda>s b. cipher_table s b False" "\<lambda>s b. cipher_table s b True"
  by unfold_locales (simp_all add: cipher_table_length cipher_table_inverse)

section \<open>The block operations are the modes\<close>

lemma chain_table [simp]: "cipher_table (self\<lparr>rj_chain := c\<rparr>) = cipher_table self"
  by (rule cipher_table_cong) simp_all

lemma chain_session: "session_ok self \<Longrightarrow> length x = rj_block_size self \<Longrightarrow>
   session_ok (self\<lparr>rj_chain := write_at (rj_chain self) 0 x\<rparr>)"
  by (auto simp: session_ok_def size_ok_def)

lemma chain_next [simp]: "length x = n \<Longrightarrow> take n (write_at c 0 x) = x"
  by (simp add: write_at_def)

lemma encrypt_blocks_mode:
  assumes "\<And>ins. hw = Some ins \<Longrightarrow> aesni_documented ins"
  shows "session_ok self \<Longrightarrow> dec_keys_ok hw self \<Longrightarrow> \<forall>p \<in> set ps. length p = rj_block_size self \<Longrightarrow>
     encrypt_blocks hw self ps =
       mode_encrypt (rj_mode self) (\<lambda>b. cipher_table self b False) (take (rj_block_size self) (rj_chain self)) ps"
proof (induction ps arbitrary: self)
  case (Cons p ps)
  let ?bs = "rj_block_size self" and ?e = "\<lambda>b. cipher_table self b False"
  let ?c = "take ?bs (rj_chain self)"
  have l: "length p = ?bs" "length ?c = ?bs" using Cons.prems by (auto simp: session_ok_def size_ok_def)
  then have e: "length (?e (memory_std_xor p ?c)) = ?bs" "length (?e ?c) = ?bs"
    using Cons.prems by (simp_all add: cipher_table_length)
  have any: "cipher hw self b v = cipher_table self b v" if "length b = ?bs" for b v
    using Cons.prems assms that by (intro cipher_any_path) simp_all
  have tl: "encrypt_blocks hw (self\<lparr>rj_chain := write_at (rj_chain self) 0 x\<rparr>) ps =
      mode_encrypt (rj_mode self) ?e x ps" if "length x = ?bs" for x
    using Cons.IH [of "self\<lparr>rj_chain := write_at (rj_chain self) 0 x\<rparr>"] Cons.prems that by (simp add: chain_session)
  show ?case
    using Cons l e by (simp add: encrypt_block_def Let_def any tl mode_encrypt_def)
qed (simp add: mode_encrypt_def)

lemma decrypt_blocks_mode:
  assumes "\<And>ins. hw = Some ins \<Longrightarrow> aesni_documented ins"
  shows "session_ok self \<Longrightarrow> dec_keys_ok hw self \<Longrightarrow> \<forall>p \<in> set ps. length p = rj_block_size self \<Longrightarrow>
     decrypt_blocks hw self ps =
       mode_decrypt (rj_mode self) (\<lambda>b. cipher_table self b False) (\<lambda>b. cipher_table self b True)
         (take (rj_block_size self) (rj_chain self)) ps"
proof (induction ps arbitrary: self)
  case (Cons p ps)
  let ?bs = "rj_block_size self" and ?e = "\<lambda>b. cipher_table self b False" and ?d = "\<lambda>b. cipher_table self b True"
  let ?c = "take ?bs (rj_chain self)"
  have l: "length p = ?bs" "length ?c = ?bs" using Cons.prems by (auto simp: session_ok_def size_ok_def)
  have any: "cipher hw self b v = cipher_table self b v" if "length b = ?bs" for b v
    using Cons.prems assms that by (intro cipher_any_path) simp_all
  have tl: "decrypt_blocks hw (self\<lparr>rj_chain := write_at (rj_chain self) 0 p\<rparr>) ps = mode_decrypt (rj_mode self) ?e ?d p ps"
    using Cons.IH [of "self\<lparr>rj_chain := write_at (rj_chain self) 0 p\<rparr>"] Cons.prems l by (simp add: chain_session)
  show ?case
    using Cons l by (simp add: decrypt_block_def Let_def any tl mode_decrypt_def)
qed (simp add: mode_decrypt_def)

section \<open>Decryption undoes encryption\<close>

text \<open>
  C27: two sessions set up with the same key, chaining value, block size and mode, each with or without
  an AES-NI unit that behaves as documented and whatever they held before: the second decrypts every
  message of whole blocks that the first encrypted, in the ECB, CBC and CFB modes and for every pair of
  sizes that \<open>rijndael_init\<close> accepts.
\<close>

theorem rijndael_roundtrip:
  assumes "\<forall>ins. hw = Some ins \<or> hw' = Some ins \<longrightarrow> aesni_documented ins"
    and "rijndael_init hw self key chain block_size mode = (True, s)"
    and "rijndael_init hw' self' key chain block_size mode = (True, t)"
    and "\<forall>p \<in> set ps. length p = block_size"
  shows "decrypt_blocks hw' t (encrypt_blocks hw s ps) = ps"
proof -
  have a: "rijndael_accepts key chain block_size mode" and s: "s = session_of hw key chain block_size mode"
    and t: "t = session_of hw' key chain block_size mode"
    using assms(2, 3) by (simp_all add: init_cases split: if_splits)
  have "\<And>ins. hw = Some ins \<Longrightarrow> aesni_documented ins" "\<And>ins. hw' = Some ins \<Longrightarrow> aesni_documented ins"
    using assms(1) by simp_all
  note ok = session_of_ok [where hw = hw, OF a this(1), folded s] session_of_ok [where hw = hw', OF a this(2), folded t]
  have same: "cipher_table t = cipher_table s" unfolding s t by (rule session_of_table)
  have chain: "mode_encrypt mode e (take block_size (rj_chain s)) ps = mode_encrypt mode e (take block_size (rj_chain t)) ps" for e
    using ok by (cases "mode = mode_ecb") (simp_all add: mode_encrypt_def)
  let ?c = "take block_size (rj_chain t)" and ?e = "\<lambda>b. cipher_table t b False"
  have lc: "length ?c = rj_block_size t" using ok by (auto simp: session_ok_def size_ok_def)
  have enc: "encrypt_blocks hw s ps = mode_encrypt mode ?e ?c ps"
    using encrypt_blocks_mode [of hw s ps] ok assms(1, 4) chain by (simp add: same)
  have ps: "\<forall>p \<in> set ps. length p = rj_block_size t" using ok(9) assms(4) by simp
  have "\<forall>x \<in> set (mode_encrypt mode ?e ?c ps). length x = rj_block_size t"
    using table_cipher.mode_lengths [OF ok(6) disjI2 [OF lc] ps] unfolding list_all_iff by blast
  then have "decrypt_blocks hw' t (encrypt_blocks hw s ps) =
      mode_decrypt mode ?e (\<lambda>b. cipher_table t b True) ?c (mode_encrypt mode ?e ?c ps)"
    using decrypt_blocks_mode [of hw' t] ok assms(1) by (simp add: enc)
  also have "\<dots> = ps" by (rule table_cipher.mode_undone [OF ok(6) disjI2 [OF lc] ps])
  finally show ?thesis .
qed

theorem rijndael_roundtrip_witness:
  "decrypt_blocks None (session_of None (replicate 32 7) (Some (replicate 16 9)) 16 1)
     (encrypt_blocks (Some soft_aesni) (session_of (Some soft_aesni) (replicate 32 7) (Some (replicate 16 9)) 16 1)
        [replicate 16 1, replicate 16 2]) =
   [replicate 16 1, replicate 16 2]"
proof (rule rijndael_roundtrip [where key = "replicate 32 7" and chain = "Some (replicate 16 9)"])
  show "\<forall>ins. Some soft_aesni = Some ins \<or> None = Some ins \<longrightarrow> aesni_documented ins"
    by (simp add: soft_aesni_documented)
  show "rijndael_init (Some soft_aesni) undefined (replicate 32 7) (Some (replicate 16 9)) 16 1 =
      (True, session_of (Some soft_aesni) (replicate 32 7) (Some (replicate 16 9)) 16 1)"
    by (simp add: init_cases rijndael_accepts_def size_ok_def)
  show "rijndael_init None undefined (replicate 32 7) (Some (replicate 16 9)) 16 1 =
      (True, session_of None (replicate 32 7) (Some (replicate 16 9)) 16 1)"
    by (simp add: init_cases rijndael_accepts_def size_ok_def)
qed simp

end
