(* ===== verification/Sha.thy ===== *)
theory Sha
  imports Bits Hash
begin

text \<open>
  SHA-1, SHA-224, SHA-256, SHA-384 and SHA-512 (\<^verbatim>\<open>src/lh/core/crypto/sha.c\<close>): the hasher with its partial
  block and its 128-bit message length, the three compression functions, padding and the digest.
  Shown: a message fed in any pieces gives the digest of the padded message as FIPS 180-4 writes it, the
  partial block never overflows, and a finished hasher takes nothing more.
\<close>

section \<open>Kinds and constants\<close>

abbreviation (input) "kind_1 \<equiv> 0 :: u8"
abbreviation (input) "kind_224 \<equiv> 1 :: u8"
abbreviation (input) "kind_256 \<equiv> 2 :: u8"
abbreviation (input) "kind_384 \<equiv> 3 :: u8"
abbreviation (input) "kind_512 \<equiv> 4 :: u8"

definition m_k256 :: "u32 list" where
  "m_k256 = [
     0x428A2F98, 0x71374491, 0xB5C0FBCF, 0xE9B5DBA5, 0x3956C25B, 0x59F111F1, 0x923F82A4, 0xAB1C5ED5,
     0xD807AA98, 0x12835B01, 0x243185BE, 0x550C7DC3, 0x72BE5D74, 0x80DEB1FE, 0x9BDC06A7, 0xC19BF174,
     0xE49B69C1, 0xEFBE4786, 0x0FC19DC6, 0x240CA1CC, 0x2DE92C6F, 0x4A7484AA, 0x5CB0A9DC, 0x76F988DA,
     0x983E5152, 0xA831C66D, 0xB00327C8, 0xBF597FC7, 0xC6E00BF3, 0xD5A79147, 0x06CA6351, 0x14292967,
     0x27B70A85, 0x2E1B2138, 0x4D2C6DFC, 0x53380D13, 0x650A7354, 0x766A0ABB, 0x81C2C92E, 0x92722C85,
     0xA2BFE8A1, 0xA81A664B, 0xC24B8B70, 0xC76C51A3, 0xD192E819, 0xD6990624, 0xF40E3585, 0x106AA070,
     0x19A4C116, 0x1E376C08, 0x2748774C, 0x34B0BCB5, 0x391C0CB3, 0x4ED8AA4A, 0x5B9CCA4F, 0x682E6FF3,
     0x748F82EE, 0x78A5636F, 0x84C87814, 0x8CC70208, 0x90BEFFFA, 0xA4506CEB, 0xBEF9A3F7, 0xC67178F2]"

definition m_k512 :: "u64 list" where
  "m_k512 = [
     0x428A2F98D728AE22, 0x7137449123EF65CD, 0xB5C0FBCFEC4D3B2F, 0xE9B5DBA58189DBBC,
     0x3956C25BF348B538, 0x59F111F1B605D019, 0x923F82A4AF194F9B, 0xAB1C5ED5DA6D8118,
     0xD807AA98A3030242, 0x12835B0145706FBE, 0x243185BE4EE4B28C, 0x550C7DC3D5FFB4E2,
     0x72BE5D74F27B896F, 0x80DEB1FE3B1696B1, 0x9BDC06A725C71235, 0xC19BF174CF692694,
     0xE49B69C19EF14AD2, 0xEFBE4786384F25E3, 0x0FC19DC68B8CD5B5, 0x240CA1CC77AC9C65,
     0x2DE92C6F592B0275, 0x4A7484AA6EA6E483, 0x5CB0A9DCBD41FBD4, 0x76F988DA831153B5,
     0x983E5152EE66DFAB, 0xA831C66D2DB43210, 0xB00327C898FB213F, 0xBF597FC7BEEF0EE4,
     0xC6E00BF33DA88FC2, 0xD5A79147930AA725, 0x06CA6351E003826F, 0x142929670A0E6E70,
     0x27B70A8546D22FFC, 0x2E1B21385C26C926, 0x4D2C6DFC5AC42AED, 0x53380D139D95B3DF,
     0x650A73548BAF63DE, 0x766A0ABB3C77B2A8, 0x81C2C92E47EDAEE6, 0x92722C851482353B,
     0xA2BFE8A14CF10364, 0xA81A664BBC423001, 0xC24B8B70D0F89791, 0xC76C51A30654BE30,
     0xD192E819D6EF5218, 0xD69906245565A910, 0xF40E35855771202A, 0x106AA07032BBD1B8,
     0x19A4C116B8D2D0C8, 0x1E376C085141AB53, 0x2748774CDF8EEB99, 0x34B0BCB5E19B48A8,
     0x391C0CB3C5C95A63, 0x4ED8AA4AE3418ACB, 0x5B9CCA4F7763E373, 0x682E6FF3D6B2B8A3,
     0x748F82EE5DEFB2FC, 0x78A5636F43172F60, 0x84C87814A1F0AB72, 0x8CC702081A6439EC,
     0x90BEFFFA23631E28, 0xA4506CEBDE82BDE9, 0xBEF9A3F7B2C67915, 0xC67178F2E372532B,
     0xCA273ECEEA26619C, 0xD186B8C721C0C207, 0xEADA7DD6CDE0EB1E, 0xF57D4F7FEE6ED178,
     0x06F067AA72176FBA, 0x0A637DC5A2C898A6, 0x113F9804BEF90DAE, 0x1B710B35131C471B,
     0x28DB77F523047D84, 0x32CAAB7B40C72493, 0x3C9EBE0A15C9BEBC, 0x431D67C49C100D4C,
     0x4CC5D4BECB3E42B6, 0x597F299CFC657E2A, 0x5FCB6FAB3AD6FAEC, 0x6C44198C4A475817]"

definition kind_is_wide :: "u8 \<Rightarrow> bool" where
  "kind_is_wide kind \<longleftrightarrow> kind = kind_384 \<or> kind = kind_512"

definition digest_size :: "u8 \<Rightarrow> nat" where
  "digest_size kind =
     (if kind = kind_1 then 20 else if kind = kind_224 then 28 else if kind = kind_256 then 32
      else if kind = kind_384 then 48 else if kind = kind_512 then 64 else 0)"

definition sha_block_size :: "u8 \<Rightarrow> nat" where
  "sha_block_size kind =
     (if digest_size kind = 0 then 0 else if kind_is_wide kind then 128 else 64)"

section \<open>The hasher\<close>

record sha =
  sh_kind :: u8
  sh_finished :: bool
  sh_state :: "u64 list"
  sh_bit_count_lo :: u64
  sh_bit_count_hi :: u64
  sh_block :: "u8 list"
  sh_block_fill :: nat

definition add_bits :: "sha \<Rightarrow> nat \<Rightarrow> sha" where
  "add_bits self byte_count =
     (let bits = push_bit 3 (word_of_nat byte_count);
          lo = sh_bit_count_lo self + bits;
          self = (if lo < sh_bit_count_lo self
                  then self\<lparr>sh_bit_count_hi := sh_bit_count_hi self + 1\<rparr> else self);
          self = self\<lparr>sh_bit_count_lo := lo\<rparr>
      in self\<lparr>sh_bit_count_hi := sh_bit_count_hi self + drop_bit 61 (word_of_nat byte_count)\<rparr>)"

definition initial_state :: "u8 \<Rightarrow> u64 list \<Rightarrow> u64 list" where
  "initial_state kind state =
     (if kind = kind_1 then
         [0x67452301, 0xEFCDAB89, 0x98BADCFE, 0x10325476,
          0xC3D2E1F0, 0, 0, 0]
      else if kind = kind_224 then
         [0xC1059ED8, 0x367CD507, 0x3070DD17, 0xF70E5939,
          0xFFC00B31, 0x68581511, 0x64F98FA7, 0xBEFA4FA4]
      else if kind = kind_256 then
         [0x6A09E667, 0xBB67AE85, 0x3C6EF372, 0xA54FF53A,
          0x510E527F, 0x9B05688C, 0x1F83D9AB, 0x5BE0CD19]
      else if kind = kind_384 then
         [0xCBBB9D5DC1059ED8, 0x629A292A367CD507, 0x9159015A3070DD17, 0x152FECD8F70E5939,
          0x67332667FFC00B31, 0x8EB44A8768581511, 0xDB0C2E0D64F98FA7, 0x47B5481DBEFA4FA4]
      else if kind = kind_512 then
         [0x6A09E667F3BCC908, 0xBB67AE8584CAA73B, 0x3C6EF372FE94F82B, 0xA54FF53A5F1D36F1,
          0x510E527FADE682D1, 0x9B05688C2B3E6C1F, 0x1F83D9ABFB41BD6B, 0x5BE0CD19137E2179]
      else state)"

definition sha_init :: "sha \<Rightarrow> u8 \<Rightarrow> error_code + sha" where
  "sha_init self kind =
     (if digest_size kind = 0 then Inl Invalid_argument
      else Inr (self\<lparr>sh_kind := kind, sh_finished := False, sh_bit_count_lo := 0, sh_bit_count_hi := 0,
                     sh_block_fill := 0, sh_block := replicate 128 0,
                     sh_state := initial_state kind (sh_state self)\<rparr>))"

definition add_state_word :: "nat \<Rightarrow> u64 \<Rightarrow> u64 list \<Rightarrow> u64 list" where
  "add_state_word index w state = state[index := state ! index + w]"

definition add_state_word_32 :: "nat \<Rightarrow> u32 \<Rightarrow> u64 list \<Rightarrow> u64 list" where
  "add_state_word_32 index w state = state[index := ucast (ucast (state ! index) + w :: u32)]"

definition put_digest :: "sha \<Rightarrow> u8 list" where
  "put_digest self =
     (let kind = sh_kind self; n = digest_size kind
      in if kind_is_wide kind then concat (map (\<lambda>i. pack_be64 (sh_state self ! i)) [0..<n div 8])
         else concat (map (\<lambda>i. pack_be32 (ucast (sh_state self ! i))) [0..<n div 4]))"

section \<open>Compression\<close>

text \<open>A loop that computes the words of the schedule after the sixteen of the block.\<close>

fun extend_words :: "nat \<Rightarrow> ('a list \<Rightarrow> 'a) \<Rightarrow> 'a list \<Rightarrow> 'a list" where
  "extend_words 0 f w = w"
| "extend_words (Suc n) f w = extend_words n f (w @ [f w])"

definition schedule_1 :: "u32 list \<Rightarrow> u32" where
  "schedule_1 w =
     (let i = length w
      in rotate_left_u32 (w ! (i - 3) XOR w ! (i - 8) XOR w ! (i - 14) XOR w ! (i - 16)) 1)"

definition round_1 :: "u32 list \<Rightarrow> nat \<Rightarrow> u32 \<times> u32 \<times> u32 \<times> u32 \<times> u32 \<Rightarrow> u32 \<times> u32 \<times> u32 \<times> u32 \<times> u32" where
  "round_1 w i = (\<lambda>(a, b, c, d, e).
     (let (f, k) =
            (if i < 20 then ((b AND c) OR (NOT b AND d), 0x5A827999)
             else if i < 40 then (b XOR c XOR d, 0x6ED9EBA1)
             else if i < 60 then ((b AND c) OR (b AND d) OR (c AND d), 0x8F1BBCDC)
             else (b XOR c XOR d, 0xCA62C1D6));
          temp = rotate_left_u32 a 5 + f + e + k + w ! i
      in (temp, a, rotate_left_u32 b 30, c, d)))"

definition process_1 :: "u64 list \<Rightarrow> u8 list \<Rightarrow> u64 list" where
  "process_1 state block =
     (let w = extend_words 64 schedule_1 (map (\<lambda>i. unpack_be32 (slice (i * 4) 4 block)) [0..<16]);
          (a, b, c, d, e) =
            fold (round_1 w) [0..<80]
              (ucast (state ! 0), ucast (state ! 1), ucast (state ! 2), ucast (state ! 3), ucast (state ! 4));
          state = add_state_word_32 0 a state;
          state = add_state_word_32 1 b state;
          state = add_state_word_32 2 c state;
          state = add_state_word_32 3 d state
      in add_state_word_32 4 e state)"

definition schedule_256 :: "u32 list \<Rightarrow> u32" where
  "schedule_256 w =
     (let i = length w;
          s0 = rotate_right_u32 (w ! (i - 15)) 7 XOR rotate_right_u32 (w ! (i - 15)) 18 XOR drop_bit 3 (w ! (i - 15));
          s1 = rotate_right_u32 (w ! (i - 2)) 17 XOR rotate_right_u32 (w ! (i - 2)) 19 XOR drop_bit 10 (w ! (i - 2))
      in w ! (i - 16) + s0 + w ! (i - 7) + s1)"

type_synonym 'a working = "'a \<times> 'a \<times> 'a \<times> 'a \<times> 'a \<times> 'a \<times> 'a \<times> 'a"

definition round_256 :: "u32 list \<Rightarrow> nat \<Rightarrow> u32 working \<Rightarrow> u32 working" where
  "round_256 w i = (\<lambda>(a, b, c, d, e, f, g, h).
     (let s1 = rotate_right_u32 e 6 XOR rotate_right_u32 e 11 XOR rotate_right_u32 e 25;
          ch = (e AND f) XOR (NOT e AND g);
          temp1 = h + s1 + ch + m_k256 ! i + w ! i;
          s0 = rotate_right_u32 a 2 XOR rotate_right_u32 a 13 XOR rotate_right_u32 a 22;
          maj = (a AND b) XOR (a AND c) XOR (b AND c);
          temp2 = s0 + maj
      in (temp1 + temp2, a, b, c, d + temp1, e, f, g)))"

definition process_256 :: "u64 list \<Rightarrow> u8 list \<Rightarrow> u64 list" where
  "process_256 state block =
     (let w = extend_words 48 schedule_256 (map (\<lambda>i. unpack_be32 (slice (i * 4) 4 block)) [0..<16]);
          (a, b, c, d, e, f, g, h) =
            fold (round_256 w) [0..<64]
              (ucast (state ! 0), ucast (state ! 1), ucast (state ! 2), ucast (state ! 3),
               ucast (state ! 4), ucast (state ! 5), ucast (state ! 6), ucast (state ! 7));
          state = add_state_word_32 0 a state;
          state = add_state_word_32 1 b state;
          state = add_state_word_32 2 c state;
          state = add_state_word_32 3 d state;
          state = add_state_word_32 4 e state;
          state = add_state_word_32 5 f state;
          state = add_state_word_32 6 g state
      in add_state_word_32 7 h state)"

definition schedule_512 :: "u64 list \<Rightarrow> u64" where
  "schedule_512 w =
     (let i = length w;
          s0 = rotate_right_u64 (w ! (i - 15)) 1 XOR rotate_right_u64 (w ! (i - 15)) 8 XOR drop_bit 7 (w ! (i - 15));
          s1 = rotate_right_u64 (w ! (i - 2)) 19 XOR rotate_right_u64 (w ! (i - 2)) 61 XOR drop_bit 6 (w ! (i - 2))
      in w ! (i - 16) + s0 + w ! (i - 7) + s1)"

definition round_512 :: "u64 list \<Rightarrow> nat \<Rightarrow> u64 working \<Rightarrow> u64 working" where
  "round_512 w i = (\<lambda>(a, b, c, d, e, f, g, h).
     (let s1 = rotate_right_u64 e 14 XOR rotate_right_u64 e 18 XOR rotate_right_u64 e 41;
          ch = (e AND f) XOR (NOT e AND g);
          temp1 = h + s1 + ch + m_k512 ! i + w ! i;
          s0 = rotate_right_u64 a 28 XOR rotate_right_u64 a 34 XOR rotate_right_u64 a 39;
          maj = (a AND b) XOR (a AND c) XOR (b AND c);
          temp2 = s0 + maj
      in (temp1 + temp2, a, b, c, d + temp1, e, f, g)))"

definition process_512 :: "u64 list \<Rightarrow> u8 list \<Rightarrow> u64 list" where
  "process_512 state block =
     (let w = extend_words 64 schedule_512 (map (\<lambda>i. unpack_be64 (slice (i * 8) 8 block)) [0..<16]);
          (a, b, c, d, e, f, g, h) =
            fold (round_512 w) [0..<80]
              (state ! 0, state ! 1, state ! 2, state ! 3, state ! 4, state ! 5, state ! 6, state ! 7);
          state = add_state_word 0 a state;
          state = add_state_word 1 b state;
          state = add_state_word 2 c state;
          state = add_state_word 3 d state;
          state = add_state_word 4 e state;
          state = add_state_word 5 f state;
          state = add_state_word 6 g state
      in add_state_word 7 h state)"

definition process_kind :: "u8 \<Rightarrow> u64 list \<Rightarrow> u8 list \<Rightarrow> u64 list" where
  "process_kind kind state block =
     (if kind = kind_1 then process_1 state block
      else if kind_is_wide kind then process_512 state block
      else process_256 state block)"

definition sha_process :: "sha \<Rightarrow> u8 list \<Rightarrow> sha" where
  "sha_process self block = self\<lparr>sh_state := process_kind (sh_kind self) (sh_state self) block\<rparr>"

section \<open>Feeding and finishing\<close>

definition fill_block :: "sha \<Rightarrow> u8 list \<Rightarrow> sha" where
  "fill_block self bytes =
     self\<lparr>sh_block := write_at (sh_block self) (sh_block_fill self) bytes,
          sh_block_fill := sh_block_fill self + length bytes\<rparr>"

definition zero_block_to :: "sha \<Rightarrow> nat \<Rightarrow> sha" where
  "zero_block_to self to =
     self\<lparr>sh_block := write_at (sh_block self) (sh_block_fill self) (replicate (to - sh_block_fill self) 0)\<rparr>"

text \<open>The loop over whole blocks of the input; it returns the bytes that are left.\<close>

function process_blocks :: "sha \<Rightarrow> nat \<Rightarrow> u8 list \<Rightarrow> sha \<times> u8 list" where
  "process_blocks self block_size bytes =
     (if 0 < block_size \<and> block_size \<le> length bytes
      then process_blocks (sha_process self (take block_size bytes)) block_size (drop block_size bytes)
      else (self, bytes))"
  by auto
termination by (relation "measure (\<lambda>(_, _, bs). length bs)") auto

definition top_up_block :: "sha \<Rightarrow> nat \<Rightarrow> u8 list \<Rightarrow> sha \<times> u8 list" where
  "top_up_block self block_size bytes =
     (if sh_block_fill self \<noteq> 0 then
        (let room = block_size - sh_block_fill self;
             n = (if length bytes < room then length bytes else room);
             self = fill_block self (take n bytes)
         in (if sh_block_fill self = block_size
             then (sha_process self (take block_size (sh_block self)))\<lparr>sh_block_fill := 0\<rparr> else self,
             drop n bytes))
      else (self, bytes))"

definition sha_update :: "sha \<Rightarrow> u8 list \<Rightarrow> error_code + sha" where
  "sha_update self data =
     (if sh_finished self then Inl Invalid_argument
      else if length data = 0 then Inr self
      else
        (let block_size = sha_block_size (sh_kind self);
             self = add_bits self (length data);
             (self, bytes) = top_up_block self block_size data;
             (self, bytes) = process_blocks self block_size bytes
         in Inr (if length bytes \<noteq> 0 then fill_block self bytes else self)))"

text \<open>
  The two halves of the padding: a block without room for the length ends in zeros and is folded in; the
  last block gets zeros up to the length, the length, and is folded in.
\<close>

definition close_block :: "sha \<Rightarrow> sha" where
  "close_block self =
     (let block_size = sha_block_size (sh_kind self);
          self = zero_block_to self block_size
      in (sha_process self (take block_size (sh_block self)))\<lparr>sh_block_fill := 0\<rparr>)"

definition last_block :: "sha \<Rightarrow> sha" where
  "last_block self =
     (let kind = sh_kind self;
          block_size = sha_block_size kind;
          length_size = (if kind_is_wide kind then 16 else 8);
          self = zero_block_to self (block_size - length_size);
          self = (if kind_is_wide kind
                  then self\<lparr>sh_block := write_at (sh_block self) (block_size - 16) (pack_be64 (sh_bit_count_hi self))\<rparr>
                  else self);
          self = self\<lparr>sh_block := write_at (sh_block self) (block_size - 8) (pack_be64 (sh_bit_count_lo self))\<rparr>
      in sha_process self (take block_size (sh_block self)))"

definition sha_pad :: "sha \<Rightarrow> sha" where
  "sha_pad self =
     (let kind = sh_kind self;
          block_size = sha_block_size kind;
          length_size = (if kind_is_wide kind then 16 else 8);
          self = fill_block self [0x80];
          self = (if block_size - length_size < sh_block_fill self then close_block self else self)
      in last_block self)"

text \<open>The bytes written to the output beside the hasher; none when the output is too small.\<close>

definition sha_finish :: "sha \<Rightarrow> nat \<Rightarrow> error_code + sha \<times> u8 list" where
  "sha_finish self out_size =
     (if sh_finished self then Inl Invalid_argument
      else if out_size < digest_size (sh_kind self) then Inr (self, [])
      else (let self = (sha_pad self)\<lparr>sh_finished := True\<rparr> in Inr (self, put_digest self)))"

definition sha_hash :: "sha \<Rightarrow> u8 \<Rightarrow> u8 list \<Rightarrow> nat \<Rightarrow> error_code + u8 list" where
  "sha_hash hasher kind data out_size =
     (if digest_size kind = 0 then Inr []
      else bind_result (sha_init hasher kind) (\<lambda>self.
           bind_result (sha_update self data) (\<lambda>self.
           bind_result (sha_finish self out_size) (\<lambda>(self, out). Inr out))))"

section \<open>Reference: the padded message, block by block\<close>

text \<open>
  Folding the whole blocks of a message into a chaining value; the bytes after the last whole block
  are returned. FIPS 180-4 pads the message to whole blocks and takes the chaining value.
\<close>

function fold_blocks :: "('s \<Rightarrow> u8 list \<Rightarrow> 's) \<Rightarrow> nat \<Rightarrow> 's \<Rightarrow> u8 list \<Rightarrow> 's \<times> u8 list" where
  "fold_blocks f n st m =
     (if 0 < n \<and> n \<le> length m then fold_blocks f n (f st (take n m)) (drop n m) else (st, m))"
  by auto
termination by (relation "measure (\<lambda>(_, _, _, m). length m)") auto

declare fold_blocks.simps [simp del] process_blocks.simps [simp del]

definition length_field :: "u8 \<Rightarrow> nat \<Rightarrow> u8 list" where
  "length_field kind n =
     (if kind_is_wide kind then pack_be64 (word_of_nat (8 * n div 2 ^ 64)) else []) @ pack_be64 (word_of_nat (8 * n))"

definition sha_padding :: "u8 \<Rightarrow> nat \<Rightarrow> u8 list" where
  "sha_padding kind n =
     (let bs = sha_block_size kind; k = n + 1 + length (length_field kind n)
      in 0x80 # replicate ((bs - k mod bs) mod bs) 0 @ length_field kind n)"

definition encode_state :: "u8 \<Rightarrow> u64 list \<Rightarrow> u8 list" where
  "encode_state kind st =
     (if kind_is_wide kind then concat (map pack_be64 (take (digest_size kind div 8) st))
      else concat (map (\<lambda>w. pack_be32 (ucast w)) (take (digest_size kind div 4) st)))"

definition sha_digest :: "u8 \<Rightarrow> u8 list \<Rightarrow> u8 list" where
  "sha_digest kind m =
     encode_state kind (fst (fold_blocks (process_kind kind) (sha_block_size kind) (initial_state kind [])
       (m @ sha_padding kind (length m))))"

lemma fold_blocks_short [simp]: "length m < n \<Longrightarrow> fold_blocks f n st m = (st, m)"
  by (subst fold_blocks.simps) simp

lemma fold_blocks_step:
  "0 < n \<Longrightarrow> length b = n \<Longrightarrow> fold_blocks f n st (b @ m) = fold_blocks f n (f st b) m"
  by (subst fold_blocks.simps) simp

lemma fold_blocks_append:
  "0 < n \<Longrightarrow> fold_blocks f n st (m @ d) = (case fold_blocks f n st m of (st', r) \<Rightarrow> fold_blocks f n st' (r @ d))"
proof (induction f n st m rule: fold_blocks.induct)
  case (1 f n st m)
  show ?case
  proof (cases "n \<le> length m")
    case True
    have "fold_blocks f n st (m @ d) = fold_blocks f n (f st (take n m)) (drop n m @ d)"
      using 1 True by (subst fold_blocks.simps) simp
    moreover have "fold_blocks f n st m = fold_blocks f n (f st (take n m)) (drop n m)"
      using 1 True by (subst fold_blocks.simps) simp
    ultimately show ?thesis using 1 True by simp
  qed simp
qed

lemma fold_blocks_rest:
  "0 < n \<Longrightarrow> length (snd (fold_blocks f n st m)) = length m mod n"
proof (induction f n st m rule: fold_blocks.induct)
  case (1 f n st m)
  then show ?case
    by (cases "n \<le> length m") (subst fold_blocks.simps, simp add: le_mod_geq)+
qed

lemma process_blocks_fold:
  "0 < n \<Longrightarrow> process_blocks self n m =
     (case fold_blocks (process_kind (sh_kind self)) n (sh_state self) m of (st, r) \<Rightarrow> (self\<lparr>sh_state := st\<rparr>, r))"
proof (induction self n m rule: process_blocks.induct)
  case (1 self n m)
  then show ?case
    by (subst process_blocks.simps, subst fold_blocks.simps) (simp add: sha_process_def)
qed

section \<open>The length of the message\<close>

lemma div_add_carry:
  fixes a b n :: nat
  assumes "0 < n"
  shows "(a + b) div n = a div n + b div n + (if n \<le> a mod n + b mod n then 1 else 0)"
proof -
  have "a mod n + b mod n < 2 * n" using assms mod_less_divisor [of n a] mod_less_divisor [of n b] by linarith
  then have "(a mod n + b mod n) div n = (if n \<le> a mod n + b mod n then 1 else 0)"
    using assms by (simp add: le_div_geq)
  then show ?thesis by (simp add: div_add1_eq [of a b n])
qed

lemma wrapped_sum_less:
  fixes x y :: u64
  shows "x + y < x \<longleftrightarrow> 2 ^ 64 \<le> unat x + unat y"
proof -
  have "unat x < 2 ^ 64" "unat y < 2 ^ 64" using unsigned_less [of x] unsigned_less [of y] by simp_all
  then show ?thesis
    by (cases "unat x + unat y < 2 ^ 64") (simp_all add: word_less_nat_alt unat_word_ariths le_mod_geq)
qed

definition counted :: "sha \<Rightarrow> nat \<Rightarrow> bool" where
  "counted self n \<longleftrightarrow>
     sh_bit_count_lo self = word_of_nat (8 * n) \<and> sh_bit_count_hi self = word_of_nat (8 * n div 2 ^ 64)"

text \<open>The two words of the length are the bits of the message modulo \<open>2 ^ 128\<close>.\<close>

lemma add_bits_counted:
  assumes "counted self n" "k < 2 ^ 64"
  shows "counted (add_bits self k) (n + k)"
proof -
  have p: "push_bit 3 (word_of_nat k) = (8 * word_of_nat k :: u64)" by (simp add: push_bit_eq_mult)
  have q: "drop_bit 61 (word_of_nat k :: u64) = word_of_nat (8 * k div 2 ^ 64)"
  proof (rule word_unat_eq_iff [THEN iffD2])
    have "8 * k div 2 ^ 64 = k div 2 ^ 61" by (simp add: div_mult2_eq [of k 1 1, simplified] flip: div_mult_mult1 [of 8 k "2 ^ 61"])
    moreover have "k div 2 ^ 61 < 2 ^ 64" using assms(2) by (simp add: less_mult_imp_div_less)
    ultimately show "unat (drop_bit 61 (word_of_nat k :: u64)) = unat (word_of_nat (8 * k div 2 ^ 64) :: u64)"
      using assms(2) by (simp add: unsigned_drop_bit_eq drop_bit_eq_div unat_of_nat unat_div)
  qed
  have c: "word_of_nat (8 * n) + push_bit 3 (word_of_nat k) < (word_of_nat (8 * n) :: u64) \<longleftrightarrow>
      2 ^ 64 \<le> (8 * n) mod 2 ^ 64 + (8 * k) mod 2 ^ 64"
  proof -
    have u: "unat (word_of_nat m :: u64) = m mod 2 ^ 64" for m by (simp add: unat_of_nat)
    have "push_bit 3 (word_of_nat k) = (word_of_nat (8 * k) :: u64)" by (simp add: p)
    then show ?thesis unfolding wrapped_sum_less by (simp only: u)
  qed
  have hi: "(8 * (n + k)) div 2 ^ 64 = 8 * n div 2 ^ 64 + 8 * k div 2 ^ 64 +
      (if 2 ^ 64 \<le> (8 * n) mod 2 ^ 64 + (8 * k) mod 2 ^ 64 then 1 else 0)"
    unfolding add_mult_distrib2 by (rule div_add_carry) simp
  show ?thesis
    unfolding counted_def hi
    using assms(1) c q by (simp add: add_bits_def counted_def Let_def p algebra_simps)
qed

section \<open>The partial block\<close>

text \<open>\<open>holds self r\<close>: the bytes waiting for a whole block are \<open>r\<close>.\<close>

definition holds :: "sha \<Rightarrow> u8 list \<Rightarrow> bool" where
  "holds self r \<longleftrightarrow>
     length (sh_block self) = 128 \<and> sh_block_fill self = length r \<and> take (length r) (sh_block self) = r"

lemma fill_block_holds:
  assumes "holds self r" "length r + length b \<le> 128"
  shows "holds (fill_block self b) (r @ b)"
  using assms by (simp add: holds_def fill_block_def write_at_def)

lemma fill_block_frame [simp]:
  "sh_kind (fill_block self b) = sh_kind self" "sh_state (fill_block self b) = sh_state self"
  "sh_finished (fill_block self b) = sh_finished self" "counted (fill_block self b) n = counted self n"
  by (simp_all add: fill_block_def counted_def)

lemma holds_frame [simp]:
  "holds (self\<lparr>sh_state := st\<rparr>) r = holds self r"
  "holds (self\<lparr>sh_block_fill := 0\<rparr>) [] \<longleftrightarrow> length (sh_block self) = 128"
  by (simp_all add: holds_def)

lemma counted_frame [simp]:
  "counted (self\<lparr>sh_state := st\<rparr>) n = counted self n"
  "counted (self\<lparr>sh_block_fill := f\<rparr>) n = counted self n"
  "counted (self\<lparr>sh_block := b\<rparr>) n = counted self n"
  by (simp_all add: counted_def)

lemma add_bits_frame [simp]:
  "sh_kind (add_bits self n) = sh_kind self" "sh_state (add_bits self n) = sh_state self"
  "sh_finished (add_bits self n) = sh_finished self" "sh_block (add_bits self n) = sh_block self"
  "sh_block_fill (add_bits self n) = sh_block_fill self"
  by (simp_all add: add_bits_def Let_def)

lemma holds_add_bits [simp]: "holds (add_bits self n) r = holds self r"
  by (simp add: holds_def)

lemma holdsD:
  assumes "holds self r"
  shows "sh_block_fill self = length r" "length (sh_block self) = 128" "length r = n \<Longrightarrow> take n (sh_block self) = r"
  using assms by (auto simp: holds_def)

text \<open>
  \<open>absorbed self m\<close>: the hasher has taken in exactly the message \<open>m\<close>: the whole blocks are folded into the
  chaining value, the rest waits in the block, and the length is counted.
\<close>

definition absorbed :: "sha \<Rightarrow> u8 list \<Rightarrow> bool" where
  "absorbed self m \<longleftrightarrow>
     digest_size (sh_kind self) \<noteq> 0 \<and> \<not> sh_finished self \<and> counted self (length m) \<and>
     (case fold_blocks (process_kind (sh_kind self)) (sha_block_size (sh_kind self))
             (initial_state (sh_kind self) []) m of
        (st, r) \<Rightarrow> sh_state self = st \<and> holds self r)"

lemma sha_block_size_bounds:
  "digest_size kind \<noteq> 0 \<Longrightarrow> 64 \<le> sha_block_size kind \<and> sha_block_size kind \<le> 128"
  by (simp add: sha_block_size_def)

lemma sha_init_absorbed:
  assumes "digest_size kind \<noteq> 0"
  shows "\<exists>s. sha_init self kind = Inr s \<and> sh_kind s = kind \<and> absorbed s []"
proof -
  have "initial_state kind st = initial_state kind []" for st
    using assms by (auto simp: initial_state_def digest_size_def split: if_splits)
  then show ?thesis
    using assms sha_block_size_bounds [OF assms]
    by (simp add: sha_init_def absorbed_def holds_def counted_def)
qed

text \<open>With an empty block, the loop and the final copy take in all of the data.\<close>

lemma feed_empty_block:
  assumes "0 < n" "n \<le> 128" "holds self []"
    and "fold_blocks (process_kind (sh_kind self)) n (sh_state self) d = (st, r)"
  defines "res \<equiv> (case process_blocks self n d of (s, bytes) \<Rightarrow> if length bytes \<noteq> 0 then fill_block s bytes else s)"
  shows "sh_state res = st" "holds res r" "sh_kind res = sh_kind self" "sh_finished res = sh_finished self"
    "counted res k = counted self k"
proof -
  have "length r < n" using assms(1, 4) fold_blocks_rest [of n "process_kind (sh_kind self)" "sh_state self" d] by simp
  then have "holds (fill_block (self\<lparr>sh_state := st\<rparr>) r) r"
    using fill_block_holds [of "self\<lparr>sh_state := st\<rparr>" "[]" r] assms(2, 3) by simp
  moreover have "res = (if r \<noteq> [] then fill_block (self\<lparr>sh_state := st\<rparr>) r else self\<lparr>sh_state := st\<rparr>)"
    using assms(1, 4) by (simp add: res_def process_blocks_fold)
  ultimately show "sh_state res = st" "holds res r" "sh_kind res = sh_kind self" "sh_finished res = sh_finished self"
    "counted res k = counted self k"
    using assms(3) by simp_all
qed

lemma sha_update_absorbed:
  assumes "absorbed self m" "length d < 2 ^ 64"
  shows "\<exists>s. sha_update self d = Inr s \<and> sh_kind s = sh_kind self \<and> absorbed s (m @ d)"
proof (cases "d = []")
  case False
  let ?k = "sh_kind self" let ?n = "sha_block_size ?k" let ?f = "process_kind ?k"
  obtain st r where fb: "fold_blocks ?f ?n (initial_state ?k []) m = (st, r)" by fastforce
  have n: "0 < ?n" "?n \<le> 128" using assms(1) sha_block_size_bounds by (fastforce simp: absorbed_def)+
  have r: "length r < ?n" using fold_blocks_rest [OF n(1), of ?f "initial_state ?k []" m] fb n by simp
  have st: "sh_state self = st" "holds self r" and ok: "digest_size ?k \<noteq> 0" "\<not> sh_finished self"
    using assms(1) fb by (simp_all add: absorbed_def)
  let ?a = "add_bits self (length d)"
  have "counted self (length m)" using assms(1) by (simp add: absorbed_def)
  then have "counted ?a (length (m @ d))" unfolding length_append using assms(2) by (rule add_bits_counted)
  then have a: "sh_state ?a = st" "holds ?a r" "counted ?a (length (m @ d))"
    using st by simp_all
  obtain st' r' where fb': "fold_blocks ?f ?n st (r @ d) = (st', r')" by fastforce
  have all: "fold_blocks ?f ?n (initial_state ?k []) (m @ d) = (st', r')"
    using fb' by (subst fold_blocks_append [OF n(1)]) (simp add: fb)
  let ?res = "\<lambda>p. case p of (s, bytes) \<Rightarrow> case process_blocks s ?n bytes of (s, bytes) \<Rightarrow>
      if length bytes \<noteq> 0 then fill_block s bytes else s"
  have upd: "sha_update self d = Inr (?res (top_up_block ?a ?n d))"
    using ok False by (simp add: sha_update_def Let_def split: prod.split)
  have goal: ?thesis if "sh_state s = st'" "holds s r'" "sh_kind s = ?k" "\<not> sh_finished s" "counted s (length (m @ d))"
    "?res (top_up_block ?a ?n d) = s" for s
    using that all ok upd by (auto simp: absorbed_def)
  consider "r = []" | "r \<noteq> []" "length d < ?n - length r" | "r \<noteq> []" "?n - length r \<le> length d" by linarith
  then show ?thesis
  proof cases
    case 1
    then have "top_up_block ?a ?n d = (?a, d)" using holdsD(1) [OF a(2)] by (simp add: top_up_block_def)
    then show ?thesis
      using feed_empty_block [of ?n ?a d st' r'] goal n a 1 fb' ok by simp
  next
    case 2
    then have l: "length (r @ d) < ?n" by simp
    then have top: "top_up_block ?a ?n d = (fill_block ?a d, [])"
      using holdsD(1) [OF a(2)] 2 by (simp add: top_up_block_def fill_block_def Let_def)
    have "process_blocks (fill_block ?a d) ?n [] = (fill_block ?a d, [])"
      using n by (subst process_blocks.simps) simp
    then have "?res (top_up_block ?a ?n d) = fill_block ?a d" by (simp add: top)
    moreover have "st' = st" "r' = r @ d" using fb' l by simp_all
    moreover have "holds (fill_block ?a d) (r @ d)" using fill_block_holds [OF a(2), of d] l n by simp
    ultimately show ?thesis using goal [of "fill_block ?a d"] a ok by simp
  next
    case 3
    let ?b = "take (?n - length r) d" and ?e = "drop (?n - length r) d"
    let ?s = "(sha_process (fill_block ?a ?b) (take ?n (sh_block (fill_block ?a ?b))))\<lparr>sh_block_fill := 0\<rparr>"
    have h: "holds (fill_block ?a ?b) (r @ ?b)" using fill_block_holds [OF a(2), of ?b] 3 r n by simp
    have lb: "length (r @ ?b) = ?n" using 3 r by simp
    then have blk: "take ?n (sh_block (fill_block ?a ?b)) = r @ ?b" by (rule holdsD(3) [OF h])
    have top: "top_up_block ?a ?n d = (?s, ?e)"
      using holdsD(1) [OF a(2)] holdsD(1) [OF h] 3 r lb by (simp add: top_up_block_def Let_def)
    have "fold_blocks ?f ?n st (r @ d) = fold_blocks ?f ?n (?f st (r @ ?b)) ?e"
      using fold_blocks_step [OF n(1) lb, of ?f st ?e] by simp
    then have "fold_blocks ?f ?n (sh_state ?s) ?e = (st', r')" using fb' a blk by (simp add: sha_process_def)
    moreover have "holds ?s []" "sh_kind ?s = ?k" "\<not> sh_finished ?s" "counted ?s (length (m @ d))"
      using holdsD(2) [OF h] a ok by (simp_all add: sha_process_def)
    ultimately show ?thesis using feed_empty_block [of ?n ?s ?e st' r'] goal n top by simp
  qed
qed (use assms in \<open>simp add: sha_update_def absorbed_def\<close>)

section \<open>Padding\<close>

lemma length_field_length: "length (length_field k n) = (if kind_is_wide k then 16 else 8)"
  by (simp add: length_field_def)

lemma sha_pad_eq:
  "sha_pad self =
     (let s = fill_block self [0x80]
      in last_block (if sha_block_size (sh_kind self) - length (length_field (sh_kind self) n) < sh_block_fill s
                     then close_block s else s))"
  by (simp add: sha_pad_def Let_def length_field_length)

lemma write_at_take:
  assumes "take (length q) b = q" "length q + length x \<le> length b"
  shows "take (length q + length x) (write_at b (length q) x) = q @ x"
  using assms by (simp add: write_at_def)

lemma zero_block_holds:
  assumes "holds self q" "length q \<le> n" "n \<le> 128"
  shows "take n (sh_block (zero_block_to self n)) = q @ replicate (n - length q) 0"
    "length (sh_block (zero_block_to self n)) = 128"
  using assms write_at_take [of q "sh_block self" "replicate (n - length q) 0"]
  by (auto simp: holds_def zero_block_to_def)

lemma close_block_state:
  assumes "holds self q" "length q \<le> sha_block_size (sh_kind self)" "sha_block_size (sh_kind self) \<le> 128"
  shows "sh_state (close_block self) =
       process_kind (sh_kind self) (sh_state self) (q @ replicate (sha_block_size (sh_kind self) - length q) 0)"
    "holds (close_block self) []" "sh_kind (close_block self) = sh_kind self"
    "counted (close_block self) n = counted self n"
  using zero_block_holds [OF assms]
  by (simp_all add: close_block_def sha_process_def Let_def zero_block_to_def)

lemma last_block_state:
  fixes self q N
  defines "k \<equiv> sh_kind self" and "n \<equiv> sha_block_size (sh_kind self)"
  defines "l \<equiv> length (length_field k N)"
  assumes "holds self q" "length q + l \<le> n" "n \<le> 128" "counted self N"
  shows "sh_state (last_block self) =
      process_kind k (sh_state self) (q @ replicate (n - l - length q) 0 @ length_field k N)"
    "sh_kind (last_block self) = k"
proof -
  let ?z = "zero_block_to self (n - l)" and ?x = "q @ replicate (n - l - length q) 0"
  have z: "take (length ?x) (sh_block ?z) = ?x" "length (sh_block ?z) = 128" "length ?x = n - l"
    using zero_block_holds [OF assms(4), of "n - l"] assms by simp_all
  have hi: "sh_bit_count_hi ?z = word_of_nat (8 * N div 2 ^ 64)" "sh_bit_count_lo ?z = word_of_nat (8 * N)"
    using assms(7) by (simp_all add: zero_block_to_def counted_def)
  have blk: "take n (write_at (if kind_is_wide k then write_at (sh_block ?z) (n - 16) (pack_be64 (sh_bit_count_hi ?z)) else sh_block ?z)
      (n - 8) (pack_be64 (sh_bit_count_lo ?z))) = ?x @ length_field k N"
  proof (cases "kind_is_wide k")
    case True
    let ?h = "pack_be64 (sh_bit_count_hi ?z)"
    have l: "l = 16" "length ?x = n - 16" "16 \<le> n" using True z assms by (simp_all add: l_def length_field_length)
    have a: "take (length (?x @ ?h)) (write_at (sh_block ?z) (n - 16) ?h) = ?x @ ?h"
      using write_at_take [of ?x "sh_block ?z" ?h] z l assms(6) by simp
    have "length (?x @ ?h) = n - 8" using l by simp
    then show ?thesis
      using write_at_take [OF a, of "pack_be64 (sh_bit_count_lo ?z)"] z l assms(6) True hi by (simp add: length_field_def)
  next
    case False
    then have "l = 8" "8 \<le> n" using assms by (simp_all add: l_def length_field_length)
    then show ?thesis
      using write_at_take [of ?x "sh_block ?z" "pack_be64 (sh_bit_count_lo ?z)"] z assms(6) False hi
      by (simp add: length_field_def)
  qed
  have "sh_state (last_block self) = process_kind k (sh_state self) (take n (write_at (if kind_is_wide k
      then write_at (sh_block ?z) (n - 16) (pack_be64 (sh_bit_count_hi ?z)) else sh_block ?z)
      (n - 8) (pack_be64 (sh_bit_count_lo ?z))))"
    by (simp add: last_block_def sha_process_def Let_def zero_block_to_def k_def n_def l_def length_field_length)
  then show "sh_state (last_block self) =
      process_kind k (sh_state self) (q @ replicate (n - l - length q) 0 @ length_field k N)"
    unfolding blk by simp
  show "sh_kind (last_block self) = k"
    by (simp add: last_block_def sha_process_def Let_def zero_block_to_def k_def)
qed

lemma padding_zeros:
  fixes N n l :: nat
  assumes "l < n"
  defines "r \<equiv> N mod n"
  shows "(n - (N + 1 + l) mod n) mod n = (if r + 1 + l \<le> n then n - l - (r + 1) else n - (r + 1) + (n - l))"
proof -
  have r: "r < n" using assms by simp
  have e: "(N + 1 + l) mod n = (r + 1 + l) mod n"
    unfolding r_def add.assoc by (simp only: mod_add_left_eq)
  consider "r + 1 + l < n" | "r + 1 + l = n" | "n < r + 1 + l" by linarith
  then show ?thesis
  proof cases
    case 3
    then have "(r + 1 + l) mod n = r + 1 + l - n" using r assms(1) by (simp add: mod_if)
    then show ?thesis unfolding e using 3 r assms(1) by simp
  next
    case 2
    then show ?thesis unfolding e using r by simp
  next
    case 1
    then show ?thesis unfolding e using r by simp
  qed
qed

lemma sha_pad_absorbed:
  assumes "absorbed self m"
  defines "k \<equiv> sh_kind self" and "n \<equiv> sha_block_size (sh_kind self)"
  shows "sh_state (sha_pad self) =
      fst (fold_blocks (process_kind k) n (initial_state k []) (m @ sha_padding k (length m)))"
    "sh_kind (sha_pad self) = k"
proof -
  let ?f = "process_kind k" and ?L = "length_field k (length m)"
  let ?l = "length ?L" and ?s = "fill_block self [0x80]"
  obtain st r where fb: "fold_blocks ?f n (initial_state k []) m = (st, r)" by fastforce
  have a: "sh_state self = st" "holds self r" "counted self (length m)" "digest_size k \<noteq> 0"
    using assms fb by (simp_all add: absorbed_def)
  have n: "64 \<le> n" "n \<le> 128" using sha_block_size_bounds a(4) by (simp_all add: n_def k_def)
  have l: "?l < n" using n by (simp add: length_field_length)
  have r: "length r = length m mod n" using fold_blocks_rest [of n ?f "initial_state k []" m] fb n by simp
  then have rn: "length r + 1 \<le> n" using n by (simp add: Suc_le_eq)
  have h: "holds ?s (r @ [0x80])" using fill_block_holds [OF a(2), of "[0x80]"] rn n by simp
  have pad: "sha_pad self = last_block (if n - ?l < length r + 1 then close_block ?s else ?s)"
    using holdsD(1) [OF h] by (simp add: sha_pad_eq [of self "length m"] k_def n_def Let_def)
  have fold: "fold_blocks ?f n (initial_state k []) (m @ sha_padding k (length m)) = fold_blocks ?f n st (r @ sha_padding k (length m))"
    using n by (subst fold_blocks_append) (simp_all add: fb)
  show "sh_state (sha_pad self) =
      fst (fold_blocks ?f n (initial_state k []) (m @ sha_padding k (length m)))" and "sh_kind (sha_pad self) = k"
  proof (atomize (full), cases "length r + 1 + ?l \<le> n")
    case True
    let ?q = "(r @ [0x80]) @ replicate (n - ?l - (length r + 1)) 0 @ ?L"
    have "sha_padding k (length m) = 0x80 # replicate (n - ?l - (length r + 1)) 0 @ ?L"
      using padding_zeros [OF l, of "length m"] True r by (simp add: sha_padding_def n_def k_def Let_def)
    then have "fold_blocks ?f n st (r @ sha_padding k (length m)) = (?f st ?q, [])"
      using fold_blocks_step [of n ?q ?f st "[]"] True n by simp
    moreover have "sh_state (last_block ?s) = ?f st ?q" "sh_kind (last_block ?s) = k"
      using last_block_state [OF h, of "length m"] a True n by (simp_all add: k_def n_def)
    moreover have "sha_pad self = last_block ?s" using pad True by simp
    ultimately show "sh_state (sha_pad self) =
      fst (fold_blocks ?f n (initial_state k []) (m @ sha_padding k (length m))) \<and> sh_kind (sha_pad self) = k"
      by (simp add: fold)
  next
    case False
    let ?q = "(r @ [0x80]) @ replicate (n - (length r + 1)) 0" and ?p = "replicate (n - ?l) 0 @ ?L"
    have "sha_padding k (length m) = 0x80 # replicate (n - (length r + 1) + (n - ?l)) 0 @ ?L"
      using padding_zeros [OF l, of "length m"] False r by (simp add: sha_padding_def n_def k_def Let_def)
    then have "r @ sha_padding k (length m) = ?q @ ?p" by (simp add: replicate_add)
    then have "fold_blocks ?f n st (r @ sha_padding k (length m)) = (?f (?f st ?q) ?p, [])"
      using fold_blocks_step [of n ?q ?f st ?p] fold_blocks_step [of n ?p ?f _ "[]"] rn l n by simp
    moreover note cl = close_block_state [OF h]
    have c: "sh_state (close_block ?s) = ?f st ?q" "holds (close_block ?s) []" "sh_kind (close_block ?s) = k"
      "counted (close_block ?s) (length m)"
      using cl a rn n by (simp_all add: k_def n_def)
    moreover have "sh_state (last_block (close_block ?s)) = ?f (?f st ?q) ?p" "sh_kind (last_block (close_block ?s)) = k"
      using last_block_state [OF c(2), of "length m"] c l n by (simp_all add: k_def n_def)
    moreover have "sha_pad self = last_block (close_block ?s)" using pad False by simp
    ultimately show "sh_state (sha_pad self) =
      fst (fold_blocks ?f n (initial_state k []) (m @ sha_padding k (length m))) \<and> sh_kind (sha_pad self) = k"
      by (simp add: fold)
  qed
qed

section \<open>The digest\<close>

lemma add_state_word_length [simp]:
  "length (add_state_word i w st) = length st" "length (add_state_word_32 i v st) = length st"
  by (simp_all add: add_state_word_def add_state_word_32_def)

lemma process_kind_length [simp]: "length (process_kind k st b) = length st"
  by (simp add: process_kind_def process_1_def process_256_def process_512_def Let_def split: prod.split)

lemma fold_blocks_length: "length (fst (fold_blocks (process_kind k) n st m)) = length st"
proof (induction "process_kind k" n st m rule: fold_blocks.induct)
  case (1 n st m)
  then show ?case by (subst fold_blocks.simps) simp
qed

lemma initial_state_length: "digest_size k \<noteq> 0 \<Longrightarrow> length (initial_state k []) = 8"
  by (auto simp: initial_state_def digest_size_def split: if_splits)

lemma map_nth_take: "n \<le> length xs \<Longrightarrow> map (\<lambda>i. g (xs ! i)) [0..<n] = map g (take n xs)"
  by (rule nth_equalityI) simp_all

lemma digest_words: "digest_size k div 4 \<le> 8 \<or> kind_is_wide k" "digest_size k div 8 \<le> 8"
  by (simp_all add: digest_size_def kind_is_wide_def)

lemma put_digest_encode: "length (sh_state self) = 8 \<Longrightarrow> put_digest self = encode_state (sh_kind self) (sh_state self)"
  using digest_words [of "sh_kind self"]
  by (auto simp: put_digest_def encode_state_def Let_def map_nth_take [of _ _ pack_be64]
      map_nth_take [of _ _ "\<lambda>w. pack_be32 (ucast w)"])

lemma encode_state_length: "length st = 8 \<Longrightarrow> length (encode_state k st) = digest_size k"
  by (simp add: encode_state_def digest_size_def kind_is_wide_def length_concat o_def sum_list_triv)

lemma sha_finish_absorbed:
  assumes "absorbed self m" "digest_size (sh_kind self) \<le> out_size"
  shows "\<exists>s. sha_finish self out_size = Inr (s, sha_digest (sh_kind self) m) \<and> sh_finished s"
proof -
  have k: "digest_size (sh_kind self) \<noteq> 0" "\<not> sh_finished self" using assms(1) by (simp_all add: absorbed_def)
  let ?p = "(sha_pad self)\<lparr>sh_finished := True\<rparr>"
  have "length (sh_state ?p) = 8"
    using sha_pad_absorbed [OF assms(1)] initial_state_length [OF k(1)] by (simp add: fold_blocks_length)
  then have "put_digest ?p = sha_digest (sh_kind self) m"
    using sha_pad_absorbed [OF assms(1)] by (simp add: put_digest_encode sha_digest_def)
  then show ?thesis using assms(2) k by (simp add: sha_finish_def Let_def)
qed

interpretation sha_stream: stream_hash "\<lambda>s. absorbed s []" sha_update absorbed sh_kind
  by unfold_locales (simp_all add: sha_update_absorbed)

text \<open>The calls of a client: set up, feed the pieces, take the digest.\<close>

definition sha_stream_hash :: "sha \<Rightarrow> u8 \<Rightarrow> u8 list list \<Rightarrow> nat \<Rightarrow> error_code + sha \<times> u8 list" where
  "sha_stream_hash hasher kind pieces out_size =
     bind_result (sha_init hasher kind) (\<lambda>s. bind_result (feed_pieces sha_update s pieces) (\<lambda>t. sha_finish t out_size))"



text \<open>The one-shot call is the same digest; an unknown kind or a short output gives no byte.\<close>

theorem sha_hash_exact:
  assumes "length data < 2 ^ 64"
  shows "sha_hash hasher kind data out_size =
     Inr (if digest_size kind \<noteq> 0 \<and> digest_size kind \<le> out_size then sha_digest kind data else [])"
proof (cases "digest_size kind = 0")
  case False
  obtain s where s: "sha_init hasher kind = Inr s" "sh_kind s = kind" "absorbed s []"
    using sha_init_absorbed [OF False] by blast
  obtain t where t: "sha_update s data = Inr t" "sh_kind t = kind" "absorbed t data"
    using sha_update_absorbed [OF s(3) assms] s(2) by auto
  show ?thesis
  proof (cases "digest_size kind \<le> out_size")
    case True
    then obtain u where "sha_finish t out_size = Inr (u, sha_digest kind data)"
      using sha_finish_absorbed [OF t(3), of out_size] t(2) by auto
    then show ?thesis using True False s(1) t(1) by (simp add: sha_hash_def)
  next
    case short: False
    moreover have "\<not> sh_finished t" using t(3) by (simp add: absorbed_def)
    ultimately show ?thesis using False s t by (simp add: sha_hash_def sha_finish_def)
  qed
qed (simp add: sha_hash_def)

end
