(* ===== verification/Json_Node.thy ===== *)
theory Json_Node
  imports Text_View
begin

text \<open>
  JSON trees (\<^verbatim>\<open>src/lh/core/web/json/node.c\<close>): a node with its kind, flag, text, key and children. The
  children are linked into a list of the library (theory \<open>Ring_List\<close>); here they are the list itself, and
  creating or destroying a node is the appearance or disappearance of its value. Shown: a copy is the
  tree of its source under the key of the target, comparison holds between the two when no object
  repeats a key, and what it does when one does.
\<close>

section \<open>Nodes\<close>

datatype json_kind = Kind_none | Kind_null | Kind_bool | Kind_number | Kind_string | Kind_array | Kind_object

datatype json_node = Json_Node
  (node_kind: json_kind) (node_flag: bool) (node_text: string) (node_key: string) (node_children: "json_node list")

primrec node_set_kind :: "json_node \<Rightarrow> json_kind \<Rightarrow> json_node" where
  "node_set_kind (Json_Node k f t key cs) kind = Json_Node kind f t key cs"

primrec node_set_flag :: "json_node \<Rightarrow> bool \<Rightarrow> json_node" where
  "node_set_flag (Json_Node k f t key cs) flag = Json_Node k flag t key cs"

primrec node_append_text :: "json_node \<Rightarrow> string \<Rightarrow> json_node" where
  "node_append_text (Json_Node k f t key cs) chars = Json_Node k f (t @ chars) key cs"

primrec node_set_text :: "json_node \<Rightarrow> string \<Rightarrow> json_node" where
  "node_set_text (Json_Node k f t key cs) text = Json_Node k f text key cs"

primrec node_set_key :: "json_node \<Rightarrow> string \<Rightarrow> json_node" where
  "node_set_key (Json_Node k f t key cs) name = Json_Node k f t name cs"

primrec node_push_back :: "json_node \<Rightarrow> json_node \<Rightarrow> json_node" where
  "node_push_back (Json_Node k f t key cs) child = Json_Node k f t key (cs @ [child])"

definition json_node_init :: json_node where
  "json_node_init = Json_Node Kind_none False [] [] []"

primrec node_clear :: "json_node \<Rightarrow> json_node" where
  "node_clear (Json_Node k f t key cs) = Json_Node Kind_none False [] key []"

section \<open>Members\<close>

definition node_has_key :: "json_node \<Rightarrow> string \<Rightarrow> bool" where
  "node_has_key self key = view_equals (node_key self) key False"

definition node_get_member :: "json_node \<Rightarrow> string \<Rightarrow> json_node option" where
  "node_get_member self key =
     (if node_kind self \<noteq> Kind_object then None else find (\<lambda>child. node_has_key child key) (node_children self))"

definition node_get_at :: "json_node \<Rightarrow> nat \<Rightarrow> json_node option" where
  "node_get_at self index = (if index < length (node_children self) then Some (node_children self ! index) else None)"

definition node_get_bool :: "json_node \<Rightarrow> error_code + bool" where
  "node_get_bool self = (if node_kind self \<noteq> Kind_bool then Inl Invalid_argument else Inr (node_flag self))"

definition node_get_str :: "json_node \<Rightarrow> error_code + string" where
  "node_get_str self = (if node_kind self \<noteq> Kind_string then Inl Invalid_argument else Inr (node_text self))"

definition node_get_bool_or :: "json_node option \<Rightarrow> bool \<Rightarrow> bool" where
  "node_get_bool_or self fallback =
     (case self of None \<Rightarrow> fallback | Some n \<Rightarrow> if node_kind n = Kind_bool then node_flag n else fallback)"

definition node_get_str_or :: "json_node option \<Rightarrow> string \<Rightarrow> string" where
  "node_get_str_or self fallback =
     (case self of None \<Rightarrow> fallback | Some n \<Rightarrow> if node_kind n = Kind_string then node_text n else fallback)"

section \<open>Setting values\<close>

definition node_set_null :: "json_node \<Rightarrow> json_node" where
  "node_set_null self = node_set_kind (node_clear self) Kind_null"

definition node_set_bool :: "json_node \<Rightarrow> bool \<Rightarrow> json_node" where
  "node_set_bool self v = node_set_flag (node_set_kind (node_clear self) Kind_bool) v"

definition node_set_str :: "json_node \<Rightarrow> string \<Rightarrow> json_node" where
  "node_set_str self v = node_set_text (node_set_kind (node_clear self) Kind_string) v"

definition node_set_array :: "json_node \<Rightarrow> json_node" where
  "node_set_array self = node_set_kind (node_clear self) Kind_array"

definition node_set_object :: "json_node \<Rightarrow> json_node" where
  "node_set_object self = node_set_kind (node_clear self) Kind_object"

definition node_add_member :: "json_node \<Rightarrow> string \<Rightarrow> json_node \<Rightarrow> json_node" where
  "node_add_member self key child = node_push_back self (node_set_key child key)"

text \<open>Destroying the first child with the key unlinks it from the children.\<close>

fun remove_first :: "('a \<Rightarrow> bool) \<Rightarrow> 'a list \<Rightarrow> 'a list" where
  "remove_first p [] = []"
| "remove_first p (x # xs) = (if p x then xs else x # remove_first p xs)"

definition node_remove_member :: "json_node \<Rightarrow> string \<Rightarrow> bool \<times> json_node" where
  "node_remove_member self key =
     (case node_get_member self key of
        None \<Rightarrow> (False, self)
      | Some m \<Rightarrow> (True, Json_Node (node_kind self) (node_flag self) (node_text self) (node_key self)
                          (remove_first (\<lambda>child. node_has_key child key) (node_children self))))"

text \<open>A deep copy; the key of the target stays its own, the keys of the children are copied.\<close>

fun node_assign :: "json_node \<Rightarrow> json_node \<Rightarrow> json_node" where
  "node_assign self (Json_Node k f t key cs) =
     (let self = node_set_text (node_set_flag (node_set_kind (node_clear self) k) f) t
      in fold (\<lambda>child self. node_push_back self (node_assign (node_set_key json_node_init (node_key child)) child)) cs self)"

section \<open>Comparison\<close>

text \<open>
  The loop over two arrays, and the loop over the members of an object: the member of the other object
  that is compared is the first one with the key.
\<close>

fun node_equals :: "json_node \<Rightarrow> json_node \<Rightarrow> bool" and elements_equal :: "json_node list \<Rightarrow> json_node list \<Rightarrow> bool"
  and members_equal :: "json_node list \<Rightarrow> json_node \<Rightarrow> bool" where
  "node_equals (Json_Node k f t key cs) other =
     (if k \<noteq> node_kind other then False
      else case k of
             Kind_bool \<Rightarrow> f = node_flag other
           | Kind_number \<Rightarrow> view_equals t (node_text other) False
           | Kind_string \<Rightarrow> view_equals t (node_text other) False
           | Kind_array \<Rightarrow> elements_equal cs (node_children other)
           | Kind_object \<Rightarrow> length cs = length (node_children other) \<and> members_equal cs other
           | _ \<Rightarrow> True)"
| "elements_equal [] ys = (ys = [])"
| "elements_equal (x # xs) ys = (case ys of [] \<Rightarrow> False | y # ys' \<Rightarrow> node_equals x y \<and> elements_equal xs ys')"
| "members_equal [] other = True"
| "members_equal (x # xs) other =
     (case node_get_member other (node_key x) of
        None \<Rightarrow> False
      | Some y \<Rightarrow> node_equals x y \<and> members_equal xs other)"

section \<open>JSON values\<close>

text \<open>The value a proper tree stands for, and the tree of a value under a key.\<close>

datatype json =
    JNull
  | JBool bool
  | JNumber string
  | JString string
  | JArray "json list"
  | JObject "(string \<times> json) list"

fun node_of :: "string \<Rightarrow> json \<Rightarrow> json_node" where
  "node_of key JNull = Json_Node Kind_null False [] key []"
| "node_of key (JBool b) = Json_Node Kind_bool b [] key []"
| "node_of key (JNumber t) = Json_Node Kind_number False t key []"
| "node_of key (JString t) = Json_Node Kind_string False t key []"
| "node_of key (JArray vs) = Json_Node Kind_array False [] key (map (node_of []) vs)"
| "node_of key (JObject ms) = Json_Node Kind_object False [] key (map (\<lambda>(k, v). node_of k v) ms)"

text \<open>No object of the value repeats a key.\<close>

fun keys_distinct :: "json \<Rightarrow> bool" where
  "keys_distinct (JArray vs) = (\<forall>v \<in> set vs. keys_distinct v)"
| "keys_distinct (JObject ms) = (distinct (map fst ms) \<and> (\<forall>m \<in> set ms. keys_distinct (snd m)))"
| "keys_distinct _ = True"

lemma node_of_simps [simp]: "node_key (node_of k v) = k" "node_set_key (node_of k v) k' = node_of k' v"
  by (cases v; simp)+

lemma view_same [simp]: "view_equals s t False \<longleftrightarrow> s = t"
  by (simp add: view_equals_iff)

section \<open>Copies\<close>

lemma push_back_all:
  "fold (\<lambda>child self. node_push_back self (g child)) cs (Json_Node k f t key ds) = Json_Node k f t key (ds @ map g cs)"
  by (induction cs arbitrary: ds) simp_all

lemma node_init_key [simp]: "node_key (node_set_key json_node_init k) = k"
  by (simp add: json_node_init_def)

lemma node_clear_eq: "node_clear self = Json_Node Kind_none False [] (node_key self) []"
  by (cases self) simp

text \<open>Whatever the target held, it becomes the tree of the source's value under the target's own key.\<close>

lemma node_assign_tree: "node_assign self (node_of key v) = node_of (node_key self) v"
proof (induction v arbitrary: self key)
  case (JArray vs)
  then show ?case by (simp add: node_clear_eq push_back_all)
next
  case (JObject ms)
  have "node_assign (node_set_key json_node_init (node_key (node_of k v))) (node_of k v) = node_of k v" if "(k, v) \<in> set ms" for k v
    using JObject.IH [OF that, of v] by (simp add: snds.simps)
  then show ?case by (auto simp: node_clear_eq push_back_all)
qed (simp_all add: node_clear_eq)

section \<open>Comparison\<close>

lemma find_own_member:
  "distinct (map fst ms) \<Longrightarrow> (k, v) \<in> set ms \<Longrightarrow>
   find (\<lambda>child. node_has_key child k) (map (\<lambda>(k, v). node_of k v) ms) = Some (node_of k v)"
  by (induction ms) (auto simp: node_has_key_def image_iff)

lemma elements_equal_map:
  "(\<And>v. v \<in> set vs \<Longrightarrow> node_equals (f v) (g v)) \<Longrightarrow> elements_equal (map f vs) (map g vs)"
  by (induction vs) simp_all

lemma members_equal_all:
  "members_equal xs other \<longleftrightarrow>
     (\<forall>x \<in> set xs. \<exists>y. node_get_member other (node_key x) = Some y \<and> node_equals x y)"
  by (induction xs) (auto split: option.splits)

lemma node_equals_refl:
  "keys_distinct v \<Longrightarrow> node_equals (node_of k v) (node_of k' v)"
proof (induction v arbitrary: k k')
  case (JArray vs)
  then show ?case by (simp add: elements_equal_map)
next
  case (JObject ms)
  have "node_equals (node_of a v) (node_of a v)" if "(a, v) \<in> set ms" for a v
    using JObject.IH [OF that, of v] JObject.prems that by (force simp: snds.simps)
  then show ?case
    using JObject.prems by (auto simp: members_equal_all node_get_member_def find_own_member)
qed simp_all

text \<open>
  A deep copy has the value of its source: comparison says so when no object repeats a key, and the copy
  is the same tree under the key of the target.
\<close>

theorem json_copy_equal:
  assumes "keys_distinct v"
  shows "node_assign self (node_of key v) = node_of (node_key self) v"
    and "node_equals (node_assign self (node_of key v)) (node_of key v)"
  by (simp_all add: node_assign_tree node_equals_refl [OF assms])

text \<open>
  With a repeated key comparison looks at the first member of that key only: a tree with the members
  \<^verbatim>\<open>a: true\<close> and \<^verbatim>\<open>a: false\<close> is not equal to its own copy, and one with \<^verbatim>\<open>a: true\<close> twice is equal to
  one with \<^verbatim>\<open>a: true\<close> and \<^verbatim>\<open>b: false\<close>, but not the other way round.
\<close>

theorem json_equals_repeated_key:
  shows "\<not> node_equals (node_of [] (JObject [(''a'', JBool True), (''a'', JBool False)]))
            (node_assign json_node_init (node_of [] (JObject [(''a'', JBool True), (''a'', JBool False)])))"
    and "node_equals (node_of [] (JObject [(''a'', JBool True), (''a'', JBool True)]))
            (node_of [] (JObject [(''a'', JBool True), (''b'', JBool False)]))"
    and "\<not> node_equals (node_of [] (JObject [(''a'', JBool True), (''b'', JBool False)]))
            (node_of [] (JObject [(''a'', JBool True), (''a'', JBool True)]))"
  by (simp_all add: node_assign_tree json_node_init_def node_get_member_def node_has_key_def)

end
