(* ===== verification/Utf8.thy ===== *)
theory Utf8
  imports Text_Digits
begin

text \<open>
  UTF-8 (\<^verbatim>\<open>src/lh/core/str/utf8.c\<close>): the size of an encoded code point, the size a lead byte announces, and
  the encoder, which returns the characters it wrote and none when the code point has no encoding or
  the room is too small. Shown: what the encoder writes is read back by the decoder of RFC 3629, and the
  lead byte announces its size.
\<close>

section \<open>The operations\<close>

definition utf8_get_encoded_size :: "u32 \<Rightarrow> nat" where
  "utf8_get_encoded_size code =
     (if code = 0 \<or> 0x10FFFF < code \<or> (0xD800 \<le> code \<and> code \<le> 0xDFFF) then 0
      else if code < 0x80 then 1 else if code < 0x800 then 2 else if code < 0x10000 then 3 else 4)"

definition utf8_get_lead_size :: "u8 \<Rightarrow> nat" where
  "utf8_get_lead_size lead =
     (if lead < 0x80 then 1 else if lead AND 0xE0 = 0xC0 then 2 else if lead AND 0xF0 = 0xE0 then 3
      else if lead AND 0xF8 = 0xF0 then 4 else 1)"

text \<open>A cast to \<^verbatim>\<open>lh_char_t\<close> keeps the low eight bits.\<close>

definition to_char :: "u32 \<Rightarrow> char" where
  "to_char w = char_of (unat w mod 256)"

definition utf8_encode :: "nat \<Rightarrow> u32 \<Rightarrow> string" where
  "utf8_encode bytes code =
     (let n = utf8_get_encoded_size code
      in if n = 0 \<or> bytes < n then []
         else if n = 1 then [to_char code]
         else if n = 2 then [to_char (0xC0 OR drop_bit 6 code), to_char (0x80 OR (code AND 0x3F))]
         else if n = 3 then
           [to_char (0xE0 OR drop_bit 12 code), to_char (0x80 OR (drop_bit 6 code AND 0x3F)),
            to_char (0x80 OR (code AND 0x3F))]
         else
           [to_char (0xF0 OR drop_bit 18 code), to_char (0x80 OR (drop_bit 12 code AND 0x3F)),
            to_char (0x80 OR (drop_bit 6 code AND 0x3F)), to_char (0x80 OR (code AND 0x3F))])"

section \<open>Reference: the decoder of RFC 3629\<close>

text \<open>
  Over numbers: a lead byte and its continuation bytes, overlong forms, surrogates and values above
  \<open>10FFFF\<close> refused. It returns the code point and the text after it.
\<close>

definition tail_bits :: "char \<Rightarrow> nat option" where
  "tail_bits c = (if 0x80 \<le> ord c \<and> ord c < 0xC0 then Some (ord c - 0x80) else None)"

fun utf8_decode :: "string \<Rightarrow> (nat \<times> string) option" where
  "utf8_decode [] = None"
| "utf8_decode (a # s) =
     (if ord a < 0x80 then Some (ord a, s)
      else if 0xC0 \<le> ord a \<and> ord a < 0xE0 then
        (case s of b # s \<Rightarrow>
           (case tail_bits b of
              Some y \<Rightarrow> let v = (ord a - 0xC0) * 64 + y in if 0x80 \<le> v then Some (v, s) else None
            | None \<Rightarrow> None)
         | _ \<Rightarrow> None)
      else if 0xE0 \<le> ord a \<and> ord a < 0xF0 then
        (case s of b # c # s \<Rightarrow>
           (case (tail_bits b, tail_bits c) of
              (Some y, Some z) \<Rightarrow>
                let v = (ord a - 0xE0) * 4096 + y * 64 + z
                in if 0x800 \<le> v \<and> \<not> (0xD800 \<le> v \<and> v \<le> 0xDFFF) then Some (v, s) else None
            | _ \<Rightarrow> None)
         | _ \<Rightarrow> None)
      else if 0xF0 \<le> ord a \<and> ord a < 0xF8 then
        (case s of b # c # d # s \<Rightarrow>
           (case (tail_bits b, tail_bits c, tail_bits d) of
              (Some x, Some y, Some z) \<Rightarrow>
                let v = (ord a - 0xF0) * 262144 + x * 4096 + y * 64 + z
                in if 0x10000 \<le> v \<and> v \<le> 0x10FFFF then Some (v, s) else None
            | _ \<Rightarrow> None)
         | _ \<Rightarrow> None)
      else None)"

section \<open>Round trip\<close>

lemma ord_to_char: "ord (to_char w) = unat w mod 256"
  by (simp add: to_char_def)

text \<open>An OR with bits above the value is an addition.\<close>

lemma or_high_bits:
  fixes w :: u32
  assumes "unat w < 2 ^ k" "k < 32" "2 ^ k * h < (2::nat) ^ 32"
  shows "unat (word_of_nat (2 ^ k * h) OR w) = 2 ^ k * h + unat w"
proof -
  have "push_bit k h OR take_bit k (unat w) = push_bit k h + take_bit k (unat w)"
  proof -
    have "bit (take_bit k (unat w)) n \<Longrightarrow> \<not> bit (push_bit k h) n" for n
      by (simp add: bit_push_bit_iff bit_take_bit_iff)
    then show ?thesis by (intro disjunctive_add [symmetric]) blast
  qed
  then have "(2 ^ k * h) OR unat w = 2 ^ k * h + unat w"
    using assms(1) by (simp add: push_bit_eq_mult take_bit_eq_mod mult.commute)
  moreover have "unat (word_of_nat (2 ^ k * h) OR w) = (2 ^ k * h) OR unat w"
    unfolding unsigned_or_eq by (simp only: unat_of_nat_small [where 'w = 32, simplified, OF assms(3) [simplified]])
  ultimately show ?thesis by simp
qed

lemma cont_value: "unat ((x :: u32) AND 0x3F) = unat x mod 64"
proof -
  have "(0x3F :: u32) = mask 6" by (simp add: mask_eq_decr_exp)
  then show ?thesis using unat_and_mask [of x 6] by simp
qed

lemma shift_value: "unat (drop_bit n (x :: u32)) = unat x div 2 ^ n"
proof -
  have "unat (drop_bit n x) = drop_bit n (take_bit 32 (unat x))" by (simp only: unsigned_drop_bit_eq) simp
  moreover have "unat x < 2 ^ 32" using unsigned_less [of x] by simp
  then have "take_bit 32 (unat x) = unat x" by (simp add: take_bit_eq_mod)
  ultimately show ?thesis by (simp add: drop_bit_eq_div)
qed

lemma tail_char:
  "tail_bits (to_char (0x80 OR (x AND 0x3F))) = Some (unat x mod 64)"
proof -
  have "unat (x AND 0x3F) < 2 ^ 7" by (simp add: cont_value)
  then have "unat (0x80 OR (x AND 0x3F)) = 128 + unat x mod 64"
    using or_high_bits [of "x AND 0x3F" 7 1] by (simp add: cont_value)
  moreover have "unat x mod 64 < 64" by simp
  ultimately show ?thesis by (simp add: tail_bits_def ord_to_char)
qed

lemma encoded_size_cases:
  fixes code :: u32
  assumes "utf8_get_encoded_size code \<noteq> 0"
  obtains "utf8_get_encoded_size code = 1" "0 < unat code" "unat code < 128"
  | "utf8_get_encoded_size code = 2" "128 \<le> unat code" "unat code < 2048"
  | "utf8_get_encoded_size code = 3" "2048 \<le> unat code" "unat code < 65536" "\<not> (0xD800 \<le> unat code \<and> unat code \<le> 0xDFFF)"
  | "utf8_get_encoded_size code = 4" "65536 \<le> unat code" "unat code \<le> 0x10FFFF"
  using assms unfolding utf8_get_encoded_size_def
  by (simp add: word_less_nat_alt word_le_nat_alt unat_eq_zero [symmetric] split: if_splits)

lemma six_bit_groups:
  fixes x :: nat
  shows "x div 262144 * 262144 + x div 4096 mod 64 * 4096 + x div 64 mod 64 * 64 + x mod 64 = x"
proof -
  have "x div 4096 = x div 64 div 64" "x div 262144 = x div 4096 div 64" by (simp_all add: div_mult2_eq [symmetric])
  then show ?thesis
    using div_mult_mod_eq [of x 64] div_mult_mod_eq [of "x div 64" 64] div_mult_mod_eq [of "x div 4096" 64] by linarith
qed

text \<open>The characters as numbers.\<close>

lemma lead_ord:
  fixes code :: u32
  shows "unat code < 2048 \<Longrightarrow> ord (to_char (0xC0 OR drop_bit 6 code)) = 0xC0 + unat code div 64"
    "unat code < 65536 \<Longrightarrow> ord (to_char (0xE0 OR drop_bit 12 code)) = 0xE0 + unat code div 4096"
    "unat code < 2097152 \<Longrightarrow> ord (to_char (0xF0 OR drop_bit 18 code)) = 0xF0 + unat code div 262144"
  using or_high_bits [of "drop_bit 6 code" 5 6] or_high_bits [of "drop_bit 12 code" 4 14]
    or_high_bits [of "drop_bit 18 code" 3 30]
  by (simp_all add: shift_value ord_to_char less_mult_imp_div_less)

definition lead_sizes :: "nat \<Rightarrow> nat" where
  "lead_sizes n = (if n < 0xC0 then 1 else if n < 0xE0 then 2 else if n < 0xF0 then 3 else if n < 0xF8 then 4 else 1)"

lemma lead_size_table: "map (\<lambda>n. utf8_get_lead_size (word_of_nat n)) [0..<256] = map lead_sizes [0..<256]"
  by code_simp

lemma lead_size_value: "n < 256 \<Longrightarrow> utf8_get_lead_size (word_of_nat n) = lead_sizes n"
  using arg_cong [OF lead_size_table, of "\<lambda>xs. xs ! n"] by simp

lemma decode_3:
  assumes "ord a = 0xE0 + q" "tail_bits b = Some y" "tail_bits c = Some z" "q < 16"
    and "q * 4096 + y * 64 + z = v" "2048 \<le> v" "\<not> (0xD800 \<le> v \<and> v \<le> 0xDFFF)"
  shows "utf8_decode (a # b # c # s) = Some (v, s)"
  using assms by simp

lemma decode_4:
  assumes "ord a = 0xF0 + q" "tail_bits b = Some x" "tail_bits c = Some y" "tail_bits d = Some z" "q < 8"
    and "q * 262144 + x * 4096 + y * 64 + z = v" "65536 \<le> v" "v \<le> 0x10FFFF"
  shows "utf8_decode (a # b # c # d # s) = Some (v, s)"
  using assms by simp

text \<open>
  A code point the encoder accepts is read back by the decoder, whatever follows, and the first byte
  announces the number of bytes written.
\<close>

theorem utf8_roundtrip:
  assumes "utf8_get_encoded_size code \<noteq> 0" "utf8_get_encoded_size code \<le> bytes"
  shows "utf8_decode (utf8_encode bytes code @ rest) = Some (unat code, rest)"
    and "length (utf8_encode bytes code) = utf8_get_encoded_size code"
    and "utf8_get_lead_size (word_of_nat (ord (hd (utf8_encode bytes code)))) = utf8_get_encoded_size code"
proof -
  show "utf8_get_lead_size (word_of_nat (ord (hd (utf8_encode bytes code)))) = utf8_get_encoded_size code"
    using assms(1)
  proof (cases rule: encoded_size_cases)
    case 1
    then show ?thesis using assms by (subst lead_size_value) (simp_all add: utf8_encode_def ord_to_char lead_sizes_def)
  next
    case 2
    then have "unat code div 64 < 32" by (simp add: less_mult_imp_div_less)
    then show ?thesis using 2 assms by (subst lead_size_value) (simp_all add: utf8_encode_def lead_ord lead_sizes_def)
  next
    case 3
    then have "unat code div 4096 < 16" by (simp add: less_mult_imp_div_less)
    then show ?thesis using 3 assms by (subst lead_size_value) (simp_all add: utf8_encode_def lead_ord lead_sizes_def)
  next
    case 4
    then have "unat code div 262144 < 8" by (simp add: less_mult_imp_div_less)
    then show ?thesis using 4 assms by (subst lead_size_value) (simp_all add: utf8_encode_def lead_ord lead_sizes_def)
  qed
  show "length (utf8_encode bytes code) = utf8_get_encoded_size code"
    using assms by (auto simp: utf8_encode_def utf8_get_encoded_size_def Let_def)
  show "utf8_decode (utf8_encode bytes code @ rest) = Some (unat code, rest)"
    using assms(1)
  proof (cases rule: encoded_size_cases)
    case 1
    then show ?thesis using assms by (simp add: utf8_encode_def ord_to_char)
  next
    case 2
    have "unat code div 64 * 64 + unat code mod 64 = unat code" by simp
    moreover have "unat code div 64 < 32" using 2 by (simp add: less_mult_imp_div_less)
    ultimately show ?thesis using 2 assms by (simp add: utf8_encode_def lead_ord tail_char Let_def)
  next
    case 3
    have e: "utf8_encode bytes code = [to_char (0xE0 OR drop_bit 12 code), to_char (0x80 OR (drop_bit 6 code AND 0x3F)),
        to_char (0x80 OR (code AND 0x3F))]" using 3 assms by (simp add: utf8_encode_def)
    have "unat code div 262144 = 0" "unat code div 4096 < 16" using 3 by (simp_all add: less_mult_imp_div_less)
    with six_bit_groups [of "unat code"] 3 show ?thesis
      unfolding e append.simps by (intro decode_3 [OF lead_ord(2) tail_char tail_char]) (simp_all add: shift_value)
  next
    case 4
    have e: "utf8_encode bytes code = [to_char (0xF0 OR drop_bit 18 code), to_char (0x80 OR (drop_bit 12 code AND 0x3F)),
        to_char (0x80 OR (drop_bit 6 code AND 0x3F)), to_char (0x80 OR (code AND 0x3F))]"
      using 4 assms by (simp add: utf8_encode_def)
    have "unat code div 262144 < 8" using 4 by (simp add: less_mult_imp_div_less)
    with six_bit_groups [of "unat code"] 4 show ?thesis
      unfolding e append.simps by (intro decode_4 [OF lead_ord(3) tail_char tail_char tail_char]) (simp_all add: shift_value)
  qed
qed

end
