(* ===== verification/Json_Reader.thy ===== *)
theory Json_Reader
  imports Json_Node Utf8
begin

text \<open>
  The JSON reader (\<^verbatim>\<open>src/lh/core/web/json/reader.c\<close>): a cursor over the text with the depth and the error,
  and the recursive descent into a tree of nodes. A function that reads returns what it returned, the
  reader and the node or text it filled, also when it failed halfway. The mutual recursion of values,
  objects and arrays carries a count of calls; theory \<open>Json_Exact\<close> shows that three calls for a
  character of the text and one more are enough.
\<close>

section \<open>The cursor\<close>

datatype json_error =
    No_error
  | Unexpected_end
  | Unexpected_char
  | Bad_literal
  | Bad_number
  | Bad_string
  | Bad_escape
  | Bad_unicode
  | Too_deep
  | Trailing

record json_reader =
  jr_text :: string
  jr_pos :: nat
  jr_depth :: nat
  jr_error :: json_error

definition json_is_whitespace :: "char \<Rightarrow> bool" where
  "json_is_whitespace ch \<longleftrightarrow> ch = sp \<or> ch = ht \<or> ch = lf \<or> ch = cr"

definition json_fail :: "json_reader \<Rightarrow> json_error \<Rightarrow> json_reader" where
  "json_fail self error = self\<lparr>jr_error := error\<rparr>"

definition json_has_error :: "json_reader \<Rightarrow> bool" where
  "json_has_error self \<longleftrightarrow> jr_error self \<noteq> No_error"

definition view_skip_bom :: "string \<Rightarrow> string" where
  "view_skip_bom self =
     (let bom = [CHR 0xEF, CHR 0xBB, CHR 0xBF]
      in if self = [] \<or> \<not> view_starts_with self bom False then self else drop (length bom) self)"

definition json_reader_init :: "string \<Rightarrow> json_reader" where
  "json_reader_init text = \<lparr>jr_text = view_skip_bom text, jr_pos = 0, jr_depth = 0, jr_error = No_error\<rparr>"

definition json_is_end :: "json_reader \<Rightarrow> bool" where
  "json_is_end self \<longleftrightarrow> length (jr_text self) \<le> jr_pos self"

definition json_peek :: "json_reader \<Rightarrow> nat \<Rightarrow> char" where
  "json_peek self ahead =
     (let at = jr_pos self + ahead in if length (jr_text self) \<le> at then CHR 0x00 else jr_text self ! at)"

definition json_advance :: "json_reader \<Rightarrow> nat \<Rightarrow> json_reader" where
  "json_advance self count = self\<lparr>jr_pos := jr_pos self + count\<rparr>"

definition json_leave :: "json_reader \<Rightarrow> json_reader" where
  "json_leave self = self\<lparr>jr_depth := jr_depth self - 1\<rparr>"

definition json_get_char :: "json_reader \<Rightarrow> char" where
  "json_get_char self = json_peek self 0"

definition json_fail_unexpected :: "json_reader \<Rightarrow> json_reader" where
  "json_fail_unexpected self = json_fail self (if json_is_end self then Unexpected_end else Unexpected_char)"

definition json_skip_word :: "json_reader \<Rightarrow> string \<Rightarrow> bool \<times> json_reader" where
  "json_skip_word self word =
     (if \<exists>i < length word. json_peek self i \<noteq> word ! i then (False, self)
      else (True, json_advance self (length word)))"

text \<open>The default of \<^verbatim>\<open>LH_WEB_JSON_READER_DEPTH_MAX\<close>.\<close>

definition json_depth_max :: nat where
  "json_depth_max = 1000"

definition json_enter :: "json_reader \<Rightarrow> bool \<times> json_reader" where
  "json_enter self =
     (let depth = jr_depth self + 1
      in if json_depth_max < depth then (False, json_fail self Too_deep) else (True, self\<lparr>jr_depth := depth\<rparr>))"

text \<open>
  The loops that pass over characters of a class. None of the classes has the NUL that stands for the
  end of the text, so the test for the end in front changes nothing.
\<close>

function json_skip_while :: "(char \<Rightarrow> bool) \<Rightarrow> json_reader \<Rightarrow> json_reader" where
  "json_skip_while test self =
     (if \<not> json_is_end self \<and> test (json_get_char self)
      then json_skip_while test (json_advance self 1) else self)"
  by auto
termination
  by (relation "measure (\<lambda>(_, r). length (jr_text r) - jr_pos r)") (auto simp: json_is_end_def json_advance_def)

declare json_skip_while.simps [simp del]

definition json_skip_whitespace :: "json_reader \<Rightarrow> json_reader" where
  "json_skip_whitespace self = json_skip_while json_is_whitespace self"

definition json_skip_digits :: "json_reader \<Rightarrow> nat \<times> json_reader" where
  "json_skip_digits self = (let r = json_skip_while char_is_digit self in (jr_pos r - jr_pos self, r))"

definition json_skip_char :: "json_reader \<Rightarrow> char \<Rightarrow> bool \<times> json_reader" where
  "json_skip_char self ch =
     (if json_is_end self \<or> json_get_char self \<noteq> ch then (False, self) else (True, json_advance self 1))"

section \<open>Literals and numbers\<close>

definition json_read_literal :: "json_reader \<Rightarrow> json_node \<Rightarrow> bool \<times> json_reader \<times> json_node" where
  "json_read_literal self node =
     (let (null, r0) = json_skip_word self ''null'';
          (true, r1) = json_skip_word self ''true'';
          (false, r2) = json_skip_word self ''false''
      in if null then (True, r0, node_set_kind node Kind_null)
         else if true then (True, r1, node_set_flag (node_set_kind node Kind_bool) True)
         else if false then (True, r2, node_set_flag (node_set_kind node Kind_bool) False)
         else (False, json_fail self Bad_literal, node))"

text \<open>The three parts of a number; each says whether the grammar was kept.\<close>

definition json_integer_part :: "json_reader \<Rightarrow> bool \<times> json_reader" where
  "json_integer_part self =
     (let self = snd (json_skip_char self CHR ''-'');
          (zero, r) = json_skip_char self CHR ''0''
      in if zero then (\<not> char_is_digit (json_get_char r), r)
         else (let (n, r) = json_skip_digits self in (n \<noteq> 0, r)))"

definition json_fraction_part :: "json_reader \<Rightarrow> bool \<times> json_reader" where
  "json_fraction_part self =
     (let (dot, r) = json_skip_char self CHR ''.''
      in if dot then (let (n, r) = json_skip_digits r in (n \<noteq> 0, r)) else (True, r))"

definition json_exponent_part :: "json_reader \<Rightarrow> bool \<times> json_reader" where
  "json_exponent_part self =
     (let (small, r) = json_skip_char self CHR ''e'';
          (big, r) = (if small then (True, r) else json_skip_char self CHR ''E'')
      in if big then
           (let (plus, r') = json_skip_char r CHR ''+'';
                r'' = (if plus then r' else snd (json_skip_char r CHR ''-''));
                (n, s) = json_skip_digits r''
            in (n \<noteq> 0, s))
         else (True, r))"

definition json_read_number :: "json_reader \<Rightarrow> json_node \<Rightarrow> bool \<times> json_reader \<times> json_node" where
  "json_read_number self node =
     (let start = jr_pos self; (ok, r) = json_integer_part self
      in if \<not> ok then (False, json_fail r Bad_number, node)
         else (let (ok, r) = json_fraction_part r
               in if \<not> ok then (False, json_fail r Bad_number, node)
                  else (let (ok, r) = json_exponent_part r
                        in if \<not> ok then (False, json_fail r Bad_number, node)
                           else (True, r,
                             node_append_text (node_set_kind node Kind_number)
                               (take (jr_pos r - start) (drop start (jr_text r)))))))"

section \<open>Strings\<close>

primrec hex4_loop :: "nat \<Rightarrow> json_reader \<Rightarrow> u32 \<Rightarrow> bool \<times> json_reader \<times> u32" where
  "hex4_loop 0 self v = (True, self, v)"
| "hex4_loop (Suc n) self v =
     (let ch = json_get_char self
      in if \<not> char_is_xdigit ch then (False, json_fail self Bad_unicode, v)
         else hex4_loop n (json_advance self 1)
                (case digit_accumulate_radix v (char_to_xdigit ch) 16 of None \<Rightarrow> v | Some v' \<Rightarrow> v'))"

definition json_read_hex4 :: "json_reader \<Rightarrow> bool \<times> json_reader \<times> u32" where
  "json_read_hex4 self = hex4_loop 4 self 0"

definition json_put_code :: "json_reader \<Rightarrow> u32 \<Rightarrow> string \<Rightarrow> bool \<times> json_reader \<times> string" where
  "json_put_code self code out =
     (let bytes = utf8_encode 4 code
      in if length bytes = 0 then (False, json_fail self Bad_unicode, out) else (True, self, out @ bytes))"

definition json_read_unicode :: "json_reader \<Rightarrow> string \<Rightarrow> bool \<times> json_reader \<times> string" where
  "json_read_unicode self out =
     (let (ok, self, code) = json_read_hex4 self
      in if \<not> ok then (False, self, out)
         else if 0xDC00 \<le> code \<and> code \<le> 0xDFFF then (False, json_fail self Bad_unicode, out)
         else if 0xD800 \<le> code \<and> code \<le> 0xDBFF then
           (let (ok, self) = json_skip_word self [CHR 0x5C, CHR ''u'']
            in if \<not> ok then (False, json_fail self Bad_unicode, out)
               else
                 (let (ok, self, low) = json_read_hex4 self
                  in if \<not> ok \<or> low < 0xDC00 \<or> 0xDFFF < low then (False, json_fail self Bad_unicode, out)
                     else json_put_code self (0x10000 + (push_bit 10 (code - 0xD800) + (low - 0xDC00))) out))
         else json_put_code self code out)"

definition plain_escape :: "char \<Rightarrow> char option" where
  "plain_escape ch =
     (if ch = CHR 0x22 \<or> ch = CHR 0x5C \<or> ch = CHR ''/'' then Some ch
      else if ch = CHR ''b'' then Some CHR 0x08
      else if ch = CHR ''f'' then Some CHR 0x0C
      else if ch = CHR ''n'' then Some lf
      else if ch = CHR ''r'' then Some cr
      else if ch = CHR ''t'' then Some ht
      else None)"

definition json_read_escape :: "json_reader \<Rightarrow> string \<Rightarrow> bool \<times> json_reader \<times> string" where
  "json_read_escape self out =
     (let ch = json_get_char self
      in case plain_escape ch of
           Some plain \<Rightarrow> (True, json_advance self 1, out @ [plain])
         | None \<Rightarrow>
             if ch = CHR ''u'' then json_read_unicode (json_advance self 1) out
             else if json_is_end self then (False, json_fail_unexpected self, out)
             else (False, json_fail self Bad_escape, out))"

definition json_is_plain :: "char \<Rightarrow> bool" where
  "json_is_plain ch \<longleftrightarrow> ch \<noteq> CHR 0x22 \<and> ch \<noteq> CHR 0x5C \<and> 0x20 \<le> ord ch"

section \<open>Where the cursor goes\<close>

text \<open>What a reader still has to read, and a reader moved on by some characters.\<close>

definition json_rest :: "json_reader \<Rightarrow> string" where
  "json_rest r = drop (jr_pos r) (jr_text r)"

lemma is_end_rest: "json_is_end r \<longleftrightarrow> json_rest r = []"
  by (simp add: json_is_end_def json_rest_def)

lemma advance_simps [simp]:
  "json_rest (json_advance r n) = drop n (json_rest r)" "json_advance (json_advance r n) k = json_advance r (n + k)"
  "json_advance r 0 = r" "jr_depth (json_advance r n) = jr_depth r" "jr_error (json_advance r n) = jr_error r"
  "jr_text (json_advance r n) = jr_text r" "jr_pos (json_advance r n) = jr_pos r + n"
  by (simp_all add: json_rest_def json_advance_def add.commute add.assoc)

lemma peek_rest: "json_peek r i = (if i < length (json_rest r) then json_rest r ! i else CHR 0x00)"
  by (auto simp: json_peek_def json_rest_def Let_def)

lemma get_char_rest: "json_get_char r = (case json_rest r of [] \<Rightarrow> CHR 0x00 | c # s \<Rightarrow> c)"
  by (auto simp: json_get_char_def peek_rest split: list.split)

lemma skip_while_rest:
  "json_skip_while test r = json_advance r (length (takeWhile test (json_rest r)))"
proof (induction test r rule: json_skip_while.induct)
  case (1 test r)
  show ?case
  proof (cases "json_rest r")
    case (Cons c s)
    then show ?thesis
      using 1 by (subst json_skip_while.simps) (auto simp: is_end_rest get_char_rest)
  qed (subst json_skip_while.simps, simp add: is_end_rest)
qed

lemma skip_char_rest:
  "json_skip_char r ch = (case json_rest r of [] \<Rightarrow> (False, r) | c # s \<Rightarrow> if c = ch then (True, json_advance r 1) else (False, r))"
  by (auto simp: json_skip_char_def is_end_rest get_char_rest split: list.split)

lemma skip_digits_rest:
  "json_skip_digits r =
     (length (takeWhile char_is_digit (json_rest r)), json_advance r (length (takeWhile char_is_digit (json_rest r))))"
  by (simp add: json_skip_digits_def skip_while_rest Let_def)

lemma skip_word_rest:
  assumes "CHR 0x00 \<notin> set word"
  shows "json_skip_word r word =
     (if take (length word) (json_rest r) = word then (True, json_advance r (length word)) else (False, r))"
proof -
  have "(\<forall>i < length word. json_peek r i = word ! i) \<longleftrightarrow> take (length word) (json_rest r) = word"
  proof
    assume p: "\<forall>i < length word. json_peek r i = word ! i"
    have "i < length (json_rest r)" if "i < length word" for i
      using p that assms by (metis nth_mem peek_rest)
    then have l: "length word \<le> length (json_rest r)" by (meson not_less nat_less_le)
    show "take (length word) (json_rest r) = word"
      by (rule nth_equalityI) (use p l in \<open>auto simp: peek_rest\<close>)
  next
    assume t: "take (length word) (json_rest r) = word"
    then have "length word \<le> length (json_rest r)" by (metis length_take min.cobounded1)
    moreover have "json_rest r ! i = word ! i" if "i < length word" for i
      using that t by (metis nth_take)
    ultimately show "\<forall>i < length word. json_peek r i = word ! i" by (auto simp: peek_rest)
  qed
  then show ?thesis unfolding json_skip_word_def by auto
qed

text \<open>A read that succeeds is a step forward within the text; no read changes the text or the depth.\<close>

definition steps :: "json_reader \<Rightarrow> json_reader \<Rightarrow> bool" where
  "steps r r' \<longleftrightarrow> (\<exists>n \<le> length (json_rest r). r' = json_advance r n)"

lemma hex4_loop_rest:
  "hex4_loop n r v = (True, r', code) \<Longrightarrow>
   n \<le> length (json_rest r) \<and> r' = json_advance r n \<and> (\<forall>c \<in> set (take n (json_rest r)). char_is_xdigit c)"
proof (induction n arbitrary: r v)
  case (Suc n)
  then have x: "char_is_xdigit (json_get_char r)" by (auto simp: Let_def split: if_splits)
  then obtain c s where rest: "json_rest r = c # s"
    by (cases "json_rest r") (auto simp: get_char_rest char_is_xdigit_def char_is_digit_def)
  from Suc.prems x obtain w where "hex4_loop n (json_advance r 1) w = (True, r', code)" by (auto simp: Let_def)
  from Suc.IH [OF this] rest x show ?case by (simp add: get_char_rest)
qed simp

lemma read_hex4_rest:
  "json_read_hex4 r = (True, r', code) \<Longrightarrow> 4 \<le> length (json_rest r) \<and> r' = json_advance r 4"
  unfolding json_read_hex4_def by (drule hex4_loop_rest) simp

lemma put_code_rest: "json_put_code r code out = (True, r', out') \<Longrightarrow> r' = r"
  by (auto simp: json_put_code_def Let_def split: if_splits)

lemma read_unicode_steps:
  assumes "json_read_unicode r out = (True, r', out')"
  shows "steps r r'"
proof -
  obtain ok r1 code where h: "json_read_hex4 r = (ok, r1, code)" by (cases "json_read_hex4 r")
  have ok using assms by (auto simp: json_read_unicode_def h split: if_splits)
  note h1 = read_hex4_rest [OF h [unfolded \<open>ok\<close> [THEN eqTrueI]]]
  show ?thesis
  proof (cases "0xD800 \<le> code \<and> code \<le> 0xDBFF")
    case True
    then have nl: "\<not> (0xDC00 \<le> code \<and> code \<le> 0xDFFF)" by (auto simp: word_le_nat_alt)
    obtain b r2 where w: "json_skip_word r1 [CHR 0x5C, CHR ''u''] = (b, r2)" by fastforce
    obtain ok3 r3 low where g: "json_read_hex4 r2 = (ok3, r3, low)" by (cases "json_read_hex4 r2")
    have b ok3 and r': "r' = r3"
      using assms True nl by (auto simp: json_read_unicode_def h w g split: if_splits dest: put_code_rest)
    have t: "take 2 (json_rest r1) = [CHR 0x5C, CHR ''u'']" and "r2 = json_advance r1 2"
      using w \<open>b\<close> by (auto simp: skip_word_rest numeral_2_eq_2 split: if_splits)
    moreover have "2 \<le> length (json_rest r1)"
      using arg_cong [OF t, of length] by (simp add: min_def split: if_splits)
    ultimately show ?thesis
      using h1 read_hex4_rest [OF g [unfolded \<open>ok3\<close> [THEN eqTrueI]]] r'
      by (auto simp: steps_def intro!: exI [of _ 10])
  next
    case False
    then have "r' = r1" using assms by (auto simp: json_read_unicode_def h split: if_splits dest: put_code_rest)
    then show ?thesis using h1 by (auto simp: steps_def)
  qed
qed

lemma read_escape_steps:
  assumes "json_read_escape r out = (True, r', out')"
  shows "\<exists>n. 0 < n \<and> n \<le> length (json_rest r) \<and> r' = json_advance r n"
proof (cases "json_rest r")
  case Nil
  then show ?thesis using assms by (auto simp: json_read_escape_def get_char_rest plain_escape_def is_end_rest Let_def)
next
  case (Cons c s)
  show ?thesis
  proof (cases "plain_escape c")
    case None
    then have "json_read_unicode (json_advance r 1) out = (True, r', out')"
      using assms Cons by (auto simp: json_read_escape_def get_char_rest is_end_rest Let_def split: if_splits)
    then obtain n where "n \<le> length s" "r' = json_advance r (1 + n)"
      using read_unicode_steps Cons by (fastforce simp: steps_def)
    with Cons show ?thesis by auto
  next
    case (Some p)
    then have "r' = json_advance r 1" using assms Cons by (auto simp: json_read_escape_def get_char_rest Let_def)
    with Cons show ?thesis by auto
  qed
qed

section \<open>Whole strings\<close>

text \<open>
  One turn of the loop after the opening quote: a run of plain characters, then the end, a quote or an
  escape. The first component is what the function returns, or \<open>None\<close> when the loop goes on.
\<close>

definition json_string_turn :: "json_reader \<Rightarrow> string \<Rightarrow> bool option \<times> json_reader \<times> string" where
  "json_string_turn self out =
     (let start = jr_pos self;
          self = json_skip_while json_is_plain self;
          out = (if start < jr_pos self then out @ take (jr_pos self - start) (drop start (jr_text self)) else out)
      in if json_is_end self then (Some False, json_fail_unexpected self, out)
         else
           (let (quote, r) = json_skip_char self CHR 0x22
            in if quote then (Some True, r, out)
               else
                 (let (slash, r) = json_skip_char self CHR 0x5C
                  in if \<not> slash then (Some False, json_fail self Bad_string, out)
                     else (let (ok, r, out) = json_read_escape r out
                           in (if ok then None else Some False, r, out)))))"

lemma string_turn_rest:
  assumes "json_rest r = run @ s" "\<forall>c \<in> set run. json_is_plain c" "s = [] \<or> \<not> json_is_plain (hd s)"
  defines "r1 \<equiv> json_advance r (length run)"
  shows "json_string_turn r out =
     (case s of
        [] \<Rightarrow> (Some False, json_fail_unexpected r1, out @ run)
      | c # s' \<Rightarrow> if c = CHR 0x22 then (Some True, json_advance r1 1, out @ run)
                  else if c \<noteq> CHR 0x5C then (Some False, json_fail r1 Bad_string, out @ run)
                  else case json_read_escape (json_advance r1 1) (out @ run) of
                         (ok, r2, out2) \<Rightarrow> (if ok then None else Some False, r2, out2))"
proof -
  have tw: "takeWhile json_is_plain (run @ s) = run" using assms(2, 3) by (cases s) (auto simp: takeWhile_append)
  have r1: "json_skip_while json_is_plain r = r1" by (simp add: skip_while_rest assms(1) tw r1_def)
  have out: "(if jr_pos r < jr_pos r1 then out @ take (jr_pos r1 - jr_pos r) (drop (jr_pos r) (jr_text r1)) else out) = out @ run"
    using assms(1) by (auto simp: r1_def json_rest_def)
  have rest: "json_rest r1 = s" using assms(1) by (simp add: r1_def)
  show ?thesis
    unfolding json_string_turn_def Let_def r1 out
    by (cases s) (simp_all add: is_end_rest rest skip_char_rest)
qed

lemma plain_run: "\<exists>run s. xs = run @ s \<and> (\<forall>c \<in> set run. json_is_plain c) \<and> (s = [] \<or> \<not> json_is_plain (hd s))"
  by (rule exI [of _ "takeWhile json_is_plain xs"], rule exI [of _ "dropWhile json_is_plain xs"])
    (use hd_dropWhile [of json_is_plain xs] in \<open>auto dest: set_takeWhileD\<close>)

lemma string_turn_continues:
  assumes "json_string_turn r out = (None, r', out')"
  shows "length (json_rest r') < length (json_rest r)"
proof -
  obtain run s where rs: "json_rest r = run @ s" "\<forall>c \<in> set run. json_is_plain c" "s = [] \<or> \<not> json_is_plain (hd s)"
    using plain_run by blast
  from assms obtain c s' where s: "s = c # s'"
    and e: "json_read_escape (json_advance r (length run + 1)) (out @ run) = (True, r', out')"
    unfolding string_turn_rest [OF rs] by (cases s) (auto split: if_splits prod.splits)
  show ?thesis using read_escape_steps [OF e] rs(1) s by auto
qed

function json_string_loop :: "json_reader \<Rightarrow> string \<Rightarrow> bool \<times> json_reader \<times> string" where
  "json_string_loop self out =
     (case json_string_turn self out of
        (Some ok, r, out) \<Rightarrow> (ok, r, out)
      | (None, r, out) \<Rightarrow> json_string_loop r out)"
  by auto
termination
  by (relation "measure (\<lambda>(r, _). length (json_rest r))") (auto dest!: string_turn_continues [OF sym])

declare json_string_loop.simps [simp del]

definition json_read_string_into :: "json_reader \<Rightarrow> string \<Rightarrow> bool \<times> json_reader \<times> string" where
  "json_read_string_into self out =
     (let (quote, r) = json_skip_char self CHR 0x22
      in if \<not> quote then (False, json_fail_unexpected self, out) else json_string_loop r out)"

definition json_read_string :: "json_reader \<Rightarrow> json_node \<Rightarrow> bool \<times> json_reader \<times> json_node" where
  "json_read_string self node =
     (let node = node_set_kind node Kind_string;
          (ok, r, text) = json_read_string_into self (node_text node)
      in (ok, r, node_set_text node text))"

section \<open>Values, objects and arrays\<close>

text \<open>
  A child is in the tree before it is read, so on every way out it is the last child of the node.
\<close>

fun json_read_value :: "nat \<Rightarrow> json_reader \<Rightarrow> json_node \<Rightarrow> (bool \<times> json_reader \<times> json_node) option"
  and json_read_object :: "nat \<Rightarrow> json_reader \<Rightarrow> json_node \<Rightarrow> (bool \<times> json_reader \<times> json_node) option"
  and json_read_members :: "nat \<Rightarrow> json_reader \<Rightarrow> json_node \<Rightarrow> (bool \<times> json_reader \<times> json_node) option"
  and json_read_array :: "nat \<Rightarrow> json_reader \<Rightarrow> json_node \<Rightarrow> (bool \<times> json_reader \<times> json_node) option"
  and json_read_elements :: "nat \<Rightarrow> json_reader \<Rightarrow> json_node \<Rightarrow> (bool \<times> json_reader \<times> json_node) option" where
  "json_read_value 0 self node = None"
| "json_read_value (Suc n) self node =
     (let ch = json_get_char self
      in if json_is_end self then Some (False, json_fail_unexpected self, node)
         else if ch = CHR ''{'' then json_read_object n self node
         else if ch = CHR ''['' then json_read_array n self node
         else if ch = CHR 0x22 then Some (json_read_string self node)
         else if ch = CHR ''n'' \<or> ch = CHR ''t'' \<or> ch = CHR ''f'' then Some (json_read_literal self node)
         else if ch = CHR ''-'' \<or> char_is_digit ch then Some (json_read_number self node)
         else Some (False, json_fail_unexpected self, node))"
| "json_read_object 0 self node = None"
| "json_read_object (Suc n) self node =
     (let (brace, r) = json_skip_char self CHR ''{''
      in if \<not> brace then Some (False, json_fail_unexpected self, node)
         else
           (let (ok, r) = json_enter r
            in if \<not> ok then Some (False, r, node)
               else
                 (let node = node_set_kind node Kind_object;
                      r = json_skip_whitespace r;
                      (close, r') = json_skip_char r CHR ''}''
                  in if close then Some (True, json_leave r', node) else json_read_members n r node)))"
| "json_read_members 0 self node = None"
| "json_read_members (Suc n) self node =
     (let child = json_node_init;
          (ok, r, key) = json_read_string_into self (node_key child);
          child = node_set_key child key
      in if \<not> ok then Some (False, r, node_push_back node child)
         else
           (let r = json_skip_whitespace r;
                (colon, r') = json_skip_char r CHR '':''
            in if \<not> colon then Some (False, json_fail_unexpected r, node_push_back node child)
               else
                 (case json_read_value n (json_skip_whitespace r') child of
                    None \<Rightarrow> None
                  | Some (ok, r, child) \<Rightarrow>
                      let node = node_push_back node child
                      in if \<not> ok then Some (False, r, node)
                         else
                           (let r = json_skip_whitespace r;
                                (close, r') = json_skip_char r CHR ''}'';
                                (comma, r'') = json_skip_char r CHR '',''
                            in if close then Some (True, json_leave r', node)
                               else if \<not> comma then Some (False, json_fail_unexpected r, node)
                               else json_read_members n (json_skip_whitespace r'') node))))"
| "json_read_array 0 self node = None"
| "json_read_array (Suc n) self node =
     (let (bracket, r) = json_skip_char self CHR ''[''
      in if \<not> bracket then Some (False, json_fail_unexpected self, node)
         else
           (let (ok, r) = json_enter r
            in if \<not> ok then Some (False, r, node)
               else
                 (let node = node_set_kind node Kind_array;
                      r = json_skip_whitespace r;
                      (close, r') = json_skip_char r CHR '']''
                  in if close then Some (True, json_leave r', node) else json_read_elements n r node)))"
| "json_read_elements 0 self node = None"
| "json_read_elements (Suc n) self node =
     (case json_read_value n self json_node_init of
        None \<Rightarrow> None
      | Some (ok, r, child) \<Rightarrow>
          let node = node_push_back node child
          in if \<not> ok then Some (False, r, node)
             else
               (let r = json_skip_whitespace r;
                    (close, r') = json_skip_char r CHR '']'';
                    (comma, r'') = json_skip_char r CHR '',''
                in if close then Some (True, json_leave r', node)
                   else if \<not> comma then Some (False, json_fail_unexpected r, node)
                   else json_read_elements n (json_skip_whitespace r'') node))"

definition json_read :: "json_reader \<Rightarrow> json_node \<Rightarrow> (bool \<times> json_reader \<times> json_node) option" where
  "json_read self node =
     (if json_has_error self then Some (False, self, node)
      else
        (let self = json_skip_whitespace self
         in case json_read_value (3 * length (json_rest self) + 1) self node of
              None \<Rightarrow> None
            | Some (ok, r, node) \<Rightarrow>
                if \<not> ok then Some (False, r, node)
                else
                  (let r = json_skip_whitespace r
                   in if \<not> json_is_end r then Some (False, json_fail r Trailing, node) else Some (True, r, node))))"

text \<open>A number given as text must be one number and nothing else.\<close>

definition node_set_number :: "json_node \<Rightarrow> string \<Rightarrow> bool \<times> json_node" where
  "node_set_number self text =
     (let (ok, r, node) = json_read_number (json_reader_init text) (node_clear self)
      in if \<not> ok \<or> \<not> json_is_end r then (False, node_clear node) else (True, node))"

end
