(* ===== verification/Json_Number.thy ===== *)
theory Json_Number
  imports Json_Reader
begin

text \<open>
  The grammar of JSON numbers (RFC 8259, section 6), part by part, and the exactness of the reader of
  numbers: it reads a text of the grammar when nothing behind makes the number longer, and what it has
  read is such a text.
\<close>

section \<open>The grammar of numbers\<close>

definition digits1 :: "string \<Rightarrow> bool" where
  "digits1 s \<longleftrightarrow> s \<noteq> [] \<and> list_all char_is_digit s"

definition integer_text :: "string \<Rightarrow> bool" where
  "integer_text a \<longleftrightarrow> (\<exists>i. (a = i \<or> a = CHR ''-'' # i) \<and> (i = ''0'' \<or> digits1 i \<and> hd i \<noteq> CHR ''0''))"

definition fraction_text :: "string \<Rightarrow> bool" where
  "fraction_text f \<longleftrightarrow> f = [] \<or> (\<exists>d. f = CHR ''.'' # d \<and> digits1 d)"

definition exponent_text :: "string \<Rightarrow> bool" where
  "exponent_text e \<longleftrightarrow> e = [] \<or>
     (\<exists>x g d. e = x # g @ d \<and> (x = CHR ''e'' \<or> x = CHR ''E'') \<and> (g = [] \<or> g = ''+'' \<or> g = ''-'') \<and> digits1 d)"

definition number_text :: "string \<Rightarrow> bool" where
  "number_text t \<longleftrightarrow> (\<exists>a f e. t = a @ f @ e \<and> integer_text a \<and> fraction_text f \<and> exponent_text e)"

text \<open>What may stand after a number: nothing that would make it longer.\<close>

definition ends_digits :: "string \<Rightarrow> bool" where
  "ends_digits u \<longleftrightarrow> u = [] \<or> \<not> char_is_digit (hd u)"

definition ends_number :: "string \<Rightarrow> bool" where
  "ends_number u \<longleftrightarrow> u = [] \<or> \<not> (char_is_digit (hd u) \<or> hd u = CHR ''.'' \<or> hd u = CHR ''e'' \<or> hd u = CHR ''E'')"

lemma not_digit [simp]:
  "\<not> char_is_digit CHR ''-''" "\<not> char_is_digit CHR ''+''" "\<not> char_is_digit CHR ''.''" "\<not> char_is_digit CHR ''e''"
  "\<not> char_is_digit CHR ''E''" "char_is_digit CHR ''0''" "\<not> char_is_digit CHR 0x00"
  by (simp_all add: char_is_digit_def)

lemma run_of_digits:
  "list_all char_is_digit d \<Longrightarrow> ends_digits u \<Longrightarrow> takeWhile char_is_digit (d @ u) = d"
  by (cases u) (auto simp: ends_digits_def takeWhile_append list_all_iff)

lemma digits_run:
  obtains d u where "s = d @ u" "list_all char_is_digit d" "ends_digits u" "takeWhile char_is_digit s = d"
proof
  show "s = takeWhile char_is_digit s @ dropWhile char_is_digit s" by simp
  show "list_all char_is_digit (takeWhile char_is_digit s)" by (auto simp: list_all_iff dest: set_takeWhileD)
  show "ends_digits (dropWhile char_is_digit s)"
    using hd_dropWhile [of char_is_digit s] by (auto simp: ends_digits_def)
qed simp

lemma digits1_Cons: "digits1 s \<Longrightarrow> \<exists>c t. s = c # t \<and> char_is_digit c \<and> list_all char_is_digit t"
  by (cases s) (auto simp: digits1_def)

lemma optional_char:
  obtains m s where "xs = m @ s" "m = [] \<and> (s = [] \<or> hd s \<noteq> c) \<or> m = [c]"
proof (cases "xs \<noteq> [] \<and> hd xs = c")
  case True
  then have "xs = [c] @ tl xs" by (cases xs) auto
  then show ?thesis using that by blast
next
  case False
  then show ?thesis using that [of "[]" xs] by auto
qed

text \<open>The parts of a number, read.\<close>

lemma integer_part_reads:
  assumes "json_rest r = a @ u" "integer_text a" "ends_digits u"
  shows "json_integer_part r = (True, json_advance r (length a))"
proof -
  from assms(2) obtain i where a: "a = i \<or> a = CHR ''-'' # i" and i: "i = ''0'' \<or> digits1 i \<and> hd i \<noteq> CHR ''0''"
    by (auto simp: integer_text_def)
  have u: "\<not> char_is_digit (case u of [] \<Rightarrow> CHR 0x00 | c # s \<Rightarrow> c)"
    using assms(3) by (cases u) (auto simp: ends_digits_def)
  from i show ?thesis
  proof
    assume "i = ''0''"
    with a assms(1) u show ?thesis
      by (auto simp: json_integer_part_def skip_char_rest get_char_rest Let_def split: list.splits)
  next
    assume d: "digits1 i \<and> hd i \<noteq> CHR ''0''"
    then obtain c t where ct: "i = c # t" "char_is_digit c" "c \<noteq> CHR ''0''" using digits1_Cons by fastforce
    have "c \<noteq> CHR ''-''" using ct by auto
    moreover have "takeWhile char_is_digit (i @ u) = i" using d assms(3) run_of_digits by (simp add: digits1_def)
    ultimately show ?thesis
      using a assms(1) ct by (auto simp: json_integer_part_def skip_char_rest skip_digits_rest Let_def)
  qed
qed

lemma integer_part_sound:
  assumes "json_integer_part r = (True, r')"
  shows "\<exists>a u. json_rest r = a @ u \<and> r' = json_advance r (length a) \<and> integer_text a"
proof -
  obtain m s where ms: "json_rest r = m @ s" "m = [] \<and> (s = [] \<or> hd s \<noteq> CHR ''-'') \<or> m = ''-''"
    by (rule optional_char [of "json_rest r" "CHR ''-''"])
  then have r1: "snd (json_skip_char r CHR ''-'') = json_advance r (length m)"
    by (auto simp: skip_char_rest split: list.split)
  have rest: "json_rest (json_advance r (length m)) = s" using ms by simp
  show ?thesis
  proof (cases "s \<noteq> [] \<and> hd s = CHR ''0''")
    case True
    then obtain t where "s = CHR ''0'' # t" by (cases s) auto
    then have "r' = json_advance r (length (m @ ''0''))" "json_rest r = (m @ ''0'') @ t"
      using assms ms r1 rest by (auto simp: json_integer_part_def skip_char_rest Let_def split: list.splits if_splits)
    moreover have "integer_text (m @ ''0'')" using ms(2) by (auto simp: integer_text_def)
    ultimately show ?thesis by blast
  next
    case False
    obtain d u where d: "s = d @ u" "list_all char_is_digit d" "takeWhile char_is_digit s = d" by (rule digits_run)
    have "json_skip_char (json_advance r (length m)) CHR ''0'' = (False, json_advance r (length m))"
      using False rest by (auto simp: skip_char_rest split: list.split)
    then have "d \<noteq> []" "r' = json_advance r (length (m @ d))"
      using assms rest d(3) by (auto simp: json_integer_part_def r1 skip_digits_rest Let_def)
    moreover have "integer_text (m @ d)"
      using ms(2) d \<open>d \<noteq> []\<close> False by (auto simp: integer_text_def digits1_def)
    moreover have "json_rest r = (m @ d) @ u" using ms d by simp
    ultimately show ?thesis by blast
  qed
qed

lemma fraction_part_reads:
  assumes "json_rest r = f @ u" "fraction_text f" "ends_digits u" "f = [] \<Longrightarrow> u = [] \<or> hd u \<noteq> CHR ''.''"
  shows "json_fraction_part r = (True, json_advance r (length f))"
proof (cases "f = []")
  case True
  with assms show ?thesis by (auto simp: json_fraction_part_def skip_char_rest Let_def split: list.splits)
next
  case False
  then obtain d where "f = CHR ''.'' # d" "digits1 d" using assms(2) by (auto simp: fraction_text_def)
  moreover from this have "takeWhile char_is_digit (d @ u) = d" using assms(3) run_of_digits by (simp add: digits1_def)
  ultimately show ?thesis
    using assms(1) by (auto simp: json_fraction_part_def skip_char_rest skip_digits_rest digits1_def Let_def)
qed

lemma fraction_part_sound:
  assumes "json_fraction_part r = (True, r')"
  shows "\<exists>f u. json_rest r = f @ u \<and> r' = json_advance r (length f) \<and> fraction_text f"
proof (cases "json_rest r \<noteq> [] \<and> hd (json_rest r) = CHR ''.''")
  case True
  then obtain s where s: "json_rest r = CHR ''.'' # s" by (cases "json_rest r") auto
  obtain d u where d: "s = d @ u" "list_all char_is_digit d" "takeWhile char_is_digit s = d" by (rule digits_run)
  have "d \<noteq> []" "r' = json_advance r (length (CHR ''.'' # d))"
    using assms s d(3) by (auto simp: json_fraction_part_def skip_char_rest skip_digits_rest Let_def)
  moreover have "fraction_text (CHR ''.'' # d)" using \<open>d \<noteq> []\<close> d by (auto simp: fraction_text_def digits1_def)
  moreover have "json_rest r = (CHR ''.'' # d) @ u" using s d by simp
  ultimately show ?thesis by blast
next
  case False
  then have "r' = r" using assms by (auto simp: json_fraction_part_def skip_char_rest Let_def split: list.splits)
  then show ?thesis by (intro exI [of _ "[]"] exI [of _ "json_rest r"]) (simp add: fraction_text_def)
qed

lemma exponent_part_reads:
  assumes "json_rest r = e @ u" "exponent_text e" "ends_digits u"
    and "e = [] \<Longrightarrow> u = [] \<or> hd u \<noteq> CHR ''e'' \<and> hd u \<noteq> CHR ''E''"
  shows "json_exponent_part r = (True, json_advance r (length e))"
proof (cases "e = []")
  case True
  with assms show ?thesis by (auto simp: json_exponent_part_def skip_char_rest Let_def split: list.splits)
next
  case False
  then obtain x g d where e: "e = x # g @ d" "x = CHR ''e'' \<or> x = CHR ''E''" "g = [] \<or> g = ''+'' \<or> g = ''-''" "digits1 d"
    using assms(2) by (auto simp: exponent_text_def)
  have "takeWhile char_is_digit (d @ u) = d" using e(4) assms(3) run_of_digits by (simp add: digits1_def)
  moreover obtain c t where "d = c # t" and c: "char_is_digit c" using digits1_Cons [OF e(4)] by blast
  moreover have "c \<noteq> CHR ''+''" "c \<noteq> CHR ''-''" using c by auto
  ultimately show ?thesis
    using assms(1) e by (auto simp: json_exponent_part_def skip_char_rest skip_digits_rest Let_def)
qed

lemma exponent_sign:
  assumes "json_rest r = g @ s" "g = [] \<and> (s = [] \<or> hd s \<noteq> CHR ''+'' \<and> hd s \<noteq> CHR ''-'') \<or> g = ''+'' \<or> g = ''-''"
  shows "(let (plus, r') = json_skip_char r CHR ''+'' in if plus then r' else snd (json_skip_char r CHR ''-'')) = json_advance r (length g)"
  using assms by (auto simp: skip_char_rest split: list.split)

lemma sign_cases:
  obtains g s where "xs = g @ s" "g = [] \<and> (s = [] \<or> hd s \<noteq> CHR ''+'' \<and> hd s \<noteq> CHR ''-'') \<or> g = ''+'' \<or> g = ''-''"
proof (cases "xs \<noteq> [] \<and> (hd xs = CHR ''+'' \<or> hd xs = CHR ''-'')")
  case True
  then have "xs = [hd xs] @ tl xs" by (cases xs) auto
  then show ?thesis using that [of "[hd xs]" "tl xs"] True by auto
next
  case False
  then show ?thesis using that [of "[]" xs] by auto
qed

lemma exponent_part_sound:
  assumes "json_exponent_part r = (True, r')"
  shows "\<exists>e u. json_rest r = e @ u \<and> r' = json_advance r (length e) \<and> exponent_text e"
proof (cases "json_rest r \<noteq> [] \<and> (hd (json_rest r) = CHR ''e'' \<or> hd (json_rest r) = CHR ''E'')")
  case True
  then obtain x s where x: "json_rest r = x # s" "x = CHR ''e'' \<or> x = CHR ''E''" by (cases "json_rest r") auto
  obtain g t where g: "s = g @ t" "g = [] \<and> (t = [] \<or> hd t \<noteq> CHR ''+'' \<and> hd t \<noteq> CHR ''-'') \<or> g = ''+'' \<or> g = ''-''"
    by (rule sign_cases)
  obtain d u where d: "t = d @ u" "list_all char_is_digit d" "takeWhile char_is_digit t = d" by (rule digits_run)
  have "json_rest (json_advance r 1) = g @ t" using x g by simp
  note sg = exponent_sign [OF this g(2), unfolded Let_def case_prod_beta]
  have "json_exponent_part r = (d \<noteq> [], json_advance r (length (x # g @ d)))"
  proof -
    have big: "(let (small, r') = json_skip_char r CHR ''e'' in if small then (True, r') else json_skip_char r CHR ''E'') =
        (True, json_advance r 1)" using x by (auto simp: skip_char_rest)
    have digits: "json_skip_digits (json_advance (json_advance r 1) (length g)) = (length d, json_advance r (length (x # g @ d)))"
      using x g d(3) by (simp add: skip_digits_rest)
    show ?thesis
      unfolding json_exponent_part_def Let_def case_prod_beta big [unfolded Let_def case_prod_beta] fst_conv snd_conv if_True sg digits
      by simp
  qed
  then have "d \<noteq> []" "r' = json_advance r (length (x # g @ d))" using assms by simp_all
  moreover have "exponent_text (x # g @ d)"
  proof -
    have "digits1 d" using \<open>d \<noteq> []\<close> d(2) by (simp add: digits1_def)
    moreover have "g = [] \<or> g = ''+'' \<or> g = ''-''" using g(2) by blast
    ultimately show ?thesis unfolding exponent_text_def using x(2) by blast
  qed
  moreover have "json_rest r = (x # g @ d) @ u" using x g d by simp
  ultimately show ?thesis by blast
next
  case False
  then have "r' = r" using assms by (auto simp: json_exponent_part_def skip_char_rest Let_def split: list.splits)
  then show ?thesis by (intro exI [of _ "[]"] exI [of _ "json_rest r"]) (simp add: exponent_text_def)
qed

lemma ends_parts:
  assumes "ends_number u" "exponent_text e" "fraction_text f"
  shows "ends_digits (f @ e @ u)" "ends_digits (e @ u)" "ends_digits u"
    "f = [] \<Longrightarrow> e @ u = [] \<or> hd (e @ u) \<noteq> CHR ''.''" "e = [] \<Longrightarrow> u = [] \<or> hd u \<noteq> CHR ''e'' \<and> hd u \<noteq> CHR ''E''"
  using assms by (auto simp: ends_number_def ends_digits_def exponent_text_def fraction_text_def)

lemma read_number_reads:
  assumes "json_rest r = t @ u" "number_text t" "ends_number u"
  shows "json_read_number r node = (True, json_advance r (length t), node_append_text (node_set_kind node Kind_number) t)"
proof -
  from assms(2) obtain a f e where t: "t = a @ f @ e" "integer_text a" "fraction_text f" "exponent_text e"
    by (auto simp: number_text_def)
  note ends = ends_parts [OF assms(3) t(4, 3)]
  have 1: "json_integer_part r = (True, json_advance r (length a))"
    using integer_part_reads [of r a "f @ e @ u"] assms(1) t ends by simp
  have 2: "json_fraction_part (json_advance r (length a)) = (True, json_advance r (length (a @ f)))"
    using fraction_part_reads [of "json_advance r (length a)" f "e @ u"] assms(1) t ends by simp
  have 3: "json_exponent_part (json_advance r (length (a @ f))) = (True, json_advance r (length t))"
    using exponent_part_reads [of "json_advance r (length (a @ f))" e u] assms(1) t ends by (simp add: add.assoc)
  have "take (length t) (drop (jr_pos r) (jr_text r)) = t" using assms(1) by (simp add: json_rest_def)
  then show ?thesis by (simp add: json_read_number_def Let_def 1 2 [simplified] 3 [simplified])
qed

lemma read_number_sound:
  assumes "json_read_number r node = (True, r', node')"
  shows "\<exists>t u. json_rest r = t @ u \<and> number_text t \<and> r' = json_advance r (length t) \<and>
     node' = node_append_text (node_set_kind node Kind_number) t"
proof -
  obtain r1 where 1: "json_integer_part r = (True, r1)"
    using assms by (cases "json_integer_part r") (auto simp: json_read_number_def Let_def split: if_splits)
  obtain r2 where 2: "json_fraction_part r1 = (True, r2)"
    using assms 1 by (cases "json_fraction_part r1") (auto simp: json_read_number_def Let_def split: if_splits)
  obtain r3 where 3: "json_exponent_part r2 = (True, r3)"
    using assms 1 2 by (cases "json_exponent_part r2") (auto simp: json_read_number_def Let_def split: if_splits)
  obtain a u1 where a: "json_rest r = a @ u1" "r1 = json_advance r (length a)" "integer_text a"
    using integer_part_sound [OF 1] by blast
  obtain f u2 where f: "json_rest r1 = f @ u2" "r2 = json_advance r1 (length f)" "fraction_text f"
    using fraction_part_sound [OF 2] by blast
  obtain e u where e: "json_rest r2 = e @ u" "r3 = json_advance r2 (length e)" "exponent_text e"
    using exponent_part_sound [OF 3] by blast
  let ?t = "a @ f @ e"
  have rest: "json_rest r = ?t @ u" using a f e by simp
  then have "take (length ?t) (drop (jr_pos r) (jr_text r)) = ?t" by (simp add: json_rest_def)
  moreover have "r3 = json_advance r (length ?t)" using a f e by (simp add: add.assoc)
  ultimately have "r' = json_advance r (length ?t)" "node' = node_append_text (node_set_kind node Kind_number) ?t"
    using assms by (simp_all add: json_read_number_def Let_def 1 2 3)
  moreover have "number_text ?t" using a f e by (auto simp: number_text_def)
  ultimately show ?thesis using rest by blast
qed

end
