(* ===== verification/Json_String.thy ===== *)
theory Json_String
  imports Json_Number
begin

text \<open>
  The grammar of JSON strings (RFC 8259, section 7) as a relation between the text between the quotes and
  the string it stands for, and the exactness of the reader of strings. A zero and a surrogate without
  its other half have no place in a string, as in the reader.
\<close>

section \<open>The grammar of strings\<close>

definition hex4 :: "string \<Rightarrow> nat \<Rightarrow> bool" where
  "hex4 h v \<longleftrightarrow> length h = 4 \<and> list_all char_is_xdigit h \<and> v = digits_value 16 char_to_xdigit 0 h"

text \<open>
  What may stand after a backslash, and what it means: a character by its name, or a code point of the
  basic plane but zero and the surrogates, or a pair of surrogates that makes a code point above it.
\<close>

inductive escape_text :: "string \<Rightarrow> string \<Rightarrow> bool" where
  escape_name: "plain_escape c = Some p \<Longrightarrow> escape_text [c] [p]"
| escape_unit: "hex4 h v \<Longrightarrow> v \<noteq> 0 \<Longrightarrow> v < 0xD800 \<or> 0xDFFF < v \<Longrightarrow>
    escape_text (CHR ''u'' # h) (utf8_encode 4 (of_nat v))"
| escape_pair: "hex4 h hi \<Longrightarrow> 0xD800 \<le> hi \<Longrightarrow> hi \<le> 0xDBFF \<Longrightarrow> hex4 l lo \<Longrightarrow> 0xDC00 \<le> lo \<Longrightarrow> lo \<le> 0xDFFF \<Longrightarrow>
    escape_text (CHR ''u'' # h @ CHR 0x5C # CHR ''u'' # l)
      (utf8_encode 4 (of_nat (0x10000 + (hi - 0xD800) * 1024 + (lo - 0xDC00))))"

text \<open>The text between the quotes, and the string it stands for.\<close>

inductive string_body :: "string \<Rightarrow> string \<Rightarrow> bool" where
  body_end: "string_body [] []"
| body_plain: "json_is_plain c \<Longrightarrow> string_body s t \<Longrightarrow> string_body (c # s) (c # t)"
| body_escape: "escape_text e p \<Longrightarrow> string_body s t \<Longrightarrow> string_body (CHR 0x5C # e @ s) (p @ t)"

subsection \<open>Four hexadecimal digits\<close>

lemma hex4_loop_reads:
  assumes "json_rest r = h @ u" "list_all char_is_xdigit h" "(unat v + 1) * 16 ^ length h \<le> 2 ^ 32"
  shows "hex4_loop (length h) r v = (True, json_advance r (length h), of_nat (digits_value 16 char_to_xdigit (unat v) h))"
  using assms
proof (induction h arbitrary: r v)
  case (Cons c h)
  let ?w = "unat v * 16 + unat (char_to_xdigit c)"
  have c: "unat (char_to_xdigit c) < 16" using Cons.prems(2) xdigit_value by simp
  have "(?w + 1) * 16 ^ length h \<le> (unat v + 1) * 16 * 16 ^ length h" using c by (intro mult_right_mono) auto
  also have "\<dots> \<le> 2 ^ 32" using Cons.prems(3) by (simp add: algebra_simps)
  finally have le: "(?w + 1) * 16 ^ length h \<le> 2 ^ 32" .
  have "(?w + 1) * 1 \<le> (?w + 1) * 16 ^ length h" by (rule mult_le_mono2) simp
  from order_trans [OF this le] have w: "?w < 2 ^ 32" by simp
  then have acc: "digit_accumulate_radix v (char_to_xdigit c) 16 = Some (of_nat ?w)"
    by (subst accumulate_exact) (simp_all add: c)
  have u: "unat (of_nat ?w :: u32) = ?w" using w by (intro unat_of_nat_small) simp
  have "hex4_loop (length h) (json_advance r 1) (of_nat ?w) =
      (True, json_advance (json_advance r 1) (length h), of_nat (digits_value 16 char_to_xdigit (unat (of_nat ?w :: u32)) h))"
    using Cons.prems le u by (intro Cons.IH) simp_all
  note this [unfolded u]
  then show ?case using Cons.prems by (simp add: Let_def get_char_rest acc)
qed simp

lemma read_hex4_reads:
  assumes "json_rest r = h @ u" "hex4 h v"
  shows "json_read_hex4 r = (True, json_advance r 4, of_nat v)"
  using hex4_loop_reads [of r h u 0] assms by (simp add: json_read_hex4_def hex4_def)

lemma hex4_bound: "hex4 h v \<Longrightarrow> v < 65536"
proof -
  have "digits_value 16 char_to_xdigit n h < (n + 1) * 16 ^ length h" if "list_all char_is_xdigit h" for n
    using that
  proof (induction h arbitrary: n)
    case (Cons c h)
    have "digits_value 16 char_to_xdigit n (c # h) < (n * 16 + unat (char_to_xdigit c) + 1) * 16 ^ length h"
      using Cons.IH [of "n * 16 + unat (char_to_xdigit c)"] Cons.prems by simp
    also have "\<dots> \<le> (n + 1) * 16 * 16 ^ length h"
      using xdigit_value [of c] Cons.prems by (intro mult_right_mono) auto
    finally show ?case by (simp only: list.size power_add power_one_right add_0 power_Suc mult.assoc mult.commute [of 16] One_nat_def add_Suc_right)
        (simp add: algebra_simps)
  qed simp
  from this [of 0] show "v < 65536" if "hex4 h v" using that by (simp add: hex4_def)
qed

lemma read_hex4_sound:
  assumes "json_read_hex4 r = (True, r', code)"
  shows "\<exists>h v u. json_rest r = h @ u \<and> hex4 h v \<and> r' = json_advance r 4 \<and> code = of_nat v \<and> unat code = v"
proof -
  let ?h = "take 4 (json_rest r)"
  have l: "4 \<le> length (json_rest r)" and x: "list_all char_is_xdigit ?h"
    using hex4_loop_rest [OF assms [unfolded json_read_hex4_def]] by (simp_all add: list_all_iff)
  have h: "hex4 ?h (digits_value 16 char_to_xdigit 0 ?h)" using l x by (simp add: hex4_def)
  have "json_rest r = ?h @ drop 4 (json_rest r)" by simp
  from read_hex4_reads [OF this h] assms have "r' = json_advance r 4" "code = of_nat (digits_value 16 char_to_xdigit 0 ?h)" by simp_all
  moreover have "unat (of_nat (digits_value 16 char_to_xdigit 0 ?h) :: u32) = digits_value 16 char_to_xdigit 0 ?h"
    using hex4_bound [OF h] by (simp add: unat_of_nat take_bit_eq_mod)
  ultimately show ?thesis using h \<open>json_rest r = _\<close> by blast
qed

subsection \<open>Escapes\<close>

lemma encoded_4:
  fixes v :: nat
  assumes "v \<noteq> 0" "v \<le> 0x10FFFF" "v < 0xD800 \<or> 0xDFFF < v"
  shows "utf8_encode 4 (of_nat v) \<noteq> []"
proof -
  have u: "unat (of_nat v :: u32) = v" using assms(2) by (simp add: unat_of_nat take_bit_eq_mod)
  have "(of_nat v :: u32) \<noteq> 0" using u assms(1) by (metis unat_0)
  then have n: "utf8_get_encoded_size (of_nat v) \<noteq> 0" "utf8_get_encoded_size (of_nat v) \<le> 4"
    using assms u by (auto simp: utf8_get_encoded_size_def word_less_nat_alt word_le_nat_alt)
  then show ?thesis by (auto simp: utf8_encode_def Let_def)
qed

lemma zero_not_encoded: "utf8_encode 4 0 = []"
  by (simp add: utf8_encode_def utf8_get_encoded_size_def)

lemma pair_value:
  fixes hi lo :: u32
  assumes "0xD800 \<le> unat hi" "unat hi \<le> 0xDBFF" "0xDC00 \<le> unat lo" "unat lo \<le> 0xDFFF"
  shows "0x10000 + (push_bit 10 (hi - 0xD800) + (lo - 0xDC00)) = of_nat (0x10000 + (unat hi - 0xD800) * 1024 + (unat lo - 0xDC00))"
proof -
  have "hi - 0xD800 = of_nat (unat hi - 0xD800)" "lo - 0xDC00 = of_nat (unat lo - 0xDC00)"
    using assms by (simp_all add: of_nat_diff)
  then show ?thesis by (simp add: push_bit_eq_mult ac_simps)
qed

lemma read_unicode_unit:
  assumes "json_rest r = h @ u" "hex4 h v" "v \<noteq> 0" "v < 0xD800 \<or> 0xDFFF < v"
  shows "json_read_unicode r out = (True, json_advance r 4, out @ utf8_encode 4 (of_nat v))"
proof -
  have n: "unat (of_nat v :: u32) = v" using hex4_bound [OF assms(2)] by (simp add: unat_of_nat take_bit_eq_mod)
  have "utf8_encode 4 (of_nat v) \<noteq> []" using hex4_bound [OF assms(2)] assms by (intro encoded_4) simp_all
  then show ?thesis
    using assms n by (auto simp: json_read_unicode_def read_hex4_reads [OF assms(1, 2)] json_put_code_def word_le_nat_alt)
qed

lemma read_unicode_pair:
  assumes "json_rest r = h @ CHR 0x5C # CHR ''u'' # l @ u" "hex4 h hi" "0xD800 \<le> hi" "hi \<le> 0xDBFF"
    "hex4 l lo" "0xDC00 \<le> lo" "lo \<le> 0xDFFF"
  shows "json_read_unicode r out =
     (True, json_advance r 10, out @ utf8_encode 4 (of_nat (0x10000 + (hi - 0xD800) * 1024 + (lo - 0xDC00))))"
proof -
  have n: "unat (of_nat hi :: u32) = hi" "unat (of_nat lo :: u32) = lo"
    using hex4_bound [OF assms(2)] hex4_bound [OF assms(5)] by (simp_all add: unat_of_nat take_bit_eq_mod)
  have len: "length h = 4" "length l = 4" using assms by (simp_all add: hex4_def)
  have h: "json_read_hex4 r = (True, json_advance r 4, of_nat hi)" by (rule read_hex4_reads [OF assms(1, 2)])
  have w: "json_skip_word (json_advance r 4) [CHR 0x5C, CHR ''u''] = (True, json_advance r 6)"
    using assms(1) len by (simp add: skip_word_rest numeral_2_eq_2)
  have l: "json_read_hex4 (json_advance r 6) = (True, json_advance r 10, of_nat lo)"
    using read_hex4_reads [of "json_advance r 6" l u lo] assms(1, 5) len by simp
  have c: "(0xDC00 \<le> (of_nat hi :: u32) \<and> of_nat hi \<le> (0xDFFF :: u32)) = False"
    "(0xD800 \<le> (of_nat hi :: u32) \<and> of_nat hi \<le> (0xDBFF :: u32)) = True"
    "((of_nat lo :: u32) < 0xDC00) = False" "((0xDFFF :: u32) < of_nat lo) = False"
    using assms(3, 4, 6, 7) n by (simp_all add: word_le_nat_alt word_less_nat_alt)
  let ?v = "0x10000 + (hi - 0xD800) * 1024 + (lo - 0xDC00)"
  have e: "0x10000 + (push_bit 10 (of_nat hi - 0xD800) + (of_nat lo - 0xDC00)) = (of_nat ?v :: u32)"
    using pair_value [of "of_nat hi" "of_nat lo", unfolded n, OF assms(3, 4, 6, 7)] .
  have "utf8_encode 4 (of_nat ?v) \<noteq> []" using assms(3, 4, 6, 7) by (intro encoded_4) auto
  then have p: "json_put_code (json_advance r 10) (of_nat ?v) out = (True, json_advance r 10, out @ utf8_encode 4 (of_nat ?v))"
    by (simp add: json_put_code_def Let_def)
  show ?thesis
    by (simp only: json_read_unicode_def h w l c e p Let_def split_conv not_True_eq_False if_False if_True simp_thms)
qed

lemma read_escape_reads:
  assumes "escape_text e p" "json_rest r = e @ u"
  shows "json_read_escape r out = (True, json_advance r (length e), out @ p)"
  using assms
proof (cases rule: escape_text.cases)
  case (escape_name c q)
  then show ?thesis using assms(2) by (simp add: json_read_escape_def get_char_rest)
next
  case (escape_unit h v)
  have "length h = 4" using escape_unit by (simp add: hex4_def)
  moreover have "json_read_unicode (json_advance r 1) out = (True, json_advance (json_advance r 1) 4, out @ p)"
    using escape_unit assms(2) by (simp add: read_unicode_unit)
  ultimately show ?thesis using escape_unit assms(2) by (simp add: json_read_escape_def get_char_rest plain_escape_def)
next
  case (escape_pair h hi l lo)
  have "length h = 4" "length l = 4" using escape_pair by (simp_all add: hex4_def)
  moreover have "json_read_unicode (json_advance r 1) out = (True, json_advance (json_advance r 1) 10, out @ p)"
    unfolding escape_pair(2) using escape_pair assms(2) by (intro read_unicode_pair [of _ h l u]) simp_all
  ultimately show ?thesis using escape_pair assms(2) by (simp add: json_read_escape_def get_char_rest plain_escape_def)
qed

lemma read_unicode_sound:
  assumes "json_read_unicode r out = (True, r', out')"
  shows "\<exists>h p u. json_rest r = h @ u \<and> escape_text (CHR ''u'' # h) p \<and> r' = json_advance r (length h) \<and> out' = out @ p"
proof -
  obtain ok r1 code where h0: "json_read_hex4 r = (ok, r1, code)" by (cases "json_read_hex4 r")
  have ok using assms by (auto simp: json_read_unicode_def h0 split: if_splits)
  note h1 = h0 [unfolded \<open>ok\<close> [THEN eqTrueI]]
  obtain h v u where h: "json_rest r = h @ u" "hex4 h v" "r1 = json_advance r 4" "code = of_nat v" "unat code = v"
    using read_hex4_sound [OF h1] by blast
  have len: "length h = 4" using h by (simp add: hex4_def)
  have low: "\<not> (0xDC00 \<le> v \<and> v \<le> 0xDFFF)"
    using assms h(5) by (auto simp: json_read_unicode_def h1 word_le_nat_alt split: if_splits)
  show ?thesis
  proof (cases "0xD800 \<le> v \<and> v \<le> 0xDBFF")
    case False
    then have rng: "v < 0xD800 \<or> 0xDFFF < v" using low by linarith
    have "json_put_code r1 code out = (True, r', out')"
      using assms False low h(5) by (auto simp: json_read_unicode_def h1 word_le_nat_alt split: if_splits)
    then have r': "r' = r1" "out' = out @ utf8_encode 4 code" and "utf8_encode 4 code \<noteq> []"
      by (auto simp: json_put_code_def Let_def split: if_splits)
    then have "v \<noteq> 0" using h(4) zero_not_encoded by (cases v) simp_all
    then have "escape_text (CHR ''u'' # h) (utf8_encode 4 code)" using h rng by (auto intro: escape_unit)
    then show ?thesis using h(1, 3) r' len by (intro exI [of _ h] exI [of _ "utf8_encode 4 code"] exI [of _ u]) simp
  next
    case True
    obtain b r2 where w0: "json_skip_word r1 [CHR 0x5C, CHR ''u''] = (b, r2)" by fastforce
    obtain ok3 r3 lw where g0: "json_read_hex4 r2 = (ok3, r3, lw)" by (cases "json_read_hex4 r2")
    have b ok3 and lo: "0xDC00 \<le> unat lw" "unat lw \<le> 0xDFFF"
      using assms True low h(5) by (auto simp: json_read_unicode_def h1 w0 g0 word_le_nat_alt word_less_nat_alt split: if_splits)
    have t: "take 2 u = [CHR 0x5C, CHR ''u'']" and r2: "r2 = json_advance r1 2"
      using w0 \<open>b\<close> h len by (auto simp: skip_word_rest numeral_2_eq_2 split: if_splits)
    then obtain u2 where u2: "u = CHR 0x5C # CHR ''u'' # u2" by (metis append_Cons append_Nil append_take_drop_id)
    obtain l lo u3 where l: "json_rest r2 = l @ u3" "hex4 l lo" "r3 = json_advance r2 4" "lw = of_nat lo" "unat lw = lo"
      using read_hex4_sound [OF g0 [unfolded \<open>ok3\<close> [THEN eqTrueI]]] by blast
    have "u2 = l @ u3" using l(1) r2 h u2 len by simp
    then have rest: "json_rest r = h @ CHR 0x5C # CHR ''u'' # l @ u3" using h u2 by simp
    note reads = read_unicode_pair [OF rest h(2) True [THEN conjunct1] True [THEN conjunct2] l(2) lo [unfolded l(5)], of out]
    have len': "length (h @ CHR 0x5C # CHR ''u'' # l) = 10" using len l(2) by (simp add: hex4_def)
    have "escape_text (CHR ''u'' # h @ CHR 0x5C # CHR ''u'' # l) (utf8_encode 4 (of_nat (0x10000 + (v - 0xD800) * 1024 + (lo - 0xDC00))))"
      using h True l lo by (intro escape_pair) simp_all
    moreover have "json_rest r = (h @ CHR 0x5C # CHR ''u'' # l) @ u3" using rest by simp
    moreover have "r' = json_advance r 10"
        "out' = out @ utf8_encode 4 (of_nat (0x10000 + (v - 0xD800) * 1024 + (lo - 0xDC00)))"
      using reads assms by (simp_all only: prod.inject)
    ultimately show ?thesis unfolding len' [symmetric] by blast
  qed
qed

lemma read_escape_sound:
  assumes "json_read_escape r out = (True, r', out')"
  shows "\<exists>e p u. json_rest r = e @ u \<and> e \<noteq> [] \<and> escape_text e p \<and> r' = json_advance r (length e) \<and> out' = out @ p"
proof (cases "json_rest r")
  case Nil
  then show ?thesis using assms by (auto simp: json_read_escape_def get_char_rest plain_escape_def is_end_rest Let_def)
next
  case (Cons c s)
  show ?thesis
  proof (cases "plain_escape c")
    case (Some p)
    then have "r' = json_advance r (length [c])" "out' = out @ [p]" using assms Cons by (auto simp: json_read_escape_def get_char_rest Let_def)
    then show ?thesis using Cons escape_name [OF Some] by (metis append_Cons append_Nil list.distinct(1))
  next
    case None
    then have c: "c = CHR ''u''" and u: "json_read_unicode (json_advance r 1) out = (True, r', out')"
      using assms Cons by (auto simp: json_read_escape_def get_char_rest is_end_rest Let_def split: if_splits)
    obtain h p u where h: "s = h @ u" "escape_text (CHR ''u'' # h) p" "r' = json_advance r (length (CHR ''u'' # h))" "out' = out @ p"
      using read_unicode_sound [OF u] Cons by auto
    show ?thesis using h Cons c by (intro exI [of _ "CHR ''u'' # h"] exI [of _ p] exI [of _ u]) simp
  qed
qed

subsection \<open>The loop over a string\<close>

lemma string_loop_quote:
  "json_rest r = CHR 0x22 # s \<Longrightarrow> json_string_loop r out = (True, json_advance r 1, out)"
  using string_turn_rest [of r "[]" "CHR 0x22 # s" out] by (subst json_string_loop.simps) (simp add: json_is_plain_def)

lemma string_loop_plain:
  assumes "json_rest r = c # s" "json_is_plain c"
  shows "json_string_loop r out = json_string_loop (json_advance r 1) (out @ [c])"
proof -
  obtain run s' where rs: "s = run @ s'" "\<forall>c \<in> set run. json_is_plain c" "s' = [] \<or> \<not> json_is_plain (hd s')"
    using plain_run by blast
  have "json_string_turn r out = json_string_turn (json_advance r 1) (out @ [c])"
    using string_turn_rest [of r "c # run" s' out] string_turn_rest [of "json_advance r 1" run s' "out @ [c]"] assms rs
    by (cases s') simp_all
  then show ?thesis by (subst (1 2) json_string_loop.simps) simp
qed

lemma string_loop_escape:
  assumes "json_rest r = CHR 0x5C # s"
  shows "json_string_loop r out =
     (case json_read_escape (json_advance r 1) out of (ok, r2, out2) \<Rightarrow> if ok then json_string_loop r2 out2 else (False, r2, out2))"
  using string_turn_rest [of r "[]" "CHR 0x5C # s" out] assms
  by (subst json_string_loop.simps) (simp add: json_is_plain_def split: prod.split)

lemma string_loop_other:
  assumes "json_rest r = [] \<or> \<not> json_is_plain (hd (json_rest r)) \<and> hd (json_rest r) \<noteq> CHR 0x22 \<and> hd (json_rest r) \<noteq> CHR 0x5C"
  shows "\<not> fst (json_string_loop r out)"
  using string_turn_rest [of r "[]" "json_rest r" out] assms
  by (subst json_string_loop.simps) (auto split: list.splits)

lemma string_loop_reads:
  "string_body b t \<Longrightarrow> json_rest r = b @ CHR 0x22 # u \<Longrightarrow>
   json_string_loop r out = (True, json_advance r (length b + 1), out @ t)"
proof (induction b t arbitrary: r out rule: string_body.induct)
  case body_end
  then show ?case by (simp add: string_loop_quote)
next
  case (body_plain c s t)
  then show ?case by (simp add: string_loop_plain)
next
  case (body_escape e p s t)
  have "json_read_escape (json_advance r 1) out = (True, json_advance (json_advance r 1) (length e), out @ p)"
    using body_escape by (intro read_escape_reads [of e p _ "s @ CHR 0x22 # u"]) simp_all
  moreover have "json_string_loop (json_advance r (Suc (length e))) (out @ p) =
      (True, json_advance (json_advance r (Suc (length e))) (length s + 1), (out @ p) @ t)"
    using body_escape by (intro body_escape.IH) simp
  ultimately show ?case using body_escape.prems by (simp add: string_loop_escape)
qed

lemma string_loop_sound:
  "json_string_loop r out = (True, r', out') \<Longrightarrow>
   \<exists>b t u. json_rest r = b @ CHR 0x22 # u \<and> string_body b t \<and> r' = json_advance r (length b + 1) \<and> out' = out @ t"
proof (induction "length (json_rest r)" arbitrary: r out rule: less_induct)
  case less
  show ?case
  proof (cases "json_rest r")
    case Nil
    then show ?thesis using string_loop_other [of r out] less.prems by simp
  next
    case (Cons c s)
    consider "c = CHR 0x22" | "c = CHR 0x5C" | "json_is_plain c" | "\<not> json_is_plain c" "c \<noteq> CHR 0x22" "c \<noteq> CHR 0x5C" by blast
    then show ?thesis
    proof cases
      case 1
      then show ?thesis using less.prems Cons string_loop_quote [of r s out] body_end by fastforce
    next
      case 2
      obtain r2 out2 where e: "json_read_escape (json_advance r 1) out = (True, r2, out2)"
        and l: "json_string_loop r2 out2 = (True, r', out')"
        using less.prems Cons 2 by (auto simp: string_loop_escape split: prod.splits if_splits)
      obtain x p u where x: "s = x @ u" "escape_text x p" "r2 = json_advance r (1 + length x)" "out2 = out @ p"
        using read_escape_sound [OF e] Cons by auto
      obtain b t u' where b: "json_rest r2 = b @ CHR 0x22 # u'" "string_body b t" "r' = json_advance r2 (length b + 1)" "out' = out2 @ t"
        using less.hyps [OF _ l] x Cons by auto
      show ?thesis using x b Cons 2 body_escape [OF x(2) b(2)]
        by (intro exI [of _ "CHR 0x5C # x @ b"] exI [of _ "p @ t"] exI [of _ u']) simp
    next
      case 3
      obtain b t u' where b: "json_rest (json_advance r 1) = b @ CHR 0x22 # u'" "string_body b t"
          "r' = json_advance (json_advance r 1) (length b + 1)" "out' = (out @ [c]) @ t"
        using less.hyps [of "json_advance r 1" "out @ [c]"] less.prems Cons 3 string_loop_plain [of r c s out] by auto
      show ?thesis using b Cons body_plain [OF 3 b(2)]
        by (intro exI [of _ "c # b"] exI [of _ "c # t"] exI [of _ u']) simp
    next
      case 4
      then show ?thesis using string_loop_other [of r out] less.prems Cons by simp
    qed
  qed
qed

lemma read_string_into_reads:
  assumes "json_rest r = CHR 0x22 # b @ CHR 0x22 # u" "string_body b t"
  shows "json_read_string_into r out = (True, json_advance r (length b + 2), out @ t)"
  using string_loop_reads [OF assms(2), of "json_advance r 1" u out] assms(1)
  by (simp add: json_read_string_into_def skip_char_rest)

lemma read_string_into_sound:
  assumes "json_read_string_into r out = (True, r', out')"
  shows "\<exists>b t u. json_rest r = CHR 0x22 # b @ CHR 0x22 # u \<and> string_body b t \<and> r' = json_advance r (length b + 2) \<and> out' = out @ t"
proof -
  obtain s where s: "json_rest r = CHR 0x22 # s" and l: "json_string_loop (json_advance r 1) out = (True, r', out')"
    using assms by (auto simp: json_read_string_into_def skip_char_rest Let_def split: list.splits if_splits)
  show ?thesis using string_loop_sound [OF l] s by auto
qed

end
