(* ===== verification/Json_Grammar.thy ===== *)
theory Json_Grammar
  imports Json_String
begin

text \<open>
  The grammar of JSON documents (RFC 8259) as relations between a text and the value it stands for, with
  the limit the reader puts on nesting; and the proof that the reader reads whatever the grammar
  derives, by induction on the derivation over the turns of the reader.
\<close>

section \<open>The grammar of values\<close>

definition ws :: "string \<Rightarrow> bool" where
  "ws w \<longleftrightarrow> list_all json_is_whitespace w"

text \<open>
  A value that nests arrays and objects at most so deep; the elements of an array and the members of an
  object, with the bracket that closes them.
\<close>

inductive value_text :: "nat \<Rightarrow> string \<Rightarrow> json \<Rightarrow> bool" and elements_text :: "nat \<Rightarrow> string \<Rightarrow> json list \<Rightarrow> bool"
  and members_text :: "nat \<Rightarrow> string \<Rightarrow> (string \<times> json) list \<Rightarrow> bool" where
  value_null: "value_text d ''null'' JNull"
| value_true: "value_text d ''true'' (JBool True)"
| value_false: "value_text d ''false'' (JBool False)"
| value_number: "number_text t \<Longrightarrow> value_text d t (JNumber t)"
| value_string: "string_body b t \<Longrightarrow> value_text d (CHR 0x22 # b @ [CHR 0x22]) (JString t)"
| value_no_elements: "ws w \<Longrightarrow> value_text (Suc d) (CHR ''['' # w @ '']'') (JArray [])"
| value_array: "ws w \<Longrightarrow> elements_text d s vs \<Longrightarrow> value_text (Suc d) (CHR ''['' # w @ s) (JArray vs)"
| value_no_members: "ws w \<Longrightarrow> value_text (Suc d) (CHR ''{'' # w @ ''}'') (JObject [])"
| value_object: "ws w \<Longrightarrow> members_text d s ms \<Longrightarrow> value_text (Suc d) (CHR ''{'' # w @ s) (JObject ms)"
| elements_last: "value_text d t v \<Longrightarrow> ws w \<Longrightarrow> elements_text d (t @ w @ '']'') [v]"
| elements_more: "value_text d t v \<Longrightarrow> ws w \<Longrightarrow> ws w' \<Longrightarrow> elements_text d s vs \<Longrightarrow>
    elements_text d (t @ w @ CHR '','' # w' @ s) (v # vs)"
| members_last: "string_body b k \<Longrightarrow> ws x \<Longrightarrow> ws y \<Longrightarrow> value_text d t v \<Longrightarrow> ws w \<Longrightarrow>
    members_text d (CHR 0x22 # b @ CHR 0x22 # x @ CHR '':'' # y @ t @ w @ ''}'') [(k, v)]"
| members_more: "string_body b k \<Longrightarrow> ws x \<Longrightarrow> ws y \<Longrightarrow> value_text d t v \<Longrightarrow> ws w \<Longrightarrow> ws w' \<Longrightarrow> members_text d s ms \<Longrightarrow>
    members_text d (CHR 0x22 # b @ CHR 0x22 # x @ CHR '':'' # y @ t @ w @ CHR '','' # w' @ s) ((k, v) # ms)"

definition document_text :: "string \<Rightarrow> json \<Rightarrow> bool" where
  "document_text s v \<longleftrightarrow> (\<exists>w t w'. s = w @ t @ w' \<and> ws w \<and> ws w' \<and> value_text json_depth_max t v)"

text \<open>The characters a value starts with, and what stands behind one.\<close>

lemma not_whitespace [simp]:
  "\<not> json_is_whitespace CHR ''['' " "\<not> json_is_whitespace CHR '']''" "\<not> json_is_whitespace CHR ''{''" "\<not> json_is_whitespace CHR ''}''"
  "\<not> json_is_whitespace CHR '',''" "\<not> json_is_whitespace CHR '':''" "\<not> json_is_whitespace CHR 0x22" "\<not> json_is_whitespace CHR ''-''"
  "\<not> json_is_whitespace CHR ''n''" "\<not> json_is_whitespace CHR ''t''" "\<not> json_is_whitespace CHR ''f''"
  by (simp_all add: json_is_whitespace_def)

lemma digit_facts: "char_is_digit c \<Longrightarrow> \<not> json_is_whitespace c \<and> c \<noteq> CHR '']'' \<and> c \<noteq> CHR ''}'' \<and> c \<noteq> CHR ''{'' \<and> c \<noteq> CHR ''['' \<and>
    c \<noteq> CHR 0x22 \<and> c \<noteq> CHR ''n'' \<and> c \<noteq> CHR ''t'' \<and> c \<noteq> CHR ''f''"
  by (auto simp: char_is_digit_def json_is_whitespace_def)

lemma number_text_start: "number_text t \<Longrightarrow> \<exists>c s. t = c # s \<and> (c = CHR ''-'' \<or> char_is_digit c)"
  by (auto simp: number_text_def integer_text_def dest!: digits1_Cons)

definition starts :: "string \<Rightarrow> bool" where
  "starts s \<longleftrightarrow> s \<noteq> [] \<and> \<not> json_is_whitespace (hd s) \<and> hd s \<noteq> CHR '']'' \<and> hd s \<noteq> CHR ''}''"

lemma starts_append: "starts s \<Longrightarrow> starts (s @ u)"
  by (auto simp: starts_def)

lemma value_text_starts: "value_text d t v \<Longrightarrow> starts t"
  by (erule value_text.cases) (auto simp: starts_def dest!: number_text_start dest: digit_facts)

lemma elements_text_starts: "elements_text d s vs \<Longrightarrow> starts s"
  by (erule elements_text.cases) (auto intro: starts_append value_text_starts)

lemma members_text_starts: "members_text d s ms \<Longrightarrow> starts s"
  by (erule members_text.cases) (auto simp: starts_def)

lemma ends_after:
  "ws w \<Longrightarrow> c = CHR '','' \<or> c = CHR '']'' \<or> c = CHR ''}'' \<Longrightarrow> ends_number (w @ c # u)" "ws w \<Longrightarrow> ends_number w"
  by (cases w; auto simp: ws_def ends_number_def json_is_whitespace_def char_is_digit_def)+

lemma skip_ws:
  assumes "json_rest r = w @ u" "ws w" "u = [] \<or> \<not> json_is_whitespace (hd u)"
  shows "json_skip_whitespace r = json_advance r (length w)"
proof -
  have "takeWhile json_is_whitespace (w @ u) = w"
    using assms(2, 3) by (cases u) (auto simp: ws_def list_all_iff takeWhile_append)
  then show ?thesis by (simp add: json_skip_whitespace_def skip_while_rest assms(1))
qed

lemma ws_run:
  obtains w u where "s = w @ u" "ws w" "u = [] \<or> \<not> json_is_whitespace (hd u)"
proof
  show "s = takeWhile json_is_whitespace s @ dropWhile json_is_whitespace s" by simp
  show "ws (takeWhile json_is_whitespace s)" by (auto simp: ws_def list_all_iff dest: set_takeWhileD)
  show "dropWhile json_is_whitespace s = [] \<or> \<not> json_is_whitespace (hd (dropWhile json_is_whitespace s))"
    using hd_dropWhile [of json_is_whitespace s] by auto
qed

section \<open>The turns of the reader\<close>

abbreviation fresh_node :: "string \<Rightarrow> json_node" where
  "fresh_node key \<equiv> Json_Node Kind_none False [] key []"

abbreviation array_node :: "string \<Rightarrow> json_node list \<Rightarrow> json_node" where
  "array_node key cs \<equiv> Json_Node Kind_array False [] key cs"

abbreviation object_node :: "string \<Rightarrow> json_node list \<Rightarrow> json_node" where
  "object_node key cs \<equiv> Json_Node Kind_object False [] key cs"

text \<open>A reader one level deeper, and back.\<close>

abbreviation deeper :: "json_reader \<Rightarrow> json_reader" where
  "deeper r \<equiv> r\<lparr>jr_depth := Suc (jr_depth r)\<rparr>"

lemma depth_simps [simp]:
  "json_rest (r\<lparr>jr_depth := d\<rparr>) = json_rest r" "json_advance (r\<lparr>jr_depth := d\<rparr>) n = (json_advance r n)\<lparr>jr_depth := d\<rparr>"
  "json_leave (r\<lparr>jr_depth := Suc d\<rparr>) = r\<lparr>jr_depth := d\<rparr>" "(json_advance r n)\<lparr>jr_depth := jr_depth r\<rparr> = json_advance r n"
  by (simp_all add: json_rest_def json_advance_def json_leave_def)

lemma value_array_empty:
  assumes "json_rest r = CHR ''['' # w @ CHR '']'' # u" "ws w" "jr_depth r < json_depth_max"
  shows "json_read_value (Suc (Suc n)) r (fresh_node key) = Some (True, json_advance r (length w + 2), array_node key [])"
proof -
  have "json_skip_whitespace (deeper (json_advance r 1)) = json_advance (deeper (json_advance r 1)) (length w)"
    using assms by (intro skip_ws) auto
  then show ?thesis
    using assms by (simp add: Let_def get_char_rest is_end_rest skip_char_rest json_enter_def)
qed

lemma value_array_elements:
  assumes "json_rest r = CHR ''['' # w @ s" "ws w" "jr_depth r < json_depth_max" "s = [] \<or> \<not> json_is_whitespace (hd s) \<and> hd s \<noteq> CHR '']''"
  shows "json_read_value (Suc (Suc n)) r (fresh_node key) =
     json_read_elements n (deeper (json_advance r (Suc (length w)))) (array_node key [])"
proof -
  have "json_skip_whitespace (deeper (json_advance r 1)) = json_advance (deeper (json_advance r 1)) (length w)"
    using assms by (intro skip_ws) auto
  then show ?thesis
    using assms by (cases s) (simp_all add: Let_def get_char_rest is_end_rest skip_char_rest json_enter_def)
qed

lemma value_object_empty:
  assumes "json_rest r = CHR ''{'' # w @ CHR ''}'' # u" "ws w" "jr_depth r < json_depth_max"
  shows "json_read_value (Suc (Suc n)) r (fresh_node key) = Some (True, json_advance r (length w + 2), object_node key [])"
proof -
  have "json_skip_whitespace (deeper (json_advance r 1)) = json_advance (deeper (json_advance r 1)) (length w)"
    using assms by (intro skip_ws) auto
  then show ?thesis
    using assms by (simp add: Let_def get_char_rest is_end_rest skip_char_rest json_enter_def)
qed

lemma value_object_members:
  assumes "json_rest r = CHR ''{'' # w @ s" "ws w" "jr_depth r < json_depth_max" "s = [] \<or> \<not> json_is_whitespace (hd s) \<and> hd s \<noteq> CHR ''}''"
  shows "json_read_value (Suc (Suc n)) r (fresh_node key) =
     json_read_members n (deeper (json_advance r (Suc (length w)))) (object_node key [])"
proof -
  have "json_skip_whitespace (deeper (json_advance r 1)) = json_advance (deeper (json_advance r 1)) (length w)"
    using assms by (intro skip_ws) auto
  then show ?thesis
    using assms by (cases s) (simp_all add: Let_def get_char_rest is_end_rest skip_char_rest json_enter_def)
qed

text \<open>What follows an element or a member: the closing bracket, a comma, or an error.\<close>

lemma elements_step:
  assumes "json_read_value n r json_node_init = Some (True, r1, child)" "json_rest r1 = w @ s" "ws w" "s = [] \<or> \<not> json_is_whitespace (hd s)"
  shows "json_read_elements (Suc n) r node =
     (case s of
        [] \<Rightarrow> Some (False, json_fail (json_advance r1 (length w)) Unexpected_end, node_push_back node child)
      | c # s' \<Rightarrow>
          if c = CHR '']'' then Some (True, json_leave (json_advance r1 (length w + 1)), node_push_back node child)
          else if c = CHR '','' then json_read_elements n (json_skip_whitespace (json_advance r1 (length w + 1))) (node_push_back node child)
          else Some (False, json_fail (json_advance r1 (length w)) Unexpected_char, node_push_back node child))"
  using assms(1) skip_ws [OF assms(2, 3, 4)] assms(2)
  by (cases s) (simp_all add: Let_def skip_char_rest json_fail_unexpected_def is_end_rest)

lemma members_step:
  assumes "json_read_string_into r [] = (True, r0, k)"
    and "json_rest r0 = x @ CHR '':'' # y @ z" "ws x" "ws y" "z = [] \<or> \<not> json_is_whitespace (hd z)"
    and "json_read_value n (json_advance r0 (length x + 1 + length y)) (fresh_node k) = Some (True, r1, child)"
    and "json_rest r1 = w @ s" "ws w" "s = [] \<or> \<not> json_is_whitespace (hd s)"
  shows "json_read_members (Suc n) r node =
     (case s of
        [] \<Rightarrow> Some (False, json_fail (json_advance r1 (length w)) Unexpected_end, node_push_back node child)
      | c # s' \<Rightarrow>
          if c = CHR ''}'' then Some (True, json_leave (json_advance r1 (length w + 1)), node_push_back node child)
          else if c = CHR '','' then json_read_members n (json_skip_whitespace (json_advance r1 (length w + 1))) (node_push_back node child)
          else Some (False, json_fail (json_advance r1 (length w)) Unexpected_char, node_push_back node child))"
proof -
  have a: "json_skip_whitespace r0 = json_advance r0 (length x)" using assms(2, 3) by (intro skip_ws) auto
  have b: "json_skip_whitespace (json_advance r0 (Suc (length x))) = json_advance (json_advance r0 (Suc (length x))) (length y)"
    using assms(2, 4, 5) by (intro skip_ws) auto
  show ?thesis
    using assms(1, 2, 6, 7) a b skip_ws [OF assms(7, 8, 9)]
    by (cases s) (simp_all add: Let_def json_node_init_def skip_char_rest json_fail_unexpected_def is_end_rest)
qed

declare json_read_value.simps [simp del] json_read_object.simps [simp del] json_read_members.simps [simp del]
  json_read_array.simps [simp del] json_read_elements.simps [simp del]

section \<open>What the grammar derives is read\<close>

lemma literal_reads:
  assumes "json_rest r = t @ u" "(t, v) \<in> {(''null'', JNull), (''true'', JBool True), (''false'', JBool False)}"
  shows "json_read_value (Suc n) r (fresh_node key) = Some (True, json_advance r (length t), node_of key v)"
proof -
  have lit: "json_read_value (Suc n) r (fresh_node key) = Some (json_read_literal r (fresh_node key))"
    if "json_rest r = c # s" "c = CHR ''n'' \<or> c = CHR ''t'' \<or> c = CHR ''f''" for c s
    using that by (simp add: json_read_value.simps Let_def get_char_rest is_end_rest) fastforce
  consider "t = ''null''" "v = JNull" | "t = ''true''" "v = JBool True" | "t = ''false''" "v = JBool False"
    using assms(2) by blast
  then show ?thesis
    by cases (use assms(1) in \<open>simp_all add: lit json_read_literal_def skip_word_rest\<close>)
qed

lemma number_reads:
  assumes "json_rest r = t @ u" "number_text t" "ends_number u"
  shows "json_read_value (Suc n) r (fresh_node key) = Some (True, json_advance r (length t), node_of key (JNumber t))"
proof -
  obtain c s where c: "t = c # s" "c = CHR ''-'' \<or> char_is_digit c" using number_text_start [OF assms(2)] by blast
  have "c \<noteq> CHR ''{''" "c \<noteq> CHR ''[''" "c \<noteq> CHR 0x22" "c \<noteq> CHR ''n''" "c \<noteq> CHR ''t''" "c \<noteq> CHR ''f''"
    using c(2) digit_facts [of c] by auto
  then have "json_read_value (Suc n) r (fresh_node key) = Some (json_read_number r (fresh_node key))"
    using assms(1) c by (simp add: json_read_value.simps Let_def get_char_rest is_end_rest)
  then show ?thesis using read_number_reads [OF assms, of "fresh_node key"] by simp
qed

lemma string_reads:
  assumes "json_rest r = (CHR 0x22 # b @ [CHR 0x22]) @ u" "string_body b t"
  shows "json_read_value (Suc n) r (fresh_node key) = Some (True, json_advance r (length b + 2), node_of key (JString t))"
  using read_string_into_reads [of r b u t "[]"] assms by (simp add: json_read_value.simps json_read_string_def Let_def get_char_rest is_end_rest)

text \<open>An interface for the three induction hypotheses: enough calls, enough depth, and what may follow.\<close>

definition reads_value :: "nat \<Rightarrow> string \<Rightarrow> json \<Rightarrow> bool" where
  "reads_value d t v \<longleftrightarrow> (\<forall>r u key n. json_rest r = t @ u \<longrightarrow> ends_number u \<longrightarrow> jr_depth r + d \<le> json_depth_max \<longrightarrow>
     3 * length (json_rest r) < n \<longrightarrow> json_read_value n r (fresh_node key) = Some (True, json_advance r (length t), node_of key v))"

definition reads_elements :: "nat \<Rightarrow> string \<Rightarrow> json list \<Rightarrow> bool" where
  "reads_elements d s vs \<longleftrightarrow> (\<forall>r u key cs n. json_rest r = s @ u \<longrightarrow> jr_depth r + d \<le> json_depth_max \<longrightarrow>
     3 * length (json_rest r) + 1 < n \<longrightarrow> json_read_elements n r (array_node key cs) =
       Some (True, json_leave (json_advance r (length s)), array_node key (cs @ map (node_of []) vs)))"

definition reads_members :: "nat \<Rightarrow> string \<Rightarrow> (string \<times> json) list \<Rightarrow> bool" where
  "reads_members d s ms \<longleftrightarrow> (\<forall>r u key cs n. json_rest r = s @ u \<longrightarrow> jr_depth r + d \<le> json_depth_max \<longrightarrow>
     3 * length (json_rest r) + 1 < n \<longrightarrow> json_read_members n r (object_node key cs) =
       Some (True, json_leave (json_advance r (length s)), object_node key (cs @ map (\<lambda>(k, v). node_of k v) ms)))"

lemma reads_array:
  assumes "ws w" "elements_text d s vs" "reads_elements d s vs"
  shows "reads_value (Suc d) (CHR ''['' # w @ s) (JArray vs)"
  unfolding reads_value_def
proof (intro allI impI)
  fix r u key and n :: nat
  assume a: "json_rest r = (CHR ''['' # w @ s) @ u" "jr_depth r + Suc d \<le> json_depth_max" "3 * length (json_rest r) < n"
  then obtain k where n: "n = Suc (Suc k)" "3 * length (s @ u) + 1 < k" by (cases n; cases "n - 1") auto
  have st: "starts s" by (rule elements_text_starts [OF assms(2)])
  have "json_read_value n r (fresh_node key) = json_read_elements k (deeper (json_advance r (Suc (length w)))) (array_node key [])"
    unfolding n using a assms(1) st by (intro value_array_elements) (auto simp: starts_def)
  also have "\<dots> = Some (True, json_advance r (Suc (length w + length s)), array_node key (map (node_of []) vs))"
    using assms(3) [unfolded reads_elements_def, rule_format, of "deeper (json_advance r (Suc (length w)))" u k key "[]"] a n by simp
  finally show "json_read_value n r (fresh_node key) = Some (True, json_advance r (length (CHR ''['' # w @ s)), node_of key (JArray vs))"
    by simp
qed

lemma reads_object:
  assumes "ws w" "members_text d s ms" "reads_members d s ms"
  shows "reads_value (Suc d) (CHR ''{'' # w @ s) (JObject ms)"
  unfolding reads_value_def
proof (intro allI impI)
  fix r u key and n :: nat
  assume a: "json_rest r = (CHR ''{'' # w @ s) @ u" "jr_depth r + Suc d \<le> json_depth_max" "3 * length (json_rest r) < n"
  then obtain k where n: "n = Suc (Suc k)" "3 * length (s @ u) + 1 < k" by (cases n; cases "n - 1") auto
  have st: "starts s" by (rule members_text_starts [OF assms(2)])
  have "json_read_value n r (fresh_node key) = json_read_members k (deeper (json_advance r (Suc (length w)))) (object_node key [])"
    unfolding n using a assms(1) st by (intro value_object_members) (auto simp: starts_def)
  also have "\<dots> = Some (True, json_advance r (Suc (length w + length s)), object_node key (map (\<lambda>(k, v). node_of k v) ms))"
    using assms(3) [unfolded reads_members_def, rule_format, of "deeper (json_advance r (Suc (length w)))" u k key "[]"] a n by simp
  finally show "json_read_value n r (fresh_node key) = Some (True, json_advance r (length (CHR ''{'' # w @ s)), node_of key (JObject ms))"
    by simp
qed

text \<open>One element with what follows it, given how the rest goes.\<close>

lemma reads_element:
  assumes "reads_value d t v" "ws w" "c = CHR '']'' \<or> c = CHR '',''"
    and "json_rest r = t @ w @ c # s" "jr_depth r + d \<le> json_depth_max" "3 * length (json_rest r) < n"
  shows "json_read_elements (Suc n) r (array_node key cs) =
    (if c = CHR '']'' then Some (True, json_leave (json_advance r (length t + length w + 1)), array_node key (cs @ [node_of [] v]))
     else json_read_elements n (json_skip_whitespace (json_advance r (length t + length w + 1))) (array_node key (cs @ [node_of [] v])))"
proof -
  have e: "ends_number (w @ c # s)" using assms(2, 3) ends_after(1) by blast
  have "json_read_value n r json_node_init = Some (True, json_advance r (length t), node_of [] v)"
    using assms(1) [unfolded reads_value_def, rule_format, of r "w @ c # s" n "[]"] assms(4, 5, 6) e by (simp add: json_node_init_def)
  then show ?thesis
    using elements_step [of n r "json_advance r (length t)" "node_of [] v" w "c # s" "array_node key cs"] assms(2, 3, 4)
    by (auto simp: add.assoc)
qed

lemma reads_member:
  assumes "string_body b k" "ws x" "ws y" "reads_value d t v" "starts t" "ws w" "c = CHR ''}'' \<or> c = CHR '',''"
    and "json_rest r = CHR 0x22 # b @ CHR 0x22 # x @ CHR '':'' # y @ t @ w @ c # s"
    and "jr_depth r + d \<le> json_depth_max" "3 * length (json_rest r) < n"
  defines "l \<equiv> length b + length x + length y + length t + length w + 4"
  shows "json_read_members (Suc n) r (object_node key cs) =
    (if c = CHR ''}'' then Some (True, json_leave (json_advance r l), object_node key (cs @ [node_of k v]))
     else json_read_members n (json_skip_whitespace (json_advance r l)) (object_node key (cs @ [node_of k v])))"
proof -
  have e: "ends_number (w @ c # s)" using assms(6, 7) ends_after(1) by blast
  let ?r0 = "json_advance r (length b + 2)"
  let ?r1 = "json_advance ?r0 (length x + 1 + length y)"
  have r0: "json_read_string_into r [] = (True, ?r0, k)"
    using read_string_into_reads [of r b _ k "[]"] assms(1, 8) by auto
  have rest0: "json_rest ?r0 = x @ CHR '':'' # y @ t @ w @ c # s" using assms(8) by simp
  have rest1: "json_rest ?r1 = t @ w @ c # s" using assms(8) by simp
  have "3 * length (json_rest ?r1) < n" unfolding rest1 using assms(8, 10) by simp
  then have v: "json_read_value n ?r1 (fresh_node k) = Some (True, json_advance ?r1 (length t), node_of k v)"
    using assms(4) [unfolded reads_value_def, rule_format, OF rest1 e] assms(9) by simp
  have z: "t @ w @ c # s = [] \<or> \<not> json_is_whitespace (hd (t @ w @ c # s))" using assms(5) by (simp add: starts_def)
  have rest2: "json_rest (json_advance ?r1 (length t)) = w @ c # s" unfolding advance_simps(1) [of ?r1] rest1 by simp
  have l: "json_advance (json_advance ?r1 (length t)) (length w + 1) = json_advance r l" by (simp add: l_def)
  show ?thesis
    using members_step [OF r0 rest0 assms(2, 3) z v rest2 assms(6), of "object_node key cs", unfolded l] assms(7) by auto
qed

lemma reads_elements_last:
  assumes "reads_value d t v" "ws w"
  shows "reads_elements d (t @ w @ '']'') [v]"
  unfolding reads_elements_def
proof (intro allI impI)
  fix r u key cs and n :: nat
  assume a: "json_rest r = (t @ w @ '']'') @ u" "jr_depth r + d \<le> json_depth_max" "3 * length (json_rest r) + 1 < n"
  then obtain k where n: "n = Suc k" "3 * length (json_rest r) < k" by (cases n) auto
  show "json_read_elements n r (array_node key cs) =
      Some (True, json_leave (json_advance r (length (t @ w @ '']''))), array_node key (cs @ map (node_of []) [v]))"
    unfolding n using reads_element [OF assms, of "CHR '']''" r u k] a n by simp
qed

lemma reads_elements_more:
  assumes "reads_value d t v" "ws w" "ws w'" "elements_text d s vs" "reads_elements d s vs"
  shows "reads_elements d (t @ w @ CHR '','' # w' @ s) (v # vs)"
  unfolding reads_elements_def
proof (intro allI impI)
  fix r u key cs and n :: nat
  assume a: "json_rest r = (t @ w @ CHR '','' # w' @ s) @ u" "jr_depth r + d \<le> json_depth_max" "3 * length (json_rest r) + 1 < n"
  then obtain k where n: "n = Suc k" "3 * length (json_rest r) < k" by (cases n) auto
  let ?r1 = "json_advance r (length t + length w + 1)"
  have rest: "json_rest ?r1 = w' @ s @ u" using a(1) by simp
  have "json_skip_whitespace ?r1 = json_advance ?r1 (length w')"
    using rest assms(3) elements_text_starts [OF assms(4)] by (intro skip_ws) (auto simp: starts_def)
  then have "json_read_elements n r (array_node key cs) =
      json_read_elements k (json_advance ?r1 (length w')) (array_node key (cs @ [node_of [] v]))"
    unfolding n using reads_element [OF assms(1, 2), of "CHR '',''" r "w' @ s @ u" k] a n by simp
  also have "\<dots> = Some (True, json_leave (json_advance (json_advance ?r1 (length w')) (length s)),
      array_node key ((cs @ [node_of [] v]) @ map (node_of []) vs))"
  proof -
    have rest': "json_rest (json_advance ?r1 (length w')) = s @ u" unfolding advance_simps(1) [of ?r1] rest by simp
    have "3 * length (s @ u) + 1 < k" using a(1) n(2) by simp
    then have fuel: "3 * length (json_rest (json_advance ?r1 (length w'))) + 1 < k" unfolding rest' .
    show ?thesis by (rule assms(5) [unfolded reads_elements_def, rule_format, OF rest' _ fuel]) (use a(2) in simp)
  qed
  finally show "json_read_elements n r (array_node key cs) =
      Some (True, json_leave (json_advance r (length (t @ w @ CHR '','' # w' @ s))), array_node key (cs @ map (node_of []) (v # vs)))"
    by (simp add: algebra_simps)
qed

lemma reads_members_last:
  assumes "string_body b k" "ws x" "ws y" "value_text d t v" "reads_value d t v" "ws w"
  shows "reads_members d (CHR 0x22 # b @ CHR 0x22 # x @ CHR '':'' # y @ t @ w @ ''}'') [(k, v)]"
  unfolding reads_members_def
proof (intro allI impI)
  fix r u key cs and n :: nat
  let ?t = "CHR 0x22 # b @ CHR 0x22 # x @ CHR '':'' # y @ t @ w @ ''}''"
  assume a: "json_rest r = ?t @ u" "jr_depth r + d \<le> json_depth_max" "3 * length (json_rest r) + 1 < n"
  then obtain m where n: "n = Suc m" "3 * length (json_rest r) < m" by (cases n) auto
  have l: "length ?t = length b + length x + length y + length t + length w + 4" by simp
  show "json_read_members n r (object_node key cs) =
      Some (True, json_leave (json_advance r (length ?t)), object_node key (cs @ map (\<lambda>(k, v). node_of k v) [(k, v)]))"
    unfolding n l using reads_member [OF assms(1-3, 5) value_text_starts [OF assms(4)] assms(6), of "CHR ''}''" r u m] a n by simp
qed

lemma reads_members_more:
  assumes "string_body b k" "ws x" "ws y" "value_text d t v" "reads_value d t v" "ws w" "ws w'" "members_text d s ms" "reads_members d s ms"
  shows "reads_members d (CHR 0x22 # b @ CHR 0x22 # x @ CHR '':'' # y @ t @ w @ CHR '','' # w' @ s) ((k, v) # ms)"
  unfolding reads_members_def
proof (intro allI impI)
  fix r u key cs and n :: nat
  let ?t = "CHR 0x22 # b @ CHR 0x22 # x @ CHR '':'' # y @ t @ w @ CHR '','' # w' @ s"
  assume a: "json_rest r = ?t @ u" "jr_depth r + d \<le> json_depth_max" "3 * length (json_rest r) + 1 < n"
  then obtain m where n: "n = Suc m" "3 * length (json_rest r) < m" by (cases n) auto
  let ?l = "length b + length x + length y + length t + length w + 4"
  let ?r1 = "json_advance r ?l"
  have rest: "json_rest ?r1 = w' @ s @ u" using a(1) by (simp add: numeral_eq_Suc)
  have "json_skip_whitespace ?r1 = json_advance ?r1 (length w')"
    using rest assms(7) members_text_starts [OF assms(8)] by (intro skip_ws) (auto simp: starts_def)
  then have "json_read_members n r (object_node key cs) =
      json_read_members m (json_advance ?r1 (length w')) (object_node key (cs @ [node_of k v]))"
    unfolding n
    using reads_member [OF assms(1-3, 5) value_text_starts [OF assms(4)] assms(6), of "CHR '',''" r "w' @ s @ u" m] a n by simp
  also have "\<dots> = Some (True, json_leave (json_advance (json_advance ?r1 (length w')) (length s)),
      object_node key ((cs @ [node_of k v]) @ map (\<lambda>(k, v). node_of k v) ms))"
  proof -
    have rest': "json_rest (json_advance ?r1 (length w')) = s @ u" unfolding advance_simps(1) [of ?r1] rest by simp
    have "3 * length (s @ u) + 1 < m" using a(1) n(2) by simp
    then have fuel: "3 * length (json_rest (json_advance ?r1 (length w'))) + 1 < m" unfolding rest' .
    show ?thesis by (rule assms(9) [unfolded reads_members_def, rule_format, OF rest' _ fuel]) (use a(2) in simp)
  qed
  finally show "json_read_members n r (object_node key cs) =
      Some (True, json_leave (json_advance r (length ?t)), object_node key (cs @ map (\<lambda>(k, v). node_of k v) ((k, v) # ms)))"
    by (simp add: algebra_simps numeral_eq_Suc)
qed

lemma grammar_reads:
  "value_text d t v \<Longrightarrow> reads_value d t v" "elements_text d s vs \<Longrightarrow> reads_elements d s vs" "members_text d s ms \<Longrightarrow> reads_members d s ms"
proof (induction rule: value_text_elements_text_members_text.inducts)
  case (value_null d)
  then show ?case unfolding reads_value_def by (metis (no_types, lifting) literal_reads insertCI less_nat_zero_code not0_implies_Suc)
next
  case (value_true d)
  then show ?case unfolding reads_value_def by (metis (no_types, lifting) literal_reads insertCI less_nat_zero_code not0_implies_Suc)
next
  case (value_false d)
  then show ?case unfolding reads_value_def by (metis (no_types, lifting) literal_reads insertCI less_nat_zero_code not0_implies_Suc)
next
  case (value_number t d)
  then show ?case unfolding reads_value_def by (metis number_reads less_nat_zero_code not0_implies_Suc)
next
  case (value_string b t d)
  show ?case unfolding reads_value_def
  proof (intro allI impI)
    fix r u key and n :: nat
    assume a: "json_rest r = (CHR 0x22 # b @ [CHR 0x22]) @ u" "3 * length (json_rest r) < n"
    then obtain m where "n = Suc m" by (cases n) auto
    then show "json_read_value n r (fresh_node key) = Some (True, json_advance r (length (CHR 0x22 # b @ [CHR 0x22])), node_of key (JString t))"
      using string_reads [OF a(1) value_string] by simp
  qed
next
  case (value_no_elements w d)
  show ?case unfolding reads_value_def
  proof (intro allI impI)
    fix r u key and n :: nat
    assume a: "json_rest r = (CHR ''['' # w @ '']'') @ u" "jr_depth r + Suc d \<le> json_depth_max" "3 * length (json_rest r) < n"
    then obtain m where "n = Suc (Suc m)" by (cases n; cases "n - 1") auto
    then show "json_read_value n r (fresh_node key) = Some (True, json_advance r (length (CHR ''['' # w @ '']'')), node_of key (JArray []))"
      using value_array_empty [of r w u m key] a value_no_elements by simp
  qed
next
  case (value_no_members w d)
  show ?case unfolding reads_value_def
  proof (intro allI impI)
    fix r u key and n :: nat
    assume a: "json_rest r = (CHR ''{'' # w @ ''}'') @ u" "jr_depth r + Suc d \<le> json_depth_max" "3 * length (json_rest r) < n"
    then obtain m where "n = Suc (Suc m)" by (cases n; cases "n - 1") auto
    then show "json_read_value n r (fresh_node key) = Some (True, json_advance r (length (CHR ''{'' # w @ ''}'')), node_of key (JObject []))"
      using value_object_empty [of r w u m key] a value_no_members by simp
  qed
qed (auto intro: reads_array reads_object reads_elements_last reads_elements_more reads_members_last reads_members_more)

end
