(* ===== verification/Json_Exact.thy ===== *)
theory Json_Exact
  imports Json_Grammar
begin

text \<open>
  The reader of JSON documents against the grammar: with three calls for a character and one more it
  always returns, what it reads is derived by the grammar, and what it refuses leaves an error.
\<close>

section \<open>What is read is derived by the grammar\<close>

text \<open>A read that fails leaves an error.\<close>

lemma fail_error [simp]: "jr_error (json_fail r e) = e" "jr_error (json_fail_unexpected r) \<noteq> No_error"
  by (simp_all add: json_fail_def json_fail_unexpected_def)

lemma read_number_fails: "json_read_number r node = (False, r', node') \<Longrightarrow> jr_error r' \<noteq> No_error"
  by (auto simp: json_read_number_def Let_def split: prod.splits if_splits)

lemma read_literal_fails: "json_read_literal r node = (False, r', node') \<Longrightarrow> jr_error r' \<noteq> No_error"
  by (auto simp: json_read_literal_def Let_def split: prod.splits if_splits)

lemma hex4_loop_fails: "hex4_loop n r v = (False, r', code) \<Longrightarrow> jr_error r' \<noteq> No_error"
  by (induction n arbitrary: r v) (auto simp: Let_def split: if_splits)

lemma read_unicode_fails: "json_read_unicode r out = (False, r', out') \<Longrightarrow> jr_error r' \<noteq> No_error"
  by (auto simp: json_read_unicode_def json_put_code_def json_read_hex4_def Let_def split: prod.splits if_splits dest: hex4_loop_fails)

lemma read_escape_fails: "json_read_escape r out = (False, r', out') \<Longrightarrow> jr_error r' \<noteq> No_error"
  by (auto simp: json_read_escape_def Let_def split: option.splits if_splits dest: read_unicode_fails)

lemma string_turn_fails: "json_string_turn r out = (Some False, r', out') \<Longrightarrow> jr_error r' \<noteq> No_error"
  by (auto simp: json_string_turn_def Let_def split: prod.splits if_splits dest: read_escape_fails)

lemma string_loop_fails: "json_string_loop r out = (False, r', out') \<Longrightarrow> jr_error r' \<noteq> No_error"
proof (induction r out rule: json_string_loop.induct)
  case (1 r out)
  then show ?case by (subst (asm) (2) json_string_loop.simps) (auto split: prod.splits option.splits dest: string_turn_fails)
qed

lemma read_string_into_fails: "json_read_string_into r out = (False, r', out') \<Longrightarrow> jr_error r' \<noteq> No_error"
  by (auto simp: json_read_string_into_def Let_def split: prod.splits if_splits dest: string_loop_fails)

text \<open>A read returns; when it succeeded the text it passed is in the grammar, otherwise there is an error.\<close>

definition value_done :: "json_reader \<Rightarrow> string \<Rightarrow> (bool \<times> json_reader \<times> json_node) option \<Rightarrow> bool" where
  "value_done r key res \<longleftrightarrow> (\<exists>ok r' node'. res = Some (ok, r', node') \<and>
     (if ok then \<exists>t u v. json_rest r = t @ u \<and> value_text (json_depth_max - jr_depth r) t v \<and>
                    r' = json_advance r (length t) \<and> node' = node_of key v
      else jr_error r' \<noteq> No_error))"

definition elements_done :: "json_reader \<Rightarrow> string \<Rightarrow> json_node list \<Rightarrow> (bool \<times> json_reader \<times> json_node) option \<Rightarrow> bool" where
  "elements_done r key cs res \<longleftrightarrow> (\<exists>ok r' node'. res = Some (ok, r', node') \<and>
     (if ok then \<exists>s u vs. json_rest r = s @ u \<and> elements_text (json_depth_max - jr_depth r) s vs \<and>
                    r' = json_leave (json_advance r (length s)) \<and> node' = array_node key (cs @ map (node_of []) vs)
      else jr_error r' \<noteq> No_error))"

definition members_done :: "json_reader \<Rightarrow> string \<Rightarrow> json_node list \<Rightarrow> (bool \<times> json_reader \<times> json_node) option \<Rightarrow> bool" where
  "members_done r key cs res \<longleftrightarrow> (\<exists>ok r' node'. res = Some (ok, r', node') \<and>
     (if ok then \<exists>s u ms. json_rest r = s @ u \<and> members_text (json_depth_max - jr_depth r) s ms \<and>
                    r' = json_leave (json_advance r (length s)) \<and> node' = object_node key (cs @ map (\<lambda>(k, v). node_of k v) ms)
      else jr_error r' \<noteq> No_error))"

lemma done_failed:
  "jr_error r' \<noteq> No_error \<Longrightarrow> value_done r key (Some (False, r', node))"
  "jr_error r' \<noteq> No_error \<Longrightarrow> elements_done r key cs (Some (False, r', node))"
  "jr_error r' \<noteq> No_error \<Longrightarrow> members_done r key cs (Some (False, r', node))"
  by (auto simp: value_done_def elements_done_def members_done_def)

lemma value_doneI:
  "json_rest r = t @ u \<Longrightarrow> value_text (json_depth_max - jr_depth r) t v \<Longrightarrow> value_done r key (Some (True, json_advance r (length t), node_of key v))"
  by (auto simp: value_done_def)

lemma elements_doneI:
  "elements_text (json_depth_max - jr_depth r) s vs \<Longrightarrow>
   res = Some (True, json_leave (json_advance r (length s)), array_node key (cs @ map (node_of []) vs)) \<Longrightarrow>
   json_rest r = s @ u \<Longrightarrow> elements_done r key cs res"
  by (auto simp: elements_done_def)

lemma members_doneI:
  "members_text (json_depth_max - jr_depth r) s ms \<Longrightarrow>
   res = Some (True, json_leave (json_advance r (length s)), object_node key (cs @ map (\<lambda>(k, v). node_of k v) ms)) \<Longrightarrow>
   json_rest r = s @ u \<Longrightarrow> members_done r key cs res"
  by (auto simp: members_done_def)

lemma value_doneE:
  assumes "value_done r key res"
  obtains (good) t u v where "res = Some (True, json_advance r (length t), node_of key v)" "json_rest r = t @ u"
      "value_text (json_depth_max - jr_depth r) t v"
  | (bad) r' node' where "res = Some (False, r', node')" "jr_error r' \<noteq> No_error"
  using assms unfolding value_done_def by (auto split: if_splits)

lemma elements_doneE:
  assumes "elements_done r key cs res"
  obtains (good) s u vs where "res = Some (True, json_leave (json_advance r (length s)), array_node key (cs @ map (node_of []) vs))"
      "json_rest r = s @ u" "elements_text (json_depth_max - jr_depth r) s vs"
  | (bad) r' node' where "res = Some (False, r', node')" "jr_error r' \<noteq> No_error"
  using assms unfolding elements_done_def by (auto split: if_splits)

lemma members_doneE:
  assumes "members_done r key cs res"
  obtains (good) s u ms where "res = Some (True, json_leave (json_advance r (length s)), object_node key (cs @ map (\<lambda>(k, v). node_of k v) ms))"
      "json_rest r = s @ u" "members_text (json_depth_max - jr_depth r) s ms"
  | (bad) r' node' where "res = Some (False, r', node')" "jr_error r' \<noteq> No_error"
  using assms unfolding members_done_def by (auto split: if_splits)

text \<open>The values without children.\<close>

lemma literal_done:
  assumes "json_rest r \<noteq> []"
  shows "value_done r key (Some (json_read_literal r (fresh_node key)))"
proof -
  have w: "\<exists>u. json_rest r = word @ u" if "take (length word) (json_rest r) = word" for word
    using that by (metis append_take_drop_id)
  consider "take (length ''null'') (json_rest r) = ''null''"
    | "take (length ''null'') (json_rest r) \<noteq> ''null''" "take (length ''true'') (json_rest r) = ''true''"
    | "take (length ''null'') (json_rest r) \<noteq> ''null''" "take (length ''true'') (json_rest r) \<noteq> ''true''"
      "take (length ''false'') (json_rest r) = ''false''"
    | "take (length ''null'') (json_rest r) \<noteq> ''null''" "take (length ''true'') (json_rest r) \<noteq> ''true''"
      "take (length ''false'') (json_rest r) \<noteq> ''false''" by blast
  then show ?thesis
  proof cases
    case 1
    then have "json_read_literal r (fresh_node key) = (True, json_advance r (length ''null''), node_of key JNull)"
      by (simp add: json_read_literal_def skip_word_rest split: prod.split)
    then show ?thesis using w [OF 1] value_doneI [OF _ value_null] by fastforce
  next
    case 2
    then have "json_read_literal r (fresh_node key) = (True, json_advance r (length ''true''), node_of key (JBool True))"
      by (simp add: json_read_literal_def skip_word_rest split: prod.split)
    then show ?thesis using w [OF 2(2)] value_doneI [OF _ value_true] by fastforce
  next
    case 3
    then have "json_read_literal r (fresh_node key) = (True, json_advance r (length ''false''), node_of key (JBool False))"
      by (simp add: json_read_literal_def skip_word_rest split: prod.split)
    then show ?thesis using w [OF 3(3)] value_doneI [OF _ value_false] by fastforce
  next
    case 4
    then have "json_read_literal r (fresh_node key) = (False, json_fail r Bad_literal, fresh_node key)"
      by (simp add: json_read_literal_def skip_word_rest split: prod.split)
    then show ?thesis by (simp add: done_failed)
  qed
qed

lemma number_done: "value_done r key (Some (json_read_number r (fresh_node key)))"
proof (cases "json_read_number r (fresh_node key)")
  case (fields ok r' node')
  show ?thesis
  proof (cases ok)
    case True
    with fields obtain t u where "json_rest r = t @ u" "number_text t" "r' = json_advance r (length t)" "node' = node_of key (JNumber t)"
      using read_number_sound [of r "fresh_node key" r' node'] by auto
    then show ?thesis using fields True value_doneI [OF _ value_number, of r t u key] by simp
  next
    case False
    then show ?thesis using fields read_number_fails by (simp add: done_failed)
  qed
qed

lemma string_done: "value_done r key (Some (json_read_string r (fresh_node key)))"
proof -
  obtain ok r' t where s: "json_read_string_into r [] = (ok, r', t)" by (cases "json_read_string_into r []")
  then have e: "json_read_string r (fresh_node key) = (ok, r', node_of key (JString t))" by (simp add: json_read_string_def)
  show ?thesis
  proof (cases ok)
    case True
    with s obtain b u where b: "json_rest r = (CHR 0x22 # b @ [CHR 0x22]) @ u" "string_body b t" "r' = json_advance r (length (CHR 0x22 # b @ [CHR 0x22]))"
      using read_string_into_sound [of r "[]" r' t] by auto
    show ?thesis unfolding e b(3) using value_doneI [OF b(1) value_string [OF b(2)]] True by simp
  next
    case False
    then show ?thesis using s read_string_into_fails e by (simp add: done_failed)
  qed
qed

text \<open>The three steps of the induction over the calls.\<close>

lemma array_done:
  assumes IH: "\<And>r key cs. jr_depth r \<le> json_depth_max \<Longrightarrow> 3 * length (json_rest r) + 1 < n \<Longrightarrow>
      elements_done r key cs (json_read_elements n r (array_node key cs))"
    and r: "json_rest r = CHR ''['' # s" "jr_depth r < json_depth_max" "3 * length s + 1 < n"
  shows "value_done r key (json_read_value (Suc (Suc n)) r (fresh_node key))"
proof -
  let ?d = "json_depth_max - Suc (jr_depth r)"
  have d: "json_depth_max - jr_depth r = Suc ?d" using r(2) by simp
  obtain w s' where w: "s = w @ s'" "ws w" "s' = [] \<or> \<not> json_is_whitespace (hd s')" by (rule ws_run)
  have rest: "json_rest r = CHR ''['' # w @ s'" using r(1) w(1) by simp
  show ?thesis
  proof (cases "s' \<noteq> [] \<and> hd s' = CHR '']''")
    case True
    then obtain u where u: "s' = CHR '']'' # u" by (cases s') auto
    have "value_done r key (Some (True, json_advance r (length (CHR ''['' # w @ '']'')), node_of key (JArray [])))"
      by (rule value_doneI [of _ _ u]) (use rest u d value_no_elements [OF w(2)] in simp_all)
    then show ?thesis using value_array_empty [of r w u n key] rest u w(2) r(2) by simp
  next
    case False
    let ?r = "deeper (json_advance r (Suc (length w)))"
    have e: "json_read_value (Suc (Suc n)) r (fresh_node key) = json_read_elements n ?r (array_node key [])"
      using False w r(2) rest by (intro value_array_elements) auto
    have rr: "json_rest ?r = s'" using rest by simp
    have "elements_done ?r key [] (json_read_elements n ?r (array_node key []))"
      using r w rr by (intro IH) simp_all
    then show ?thesis
    proof (cases rule: elements_doneE)
      case (good t u vs)
      have el: "elements_text ?d t vs" using good(3) by simp
      have "value_done r key (Some (True, json_advance r (length (CHR ''['' # w @ t)), node_of key (JArray vs)))"
        by (rule value_doneI [of _ _ u]) (use rest rr good(2) d value_array [OF w(2) el] in simp_all)
      then show ?thesis using e good(1) by simp
    next
      case (bad r' node')
      then show ?thesis using e by (simp add: done_failed)
    qed
  qed
qed

lemma object_done:
  assumes IH: "\<And>r key cs. jr_depth r \<le> json_depth_max \<Longrightarrow> 3 * length (json_rest r) + 1 < n \<Longrightarrow>
      members_done r key cs (json_read_members n r (object_node key cs))"
    and r: "json_rest r = CHR ''{'' # s" "jr_depth r < json_depth_max" "3 * length s + 1 < n"
  shows "value_done r key (json_read_value (Suc (Suc n)) r (fresh_node key))"
proof -
  let ?d = "json_depth_max - Suc (jr_depth r)"
  have d: "json_depth_max - jr_depth r = Suc ?d" using r(2) by simp
  obtain w s' where w: "s = w @ s'" "ws w" "s' = [] \<or> \<not> json_is_whitespace (hd s')" by (rule ws_run)
  have rest: "json_rest r = CHR ''{'' # w @ s'" using r(1) w(1) by simp
  show ?thesis
  proof (cases "s' \<noteq> [] \<and> hd s' = CHR ''}''")
    case True
    then obtain u where u: "s' = CHR ''}'' # u" by (cases s') auto
    have "value_done r key (Some (True, json_advance r (length (CHR ''{'' # w @ ''}'')), node_of key (JObject [])))"
      by (rule value_doneI [of _ _ u]) (use rest u d value_no_members [OF w(2)] in simp_all)
    then show ?thesis using value_object_empty [of r w u n key] rest u w(2) r(2) by simp
  next
    case False
    let ?r = "deeper (json_advance r (Suc (length w)))"
    have e: "json_read_value (Suc (Suc n)) r (fresh_node key) = json_read_members n ?r (object_node key [])"
      using False w r(2) rest by (intro value_object_members) auto
    have rr: "json_rest ?r = s'" using rest by simp
    have "members_done ?r key [] (json_read_members n ?r (object_node key []))"
      using r w rr by (intro IH) simp_all
    then show ?thesis
    proof (cases rule: members_doneE)
      case (good t u ms)
      have el: "members_text ?d t ms" using good(3) by simp
      have "value_done r key (Some (True, json_advance r (length (CHR ''{'' # w @ t)), node_of key (JObject ms)))"
        by (rule value_doneI [of _ _ u]) (use rest rr good(2) d value_object [OF w(2) el] in simp_all)
      then show ?thesis using e good(1) by simp
    next
      case (bad r' node')
      then show ?thesis using e by (simp add: done_failed)
    qed
  qed
qed

lemma value_step:
  assumes IHe: "\<And>r key cs. jr_depth r \<le> json_depth_max \<Longrightarrow> 3 * length (json_rest r) + 1 < n - 2 \<Longrightarrow>
      elements_done r key cs (json_read_elements (n - 2) r (array_node key cs))"
    and IHm: "\<And>r key cs. jr_depth r \<le> json_depth_max \<Longrightarrow> 3 * length (json_rest r) + 1 < n - 2 \<Longrightarrow>
      members_done r key cs (json_read_members (n - 2) r (object_node key cs))"
    and n: "3 * length (json_rest r) < n" and d: "jr_depth r \<le> json_depth_max"
  shows "value_done r key (json_read_value n r (fresh_node key))"
proof (cases "json_rest r")
  case Nil
  then show ?thesis using n by (cases n) (simp_all add: json_read_value.simps is_end_rest Let_def done_failed)
next
  case (Cons c s)
  then obtain m where m: "n = Suc (Suc m)" "3 * length s + 1 < m" using n by (cases n; cases "n - 1") auto
  have e: "\<not> json_is_end r" "json_get_char r = c" using Cons by (simp_all add: is_end_rest get_char_rest)
  note unfolds = json_read_value.simps json_read_array.simps json_read_object.simps e Let_def skip_char_rest json_enter_def
  have deep: "value_done r key (json_read_value n r (fresh_node key))" if "c = CHR ''['' \<or> c = CHR ''{''" "\<not> jr_depth r < json_depth_max"
    using that d Cons m by (auto simp: unfolds done_failed)
  consider "c = CHR ''[''" | "c = CHR ''{''" | "c = CHR 0x22" | "c = CHR ''n'' \<or> c = CHR ''t'' \<or> c = CHR ''f''"
    | "c = CHR ''-'' \<or> char_is_digit c" "c \<noteq> CHR ''{''" "c \<noteq> CHR ''[''" "c \<noteq> CHR 0x22" "\<not> (c = CHR ''n'' \<or> c = CHR ''t'' \<or> c = CHR ''f'')"
    | "\<not> (c = CHR ''-'' \<or> char_is_digit c)" "c \<noteq> CHR ''{''" "c \<noteq> CHR ''[''" "c \<noteq> CHR 0x22" "\<not> (c = CHR ''n'' \<or> c = CHR ''t'' \<or> c = CHR ''f'')"
    by blast
  then show ?thesis
  proof cases
    case 1
    then show ?thesis using deep array_done [of m r s key] IHe Cons m by (cases "jr_depth r < json_depth_max") simp_all
  next
    case 2
    then show ?thesis using deep object_done [of m r s key] IHm Cons m by (cases "jr_depth r < json_depth_max") simp_all
  next
    case 3
    then have "json_read_value n r (fresh_node key) = Some (json_read_string r (fresh_node key))" using m e by (simp add: json_read_value.simps)
    then show ?thesis using string_done by simp
  next
    case 4
    then have "json_read_value n r (fresh_node key) = Some (json_read_literal r (fresh_node key))" using m e by (auto simp: json_read_value.simps)
    then show ?thesis using literal_done Cons by simp
  next
    case 5
    then have "json_read_value n r (fresh_node key) = Some (json_read_number r (fresh_node key))" using m e by (simp add: json_read_value.simps)
    then show ?thesis using number_done by simp
  next
    case 6
    then show ?thesis using m e by (simp add: json_read_value.simps done_failed)
  qed
qed

lemma elements_turn:
  assumes IHv: "\<And>r key. jr_depth r \<le> json_depth_max \<Longrightarrow> 3 * length (json_rest r) < n \<Longrightarrow> value_done r key (json_read_value n r (fresh_node key))"
    and IHe: "\<And>r key cs. jr_depth r \<le> json_depth_max \<Longrightarrow> 3 * length (json_rest r) + 1 < n \<Longrightarrow>
      elements_done r key cs (json_read_elements n r (array_node key cs))"
    and n: "3 * length (json_rest r) + 1 < Suc n" and d: "jr_depth r \<le> json_depth_max"
  shows "elements_done r key cs (json_read_elements (Suc n) r (array_node key cs))"
proof -
  have "value_done r [] (json_read_value n r json_node_init)" unfolding json_node_init_def using n d by (intro IHv) simp_all
  then show ?thesis
  proof (cases rule: value_doneE)
    case (bad r' node')
    then show ?thesis by (simp add: json_read_elements.simps done_failed Let_def)
  next
    case (good t u v)
    let ?r1 = "json_advance r (length t)" and ?d = "json_depth_max - jr_depth r"
    obtain w s where w: "u = w @ s" "ws w" "s = [] \<or> \<not> json_is_whitespace (hd s)" by (rule ws_run)
    have rest: "json_rest r = t @ w @ s" "json_rest ?r1 = w @ s" using good(2) w(1) by simp_all
    note step = elements_step [OF good(1) rest(2) w(2, 3), of "array_node key cs"]
    consider "s = []" | s' where "s = CHR '']'' # s'" | s' where "s = CHR '','' # s'" | c s' where "s = c # s'" "c \<noteq> CHR '']''" "c \<noteq> CHR '',''"
      by (cases s) auto
    then show ?thesis
    proof cases
      case 2
      have "elements_text ?d (t @ w @ '']'') [v]" by (rule elements_last [OF good(3) w(2)])
      moreover have "json_read_elements (Suc n) r (array_node key cs) =
          Some (True, json_leave (json_advance r (length (t @ w @ '']''))), array_node key (cs @ map (node_of []) [v]))"
        using step 2 by simp
      moreover have "json_rest r = (t @ w @ '']'') @ s'" using rest 2 by simp
      ultimately show ?thesis by (rule elements_doneI)
    next
      case 3
      obtain w' z where z: "s' = w' @ z" "ws w'" "z = [] \<or> \<not> json_is_whitespace (hd z)" by (rule ws_run)
      let ?r2 = "json_advance ?r1 (length w + 1)"
      let ?r3 = "json_advance ?r2 (length w')"
      have r2: "json_rest ?r2 = w' @ z" unfolding advance_simps(1) [of ?r1] rest(2) 3 z by simp
      have r3: "json_rest ?r3 = z" unfolding advance_simps(1) [of ?r2] r2 by simp
      have e: "json_read_elements (Suc n) r (array_node key cs) = json_read_elements n ?r3 (array_node key (cs @ [node_of [] v]))"
        using step 3 skip_ws [OF r2 z(2, 3)] by simp
      have "3 * length (json_rest ?r3) + 1 < n" unfolding r3 using n rest(1) 3 z(1) by simp
      then have "elements_done ?r3 key (cs @ [node_of [] v]) (json_read_elements n ?r3 (array_node key (cs @ [node_of [] v])))"
        using d by (intro IHe) simp_all
      then show ?thesis
      proof (cases rule: elements_doneE)
        case (bad r' node')
        then show ?thesis using e by (simp add: done_failed)
      next
        case (good y u' vs)
        have zy: "z = y @ u'" using good(2) unfolding r3 .
        let ?t = "t @ w @ CHR '','' # w' @ y"
        have "elements_text ?d ?t (v # vs)"
          using elements_more [OF \<open>value_text ?d t v\<close> w(2) z(2)] good(3) by simp
        moreover have "json_read_elements (Suc n) r (array_node key cs) =
            Some (True, json_leave (json_advance r (length ?t)), array_node key (cs @ map (node_of []) (v # vs)))"
          using e good(1) by (simp add: add.assoc)
        moreover have "json_rest r = ?t @ u'" using rest 3 z zy by simp
        ultimately show ?thesis by (rule elements_doneI)
      qed
    qed (simp_all add: step done_failed)
  qed
qed

lemma members_turn:
  assumes IHv: "\<And>r key. jr_depth r \<le> json_depth_max \<Longrightarrow> 3 * length (json_rest r) < n \<Longrightarrow> value_done r key (json_read_value n r (fresh_node key))"
    and IHm: "\<And>r key cs. jr_depth r \<le> json_depth_max \<Longrightarrow> 3 * length (json_rest r) + 1 < n \<Longrightarrow>
      members_done r key cs (json_read_members n r (object_node key cs))"
    and n: "3 * length (json_rest r) + 1 < Suc n" and d: "jr_depth r \<le> json_depth_max"
    and k: "json_rest r = CHR 0x22 # b @ CHR 0x22 # x @ CHR '':'' # y @ z" "string_body b k" "ws x" "ws y" "z = [] \<or> \<not> json_is_whitespace (hd z)"
  shows "members_done r key cs (json_read_members (Suc n) r (object_node key cs))"
proof -
  let ?r0 = "json_advance r (length b + 2)" and ?p = "CHR 0x22 # b @ CHR 0x22 # x @ CHR '':'' # y"
  have r0: "json_read_string_into r [] = (True, ?r0, k)" using read_string_into_reads [OF k(1, 2), of "[]"] by simp
  have rest0: "json_rest ?r0 = x @ CHR '':'' # y @ z" using k(1) by simp
  let ?r1 = "json_advance ?r0 (length x + 1 + length y)" and ?d = "json_depth_max - jr_depth r"
  have r1: "?r1 = json_advance r (length ?p)" by simp
  have rest1: "json_rest ?r1 = z" unfolding advance_simps(1) [of ?r0] rest0 by simp
  have "3 * length (json_rest ?r1) < n" unfolding rest1 using n k(1) by simp
  then have "value_done ?r1 k (json_read_value n ?r1 (fresh_node k))" using d by (intro IHv) simp_all
  then show ?thesis
  proof (cases rule: value_doneE)
    case (bad r' node')
    have "json_skip_whitespace ?r0 = json_advance ?r0 (length x)" by (rule skip_ws [OF rest0 k(3)]) simp
    moreover have "json_rest (json_advance ?r0 (Suc (length x))) = y @ z" unfolding advance_simps(1) [of ?r0] rest0 by simp
    from skip_ws [OF this k(4, 5)] have "json_skip_whitespace (json_advance ?r0 (Suc (length x))) = ?r1" by (simp add: add.assoc)
    moreover have "json_rest (json_advance ?r0 (length x)) = CHR '':'' # y @ z" unfolding advance_simps(1) [of ?r0] rest0 by simp
    then have "json_skip_char (json_advance ?r0 (length x)) CHR '':'' = (True, json_advance ?r0 (Suc (length x)))"
      by (simp add: skip_char_rest)
    ultimately show ?thesis
      using r0 bad by (simp add: json_read_members.simps json_node_init_def Let_def done_failed)
  next
    case (good t u v)
    obtain w s where w: "u = w @ s" "ws w" "s = [] \<or> \<not> json_is_whitespace (hd s)" by (rule ws_run)
    have zt: "z = t @ w @ s" using good(2) w(1) unfolding rest1 by simp
    have rest2: "json_rest (json_advance ?r1 (length t)) = w @ s" unfolding advance_simps(1) [of ?r1] rest1 zt by simp
    have v: "value_text ?d t v" using good(3) by simp
    note step = members_step [OF r0 rest0 k(3, 4, 5) good(1) rest2 w(2, 3), of "object_node key cs"]
    consider "s = []" | s' where "s = CHR ''}'' # s'" | s' where "s = CHR '','' # s'" | c s' where "s = c # s'" "c \<noteq> CHR ''}''" "c \<noteq> CHR '',''"
      by (cases s) auto
    then show ?thesis
    proof cases
      case 2
      let ?t = "CHR 0x22 # b @ CHR 0x22 # x @ CHR '':'' # y @ t @ w @ ''}''"
      have "members_text ?d ?t [(k, v)]" by (rule members_last [OF k(2, 3, 4) v w(2)])
      moreover have "json_read_members (Suc n) r (object_node key cs) =
          Some (True, json_leave (json_advance r (length ?t)), object_node key (cs @ map (\<lambda>(k, v). node_of k v) [(k, v)]))"
        using step 2 by (simp add: add.assoc)
      moreover have "json_rest r = ?t @ s'" using k(1) zt 2 by simp
      ultimately show ?thesis by (rule members_doneI)
    next
      case 3
      obtain w' q where q: "s' = w' @ q" "ws w'" "q = [] \<or> \<not> json_is_whitespace (hd q)" by (rule ws_run)
      let ?r2 = "json_advance (json_advance ?r1 (length t)) (length w + 1)"
      let ?r3 = "json_advance ?r2 (length w')"
      have r2: "json_rest ?r2 = w' @ q" unfolding advance_simps(1) [of "json_advance ?r1 (length t)"] rest2 3 q by simp
      have r3: "json_rest ?r3 = q" unfolding advance_simps(1) [of ?r2] r2 by simp
      have e: "json_read_members (Suc n) r (object_node key cs) = json_read_members n ?r3 (object_node key (cs @ [node_of k v]))"
        using step 3 skip_ws [OF r2 q(2, 3)] by simp
      have "3 * length (json_rest ?r3) + 1 < n" unfolding r3 using n k(1) zt 3 q(1) by simp
      then have "members_done ?r3 key (cs @ [node_of k v]) (json_read_members n ?r3 (object_node key (cs @ [node_of k v])))"
        using d by (intro IHm) simp_all
      then show ?thesis
      proof (cases rule: members_doneE)
        case (bad r' node')
        then show ?thesis using e by (simp add: done_failed)
      next
        case (good f u' ms)
        have qf: "q = f @ u'" using good(2) unfolding r3 .
        let ?t = "CHR 0x22 # b @ CHR 0x22 # x @ CHR '':'' # y @ t @ w @ CHR '','' # w' @ f"
        have "members_text ?d ?t ((k, v) # ms)"
          using members_more [OF k(2, 3, 4) v w(2) q(2)] good(3) by simp
        moreover have "json_read_members (Suc n) r (object_node key cs) =
            Some (True, json_leave (json_advance r (length ?t)), object_node key (cs @ map (\<lambda>(k, v). node_of k v) ((k, v) # ms)))"
          using e good(1) by (simp add: add.assoc)
        moreover have "json_rest r = ?t @ u'" using k(1) zt 3 q qf by simp
        ultimately show ?thesis by (rule members_doneI)
      qed
    qed (simp_all add: step done_failed)
  qed
qed

text \<open>A member that does not begin with a key and a colon is an error.\<close>

lemma members_start:
  obtains b k x y z where "json_rest r = CHR 0x22 # b @ CHR 0x22 # x @ CHR '':'' # y @ z" "string_body b k" "ws x" "ws y"
      "z = [] \<or> \<not> json_is_whitespace (hd z)"
  | r' node' where "json_read_members (Suc n) r node = Some (False, r', node')" "jr_error r' \<noteq> No_error"
proof (cases "json_read_string_into r []")
  case (fields ok r0 k)
  show ?thesis
  proof (cases ok)
    case False
    show ?thesis
      by (rule that(2) [of r0 "node_push_back node (node_set_key json_node_init k)"])
        (use fields False read_string_into_fails in \<open>simp_all add: json_read_members.simps json_node_init_def Let_def\<close>)
  next
    case True
    then obtain b u where b: "json_rest r = CHR 0x22 # b @ CHR 0x22 # u" "string_body b k" "r0 = json_advance r (length b + 2)"
      using read_string_into_sound [of r "[]" r0 k] fields by auto
    have rest0: "json_rest r0 = u" using b by simp
    obtain x s where x: "u = x @ s" "ws x" "s = [] \<or> \<not> json_is_whitespace (hd s)" by (rule ws_run)
    have sk: "json_skip_whitespace r0 = json_advance r0 (length x)" using rest0 x by (intro skip_ws) auto
    show ?thesis
    proof (cases "s \<noteq> [] \<and> hd s = CHR '':''")
      case colon: True
      then obtain s' where s': "s = CHR '':'' # s'" by (cases s) auto
      obtain y z where "s' = y @ z" "ws y" "z = [] \<or> \<not> json_is_whitespace (hd z)" by (rule ws_run)
      then show ?thesis using that(1) b x s' by auto
    next
      case nc: False
      then have "json_skip_char (json_advance r0 (length x)) CHR '':'' = (False, json_advance r0 (length x))"
        using rest0 x by (auto simp: skip_char_rest split: list.split)
      then show ?thesis
        by (intro that(2) [of "json_fail_unexpected (json_advance r0 (length x))" "node_push_back node (node_set_key json_node_init k)"])
          (use fields True sk in \<open>simp_all add: json_read_members.simps json_node_init_def Let_def\<close>)
    qed
  qed
qed

lemma reader_done:
  "jr_depth r \<le> json_depth_max \<Longrightarrow> 3 * length (json_rest r) < n \<Longrightarrow> value_done r key (json_read_value n r (fresh_node key))"
  "jr_depth r \<le> json_depth_max \<Longrightarrow> 3 * length (json_rest r) + 1 < n \<Longrightarrow> elements_done r key cs (json_read_elements n r (array_node key cs))"
  "jr_depth r \<le> json_depth_max \<Longrightarrow> 3 * length (json_rest r) + 1 < n \<Longrightarrow> members_done r key cs (json_read_members n r (object_node key cs))"
proof (induction n arbitrary: r key cs rule: less_induct)
  case (less n)
  {
    case 1
    then have "n - 2 < n" by simp
    from less.IH(2) [OF this] less.IH(3) [OF this] 1 show ?case by (intro value_step) simp_all
  next
    case 2
    then obtain m where m: "n = Suc m" by (cases n) simp_all
    with 2 less.IH(1, 2) [of m] show ?case unfolding m by (intro elements_turn) simp_all
  next
    case 3
    then obtain m where m: "n = Suc m" by (cases n) simp_all
    show ?case
    proof (cases rule: members_start [where r = r and n = m and node = "object_node key cs"])
      case (1 b k x y z)
      with 3 less.IH(1, 3) [of m] show ?thesis unfolding m by (intro members_turn [where b = b and x = x and y = y and z = z]) simp_all
    next
      case (2 r' node')
      then show ?thesis unfolding m by (simp add: done_failed)
    qed
  }
qed

section \<open>Exactness\<close>

text \<open>The reader at the start of a text, behind the white space in front of the value.\<close>

lemma read_unfold:
  assumes "view_skip_bom text = w @ s" "ws w" "s = [] \<or> \<not> json_is_whitespace (hd s)"
  defines "r \<equiv> json_advance (json_reader_init text) (length w)"
  shows "json_read (json_reader_init text) json_node_init =
     (case json_read_value (3 * length s + 1) r (fresh_node []) of
        None \<Rightarrow> None
      | Some (ok, r, node) \<Rightarrow>
          if \<not> ok then Some (False, r, node)
          else (let r = json_skip_whitespace r
                in if \<not> json_is_end r then Some (False, json_fail r Trailing, node) else Some (True, r, node)))"
    and "json_rest r = s" "jr_depth r = 0" "jr_error r = No_error"
proof -
  have init: "json_rest (json_reader_init text) = w @ s" "jr_error (json_reader_init text) = No_error" "jr_depth (json_reader_init text) = 0"
    by (simp_all add: json_reader_init_def json_rest_def assms(1))
  have sk: "json_skip_whitespace (json_reader_init text) = r" unfolding r_def by (rule skip_ws [OF init(1) assms(2, 3)])
  show rest: "json_rest r = s" and "jr_depth r = 0" "jr_error r = No_error" using init by (simp_all add: r_def)
  show "json_read (json_reader_init text) json_node_init =
     (case json_read_value (3 * length s + 1) r (fresh_node []) of
        None \<Rightarrow> None
      | Some (ok, r, node) \<Rightarrow>
          if \<not> ok then Some (False, r, node)
          else (let r = json_skip_whitespace r
                in if \<not> json_is_end r then Some (False, json_fail r Trailing, node) else Some (True, r, node)))"
    by (simp add: json_read_def json_has_error_def init(2) sk rest json_node_init_def)
qed

lemma document_reads:
  assumes "document_text (view_skip_bom text) v"
  shows "\<exists>r'. json_read (json_reader_init text) json_node_init = Some (True, r', node_of [] v) \<and> jr_error r' = No_error"
proof -
  obtain w t w' where doc: "view_skip_bom text = w @ t @ w'" "ws w" "ws w'" "value_text json_depth_max t v"
    using assms unfolding document_text_def by blast
  have "t @ w' = [] \<or> \<not> json_is_whitespace (hd (t @ w'))" using value_text_starts [OF doc(4)] by (simp add: starts_def)
  note u = read_unfold [OF doc(1, 2) this]
  let ?r = "json_advance (json_reader_init text) (length w)"
  have enough: "jr_depth ?r + json_depth_max \<le> json_depth_max" "3 * length (json_rest ?r) < 3 * length (t @ w') + 1"
    unfolding u(2, 3) by simp_all
  have "json_read_value (3 * length (t @ w') + 1) ?r (fresh_node []) = Some (True, json_advance ?r (length t), node_of [] v)"
    by (rule grammar_reads(1) [OF doc(4), unfolded reads_value_def, rule_format, OF u(2) ends_after(2) [OF doc(3)] enough])
  moreover have "json_rest (json_advance ?r (length t)) = w' @ []" unfolding advance_simps(1) [of ?r] u(2) by simp
  from skip_ws [OF this doc(3)] have "json_skip_whitespace (json_advance ?r (length t)) = json_advance ?r (length t + length w')" by simp
  moreover have "json_rest (json_advance ?r (length t + length w')) = []" unfolding advance_simps(1) [of ?r] u(2) by simp
  ultimately have "json_read (json_reader_init text) json_node_init = Some (True, json_advance ?r (length t + length w'), node_of [] v)"
    unfolding u(1) by (simp add: is_end_rest)
  moreover have "jr_error (json_advance ?r (length t + length w')) = No_error" using u(4) by simp
  ultimately show ?thesis by blast
qed

lemma read_sound:
  "(\<exists>r' v. json_read (json_reader_init text) json_node_init = Some (True, r', node_of [] v) \<and> document_text (view_skip_bom text) v) \<or>
   (\<exists>r' node. json_read (json_reader_init text) json_node_init = Some (False, r', node) \<and> jr_error r' \<noteq> No_error)"
proof -
  obtain w s where w: "view_skip_bom text = w @ s" "ws w" "s = [] \<or> \<not> json_is_whitespace (hd s)" by (rule ws_run)
  note u = read_unfold [OF w]
  let ?r = "json_advance (json_reader_init text) (length w)"
  have "value_done ?r [] (json_read_value (3 * length s + 1) ?r (fresh_node []))" by (intro reader_done(1)) (simp_all add: u del: advance_simps)
  then show ?thesis
  proof (cases rule: value_doneE)
    case (bad r' node')
    then show ?thesis unfolding u(1) by simp
  next
    case (good t z v)
    let ?r1 = "json_advance ?r (length t)"
    have st: "s = t @ z" using good(2) unfolding u(2) .
    obtain x y where x: "z = x @ y" "ws x" "y = [] \<or> \<not> json_is_whitespace (hd y)" by (rule ws_run)
    have rest1: "json_rest ?r1 = x @ y" unfolding advance_simps(1) [of ?r] u(2) st x by simp
    have rest2: "json_rest (json_advance ?r1 (length x)) = y" unfolding advance_simps(1) [of ?r1] rest1 by simp
    note sk = skip_ws [OF rest1 x(2, 3)]
    show ?thesis
    proof (cases "y = []")
      case True
      have "value_text json_depth_max t v" using good(3) unfolding u(3) by simp
      then have "document_text (view_skip_bom text) v" unfolding document_text_def using w st x True by auto
      moreover have "json_read (json_reader_init text) json_node_init = Some (True, json_advance ?r1 (length x), node_of [] v)"
        unfolding u(1) using good(1) sk rest2 True by (simp add: is_end_rest Let_def)
      ultimately show ?thesis by blast
    next
      case False
      then have "json_read (json_reader_init text) json_node_init =
          Some (False, json_fail (json_advance ?r1 (length x)) Trailing, node_of [] v)"
        unfolding u(1) using good(1) sk rest2 by (simp add: is_end_rest Let_def)
      moreover have "jr_error (json_fail (json_advance ?r1 (length x)) Trailing) \<noteq> No_error" by simp
      ultimately show ?thesis by blast
    qed
  qed
qed


lemma sample_document:
  "document_text (CHR ''{'' # CHR 0x22 # CHR ''a'' # CHR 0x22 # '':[1]}'') (JObject [(''a'', JArray [JNumber ''1''])])"
proof -
  have "integer_text ''1''" unfolding integer_text_def by (rule exI [of _ "''1''"]) (simp add: digits1_def char_is_digit_def)
  then have "''1'' = ''1'' @ [] @ [] \<and> integer_text ''1'' \<and> fraction_text [] \<and> exponent_text []"
    by (simp add: fraction_text_def exponent_text_def)
  then have "number_text ''1''" unfolding number_text_def by blast
  then have "elements_text 998 (''1'' @ [] @ '']'') [JNumber ''1'']" by (intro elements_last value_number) (simp_all add: ws_def)
  then have "value_text (Suc 998) (CHR ''['' # [] @ ''1'' @ [] @ '']'') (JArray [JNumber ''1''])" by (intro value_array) (simp_all add: ws_def)
  moreover have "string_body ''a'' ''a''" by (intro body_plain body_end) (simp add: json_is_plain_def)
  ultimately have "members_text (Suc 998) (CHR 0x22 # ''a'' @ CHR 0x22 # [] @ CHR '':'' # [] @ (CHR ''['' # [] @ ''1'' @ [] @ '']'') @ [] @ ''}'')
      [(''a'', JArray [JNumber ''1''])]" by (intro members_last) (simp_all add: ws_def)
  from value_object [of "[]", OF _ this]
  have "value_text json_depth_max (CHR ''{'' # CHR 0x22 # CHR ''a'' # CHR 0x22 # '':[1]}'') (JObject [(''a'', JArray [JNumber ''1''])])"
    by (simp add: ws_def json_depth_max_def)
  then show ?thesis unfolding document_text_def by (intro exI [of _ "[]"] exI conjI) (simp_all add: ws_def)
qed


end
