(* ===== verification/Json_Writer.thy ===== *)
theory Json_Writer
  imports Json_Exact
begin

text \<open>
  The JSON writer (\<^verbatim>\<open>src/lh/core/web/json/writer.c\<close>): the string it appends to, the spaces of a level and the
  level, and a tree written compactly or laid out in lines. Shown: what it writes for a value is a
  document of the grammar of that value, so the reader gives the tree back.
\<close>

section \<open>The writer\<close>

record json_writer =
  jw_out :: string
  jw_indent :: nat
  jw_depth :: nat

definition json_needs_escape :: "char \<Rightarrow> bool" where
  "json_needs_escape ch \<longleftrightarrow> ch = CHR 0x22 \<or> ch = CHR 0x5C \<or> ord ch < 0x20"

definition json_is_pretty :: "json_writer \<Rightarrow> bool" where
  "json_is_pretty self \<longleftrightarrow> jw_indent self \<noteq> 0"

definition json_writer_init :: "string \<Rightarrow> nat \<Rightarrow> json_writer" where
  "json_writer_init out indent = \<lparr>jw_out = out, jw_indent = indent, jw_depth = 0\<rparr>"

definition json_put_char :: "json_writer \<Rightarrow> char \<Rightarrow> json_writer" where
  "json_put_char self ch = self\<lparr>jw_out := jw_out self @ [ch]\<rparr>"

definition json_put_view :: "json_writer \<Rightarrow> string \<Rightarrow> json_writer" where
  "json_put_view self text = self\<lparr>jw_out := jw_out self @ text\<rparr>"

text \<open>The product is taken in the 64 bits of a size.\<close>

definition json_put_newline :: "json_writer \<Rightarrow> json_writer" where
  "json_put_newline self =
     (if \<not> json_is_pretty self then self
      else
        (let self = json_put_char self lf;
             spaces = (jw_indent self * jw_depth self) mod 2 ^ 64
         in ((\<lambda>w. json_put_char w sp) ^^ spaces) self))"

definition char_from_xdigit :: "u8 \<Rightarrow> bool \<Rightarrow> char" where
  "char_from_xdigit digit uppercase =
     (if digit < 10 then char_from_digit digit
      else char_of ((if uppercase then ord (CHR ''A'') else ord (CHR ''a'')) + unat (digit - 10)))"

definition json_put_escape :: "json_writer \<Rightarrow> char \<Rightarrow> json_writer" where
  "json_put_escape self ch =
     (let code = word_of_nat (ord ch) :: u8;
          named = (\<lambda>n. json_put_char (json_put_char self CHR 0x5C) n)
      in if ch = CHR 0x22 \<or> ch = CHR 0x5C then named ch
         else if ch = CHR 0x08 then named CHR ''b''
         else if ch = CHR 0x0C then named CHR ''f''
         else if ch = lf then named CHR ''n''
         else if ch = cr then named CHR ''r''
         else if ch = ht then named CHR ''t''
         else
           (let self = json_put_view self (CHR 0x5C # ''u00'');
                self = json_put_char self (char_from_xdigit (drop_bit 4 code) True)
            in json_put_char self (char_from_xdigit (code AND 0x0F) True)))"

text \<open>The loop over the characters, with the start of the run that has not been appended yet.\<close>

function json_put_string_loop :: "json_writer \<Rightarrow> string \<Rightarrow> nat \<Rightarrow> nat \<Rightarrow> json_writer" where
  "json_put_string_loop self chars start i =
     (if i < length chars then
        (if \<not> json_needs_escape (chars ! i) then json_put_string_loop self chars start (i + 1)
         else
           (let self = (if start < i then json_put_view self (take (i - start) (drop start chars)) else self)
            in json_put_string_loop (json_put_escape self (chars ! i)) chars (i + 1) (i + 1)))
      else if start < length chars then json_put_view self (take (length chars - start) (drop start chars)) else self)"
  by auto
termination
  by (relation "measure (\<lambda>(_, chars, _, i). length chars - i)") auto

declare json_put_string_loop.simps [simp del]

definition json_put_string :: "json_writer \<Rightarrow> string \<Rightarrow> json_writer" where
  "json_put_string self text =
     json_put_char (json_put_string_loop (json_put_char self CHR 0x22) text 0 0) CHR 0x22"

text \<open>
  Values, and the loops over the children of an object and of an array; the test for a next child is a
  test for the end of the list.
\<close>

fun json_write :: "json_writer \<Rightarrow> json_node \<Rightarrow> json_writer"
  and json_write_object :: "json_writer \<Rightarrow> json_node list \<Rightarrow> json_writer"
  and json_write_members :: "json_writer \<Rightarrow> json_node list \<Rightarrow> json_writer"
  and json_write_array :: "json_writer \<Rightarrow> json_node list \<Rightarrow> json_writer"
  and json_write_elements :: "json_writer \<Rightarrow> json_node list \<Rightarrow> json_writer" where
  "json_write self (Json_Node kind flag text key children) =
     (case kind of
        Kind_bool \<Rightarrow> json_put_view self (if flag then ''true'' else ''false'')
      | Kind_number \<Rightarrow> json_put_view self text
      | Kind_string \<Rightarrow> json_put_string self text
      | Kind_array \<Rightarrow> json_write_array self children
      | Kind_object \<Rightarrow> json_write_object self children
      | _ \<Rightarrow> json_put_view self ''null'')"
| "json_write_object self children =
     (let self = json_put_char self CHR ''{''
      in if children = [] then json_put_char self CHR ''}''
         else
           (let self = json_write_members (self\<lparr>jw_depth := jw_depth self + 1\<rparr>) children;
                self = self\<lparr>jw_depth := jw_depth self - 1\<rparr>
            in json_put_char (json_put_newline self) CHR ''}''))"
| "json_write_members self [] = self"
| "json_write_members self (child # rest) =
     (let self = json_put_string (json_put_newline self) (node_key child);
          self = json_put_char self CHR '':'';
          self = (if json_is_pretty self then json_put_char self sp else self);
          self = json_write self child;
          self = (if rest \<noteq> [] then json_put_char self CHR '','' else self)
      in json_write_members self rest)"
| "json_write_array self children =
     (let self = json_put_char self CHR ''[''
      in if children = [] then json_put_char self CHR '']''
         else
           (let self = json_write_elements (self\<lparr>jw_depth := jw_depth self + 1\<rparr>) children;
                self = self\<lparr>jw_depth := jw_depth self - 1\<rparr>
            in json_put_char (json_put_newline self) CHR '']''))"
| "json_write_elements self [] = self"
| "json_write_elements self (child # rest) =
     (let self = json_write (json_put_newline self) child;
          self = (if rest \<noteq> [] then json_put_char self CHR '','' else self)
      in json_write_elements self rest)"

declare json_write.simps [simp del] json_write_object.simps [simp del] json_write_members.simps [simp del]
  json_write_array.simps [simp del] json_write_elements.simps [simp del]

section \<open>Everything written is appended\<close>

lemma put_simps [simp]:
  "json_put_view (json_put_view w a) b = json_put_view w (a @ b)" "json_put_view w [] = w"
  "jw_indent (json_put_view w a) = jw_indent w" "jw_depth (json_put_view w a) = jw_depth w" "jw_out (json_put_view w a) = jw_out w @ a"
  "(json_put_view w a)\<lparr>jw_depth := d\<rparr> = json_put_view (w\<lparr>jw_depth := d\<rparr>) a" "json_is_pretty (json_put_view w a) = json_is_pretty w"
  by (simp_all add: json_put_view_def json_is_pretty_def)

lemma put_char_view: "json_put_char w c = json_put_view w [c]"
  by (simp add: json_put_char_def json_put_view_def)

lemma put_spaces: "((\<lambda>w. json_put_char w sp) ^^ n) w = json_put_view w (replicate n sp)"
  by (induction n) (simp_all add: put_char_view replicate_append_same [symmetric] del: replicate_append_same)

text \<open>A line break and its spaces, or nothing.\<close>

lemma put_newline_ws: "\<exists>x. json_put_newline w = json_put_view w x \<and> ws x"
  by (rule exI [of _ "if json_is_pretty w then lf # replicate ((jw_indent w * jw_depth w) mod 2 ^ 64) sp else []"])
    (auto simp: json_put_newline_def put_spaces put_char_view [of w lf] ws_def json_is_whitespace_def list_all_iff Let_def)

lemma put_space_ws: "\<exists>x. (if json_is_pretty w then json_put_char w sp else w) = json_put_view w x \<and> ws x"
  by (rule exI [of _ "if json_is_pretty w then [sp] else []"]) (simp add: put_char_view ws_def json_is_whitespace_def)

section \<open>Strings\<close>

lemma plain_or_escape: "json_needs_escape c \<longleftrightarrow> \<not> json_is_plain c"
  by (auto simp: json_needs_escape_def json_is_plain_def)

text \<open>The control characters without a name, by their number.\<close>

definition unit_text :: "nat \<Rightarrow> string" where
  "unit_text n = [CHR ''0'', CHR ''0'', char_from_xdigit (drop_bit 4 (word_of_nat n)) True, char_from_xdigit (word_of_nat n AND 0x0F) True]"

lemma xdigit_roundtrip:
  assumes "unat d < 16"
  shows "char_is_xdigit (char_from_xdigit d True)" "char_to_xdigit (char_from_xdigit d True) = d"
proof -
  have lt: "d < 10 \<longleftrightarrow> unat d < 10" by (simp add: word_less_nat_alt)
  have "unat (d - 10) = unat d - 10" if "\<not> unat d < 10" using that by (subst unat_sub) (simp_all add: word_le_nat_alt)
  then have o: "ord (char_from_xdigit d True) = (if unat d < 10 then 48 + unat d else 65 + (unat d - 10))"
    using assms by (simp add: char_from_xdigit_def char_from_digit_def lt)
  show "char_is_xdigit (char_from_xdigit d True)"
    using assms by (simp add: char_is_xdigit_def char_is_digit_def o)
  show "char_to_xdigit (char_from_xdigit d True) = d"
    using assms by (simp add: char_to_xdigit_def char_to_digit_def char_is_digit_def o)
qed

lemma unit_text_value:
  assumes "n < 32"
  shows "list_all char_is_xdigit (unit_text n)" "digits_value 16 char_to_xdigit 0 (unit_text n) = n"
proof -
  let ?w = "word_of_nat n :: u8"
  have n: "unat ?w = n" using assms by (intro unat_of_nat_small) simp
  have hi: "unat (drop_bit 4 ?w) = n div 16" using assms n by (simp add: drop_bit_eq_div unat_div)
  have "(0x0F :: u8) = mask 4" by (simp add: mask_eq_decr_exp)
  then have lo: "unat (?w AND 0x0F) = n mod 16" using unat_and_mask [of ?w 4] n by simp
  have zero: "char_is_xdigit CHR ''0''" "char_to_xdigit CHR ''0'' = 0"
    by (simp_all add: char_is_xdigit_def char_to_xdigit_def char_is_digit_def char_to_digit_def)
  note x = xdigit_roundtrip [of "drop_bit 4 ?w"] xdigit_roundtrip [of "?w AND 0x0F"]
  show "list_all char_is_xdigit (unit_text n)" using x zero hi lo assms by (simp add: unit_text_def)
  show "digits_value 16 char_to_xdigit 0 (unit_text n) = n" using x zero hi lo assms by (simp add: unit_text_def)
qed

lemma ascii_encoded:
  assumes "0 < n" "n < 128"
  shows "utf8_encode 4 (word_of_nat n) = [char_of n]"
proof -
  have u: "unat (word_of_nat n :: u32) = n" using assms by (intro unat_of_nat_small) simp
  then have "(word_of_nat n :: u32) \<noteq> 0" using assms(1) by (metis unat_0 less_irrefl)
  then have "utf8_get_encoded_size (word_of_nat n) = 1"
    using assms u by (simp add: utf8_get_encoded_size_def word_less_nat_alt word_le_nat_alt)
  then show ?thesis using assms u by (simp add: utf8_encode_def to_char_def)
qed

lemma unit_escape:
  assumes "0 < ord c" "ord c < 32"
  shows "escape_text (CHR ''u'' # unit_text (ord c)) [c]"
proof -
  have "list_all char_is_xdigit (unit_text (ord c))" "digits_value 16 char_to_xdigit 0 (unit_text (ord c)) = ord c"
    using unit_text_value assms(2) by blast+
  then have "hex4 (unit_text (ord c)) (ord c)" by (simp add: hex4_def unit_text_def)
  from escape_unit [OF this] assms ascii_encoded [of "ord c"] show ?thesis by simp
qed

lemma put_escape_text:
  assumes "json_needs_escape c" "c \<noteq> CHR 0x00"
  shows "\<exists>e. json_put_escape w c = json_put_view w (CHR 0x5C # e) \<and> escape_text e [c]"
proof -
  have named: "escape_text [CHR 0x22] [CHR 0x22]" "escape_text [CHR 0x5C] [CHR 0x5C]" "escape_text ''b'' [CHR 0x08]"
    "escape_text ''f'' [CHR 0x0C]" "escape_text ''n'' [lf]" "escape_text ''r'' [cr]" "escape_text ''t'' [ht]"
    by (simp_all add: escape_name plain_escape_def)
  consider "c = CHR 0x22" | "c = CHR 0x5C" | "c = CHR 0x08" | "c = CHR 0x0C" | "c = lf" | "c = cr" | "c = ht"
    | "c \<notin> {CHR 0x22, CHR 0x5C, CHR 0x08, CHR 0x0C, lf, cr, ht}" by blast
  then show ?thesis
  proof cases
    case 8
    have "ord c \<noteq> 0"
    proof
      assume "ord c = 0"
      then have "c = char_of (0 :: nat)" by (metis char_of_char)
      then show False using assms(2) by (simp add: char_of_def)
    qed
    then have "escape_text (CHR ''u'' # unit_text (ord c)) [c]" using assms(1) 8 by (intro unit_escape) (auto simp: json_needs_escape_def)
    moreover have "json_put_escape w c = json_put_view w (CHR 0x5C # CHR ''u'' # unit_text (ord c))"
      using 8 by (simp add: json_put_escape_def put_char_view unit_text_def Let_def)
    ultimately show ?thesis by blast
  qed (simp_all add: json_put_escape_def put_char_view Let_def, (blast intro: named)+)
qed

lemma body_run: "list_all json_is_plain run \<Longrightarrow> string_body s t \<Longrightarrow> string_body (run @ s) (run @ t)"
  by (induction run) (auto intro: body_plain)

lemma put_string_loop_text:
  assumes "CHR 0x00 \<notin> set chars" "start \<le> i" "i \<le> length chars" "list_all json_is_plain (take (i - start) (drop start chars))"
  shows "\<exists>b. json_put_string_loop w chars start i = json_put_view w b \<and> string_body b (drop start chars)"
  using assms
proof (induction w chars start i rule: json_put_string_loop.induct)
  case (1 w chars start i)
  let ?run = "take (i - start) (drop start chars)"
  show ?case
  proof (cases "i < length chars")
    case False
    then have "?run = drop start chars" using 1(5) by simp
    moreover have "json_put_string_loop w chars start i = json_put_view w (drop start chars)"
      using False 1(4, 5) by (subst json_put_string_loop.simps) simp
    moreover have "string_body (drop start chars @ []) (drop start chars @ [])"
      using 1(6) calculation(1) by (intro body_run body_end) simp
    ultimately show ?thesis by auto
  next
    case True
    have split: "drop start chars = ?run @ chars ! i # drop (i + 1) chars"
    proof -
      have "drop start chars = ?run @ drop (i - start) (drop start chars)" by (rule append_take_drop_id [symmetric])
      also have "drop (i - start) (drop start chars) = chars ! i # drop (i + 1) chars"
        using 1(4) True by (simp add: Cons_nth_drop_Suc)
      finally show ?thesis .
    qed
    show ?thesis
    proof (cases "json_needs_escape (chars ! i)")
      case False
      have "take (i + 1 - start) (drop start chars) = ?run @ [chars ! i]"
        using 1(4) True by (simp add: Suc_diff_le take_Suc_conv_app_nth)
      then have "\<exists>b. json_put_string_loop w chars start (i + 1) = json_put_view w b \<and> string_body b (drop start chars)"
        using 1 True False by (intro 1(1)) (simp_all add: plain_or_escape)
      then show ?thesis using True False by (subst json_put_string_loop.simps) simp
    next
      case esc: True
      have "chars ! i \<noteq> CHR 0x00" using 1(3) True by (metis nth_mem)
      then obtain e where e: "json_put_escape (json_put_view w ?run) (chars ! i) = json_put_view w (?run @ CHR 0x5C # e)"
        "escape_text e [chars ! i]" using put_escape_text [OF esc, of "json_put_view w ?run"] by auto
      have w1: "(if start < i then json_put_view w ?run else w) = json_put_view w ?run" using 1(4) by auto
      obtain b where b: "json_put_string_loop (json_put_view w (?run @ CHR 0x5C # e)) chars (i + 1) (i + 1) =
          json_put_view (json_put_view w (?run @ CHR 0x5C # e)) b" "string_body b (drop (i + 1) chars)"
        using 1(2) [OF True] esc 1(3) True by (auto simp: w1 e(1))
      have "string_body (?run @ CHR 0x5C # e @ b) (?run @ [chars ! i] @ drop (i + 1) chars)"
        by (intro body_run body_escape e b 1(6))
      moreover have "json_put_string_loop w chars start i = json_put_view w (?run @ CHR 0x5C # e @ b)"
        using True esc b(1) by (subst json_put_string_loop.simps) (simp add: w1 e(1) Let_def)
      ultimately show ?thesis using split by auto
    qed
  qed
qed

lemma put_string_text:
  assumes "CHR 0x00 \<notin> set t"
  shows "\<exists>b. json_put_string w t = json_put_view w (CHR 0x22 # b @ [CHR 0x22]) \<and> string_body b t"
  using put_string_loop_text [OF assms, of 0 0 "json_put_char w CHR 0x22"] by (auto simp: json_put_string_def put_char_view)

section \<open>Values\<close>

text \<open>What can be written and read back: numbers of the grammar, and no zero in a string or a key.\<close>

fun writable :: "json \<Rightarrow> bool" where
  "writable (JNumber t) = number_text t"
| "writable (JString t) = (CHR 0x00 \<notin> set t)"
| "writable (JArray vs) = (\<forall>v \<in> set vs. writable v)"
| "writable (JObject ms) = (\<forall>m \<in> set ms. CHR 0x00 \<notin> set (fst m) \<and> writable (snd m))"
| "writable _ = True"

fun nesting :: "json \<Rightarrow> nat" where
  "nesting (JArray vs) = Suc (foldr (\<lambda>v. max (nesting v)) vs 0)"
| "nesting (JObject ms) = Suc (foldr (\<lambda>m. max (nesting (snd m))) ms 0)"
| "nesting _ = 0"

lemma foldr_max: "foldr (\<lambda>x. max (f x)) xs 0 \<le> (d :: nat) \<longleftrightarrow> (\<forall>x \<in> set xs. f x \<le> d)"
  by (induction xs) auto

text \<open>The text of a value, of the elements of an array and of the members of an object.\<close>

definition writes :: "nat \<Rightarrow> json \<Rightarrow> bool" where
  "writes d v \<longleftrightarrow> (\<forall>w key. \<exists>s. json_write w (node_of key v) = json_put_view w s \<and> value_text d s v)"

lemma writesD: "writes d v \<Longrightarrow> \<exists>s. json_write w (node_of key v) = json_put_view w s \<and> value_text d s v"
  by (simp add: writes_def)

lemma write_elements_text:
  assumes "vs \<noteq> []" "\<forall>v \<in> set vs. writes d v"
  shows "\<exists>x s. json_write_elements w (map (node_of []) vs) = json_put_view w (x @ s) \<and> ws x \<and>
     (\<forall>y. ws y \<longrightarrow> elements_text d (s @ y @ '']'') vs)"
  using assms
proof (induction vs arbitrary: w rule: list_nonempty_induct)
  case (single v)
  obtain x where x: "json_put_newline w = json_put_view w x" "ws x" using put_newline_ws by blast
  have "writes d v" using single by simp
  then obtain s where s: "json_write (json_put_view w x) (node_of [] v) = json_put_view (json_put_view w x) s" "value_text d s v"
    using writesD by blast
  have "json_write_elements w (map (node_of []) [v]) = json_put_view w (x @ s)"
    using x s by (simp add: json_write_elements.simps)
  then show ?case using x s elements_last by blast
next
  case (cons v vs)
  obtain x where x: "json_put_newline w = json_put_view w x" "ws x" using put_newline_ws by blast
  have "writes d v" using cons.prems by simp
  then obtain s where s: "json_write (json_put_view w x) (node_of [] v) = json_put_view (json_put_view w x) s" "value_text d s v"
    using writesD by blast
  let ?w = "json_put_view w (x @ s @ '','')"
  obtain x' s' where r: "json_write_elements ?w (map (node_of []) vs) = json_put_view ?w (x' @ s')" "ws x'"
    "\<forall>y. ws y \<longrightarrow> elements_text d (s' @ y @ '']'') vs" using cons.IH cons.prems by fastforce
  have "json_write_elements w (map (node_of []) (v # vs)) = json_put_view w (x @ s @ CHR '','' # x' @ s')"
    using x s r(1) cons.hyps by (simp add: json_write_elements.simps put_char_view Let_def)
  moreover have "elements_text d ((s @ CHR '','' # x' @ s') @ y @ '']'') (v # vs)" if "ws y" for y
    using elements_more [OF s(2), of "[]" x' "s' @ y @ '']''" vs] r that by (simp add: ws_def)
  ultimately show ?case using x(2) by blast
qed

lemma write_member_text:
  assumes "CHR 0x00 \<notin> set k" "writes d v"
  shows "\<exists>x b z s. ws x \<and> ws z \<and> string_body b k \<and> value_text d s v \<and>
     (\<forall>rest. json_write_members w (node_of k v # rest) =
        json_write_members (json_put_view w (x @ CHR 0x22 # b @ CHR 0x22 # CHR '':'' # z @ s @ (if rest \<noteq> [] then '','' else []))) rest)"
proof -
  obtain x where x: "json_put_newline w = json_put_view w x" "ws x" using put_newline_ws by blast
  obtain b where b: "json_put_string (json_put_view w x) k = json_put_view w (x @ CHR 0x22 # b @ [CHR 0x22])" "string_body b k"
    using put_string_text [OF assms(1), of "json_put_view w x"] by auto
  let ?w1 = "json_put_view w (x @ CHR 0x22 # b @ CHR 0x22 # '':'')"
  obtain z where z: "(if json_is_pretty ?w1 then json_put_char ?w1 sp else ?w1) = json_put_view ?w1 z" "ws z"
    using put_space_ws by blast
  obtain s where s: "json_write (json_put_view ?w1 z) (node_of k v) = json_put_view (json_put_view ?w1 z) s" "value_text d s v"
    using writesD [OF assms(2)] by blast
  have key: "json_put_char (json_put_string (json_put_newline w) (node_key (node_of k v))) CHR '':'' = ?w1"
    by (simp add: x(1) b(1) put_char_view)
  have "json_write_members w (node_of k v # rest) =
      json_write_members (json_put_view w (x @ CHR 0x22 # b @ CHR 0x22 # CHR '':'' # z @ s @ (if rest \<noteq> [] then '','' else []))) rest" for rest
    unfolding json_write_members.simps Let_def key z(1) s(1) by (simp add: put_char_view)
  then show ?thesis using x(2) z(2) b(2) s(2) by blast
qed

lemma write_members_text:
  assumes "ms \<noteq> []" "\<forall>m \<in> set ms. CHR 0x00 \<notin> set (fst m) \<and> writes d (snd m)"
  shows "\<exists>x s. json_write_members w (map (\<lambda>(k, v). node_of k v) ms) = json_put_view w (x @ s) \<and> ws x \<and>
     (\<forall>y. ws y \<longrightarrow> members_text d (s @ y @ ''}'') ms)"
  using assms
proof (induction ms arbitrary: w rule: list_nonempty_induct)
  case (single m)
  obtain k v where m: "m = (k, v)" by fastforce
  obtain x b z s where t: "ws x" "ws z" "string_body b k" "value_text d s v"
    and e: "json_write_members w [node_of k v] = json_write_members (json_put_view w (x @ CHR 0x22 # b @ CHR 0x22 # CHR '':'' # z @ s)) []"
    using write_member_text [of k d v w] single m by fastforce
  have "json_write_members w (map (\<lambda>(k, v). node_of k v) [m]) = json_put_view w (x @ CHR 0x22 # b @ CHR 0x22 # CHR '':'' # z @ s)"
    using e m by (simp add: json_write_members.simps(1))
  moreover have "members_text d ((CHR 0x22 # b @ CHR 0x22 # CHR '':'' # z @ s) @ y @ ''}'') [m]" if "ws y" for y
    using members_last [OF t(3) _ t(2, 4) that, of "[]"] m by (simp add: ws_def)
  ultimately show ?case using t(1) by blast
next
  case (cons m ms)
  obtain k v where m: "m = (k, v)" by fastforce
  let ?f = "\<lambda>(k, v). node_of k v"
  obtain x b z s where t: "ws x" "ws z" "string_body b k" "value_text d s v"
    and e: "json_write_members w (node_of k v # map ?f ms) =
      json_write_members (json_put_view w (x @ CHR 0x22 # b @ CHR 0x22 # CHR '':'' # z @ s @ (if map ?f ms \<noteq> [] then '','' else []))) (map ?f ms)"
    using write_member_text [of k d v w] cons.prems m by fastforce
  let ?w = "json_put_view w (x @ CHR 0x22 # b @ CHR 0x22 # CHR '':'' # z @ s @ '','')"
  obtain x' s' where r: "json_write_members ?w (map ?f ms) = json_put_view ?w (x' @ s')" "ws x'"
    "\<forall>y. ws y \<longrightarrow> members_text d (s' @ y @ ''}'') ms" using cons.IH [of ?w] cons.prems by auto
  have "json_write_members w (map ?f (m # ms)) = json_put_view w (x @ CHR 0x22 # b @ CHR 0x22 # CHR '':'' # z @ s @ CHR '','' # x' @ s')"
    using e r(1) cons.hyps m by simp
  moreover have "members_text d ((CHR 0x22 # b @ CHR 0x22 # CHR '':'' # z @ s @ CHR '','' # x' @ s') @ y @ ''}'') (m # ms)" if "ws y" for y
    using members_more [OF t(3) _ t(2, 4), of "[]" "[]" x' "s' @ y @ ''}''" ms] r that m by (simp add: ws_def)
  ultimately show ?case using t(1) by blast
qed

lemma write_array_text:
  assumes "\<forall>v \<in> set vs. writes d v"
  shows "writes (Suc d) (JArray vs)"
  unfolding writes_def
proof (intro allI)
  fix w key
  show "\<exists>s. json_write w (node_of key (JArray vs)) = json_put_view w s \<and> value_text (Suc d) s (JArray vs)"
  proof (cases "vs = []")
    case True
    have "value_text (Suc d) (CHR ''['' # [] @ '']'') (JArray [])" by (rule value_no_elements) (simp add: ws_def)
    moreover have "json_write w (node_of key (JArray [])) = json_put_view w (CHR ''['' # [] @ '']'')"
      by (simp add: json_write.simps json_write_array.simps put_char_view)
    ultimately show ?thesis using True by blast
  next
    case False
    let ?w1 = "json_put_view (w\<lparr>jw_depth := jw_depth w + 1\<rparr>) ''[''"
    obtain x s where e: "json_write_elements ?w1 (map (node_of []) vs) = json_put_view ?w1 (x @ s)" "ws x"
      "\<forall>y. ws y \<longrightarrow> elements_text d (s @ y @ '']'') vs" using write_elements_text [OF False assms] by blast
    let ?w2 = "json_put_view w (CHR ''['' # x @ s)"
    obtain y where y: "json_put_newline ?w2 = json_put_view ?w2 y" "ws y" using put_newline_ws by blast
    have "json_write w (node_of key (JArray vs)) = json_put_view w (CHR ''['' # x @ s @ y @ '']'')"
      using False e(1) y(1) by (simp add: json_write.simps json_write_array.simps put_char_view Let_def)
    moreover have "value_text (Suc d) (CHR ''['' # x @ s @ y @ '']'') (JArray vs)" using e y by (intro value_array) simp_all
    ultimately show ?thesis by blast
  qed
qed

lemma write_object_text:
  assumes "\<forall>m \<in> set ms. CHR 0x00 \<notin> set (fst m) \<and> writes d (snd m)"
  shows "writes (Suc d) (JObject ms)"
  unfolding writes_def
proof (intro allI)
  fix w key
  show "\<exists>s. json_write w (node_of key (JObject ms)) = json_put_view w s \<and> value_text (Suc d) s (JObject ms)"
  proof (cases "ms = []")
    case True
    have "value_text (Suc d) (CHR ''{'' # [] @ ''}'') (JObject [])" by (rule value_no_members) (simp add: ws_def)
    moreover have "json_write w (node_of key (JObject [])) = json_put_view w (CHR ''{'' # [] @ ''}'')"
      by (simp add: json_write.simps json_write_object.simps put_char_view)
    ultimately show ?thesis using True by blast
  next
    case False
    let ?w1 = "json_put_view (w\<lparr>jw_depth := jw_depth w + 1\<rparr>) ''{''"
    obtain x s where e: "json_write_members ?w1 (map (\<lambda>(k, v). node_of k v) ms) = json_put_view ?w1 (x @ s)" "ws x"
      "\<forall>y. ws y \<longrightarrow> members_text d (s @ y @ ''}'') ms" using write_members_text [OF False assms] by blast
    let ?w2 = "json_put_view w (CHR ''{'' # x @ s)"
    obtain y where y: "json_put_newline ?w2 = json_put_view ?w2 y" "ws y" using put_newline_ws by blast
    have "json_write w (node_of key (JObject ms)) = json_put_view w (CHR ''{'' # x @ s @ y @ ''}'')"
      using False e(1) y(1) by (simp add: json_write.simps json_write_object.simps put_char_view Let_def)
    moreover have "value_text (Suc d) (CHR ''{'' # x @ s @ y @ ''}'') (JObject ms)" using e y by (intro value_object) simp_all
    ultimately show ?thesis by blast
  qed
qed

lemma write_value_text: "writable v \<Longrightarrow> nesting v \<le> d \<Longrightarrow> writes d v"
proof (induction v arbitrary: d)
  case (JArray vs)
  then obtain e where d: "d = Suc e" by (cases d) simp_all
  have "\<forall>v \<in> set vs. writes e v" using JArray d by (simp add: foldr_max)
  then show ?case unfolding d by (rule write_array_text)
next
  case (JObject ms)
  then obtain e where d: "d = Suc e" by (cases d) simp_all
  have "CHR 0x00 \<notin> set (fst m) \<and> writes e (snd m)" if "m \<in> set ms" for m
    using JObject.IH [of m "snd m"] JObject.prems that d by (cases m) (force simp: foldr_max snds.simps)
  then show ?case unfolding d by (intro write_object_text) blast
next
  case (JString t)
  show ?case unfolding writes_def
  proof (intro allI)
    fix w key
    obtain b where "json_put_string w t = json_put_view w (CHR 0x22 # b @ [CHR 0x22])" "string_body b t"
      using put_string_text JString.prems(1) by auto
    then show "\<exists>s. json_write w (node_of key (JString t)) = json_put_view w s \<and> value_text d s (JString t)"
      using value_string by (simp add: json_write.simps) blast
  qed
next
  case (JBool b)
  then show ?case by (cases b) (auto simp: writes_def json_write.simps intro: value_true value_false)
qed (auto simp: writes_def json_write.simps intro: value_null value_number)

section \<open>Round trip\<close>

lemma value_no_bom: "value_text d s v \<Longrightarrow> view_skip_bom s = s"
proof -
  assume v: "value_text d s v"
  have "hd s \<noteq> CHR 0xEF"
    using v by (cases rule: value_text.cases) (auto dest!: number_text_start simp: char_is_digit_def)
  moreover have "s \<noteq> []" using value_text_starts [OF v] by (simp add: starts_def)
  ultimately have "\<not> view_starts_with s [CHR 0xEF, CHR 0xBB, CHR 0xBF] False" by (auto simp: view_starts_with_iff)
  then show ?thesis by (simp add: view_skip_bom_def)
qed

text \<open>
  C26: A value whose strings and keys have no zero, whose numbers are of the grammar and which nests no deeper than
  the limit is written, compactly or laid out in lines, as a text the reader reads without an error
  into the same tree.
\<close>

theorem json_write_read:
  assumes "writable v" "nesting v \<le> json_depth_max"
  shows "\<exists>r'. json_read (json_reader_init (jw_out (json_write (json_writer_init [] indent) (node_of key v)))) json_node_init =
     Some (True, r', node_of [] v) \<and> jr_error r' = No_error"
proof -
  obtain s where s: "json_write (json_writer_init [] indent) (node_of key v) = json_put_view (json_writer_init [] indent) s"
    "value_text json_depth_max s v" using writesD [OF write_value_text [OF assms]] by blast
  have doc: "document_text (view_skip_bom s) v" unfolding value_no_bom [OF s(2)] document_text_def
    by (rule exI [of _ "[]"], rule exI [of _ s], rule exI [of _ "[]"]) (simp add: ws_def s(2))
  have out: "jw_out (json_write (json_writer_init [] indent) (node_of key v)) = s"
    unfolding s(1) by (simp add: json_writer_init_def)
  show ?thesis unfolding out by (rule document_reads [OF doc])
qed

theorem json_write_read_witness:
  "\<exists>r'. json_read (json_reader_init (jw_out (json_write (json_writer_init [] 2)
       (node_of [] (JObject [(CHR 0x22 # ''a'', JArray [JNull, JString [CHR 0x01, lf, CHR 0xC3]])]))))) json_node_init =
     Some (True, r', node_of [] (JObject [(CHR 0x22 # ''a'', JArray [JNull, JString [CHR 0x01, lf, CHR 0xC3]])])) \<and> jr_error r' = No_error"
proof -
  let ?v = "JObject [(CHR 0x22 # ''a'', JArray [JNull, JString [CHR 0x01, lf, CHR 0xC3]])]"
  have "writable ?v" "nesting ?v \<le> json_depth_max" by (simp_all add: json_depth_max_def)
  from json_write_read [OF this, of 2 "[]"] show ?thesis .
qed

end
