(* ===== verification/Spec2Isabelle.thy ===== *)
theory Spec2Isabelle
  imports Exec_Queue_Conc Exec_Reserve Exec_System Exec_Loop Spsc Timer List_Sort Calendar_Text Net_Addr Chunk_Decode Http_Body Http_Framing Modbus_Plan Modbus_Link
    Rijndael_Modes Sha Json_Writer
begin

text \<open>
  Verification of the lh library, a C framework for applications with a user interface, services and
  devices. The library has a portable core (\<^verbatim>\<open>src/lh/core\<close>), an execution layer that runs
  work off the calling thread (\<^verbatim>\<open>src/lh/exec\<close>), wrappers of the operating system (\<^verbatim>\<open>src/lh/os\<close>) and a
  retained user interface (\<^verbatim>\<open>src/lh/ui\<close>). This development models the execution layer in full and the
  parts of the core it stands on, then the calendar, text formatting, the network protocols (Modbus and
  HTTP), the block cipher and the hashes, and JSON.

  \<^bold>\<open>How the parts interact.\<close> A caller fills a task (\<^verbatim>\<open>exec/task.c\<close>) and submits it with a
  mailbox to an executor (\<^verbatim>\<open>exec/executor.c\<close>). The submission reserves a place in the mailbox
  (\<^verbatim>\<open>exec/mailbox.c\<close>), hands the task to the executor's accept callback, and gives the place back when
  the executor refuses. The inline executor (\<^verbatim>\<open>exec/inline.c\<close>) runs the work at once; the thread executor
  (\<^verbatim>\<open>exec/thread.c\<close>) queues the task (\<^verbatim>\<open>exec/queue.c\<close>) for its own thread. Work done, the task is posted
  into the finished queue of its mailbox, and the thread that owns the mailbox delivers it when it
  dispatches: complete unless cancelled, destroy, and the place is free again. A loop
  (\<^verbatim>\<open>exec/loop.c\<close>) runs a step callback on a thread of its own, sleeping between steps until a
  wake or until the next timer of its group (\<^verbatim>\<open>core/timer.c\<close>, kept in a list of
  \<^verbatim>\<open>core/list.c\<close>). \<^verbatim>\<open>core/spsc.c\<close> is the ring through which one thread passes records to another.
  A Modbus client plans its reads (\<^verbatim>\<open>core/net/modbus.c\<close>), and a link (\<^verbatim>\<open>core/net/modbus/link.c\<close>) sends one
  question at a time over a stream, framed for a serial line with a checksum (\<^verbatim>\<open>core/hash/crc.c\<close>) or for
  a network with a header, and finds the answer in what arrives. Addresses, dates and times are read
  and written as text through the parsers and printers of \<^verbatim>\<open>core/str\<close>. The head of an HTTP message is cut
  into views by the parser (\<^verbatim>\<open>core/http/parser.c\<close>), the framing (\<^verbatim>\<open>core/http/framing.c\<close>) tells from its
  fields how the body is cut, and the reader of bodies (\<^verbatim>\<open>core/http/body/reader.c\<close>) pulls the body from a
  source, through the chunked decoder (\<^verbatim>\<open>core/http/chunked/decoder.c\<close>) where it is chunked. The JSON reader
  (\<^verbatim>\<open>core/web/json/reader.c\<close>) builds a tree of nodes (\<^verbatim>\<open>core/web/json/node.c\<close>) and writes the code points of its
  escapes through \<^verbatim>\<open>core/str/utf8.c\<close>; the writer (\<^verbatim>\<open>core/web/json/writer.c\<close>) writes a tree as text. The cipher (\<^verbatim>\<open>core/crypto/rijndael.c\<close>) and the hashes
  (\<^verbatim>\<open>core/crypto/sha.c\<close>) pack their words with \<^verbatim>\<open>core/bit/endian.h\<close>.

  \<^bold>\<open>The theories.\<close>

  \<^item> \<open>Prelude\<close>: machine integers, error codes, lemmas on lists and words.
  \<^item> \<open>Exec_Queue\<close>: the intrusive queue as sequential operations on a heap of next links; the interface
    \<open>fifo\<close> (push appends, pop takes the front, queues that share no task do not disturb each other)
    and its interpretation \<open>mpsc\<close> on the code's operations.
  \<^item> \<open>Exec_Queue_Conc\<close>: the same code at the grain of its atomic accesses, any number of producers
    against one consumer, as a step relation; first-in first-out order, no write to a task that was
    handed out, and agreement with the sequential queue whenever nothing is in flight.
  \<^item> \<open>Exec_Mailbox\<close>: tasks, contexts, mailboxes, executors and the inline executor as functions on one
    world of records and a trace of callback calls. Callbacks are parameters that may change the
    world; theorems that need them well behaved say so with \<open>quiet\<close>. The interface \<open>acceptor\<close> is what
    a submission relies on, interpreted for both executors.
  \<^item> \<open>Exec_Reserve\<close>: the compare-exchange loop of the place count under contention.
  \<^item> \<open>Exec_Thread\<close>: the operations of the thread executor, each one critical section of the code.
  \<^item> \<open>Exec_System\<close>: submitters, the executor's thread, a stopper and dispatchers interleaved; order of
    work, completeness of a drain, finality of a stop, delivery exactly once, the bound on cancelled
    work.
  \<^item> \<open>Exec_Loop\<close>: the loop's record and operations, and owner and thread interleaved: wakes are not
    lost, one last step, one release, no use after free, at most two steps after a stop.
  \<^item> \<open>Spsc\<close>: the byte ring with wrapping 32-bit counters; interface \<open>bounded_fifo\<close>, and producer and
    consumer interleaved byte by byte.
  \<^item> \<open>Ring_List\<close>: the circular doubly linked list on a heap of two links; interfaces
    \<open>node_order\<close> and \<open>deque\<close>. Loops are partial functions into option, so that a corrupted list is
    a loop that does not return. \<open>List_Sort\<close>: the merge sort on the links, stable, for every length.
  \<^item> \<open>Timer\<close>: ticks that wrap, timers and the group that fires them, the list's client.
  \<^item> \<open>Interval\<close>: wrap-around arithmetic on a closed interval; interface \<open>wrap_field\<close>, interpreted for the
    year, the month index, the hour, the minute and the second.
  \<^item> \<open>Date\<close>, \<open>Time_Of_Day\<close>, \<open>Datetime\<close>: the calendar and timestamps: bijections with day counts and
    seconds, order, arithmetic, bounds of the 64-bit intermediate values.
  \<^item> \<open>Text_Digits\<close>: digits, the parsers of unsigned numbers in every radix, the field splitter and the decimal
    printer; what a parser accepts and returns, exactly.
  \<^item> \<open>Text_Mask\<close>: the reader of conversion specifications and printing through a mask, writing and counting;
    a mask with its arguments is shown to put a fixed sequence of pieces, from which both forms follow.
  \<^item> \<open>Calendar_Text\<close>: dates, times and date-times as text, there and back.
  \<^item> \<open>Net_Addr\<close>: ports, IPv4 addresses and socket addresses: exactly one accepted spelling, comparisons as
    the order of a number.
  \<^item> \<open>Hash\<close>: the CRC kernel as a shift register, CRC-32 and FNV-1a; detection of bursts.
  \<^item> \<open>Modbus\<close>: requests, answers and the two framings; \<open>Modbus_Plan\<close>: the planner of reads against
    every other way to cut the map; \<open>Modbus_Link\<close>: the link as a state machine whose steps are its calls,
    with the stream and the clock as the environment.
  \<^item> \<open>Text_View\<close>: string views and the scanning cursor.
  \<^item> \<open>Http_Head\<close>: the parser of message heads and the printer of response heads; \<open>Http_Parse\<close>: the parser
    against a grammar of heads, its verdicts on parts of a head, the round trip with the printer.
  \<^item> \<open>Http_Chunked\<close>, \<open>Chunk_Grammar\<close>, \<open>Chunk_Decode\<close>: the chunked coding in one buffer against its grammar;
    \<open>Http_Decoder\<close>: the incremental decoder against the same grammar; \<open>Http_Body\<close>: bodies read from a
    source that may pause and fail; \<open>Http_Framing\<close>: which framing a message has, expectations, content coding.
  \<^item> \<open>Bits\<close>: byte orders, halves, rotations and the xor of buffers. \<open>Rijndael_Round\<close>: the four steps of a round
    and their inverses; \<open>Rijndael\<close>: key schedule, sessions, both ways to compute a block; \<open>Rijndael_Modes\<close>:
    chaining, over the interface \<open>block_cipher\<close>. \<open>Sha\<close>: the six hashes against padding and folding as the
    standard has them, through the interface \<open>stream_hash\<close> that the checksums of \<open>Hash\<close> satisfy as well.
  \<^item> \<open>Utf8\<close>: the encoder against a decoder of RFC 3629. \<open>Json_Node\<close>: trees, copies and comparison; \<open>Json_Reader\<close>:
    the reader; \<open>Json_Number\<close>, \<open>Json_String\<close>, \<open>Json_Grammar\<close>, \<open>Json_Exact\<close>: the grammar of RFC 8259 and
    the reader against it, in both directions; \<open>Json_Writer\<close>: the writer, whose text the reader reads back.

  \<^bold>\<open>Choices.\<close> Unsigned integers are words of their width and wrap as in C. Signed 64-bit values are
  integers, with range theorems where a computation could leave the type. A null
  pointer is \<open>None\<close>. A runtime check that fails is an \<open>Inl\<close> result. Loops that the data makes finite are
  total functions with a termination proof; loops over linked records and over a source outside are
  partial functions whose termination is part of the theorems. The mutual recursion of the JSON reader
  counts its calls, at most three for a character of the text and one more, and the theorem about it
  shows that the count never runs out. Concurrent code is a step relation whose
  steps are the atomic accesses or the critical sections of the code, under sequential consistency:
  the acquire and release orderings of the code are taken to provide it for the accesses they order.
  Operating system calls that may fail are boolean parameters; the AES instructions of the processor are
  a record of functions, with what their manual says of them as the hypothesis \<open>aesni_documented\<close>.

  Text and byte buffers are lists whose length is the size the C function is given; a write behind
  the end of a fixed buffer is the value \<open>None\<close>, and the theorems show where it cannot happen. Null pointers
  for text and bytes are not represented.

  \<^bold>\<open>Not modelled.\<close> Memory, arrays, owned strings and wide strings, INI files, compression and the web formats
  other than JSON of the core, its signatures, which wrap a vendored library, the wiping of
  memory, which is about what a compiler may remove, the conversions between JSON numbers and
  machine numbers, the moves of nodes between trees and the minifier of JSON, floating point; the wrappers of the operating
  system and the user interface; the vectorised searches behind the field splitter and the bit scan behind the
  hexadecimal printer, which are taken by their contract; memory orderings weaker than
  sequential consistency.
\<close>

end
